(* ===== verification/Nix_Prelude.thy ===== *)
theory Nix_Prelude
  imports "HOL-Library.Word" "HOL-Library.Char_ord" "HOL-Library.List_Lexorder"
begin

text \<open>
  Shared vocabulary of the development: the types of bytes, strings and results, the exceptions of
  the C++ code as values of one datatype, sequencing of fallible code, and the parts of
  \<^verbatim>\<open>std::string\<close>, \<^verbatim>\<open>std::set\<close> and \<^verbatim>\<open>std::map\<close> that the sources use.

  \<^item> A \<^verbatim>\<open>std::string\<close> is a \<^typ>\<open>string\<close>; its order \<^verbatim>\<open>operator<\<close> (bytewise, unsigned) is the
    lexicographic order of \<^verbatim>\<open>List_Lexorder\<close> over the unsigned order of \<^verbatim>\<open>Char_ord\<close>.
  \<^item> A \<^verbatim>\<open>std::set\<close> is the strictly increasing list of its elements, which is its iteration order;
    a \<^verbatim>\<open>std::map\<close> is the list of its entries with strictly increasing keys.  The locales
    \<open>std_set\<close> and \<open>std_map\<close> are the contracts the components rely on.
  \<^item> \<open>size_t\<close> quantities that only count memory are \<^typ>\<open>nat\<close>; the fixed-width integers that
    reach files and sockets are words.
\<close>

named_theorems res_simps \<open>rewriting sequences of fallible steps\<close>
named_theorems std_simps \<open>elements of ordered containers after their operations\<close>

type_synonym byte = "8 word"
type_synonym bytes = "8 word list"
type_synonym u32 = "32 word"
type_synonym u64 = "64 word"
type_synonym path = string

subsection \<open>Exceptions and results\<close>

text \<open>
  One constructor per exception class of the sources; \<open>SysErrorNo\<close> is a \<^verbatim>\<open>SysError\<close> whose error number
  is looked at by a handler.  \<open>OutOfRange\<close> is \<^verbatim>\<open>std::out_of_range\<close>,
  \<open>AssertFail\<close> an \<^verbatim>\<open>assert\<close> or \<^verbatim>\<open>abort()\<close>, \<open>Undefined\<close> an operation with undefined behaviour
  in C++ and \<open>Diverges\<close> a loop that makes no progress and does not return.
\<close>

datatype errno = EACCES | ENOENT | ENOTDIR | EOTHER

datatype error =
    Error string
  | SysError string
  | SysErrorNo errno string
  | EndOfFile string
  | SerialisationError string
  | BuildError string
  | EvalError string
  | AssertionError string
  | ThrownError string
  | Abort string
  | TypeError string
  | SQLiteError string
  | PathInUse string
  | GCLimitReached
  | OutOfRange
  | AssertFail string
  | Undefined string
  | Diverges

type_synonym 'a res = "error + 'a"

text \<open>What \<^verbatim>\<open>catch (Error & e)\<close> catches: \<^verbatim>\<open>Error\<close> and the classes derived from it.\<close>

fun isError :: "error \<Rightarrow> bool" where
  "isError GCLimitReached \<longleftrightarrow> False"
| "isError OutOfRange \<longleftrightarrow> False"
| "isError (AssertFail _) \<longleftrightarrow> False"
| "isError (Undefined _) \<longleftrightarrow> False"
| "isError Diverges \<longleftrightarrow> False"
| "isError _ \<longleftrightarrow> True"

definition bindE :: "'a res \<Rightarrow> ('a \<Rightarrow> 'b res) \<Rightarrow> 'b res" where
  "bindE m f = (case m of Inl e \<Rightarrow> Inl e | Inr x \<Rightarrow> f x)"

lemma bindE_Inl [simp, res_simps]: "bindE (Inl e) f = Inl e"
  by (simp add: bindE_def)

lemma bindE_Inr [simp, res_simps]: "bindE (Inr x) f = f x"
  by (simp add: bindE_def)

lemma bindE_eq_Inr: "bindE m f = Inr y \<longleftrightarrow> (\<exists>x. m = Inr x \<and> f x = Inr y)"
  by (cases m) auto

lemma bindE_eq_Inl: "bindE m f = Inl e \<longleftrightarrow> m = Inl e \<or> (\<exists>x. m = Inr x \<and> f x = Inl e)"
  by (cases m) auto

lemma bindE_assoc: "bindE (bindE m f) g = bindE m (\<lambda>x. bindE (f x) g)"
  by (cases m) auto

lemma bindE_cong [fundef_cong]:
  assumes "m = n" and "\<And>x. n = Inr x \<Longrightarrow> f x = g x"
  shows "bindE m f = bindE n g"
  using assms by (cases n) auto

definition guardE :: "bool \<Rightarrow> error \<Rightarrow> unit res" where
  "guardE b e = (if b then Inr () else Inl e)"

lemma guardE_simps [simp]: "guardE True e = Inr ()" "guardE False e = Inl e"
  by (simp_all add: guardE_def)

lemma guardE_eq_Inr [simp]: "guardE b e = Inr u \<longleftrightarrow> b"
  by (simp add: guardE_def)

text \<open>\<^verbatim>\<open>foreach\<close> over a container, the body updating the state or throwing.\<close>

fun foldE :: "('a \<Rightarrow> 's \<Rightarrow> 's res) \<Rightarrow> 'a list \<Rightarrow> 's \<Rightarrow> 's res" where
  "foldE f [] s = Inr s"
| "foldE f (x # xs) s = bindE (f x s) (foldE f xs)"

lemma foldE_cong [fundef_cong]:
  assumes "xs = ys" and "\<And>x s. x \<in> set ys \<Longrightarrow> f x s = g x s" and "s = t"
  shows "foldE f xs s = foldE g ys t"
proof -
  have "(\<forall>x s. x \<in> set ys \<longrightarrow> f x s = g x s) \<Longrightarrow> foldE f ys t = foldE g ys t"
  proof (induction ys arbitrary: t)
    case (Cons y ys)
    then show ?case by (cases "g y t") auto
  qed simp
  with assms show ?thesis by auto
qed

lemma foldE_append: "foldE f (xs @ ys) s = bindE (foldE f xs s) (foldE f ys)"
proof (induction xs arbitrary: s)
  case (Cons x xs)
  then show ?case by (cases "f x s") auto
qed simp

text \<open>An invariant kept by every step that returns holds after the loop.\<close>

lemma foldE_invariant:
  assumes "foldE f xs s = Inr t" and "P s"
    and "\<And>x u v. x \<in> set xs \<Longrightarrow> P u \<Longrightarrow> f x u = Inr v \<Longrightarrow> P v"
  shows "P t"
  using assms
proof (induction xs arbitrary: s)
  case (Cons x xs)
  from Cons.prems(1) obtain u where "f x s = Inr u" "foldE f xs u = Inr t"
    by (auto simp: bindE_eq_Inr)
  with Cons show ?case by (metis list.set_intros)
qed simp

text \<open>
  A relation that records what each step has done, kept by sequencing, records what the loop has
  done; a loop whose steps keep an invariant or throw \<open>B\<close> ends the same way.
\<close>

lemma foldE_visits:
  assumes "\<And>s. R {} s s" and "\<And>S T s t u. R S s t \<Longrightarrow> R T t u \<Longrightarrow> R (S \<union> T) s u"
    and "\<And>x s t. x \<in> set xs \<Longrightarrow> f x s = Inr t \<Longrightarrow> R (S x) s t" and "foldE f xs s = Inr t"
  shows "R (\<Union>x \<in> set xs. S x) s t"
  using assms(3,4)
proof (induction xs arbitrary: s)
  case (Cons x xs)
  then obtain u where "f x s = Inr u" "foldE f xs u = Inr t" by (auto simp: bindE_eq_Inr)
  with Cons have "R (S x) s u" "R (\<Union>x \<in> set xs. S x) u t" by auto
  from assms(2) [OF this] show ?case by simp
qed (simp add: assms(1))

lemma foldE_outcome:
  assumes "\<And>x s. x \<in> set xs \<Longrightarrow> I s \<Longrightarrow> (\<exists>t. f x s = Inr t \<and> I t) \<or> (\<exists>e. f x s = Inl e \<and> B e)" and "I s"
  shows "(\<exists>t. foldE f xs s = Inr t \<and> I t) \<or> (\<exists>e. foldE f xs s = Inl e \<and> B e)"
  using assms
proof (induction xs arbitrary: s)
  case (Cons x xs)
  from Cons.prems consider t where "f x s = Inr t" "I t" | e where "f x s = Inl e" "B e" by force
  then show ?case using Cons by cases auto
qed simp

lemma foldE_returns:
  assumes "\<And>x s. x \<in> set xs \<Longrightarrow> I s \<Longrightarrow> \<exists>t. f x s = Inr t \<and> I t" and "I s"
  shows "\<exists>t. foldE f xs s = Inr t \<and> I t"
  using foldE_outcome [of xs I f "\<lambda>_. False" s] assms by auto

fun mapE :: "('a \<Rightarrow> 'b res) \<Rightarrow> 'a list \<Rightarrow> 'b list res" where
  "mapE f [] = Inr []"
| "mapE f (x # xs) = bindE (f x) (\<lambda>y. bindE (mapE f xs) (\<lambda>ys. Inr (y # ys)))"

subsection \<open>Results with a state\<close>

text \<open>An operation that may throw after it has changed the state.\<close>

type_synonym ('s, 'a) op = "'s \<Rightarrow> 'a res \<times> 's"

definition bindS :: "('s, 'a) op \<Rightarrow> ('a \<Rightarrow> ('s, 'b) op) \<Rightarrow> ('s, 'b) op" where
  "bindS m f s = (case m s of (Inl e, s) \<Rightarrow> (Inl e, s) | (Inr x, s) \<Rightarrow> f x s)"

primrec foldS :: "('a \<Rightarrow> ('s, unit) op) \<Rightarrow> 'a list \<Rightarrow> ('s, unit) op" where
  "foldS f [] s = (Inr (), s)"
| "foldS f (x # xs) s = bindS (f x) (\<lambda>_. foldS f xs) s"

lemma foldS_cong [fundef_cong]:
  assumes "xs = ys" and "\<And>x s. x \<in> set ys \<Longrightarrow> f x s = g x s" and "s = t"
  shows "foldS f xs s = foldS g ys t"
proof -
  have "(\<forall>x s. x \<in> set ys \<longrightarrow> f x s = g x s) \<Longrightarrow> foldS f ys t = foldS g ys t"
    by (induction ys arbitrary: t) (auto simp: bindS_def split: prod.splits sum.splits)
  with assms show ?thesis by auto
qed

lemma foldS_invariant:
  assumes "P s" and "\<And>x s. x \<in> set xs \<Longrightarrow> P s \<Longrightarrow> P (snd (f x s))"
  shows "P (snd (foldS f xs s))"
  using assms
proof (induction xs arbitrary: s)
  case (Cons x xs)
  have "P (snd (f x s))" using Cons.prems by simp
  with Cons show ?case by (cases "f x s") (auto simp: bindS_def split: sum.splits)
qed simp

subsection \<open>Characters, bytes and strings\<close>

definition byte_of_char :: "char \<Rightarrow> byte" where
  "byte_of_char c = of_char c"

definition char_of_byte :: "byte \<Rightarrow> char" where
  "char_of_byte b = char_of (unat b)"

lemma unat_byte_of_char [simp]: "unat (byte_of_char c) = of_char c"
proof -
  have "(of_char c :: byte) = word_of_nat (of_char c)"
    by (cases c) (simp add: of_char_def)
  then have "unat (of_char c :: byte) = take_bit 8 (of_char c)"
    by (simp only: unsigned_of_nat) simp
  then show ?thesis
    by (simp add: byte_of_char_def take_bit_eq_mod)
qed

lemma char_of_byte_of_char [simp]: "char_of_byte (byte_of_char c) = c"
  by (simp add: char_of_byte_def)

lemma byte_of_char_of_byte [simp]: "byte_of_char (char_of_byte b) = b"
proof -
  have "unat (byte_of_char (char_of_byte b)) = unat b mod 256"
    by (simp add: char_of_byte_def)
  also have "\<dots> = unat b"
    using unsigned_less [of b, where 'a = nat] by simp
  finally show ?thesis by (simp add: word_unat_eq_iff)
qed

lemma inj_byte_of_char: "inj byte_of_char"
  by (metis char_of_byte_of_char injI)

definition to_bytes :: "string \<Rightarrow> bytes" where
  "to_bytes s = map byte_of_char s"

definition of_bytes :: "bytes \<Rightarrow> string" where
  "of_bytes bs = map char_of_byte bs"

lemma to_bytes_simps [simp]:
  "to_bytes [] = []" "to_bytes (c # s) = byte_of_char c # to_bytes s"
  "to_bytes (s @ t) = to_bytes s @ to_bytes t" "length (to_bytes s) = length s"
  by (simp_all add: to_bytes_def)

lemma of_bytes_simps [simp]:
  "of_bytes [] = []" "of_bytes (b # bs) = char_of_byte b # of_bytes bs"
  "of_bytes (bs @ cs) = of_bytes bs @ of_bytes cs" "length (of_bytes bs) = length bs"
  by (simp_all add: of_bytes_def)

lemma of_bytes_to_bytes [simp]: "of_bytes (to_bytes s) = s"
  by (simp add: of_bytes_def to_bytes_def comp_def)

lemma to_bytes_of_bytes [simp]: "to_bytes (of_bytes bs) = bs"
  by (simp add: of_bytes_def to_bytes_def comp_def)

text \<open>\<^verbatim>\<open>s[i]\<close> of a \<^verbatim>\<open>std::string\<close>: the terminating null character at the end.\<close>

definition char_at :: "string \<Rightarrow> nat \<Rightarrow> char" where
  "char_at s i = (if i < length s then s ! i else CHR 0x00)"

text \<open>\<^verbatim>\<open>string(s, pos)\<close> throws \<^verbatim>\<open>std::out_of_range\<close> when \<open>pos\<close> is past the end.\<close>

definition substr :: "string \<Rightarrow> nat \<Rightarrow> string res" where
  "substr s pos = (if pos \<le> length s then Inr (drop pos s) else Inl OutOfRange)"

text \<open>\<^verbatim>\<open>s.find(c, pos)\<close> and \<^verbatim>\<open>s.rfind(c)\<close>; \<open>None\<close> is \<^verbatim>\<open>npos\<close>.\<close>

fun find_char :: "char \<Rightarrow> string \<Rightarrow> nat option" where
  "find_char c [] = None"
| "find_char c (d # s) = (if c = d then Some 0 else map_option Suc (find_char c s))"

definition find_char_from :: "char \<Rightarrow> string \<Rightarrow> nat \<Rightarrow> nat option" where
  "find_char_from c s pos = map_option (\<lambda>i. pos + i) (find_char c (drop pos s))"

fun rfind_char :: "char \<Rightarrow> string \<Rightarrow> nat option" where
  "rfind_char c [] = None"
| "rfind_char c (d # s) = (case rfind_char c s of
     Some i \<Rightarrow> Some (Suc i) | None \<Rightarrow> if c = d then Some 0 else None)"

lemma find_char_None: "find_char c s = None \<longleftrightarrow> c \<notin> set s"
  by (induction s) auto

lemma find_char_Some:
  "find_char c s = Some i \<longleftrightarrow> i < length s \<and> s ! i = c \<and> c \<notin> set (take i s)"
proof (induction s arbitrary: i)
  case (Cons d s)
  show ?case by (cases i) (auto simp: Cons.IH)
qed simp

lemma find_char_append: "c \<notin> set s \<Longrightarrow> find_char c (s @ c # t) = Some (length s)"
  by (induction s) auto

lemma rfind_char_None: "rfind_char c s = None \<longleftrightarrow> c \<notin> set s"
  by (induction s) (auto split: option.splits)

lemma rfind_char_append: "c \<notin> set t \<Longrightarrow> rfind_char c (s @ c # t) = Some (length s)"
proof (induction s)
  case Nil
  then show ?case by (simp add: rfind_char_None [THEN iffD2])
qed auto

lemma rfind_char_Some:
  "rfind_char c s = Some i \<Longrightarrow> i < length s \<and> s ! i = c \<and> c \<notin> set (drop (Suc i) s)"
proof (induction s arbitrary: i)
  case (Cons d s)
  then show ?case by (cases i) (auto split: option.splits if_splits simp: rfind_char_None)
qed simp

lemma rfind_char_split:
  assumes "rfind_char c s = Some i"
  obtains a b where "s = a @ c # b" "length a = i" "c \<notin> set b"
  using rfind_char_Some [OF assms] by (metis id_take_nth_drop length_take min.absorb2 less_imp_le)

end
