(* ===== verification/Containers.thy ===== *)
theory Containers
  imports Nix_Prelude
begin

text \<open>
  Ordered containers.  The sources keep paths, names and hashes in \<^verbatim>\<open>std::set\<close> and
  \<^verbatim>\<open>std::map\<close>, and several results depend on their iteration order (the text of a derivation, the
  fingerprint of a store path, the entries of an archive).  A set is the strictly increasing list
  of its elements, a map the list of its entries with strictly increasing keys.
\<close>

subsection \<open>Contracts\<close>

locale std_set =
  fixes empty :: "'s"
    and ins :: "'a::linorder \<Rightarrow> 's \<Rightarrow> 's"
    and erase :: "'a \<Rightarrow> 's \<Rightarrow> 's"
    and elems :: "'s \<Rightarrow> 'a list"
    and ok :: "'s \<Rightarrow> bool"
  assumes ok_empty: "ok empty"
    and elems_empty: "elems empty = []"
    and ok_ins: "ok s \<Longrightarrow> ok (ins x s)"
    and elems_ins: "ok s \<Longrightarrow> set (elems (ins x s)) = insert x (set (elems s))"
    and ok_erase: "ok s \<Longrightarrow> ok (erase x s)"
    and elems_erase: "ok s \<Longrightarrow> set (elems (erase x s)) = set (elems s) - {x}"
    and iteration_sorted: "ok s \<Longrightarrow> sorted_wrt (<) (elems s)"
begin

text \<open>Inserting a range, \<^verbatim>\<open>s.insert(xs.begin(), xs.end())\<close>.\<close>

lemma ok_fold_ins: "ok s \<Longrightarrow> ok (fold ins xs s)"
  by (induction xs arbitrary: s) (auto intro: ok_ins)

lemma elems_fold_ins: "ok s \<Longrightarrow> set (elems (fold ins xs s)) = set xs \<union> set (elems s)"
  by (induction xs arbitrary: s) (auto simp: elems_ins ok_ins)

text \<open>The iteration order is determined by the set of elements alone.\<close>

lemma iteration_unique:
  assumes "ok s" and "ok t" and "set (elems s) = set (elems t)"
  shows "elems s = elems t"
  using assms iteration_sorted by (simp add: strict_sorted_equal)

lemma iteration_fold_ins:
  assumes "set xs = set ys"
  shows "elems (fold ins xs empty) = elems (fold ins ys empty)"
  using assms ok_empty
  by (intro iteration_unique) (simp_all add: ok_fold_ins elems_fold_ins elems_empty)

end

locale std_map =
  fixes empty :: "'m"
    and put :: "'k::linorder \<Rightarrow> 'v \<Rightarrow> 'm \<Rightarrow> 'm"
    and entries :: "'m \<Rightarrow> ('k \<times> 'v) list"
    and ok :: "'m \<Rightarrow> bool"
  assumes ok_empty: "ok empty"
    and entries_empty: "entries empty = []"
    and ok_put: "ok m \<Longrightarrow> ok (put k v m)"
    and lookup_put: "ok m \<Longrightarrow> map_of (entries (put k v m)) = (map_of (entries m))(k \<mapsto> v)"
    and keys_sorted: "ok m \<Longrightarrow> sorted_wrt (<) (map fst (entries m))"
begin

lemma ok_fold_put: "ok m \<Longrightarrow> ok (fold (\<lambda>(k, v). put k v) kvs m)"
  by (induction kvs arbitrary: m) (auto intro: ok_put)

lemma lookup_fold_put:
  assumes "ok m" and "distinct (map fst kvs)"
  shows "map_of (entries (fold (\<lambda>(k, v). put k v) kvs m)) = map_of (entries m) ++ map_of kvs"
  using assms
proof (induction kvs arbitrary: m)
  case (Cons kv kvs)
  obtain k v where kv: "kv = (k, v)" by (cases kv)
  from Cons.prems kv have none: "map_of kvs k = None"
    by (simp add: map_of_eq_None_iff)
  show ?case
  proof
    fix x
    show "map_of (entries (fold (\<lambda>(k, v). put k v) (kv # kvs) m)) x
        = (map_of (entries m) ++ map_of (kv # kvs)) x"
      using Cons kv none
      by (cases "x = k") (auto simp: ok_put lookup_put map_add_def split: option.splits)
  qed
qed simp

end

subsection \<open>Sorted lists as sets\<close>

fun set_insert :: "'a::linorder \<Rightarrow> 'a list \<Rightarrow> 'a list" where
  "set_insert x [] = [x]"
| "set_insert x (y # ys) =
     (if x < y then x # y # ys else if x = y then y # ys else y # set_insert x ys)"

definition set_erase :: "'a::linorder \<Rightarrow> 'a list \<Rightarrow> 'a list" where
  "set_erase x xs = filter (\<lambda>y. y \<noteq> x) xs"

definition set_insert_all :: "'a::linorder list \<Rightarrow> 'a list \<Rightarrow> 'a list" where
  "set_insert_all xs s = fold set_insert xs s"

definition set_of_list :: "'a::linorder list \<Rightarrow> 'a list" where
  "set_of_list xs = set_insert_all xs []"

abbreviation is_set :: "'a::linorder list \<Rightarrow> bool" where
  "is_set xs \<equiv> sorted_wrt (<) xs"

lemma set_set_insert [simp, std_simps]: "set (set_insert x xs) = insert x (set xs)"
  by (induction xs) auto

lemma is_set_insert [simp, intro]: "is_set xs \<Longrightarrow> is_set (set_insert x xs)"
  by (induction xs) auto

lemma set_set_erase [simp, std_simps]: "set (set_erase x xs) = set xs - {x}"
  by (auto simp: set_erase_def)

lemma is_set_erase [simp, intro]: "is_set xs \<Longrightarrow> is_set (set_erase x xs)"
  by (simp add: set_erase_def sorted_wrt_filter)

interpretation sorted_set: std_set "[]" set_insert set_erase "\<lambda>xs. xs" is_set
  by unfold_locales auto

lemma set_insert_all_set [simp, std_simps]: "set (set_insert_all xs s) = set xs \<union> set s"
  unfolding set_insert_all_def by (induction xs arbitrary: s) auto

lemma is_set_insert_all [simp, intro]: "is_set s \<Longrightarrow> is_set (set_insert_all xs s)"
  unfolding set_insert_all_def by (rule sorted_set.ok_fold_ins)

lemma set_of_list_set [simp, std_simps]: "set (set_of_list xs) = set xs"
  by (simp add: set_of_list_def)

lemma is_set_of_list [simp, intro]: "is_set (set_of_list xs)"
  by (simp add: set_of_list_def is_set_insert_all)

lemma is_set_eqI: "is_set xs \<Longrightarrow> is_set ys \<Longrightarrow> set xs = set ys \<Longrightarrow> xs = ys"
  by (rule sorted_set.iteration_unique)

lemma set_of_list_id [simp]: "is_set xs \<Longrightarrow> set_of_list xs = xs"
  by (rule is_set_eqI) auto

lemma is_set_distinct: "is_set xs \<Longrightarrow> distinct xs"
  by (induction xs) auto

text \<open>Inserting at the end of what is already sorted, as \<^verbatim>\<open>insert(end(), x)\<close> does.\<close>

lemma set_insert_snoc:
  "is_set xs \<Longrightarrow> (\<forall>y\<in>set xs. y < x) \<Longrightarrow> set_insert x xs = xs @ [x]"
  by (induction xs) auto

subsection \<open>Sorted association lists as maps\<close>

fun map_put :: "'k::linorder \<Rightarrow> 'v \<Rightarrow> ('k \<times> 'v) list \<Rightarrow> ('k \<times> 'v) list" where
  "map_put k v [] = [(k, v)]"
| "map_put k v ((k', v') # m) =
     (if k < k' then (k, v) # (k', v') # m
      else if k = k' then (k, v) # m
      else (k', v') # map_put k v m)"

abbreviation is_map :: "('k::linorder \<times> 'v) list \<Rightarrow> bool" where
  "is_map m \<equiv> sorted_wrt (<) (map fst m)"

lemma keys_map_put [simp, std_simps]: "set (map fst (map_put k v m)) = insert k (set (map fst m))"
  by (induction k v m rule: map_put.induct) auto

lemma fst_set_map_put [simp]: "fst ` set (map_put k v m) = insert k (fst ` set m)"
  using keys_map_put [of k v m] by (simp only: set_map)

lemma is_map_put [simp, intro]: "is_map m \<Longrightarrow> is_map (map_put k v m)"
  by (induction k v m rule: map_put.induct) auto

lemma lookup_map_put [simp, std_simps]:
  "is_map m \<Longrightarrow> map_of (map_put k v m) = (map_of m)(k \<mapsto> v)"
proof (induction k v m rule: map_put.induct)
  case (2 k v k' v' m)
  have "k' < k \<Longrightarrow> (map_of m)(k \<mapsto> v, k' \<mapsto> v') = (map_of m)(k' \<mapsto> v', k \<mapsto> v)"
    by (rule fun_upd_twist) simp
  with 2 show ?case by auto
qed simp

interpretation sorted_map: std_map "[]" map_put "\<lambda>m. m" is_map
  by unfold_locales auto

lemma map_put_snoc:
  "is_map m \<Longrightarrow> (\<forall>k'\<in>fst ` set m. k' < k) \<Longrightarrow> map_put k v m = m @ [(k, v)]"
  by (induction k v m rule: map_put.induct) auto

lemma is_map_distinct: "is_map m \<Longrightarrow> distinct (map fst m)"
  by (rule is_set_distinct)

text \<open>Two maps with the same entries are the same list.\<close>

lemma entries_by_lookup:
  "distinct (map fst m) \<Longrightarrow> map (\<lambda>k. (k, the (map_of m k))) (map fst m) = m"
  by (auto simp: comp_def intro!: map_idI)

lemma is_map_eqI:
  assumes "is_map m" and "is_map m'" and "set m = set m'"
  shows "m = m'"
proof -
  have d: "distinct (map fst m)" "distinct (map fst m')"
    using assms(1,2) by (simp_all only: is_map_distinct)
  have k: "map fst m = map fst m'"
    using assms by (intro is_set_eqI) simp_all
  have l: "map_of m = map_of m'"
    using d assms(3) by (simp add: map_of_inject_set)
  show ?thesis
    using entries_by_lookup [OF d(1)] entries_by_lookup [OF d(2)] k l by metis
qed

text \<open>Inserting the entries of a map one by one, in order, rebuilds it.\<close>

lemma map_put_entries: "is_map (m @ kvs) \<Longrightarrow> fold (\<lambda>kv. map_put (fst kv) (snd kv)) kvs m = m @ kvs"
proof (induction kvs arbitrary: m)
  case (Cons kv kvs)
  then have "is_map m" "\<forall>k'\<in>fst ` set m. k' < fst kv"
    by (auto simp: sorted_wrt_append)
  then have "map_put (fst kv) (snd kv) m = m @ [kv]" by (simp add: map_put_snoc)
  with Cons show ?case by simp
qed simp

end
