(* ===== verification/Serialise.thy ===== *)
theory Serialise
  imports Containers
begin

unbundle bit_operations_syntax

text \<open>
  The binary serialisation of \<^verbatim>\<open>src/libutil/serialise.cc\<close>: sinks and sources with their
  buffering, and the wire format of integers, strings and string lists.

  A sink is the function its virtual call operator denotes, from the data and the sink's state to
  the new state or the exception it throws; a source is its \<^verbatim>\<open>read\<close>.  The locales \<open>sink\<close> and
  \<open>source\<close> are the contracts the comments of \<^verbatim>\<open>serialise.hh\<close> state, every reader and writer is
  proved correct against them once, and the sinks and sources of the code are interpreted in them.
\<close>

named_theorems wire_defs \<open>definitions of the wire format\<close>

subsection \<open>Writing\<close>

definition writePadding :: "(bytes \<Rightarrow> 's \<Rightarrow> 's res) \<Rightarrow> nat \<Rightarrow> 's \<Rightarrow> 's res" where
  "writePadding sink len s =
     (if len mod 8 \<noteq> 0 then sink (replicate (8 - len mod 8) 0) s else Inr s)"

definition writeInt :: "(bytes \<Rightarrow> 's \<Rightarrow> 's res) \<Rightarrow> u32 \<Rightarrow> 's \<Rightarrow> 's res" where
  "writeInt sink n s = sink
     [ucast (n AND 0xff), ucast (drop_bit 8 n AND 0xff),
      ucast (drop_bit 16 n AND 0xff), ucast (drop_bit 24 n AND 0xff), 0, 0, 0, 0] s"

definition writeLongLong :: "(bytes \<Rightarrow> 's \<Rightarrow> 's res) \<Rightarrow> u64 \<Rightarrow> 's \<Rightarrow> 's res" where
  "writeLongLong sink n s = sink
     [ucast (n AND 0xff), ucast (drop_bit 8 n AND 0xff),
      ucast (drop_bit 16 n AND 0xff), ucast (drop_bit 24 n AND 0xff),
      ucast (drop_bit 32 n AND 0xff), ucast (drop_bit 40 n AND 0xff),
      ucast (drop_bit 48 n AND 0xff), ucast (drop_bit 56 n AND 0xff)] s"

text \<open>The length is a \<^verbatim>\<open>size_t\<close> passed as \<^verbatim>\<open>unsigned int\<close>: it is truncated to 32 bits.\<close>

definition writeBuf :: "(bytes \<Rightarrow> 's \<Rightarrow> 's res) \<Rightarrow> bytes \<Rightarrow> 's \<Rightarrow> 's res" where
  "writeBuf sink buf s =
     bindE (writeInt sink (of_nat (length buf)) s) (\<lambda>s.
     bindE (sink buf s) (writePadding sink (length buf)))"

definition writeString :: "(bytes \<Rightarrow> 's \<Rightarrow> 's res) \<Rightarrow> string \<Rightarrow> 's \<Rightarrow> 's res" where
  "writeString sink str s = writeBuf sink (to_bytes str) s"

definition writeStrings :: "(bytes \<Rightarrow> 's \<Rightarrow> 's res) \<Rightarrow> string list \<Rightarrow> 's \<Rightarrow> 's res" where
  "writeStrings sink ss s =
     bindE (writeInt sink (of_nat (length ss)) s) (foldE (writeString sink) ss)"

subsection \<open>Buffered sinks\<close>

text \<open>
  \<open>sinkBuf\<close> is the part of the buffer that is in use, so \<^verbatim>\<open>bufPos\<close> is its length; \<open>sinkUnder\<close>
  is the state of the virtual \<^verbatim>\<open>write\<close> the subclass provides.
\<close>

record 's BufferedSink =
  sinkBufSize :: nat
  sinkBuf :: bytes
  sinkUnder :: 's

definition BufferedSink_new :: "nat \<Rightarrow> 's \<Rightarrow> 's BufferedSink" where
  "BufferedSink_new n u = \<lparr>sinkBufSize = n, sinkBuf = [], sinkUnder = u\<rparr>"

definition BufferedSink_flush ::
  "(bytes \<Rightarrow> 's \<Rightarrow> 's res) \<Rightarrow> 's BufferedSink \<Rightarrow> 's BufferedSink res" where
  "BufferedSink_flush write b =
     (if length (sinkBuf b) = 0 then Inr b
      else bindE (write (sinkBuf b) (sinkUnder b)) (\<lambda>u. Inr (b\<lparr>sinkBuf := [], sinkUnder := u\<rparr>)))"

function BufferedSink_call ::
  "(bytes \<Rightarrow> 's \<Rightarrow> 's res) \<Rightarrow> bytes \<Rightarrow> 's BufferedSink \<Rightarrow> 's BufferedSink res" where
  "BufferedSink_call write data b =
     (if data = [] then Inr b
      else if length (sinkBuf b) + length data \<ge> sinkBufSize b then
        bindE (BufferedSink_flush write b) (\<lambda>b.
        bindE (write data (sinkUnder b)) (\<lambda>u. Inr (b\<lparr>sinkUnder := u\<rparr>)))
      else
        (let n = (if length (sinkBuf b) + length data > sinkBufSize b
                  then sinkBufSize b - length (sinkBuf b) else length data);
             b1 = b\<lparr>sinkBuf := sinkBuf b @ take n data\<rparr>
         in bindE (if length (sinkBuf b1) = sinkBufSize b1 then BufferedSink_flush write b1
                   else Inr b1)
                  (BufferedSink_call write (drop n data))))"
  by pat_completeness auto
termination
  by (relation "measure (\<lambda>(write, data, b). length data)") auto

declare BufferedSink_call.simps [simp del]

text \<open>The sink of a string appends.\<close>

definition StringSink_call :: "bytes \<Rightarrow> bytes \<Rightarrow> bytes res" where
  "StringSink_call data s = Inr (s @ data)"

subsection \<open>Reading\<close>

text \<open>
  \<^verbatim>\<open>Source::operator()\<close> calls \<^verbatim>\<open>read\<close> until all bytes have arrived.  A \<^verbatim>\<open>read\<close> that returns no
  byte without throwing breaks its contract and makes the loop spin: \<open>Diverges\<close>.
\<close>

function Source_call :: "(nat \<Rightarrow> 's \<Rightarrow> (bytes \<times> 's) res) \<Rightarrow> nat \<Rightarrow> 's \<Rightarrow> (bytes \<times> 's) res" where
  "Source_call rd len s =
     (if len = 0 then Inr ([], s)
      else bindE (rd len s) (\<lambda>(d, s).
        if d = [] then Inl Diverges
        else bindE (Source_call rd (len - length d) s) (\<lambda>(ds, s). Inr (d @ ds, s))))"
  by pat_completeness auto
termination
  by (relation "measure (\<lambda>(rd, len, s). len)") auto

declare Source_call.simps [simp del]

record StringSource =
  srcStr :: bytes
  srcPos :: nat

definition StringSource_read :: "nat \<Rightarrow> StringSource \<Rightarrow> (bytes \<times> StringSource) res" where
  "StringSource_read len s =
     (if srcPos s = length (srcStr s) then Inl (EndOfFile ''end of string reached'')
      else let d = take len (drop (srcPos s) (srcStr s))
           in Inr (d, s\<lparr>srcPos := srcPos s + length d\<rparr>))"

record 's BufferedSource =
  srcBufSize :: nat
  srcBuf :: bytes
  bufPosIn :: nat
  bufPosOut :: nat
  srcUnder :: 's

definition BufferedSource_new :: "nat \<Rightarrow> 's \<Rightarrow> 's BufferedSource" where
  "BufferedSource_new n u = \<lparr>srcBufSize = n, srcBuf = [], bufPosIn = 0, bufPosOut = 0, srcUnder = u\<rparr>"

definition BufferedSource_read ::
  "(nat \<Rightarrow> 's \<Rightarrow> (bytes \<times> 's) res) \<Rightarrow> nat \<Rightarrow> 's BufferedSource \<Rightarrow> (bytes \<times> 's BufferedSource) res" where
  "BufferedSource_read readUnbuffered len b =
     bindE (if bufPosIn b = 0
            then bindE (readUnbuffered (srcBufSize b) (srcUnder b)) (\<lambda>(d, u).
                   Inr (b\<lparr>srcBuf := d, bufPosIn := length d, srcUnder := u\<rparr>))
            else Inr b) (\<lambda>b.
       let n = (if len > bufPosIn b - bufPosOut b then bufPosIn b - bufPosOut b else len);
           d = take n (drop (bufPosOut b) (srcBuf b));
           b1 = b\<lparr>bufPosOut := bufPosOut b + n\<rparr>;
           b2 = (if bufPosIn b1 = bufPosOut b1 then b1\<lparr>bufPosIn := 0, bufPosOut := 0\<rparr> else b1)
       in Inr (d, b2))"

text \<open>
  A file descriptor as \<^verbatim>\<open>read(2)\<close> shows it: the data still to come, and the answers of the kernel,
  each an interruption (\<^verbatim>\<open>EINTR\<close>), an error or a number of bytes it is ready to deliver (at least one
  when data is left); once the list is used up every call delivers all it can.
\<close>

datatype read_answer = Interrupt | Fail | Deliver nat

record fd_in =
  fdData :: bytes
  fdAnswers :: "read_answer list"

fun read_fd :: "nat \<Rightarrow> bytes \<Rightarrow> read_answer list \<Rightarrow> (bytes \<times> bytes \<times> read_answer list) res" where
  "read_fd len ds (Interrupt # as) = read_fd len ds as"
| "read_fd len ds (Fail # as) = Inl (SysError ''reading from file'')"
| "read_fd len ds (Deliver n # as) =
     (if ds = [] then Inl (EndOfFile ''unexpected end-of-file'')
      else let k = min len (max 1 n) in Inr (take k ds, drop k ds, as))"
| "read_fd len ds [] =
     (if ds = [] then Inl (EndOfFile ''unexpected end-of-file'')
      else Inr (take len ds, drop len ds, []))"

definition FdSource_readUnbuffered :: "nat \<Rightarrow> fd_in \<Rightarrow> (bytes \<times> fd_in) res" where
  "FdSource_readUnbuffered len f =
     bindE (read_fd len (fdData f) (fdAnswers f)) (\<lambda>(d, ds, as).
       Inr (d, \<lparr>fdData = ds, fdAnswers = as\<rparr>))"

definition readPadding :: "(nat \<Rightarrow> 's \<Rightarrow> (bytes \<times> 's) res) \<Rightarrow> nat \<Rightarrow> 's \<Rightarrow> 's res" where
  "readPadding rd len s =
     (if len mod 8 \<noteq> 0 then
        bindE (Source_call rd (8 - len mod 8) s) (\<lambda>(zero, s).
          if list_ex (\<lambda>b. b \<noteq> 0) zero then Inl (SerialisationError ''non-zero padding'') else Inr s)
      else Inr s)"

definition readInt :: "(nat \<Rightarrow> 's \<Rightarrow> (bytes \<times> 's) res) \<Rightarrow> 's \<Rightarrow> (u32 \<times> 's) res" where
  "readInt rd s =
     bindE (Source_call rd 8 s) (\<lambda>(buf, s).
       if buf ! 4 \<noteq> 0 \<or> buf ! 5 \<noteq> 0 \<or> buf ! 6 \<noteq> 0 \<or> buf ! 7 \<noteq> 0
       then Inl (SerialisationError ''implementation cannot deal with > 32-bit integers'')
       else Inr (ucast (buf ! 0) OR push_bit 8 (ucast (buf ! 1)) OR
                 push_bit 16 (ucast (buf ! 2)) OR push_bit 24 (ucast (buf ! 3)), s))"

definition readLongLong :: "(nat \<Rightarrow> 's \<Rightarrow> (bytes \<times> 's) res) \<Rightarrow> 's \<Rightarrow> (u64 \<times> 's) res" where
  "readLongLong rd s =
     bindE (Source_call rd 8 s) (\<lambda>(buf, s).
       Inr (ucast (buf ! 0) OR push_bit 8 (ucast (buf ! 1)) OR
            push_bit 16 (ucast (buf ! 2)) OR push_bit 24 (ucast (buf ! 3)) OR
            push_bit 32 (ucast (buf ! 4)) OR push_bit 40 (ucast (buf ! 5)) OR
            push_bit 48 (ucast (buf ! 6)) OR push_bit 56 (ucast (buf ! 7)), s))"

definition readBuf ::
  "(nat \<Rightarrow> 's \<Rightarrow> (bytes \<times> 's) res) \<Rightarrow> nat \<Rightarrow> 's \<Rightarrow> (bytes \<times> 's) res" where
  "readBuf rd mx s =
     bindE (readInt rd s) (\<lambda>(len, s).
       if unat len > mx then Inl (Error ''string is too long'')
       else bindE (Source_call rd (unat len) s) (\<lambda>(buf, s).
            bindE (readPadding rd (unat len) s) (\<lambda>s. Inr (buf, s))))"

definition readString :: "(nat \<Rightarrow> 's \<Rightarrow> (bytes \<times> 's) res) \<Rightarrow> 's \<Rightarrow> (string \<times> 's) res" where
  "readString rd s =
     bindE (readInt rd s) (\<lambda>(len, s).
     bindE (Source_call rd (unat len) s) (\<lambda>(buf, s).
     bindE (readPadding rd (unat len) s) (\<lambda>s. Inr (of_bytes buf, s))))"

fun readStrings_loop ::
  "(nat \<Rightarrow> 's \<Rightarrow> (bytes \<times> 's) res) \<Rightarrow> (string \<Rightarrow> 'c \<Rightarrow> 'c) \<Rightarrow> nat \<Rightarrow> 'c \<Rightarrow> 's \<Rightarrow> ('c \<times> 's) res" where
  "readStrings_loop rd ins 0 ss s = Inr (ss, s)"
| "readStrings_loop rd ins (Suc count) ss s =
     bindE (readString rd s) (\<lambda>(str, s). readStrings_loop rd ins count (ins str ss) s)"

text \<open>
  \<^verbatim>\<open>readStrings\<close> is instantiated for lists, where \<^verbatim>\<open>insert(end(), x)\<close> appends, and for sets.
\<close>

definition readStrings_list :: "(nat \<Rightarrow> 's \<Rightarrow> (bytes \<times> 's) res) \<Rightarrow> 's \<Rightarrow> (string list \<times> 's) res" where
  "readStrings_list rd s =
     bindE (readInt rd s) (\<lambda>(count, s). readStrings_loop rd (\<lambda>x ss. ss @ [x]) (unat count) [] s)"

definition readStrings_set :: "(nat \<Rightarrow> 's \<Rightarrow> (bytes \<times> 's) res) \<Rightarrow> 's \<Rightarrow> (string list \<times> 's) res" where
  "readStrings_set rd s =
     bindE (readInt rd s) (\<lambda>(count, s). readStrings_loop rd set_insert (unat count) [] s)"

subsection \<open>The wire format\<close>

definition wire_int :: "u32 \<Rightarrow> bytes" where
  "wire_int n =
     [ucast (n AND 0xff), ucast (drop_bit 8 n AND 0xff),
      ucast (drop_bit 16 n AND 0xff), ucast (drop_bit 24 n AND 0xff), 0, 0, 0, 0]"

definition wire_longlong :: "u64 \<Rightarrow> bytes" where
  "wire_longlong n =
     [ucast (n AND 0xff), ucast (drop_bit 8 n AND 0xff),
      ucast (drop_bit 16 n AND 0xff), ucast (drop_bit 24 n AND 0xff),
      ucast (drop_bit 32 n AND 0xff), ucast (drop_bit 40 n AND 0xff),
      ucast (drop_bit 48 n AND 0xff), ucast (drop_bit 56 n AND 0xff)]"

definition wire_padding :: "nat \<Rightarrow> bytes" where
  "wire_padding len = (if len mod 8 \<noteq> 0 then replicate (8 - len mod 8) 0 else [])"

definition wire_string :: "string \<Rightarrow> bytes" where
  "wire_string s = wire_int (of_nat (length s)) @ to_bytes s @ wire_padding (length s)"

definition wire_strings :: "string list \<Rightarrow> bytes" where
  "wire_strings ss = wire_int (of_nat (length ss)) @ concat (map wire_string ss)"

text \<open>Everything on the wire is a multiple of eight bytes long.\<close>

lemma length_wire_int [simp]: "length (wire_int n) = 8"
  by (simp add: wire_int_def)

lemma length_wire_longlong [simp]: "length (wire_longlong n) = 8"
  by (simp add: wire_longlong_def)

lemma wire_padding_aligned: "(len + length (wire_padding len)) mod 8 = 0"
  by (simp add: wire_padding_def mod_simps) presburger

lemma wire_string_aligned: "length (wire_string s) mod 8 = 0"
proof -
  have "(length s + length (wire_padding (length s))) mod 8 = 0"
    by (rule wire_padding_aligned)
  then show ?thesis
    by (simp add: wire_string_def)
qed

lemma masked_low_byte: "(n AND 0xff :: 'a::len word) = take_bit 8 n"
  by (simp add: take_bit_eq_mask mask_eq_exp_minus_1)

lemma byte_of_low_byte: "(ucast (ucast (n AND 0xff) :: byte) :: 'a::len word) = take_bit 8 n"
  unfolding masked_low_byte
  by (rule bit_word_eqI) (auto simp: bit_simps)

lemma join_bits:
  "take_bit m n OR push_bit m (take_bit 8 (drop_bit m n)) = (take_bit (m + 8) n :: 'a::len word)"
  by (rule bit_word_eqI) (auto simp: bit_simps)

lemma decode_int:
  "ucast (ucast (n AND 0xff) :: byte) OR push_bit 8 (ucast (ucast (drop_bit 8 n AND 0xff) :: byte)) OR
   push_bit 16 (ucast (ucast (drop_bit 16 n AND 0xff) :: byte)) OR
   push_bit 24 (ucast (ucast (drop_bit 24 n AND 0xff) :: byte)) = (n :: u32)"
  unfolding byte_of_low_byte or.assoc [symmetric]
  by (simp add: join_bits take_bit_word_eq_self)

lemma decode_longlong:
  "ucast (ucast (n AND 0xff) :: byte) OR push_bit 8 (ucast (ucast (drop_bit 8 n AND 0xff) :: byte)) OR
   push_bit 16 (ucast (ucast (drop_bit 16 n AND 0xff) :: byte)) OR
   push_bit 24 (ucast (ucast (drop_bit 24 n AND 0xff) :: byte)) OR
   push_bit 32 (ucast (ucast (drop_bit 32 n AND 0xff) :: byte)) OR
   push_bit 40 (ucast (ucast (drop_bit 40 n AND 0xff) :: byte)) OR
   push_bit 48 (ucast (ucast (drop_bit 48 n AND 0xff) :: byte)) OR
   push_bit 56 (ucast (ucast (drop_bit 56 n AND 0xff) :: byte)) = (n :: u64)"
  unfolding byte_of_low_byte or.assoc [symmetric]
  by (simp add: join_bits take_bit_word_eq_self)

lemma bit_byte_high [simp]:
  fixes b :: byte
  shows "\<not> bit b (8 + n)" "\<not> bit b (16 + n)" "\<not> bit b (24 + n)"
  using bit_imp_le_length [of b] by fastforce+

lemma encode_int:
  "wire_int (ucast b0 OR push_bit 8 (ucast b1) OR push_bit 16 (ucast b2) OR push_bit 24 (ucast b3))
     = [b0, b1, b2, b3, 0, 0, 0, 0]"
  unfolding masked_low_byte wire_int_def
  by (auto intro!: bit_word_eqI simp: bit_simps)

subsection \<open>The contract of a sink\<close>

locale sink =
  fixes put :: "bytes \<Rightarrow> 's \<Rightarrow> 's res"
    and written :: "'s \<Rightarrow> bytes"
    and ok :: "'s \<Rightarrow> bool"
  assumes put_appends:
    "ok s \<Longrightarrow> put d s = Inr s' \<Longrightarrow> ok s' \<and> written s' = written s @ d"
begin

text \<open>\<open>emits f d\<close>: whenever the writer \<open>f\<close> returns, it has appended exactly \<open>d\<close>.\<close>

definition emits :: "('s \<Rightarrow> 's res) \<Rightarrow> bytes \<Rightarrow> bool" where
  "emits f d \<longleftrightarrow> (\<forall>s s'. ok s \<longrightarrow> f s = Inr s' \<longrightarrow> ok s' \<and> written s' = written s @ d)"

lemma emits_put: "emits (put d) d"
  by (auto simp: emits_def dest: put_appends)

lemma emits_skip: "emits Inr []"
  by (simp add: emits_def)

lemma emits_bind: "emits f d \<Longrightarrow> emits g e \<Longrightarrow> emits (\<lambda>s. bindE (f s) g) (d @ e)"
  unfolding emits_def bindE_eq_Inr by (metis append.assoc)

lemma emits_fold:
  "(\<And>x. x \<in> set xs \<Longrightarrow> emits (f x) (d x)) \<Longrightarrow> emits (foldE f xs) (concat (map d xs))"
proof (induction xs)
  case Nil
  then show ?case by (simp add: emits_def)
next
  case (Cons x xs)
  have "emits (\<lambda>s. bindE (f x s) (foldE f xs)) (d x @ concat (map d xs))"
    using Cons by (intro emits_bind) auto
  then show ?case by simp
qed

lemma emits_writePadding: "emits (writePadding put len) (wire_padding len)"
  using emits_put [of "replicate (8 - len mod 8) 0"]
  by (auto simp: emits_def writePadding_def wire_padding_def)

lemma emits_writeInt: "emits (writeInt put n) (wire_int n)"
  using emits_put [of "wire_int n"] by (simp add: emits_def writeInt_def wire_int_def)

lemma emits_writeLongLong: "emits (writeLongLong put n) (wire_longlong n)"
  using emits_put [of "wire_longlong n"] by (simp add: emits_def writeLongLong_def wire_longlong_def)

lemma emits_writeString: "emits (writeString put s) (wire_string s)"
  unfolding writeString_def writeBuf_def wire_string_def to_bytes_simps
  by (intro emits_bind emits_writeInt emits_put emits_writePadding)

lemma emits_writeStrings: "emits (writeStrings put ss) (wire_strings ss)"
  unfolding writeStrings_def wire_strings_def
  by (intro emits_bind emits_writeInt emits_fold emits_writeString)

end

locale reliable_sink = sink put written ok
  for put :: "bytes \<Rightarrow> 's \<Rightarrow> 's res" and written ok +
  assumes put_returns: "ok s \<Longrightarrow> \<exists>s'. put d s = Inr s'"
begin

definition delivers :: "('s \<Rightarrow> 's res) \<Rightarrow> bytes \<Rightarrow> bool" where
  "delivers f d \<longleftrightarrow> (\<forall>s. ok s \<longrightarrow> (\<exists>s'. f s = Inr s' \<and> ok s' \<and> written s' = written s @ d))"

lemma delivers_put: "delivers (put d) d"
  using put_returns put_appends unfolding delivers_def by blast

lemma delivers_skip: "delivers Inr []"
  by (simp add: delivers_def)

lemma delivers_bind: "delivers f d \<Longrightarrow> delivers g e \<Longrightarrow> delivers (\<lambda>s. bindE (f s) g) (d @ e)"
  unfolding delivers_def by (metis append.assoc bindE_Inr)

lemma delivers_fold:
  "(\<And>x. x \<in> set xs \<Longrightarrow> delivers (f x) (d x)) \<Longrightarrow> delivers (foldE f xs) (concat (map d xs))"
proof (induction xs)
  case Nil
  then show ?case by (simp add: delivers_def)
next
  case (Cons x xs)
  have "delivers (\<lambda>s. bindE (f x s) (foldE f xs)) (d x @ concat (map d xs))"
    using Cons by (intro delivers_bind) auto
  then show ?case by simp
qed

lemma delivers_writePadding: "delivers (writePadding put len) (wire_padding len)"
  using delivers_put [of "replicate (8 - len mod 8) 0"]
  by (auto simp: delivers_def writePadding_def wire_padding_def)

lemma delivers_writeInt: "delivers (writeInt put n) (wire_int n)"
  using delivers_put [of "wire_int n"] by (simp add: delivers_def writeInt_def wire_int_def)

lemma delivers_writeLongLong: "delivers (writeLongLong put n) (wire_longlong n)"
  using delivers_put [of "wire_longlong n"]
  by (simp add: delivers_def writeLongLong_def wire_longlong_def)

lemma delivers_writeString: "delivers (writeString put s) (wire_string s)"
  unfolding writeString_def writeBuf_def wire_string_def to_bytes_simps
  by (intro delivers_bind delivers_writeInt delivers_put delivers_writePadding)

lemma delivers_writeStrings: "delivers (writeStrings put ss) (wire_strings ss)"
  unfolding writeStrings_def wire_strings_def
  by (intro delivers_bind delivers_writeInt delivers_fold delivers_writeString)

end

subsection \<open>The contract of a source\<close>

text \<open>
  \<open>rest s\<close> is the data still to come.  As \<^verbatim>\<open>serialise.hh\<close> says, \<^verbatim>\<open>read\<close> stores up to \<open>len\<close> bytes and
  at least one, or throws.
\<close>

locale source =
  fixes rd :: "nat \<Rightarrow> 's \<Rightarrow> (bytes \<times> 's) res"
    and rest :: "'s \<Rightarrow> bytes"
    and ok :: "'s \<Rightarrow> bool"
  assumes read_some: "ok s \<Longrightarrow> 0 < len \<Longrightarrow> rest s \<noteq> [] \<Longrightarrow>
      \<exists>d s'. rd len s = Inr (d, s') \<and> d \<noteq> [] \<and> length d \<le> len \<and> rest s = d @ rest s' \<and> ok s'"
    and read_end: "ok s \<Longrightarrow> 0 < len \<Longrightarrow> rest s = [] \<Longrightarrow> \<exists>m. rd len s = Inl (EndOfFile m)"
begin

lemma call_enough:
  assumes "ok s" and "len \<le> length (rest s)"
  shows "\<exists>s'. Source_call rd len s = Inr (take len (rest s), s') \<and> rest s' = drop len (rest s) \<and> ok s'"
  using assms
proof (induction len arbitrary: s rule: less_induct)
  case (less len)
  show ?case
  proof (cases "len = 0")
    case True
    with less.prems show ?thesis by (simp add: Source_call.simps)
  next
    case False
    with less.prems obtain d s1 where d: "rd len s = Inr (d, s1)" "d \<noteq> []" "length d \<le> len"
        "rest s = d @ rest s1" "ok s1"
      using read_some [of s len] by fastforce
    moreover from d False have "len - length d < len" by simp
    ultimately obtain s2 where
      "Source_call rd (len - length d) s1 = Inr (take (len - length d) (rest s1), s2)"
      "rest s2 = drop (len - length d) (rest s1)" "ok s2"
      using less.IH [of "len - length d" s1] less.prems by fastforce
    with d False show ?thesis
      by (simp add: Source_call.simps [of rd len s])
  qed
qed

lemma call_short:
  assumes "ok s" and "length (rest s) < len"
  shows "\<exists>m. Source_call rd len s = Inl (EndOfFile m)"
  using assms
proof (induction len arbitrary: s rule: less_induct)
  case (less len)
  show ?case
  proof (cases "rest s = []")
    case True
    with less.prems show ?thesis
      using read_end [of s len] by (auto simp: Source_call.simps [of rd len s])
  next
    case False
    with less.prems obtain d s1 where d: "rd len s = Inr (d, s1)" "d \<noteq> []" "length d \<le> len"
        "rest s = d @ rest s1" "ok s1"
      using read_some [of s len] by fastforce
    moreover from d less.prems have "len - length d < len" by (cases d) auto
    ultimately obtain m where "Source_call rd (len - length d) s1 = Inl (EndOfFile m)"
      using less.IH [of "len - length d" s1] less.prems by fastforce
    with d less.prems show ?thesis
      by (auto simp: Source_call.simps [of rd len s])
  qed
qed

text \<open>What \<^verbatim>\<open>Source::operator()\<close> promises, in one equation.\<close>

lemma call_Inr:
  assumes "ok s" and "Source_call rd len s = Inr (d, s')"
  shows "ok s' \<and> length d = len \<and> rest s = d @ rest s'"
proof (cases "len \<le> length (rest s)")
  case True
  from call_enough [OF assms(1) this] assms(2) True show ?thesis by auto
next
  case False
  with call_short [OF assms(1), of len] assms(2) show ?thesis by force
qed

text \<open>\<open>decodes f bs v\<close>: the reader \<open>f\<close> turns the bytes \<open>bs\<close> into \<open>v\<close> and stops right after them.\<close>

definition decodes :: "('s \<Rightarrow> ('v \<times> 's) res) \<Rightarrow> bytes \<Rightarrow> 'v \<Rightarrow> bool" where
  "decodes f bs v \<longleftrightarrow>
     (\<forall>s r. ok s \<longrightarrow> rest s = bs @ r \<longrightarrow> (\<exists>s'. f s = Inr (v, s') \<and> ok s' \<and> rest s' = r))"

lemma decodes_return: "decodes (\<lambda>s. Inr (v, s)) [] v"
  by (simp add: decodes_def)

lemma decodes_bind:
  "decodes f bs v \<Longrightarrow> decodes (g v) cs w \<Longrightarrow> decodes (\<lambda>s. bindE (f s) (\<lambda>(v, s). g v s)) (bs @ cs) w"
  unfolding decodes_def by (fastforce simp: bindE_def)

lemma decodes_call: "len = length bs \<Longrightarrow> decodes (Source_call rd len) bs bs"
  unfolding decodes_def using call_enough by (metis append_eq_conv_conj length_append le_add1)

lemma decodes_readInt: "decodes (readInt rd) (wire_int n) n"
proof -
  have "decodes (Source_call rd 8) (wire_int n) (wire_int n)"
    by (rule decodes_call) simp
  then show ?thesis
    unfolding decodes_def readInt_def
    by (fastforce simp: wire_int_def decode_int)
qed

lemma decodes_readLongLong: "decodes (readLongLong rd) (wire_longlong n) n"
proof -
  have "decodes (Source_call rd 8) (wire_longlong n) (wire_longlong n)"
    by (rule decodes_call) simp
  then show ?thesis
    unfolding decodes_def readLongLong_def
    by (fastforce simp: wire_longlong_def decode_longlong)
qed

lemma readPadding_enough:
  assumes "ok s" and "rest s = wire_padding len @ r"
  shows "\<exists>s'. readPadding rd len s = Inr s' \<and> ok s' \<and> rest s' = r"
proof (cases "len mod 8 = 0")
  case True
  with assms show ?thesis by (simp add: readPadding_def wire_padding_def)
next
  case False
  then have "decodes (Source_call rd (8 - len mod 8)) (wire_padding len) (wire_padding len)"
    by (intro decodes_call) (simp add: wire_padding_def)
  with assms obtain s' where
    "Source_call rd (8 - len mod 8) s = Inr (wire_padding len, s')" "ok s'" "rest s' = r"
    unfolding decodes_def by blast
  with False show ?thesis
    by (auto simp: readPadding_def wire_padding_def list_ex_iff)
qed

lemma decodes_readString:
  assumes "length str < 2 ^ 32"
  shows "decodes (readString rd) (wire_string str) str"
  unfolding decodes_def
proof (intro allI impI)
  fix s r
  assume s: "ok s" "rest s = wire_string str @ r"
  have len: "unat (of_nat (length str) :: u32) = length str"
    using assms by (simp add: unsigned_of_nat take_bit_nat_eq_self)
  obtain s1 where 1: "readInt rd s = Inr (of_nat (length str), s1)" "ok s1"
      "rest s1 = to_bytes str @ wire_padding (length str) @ r"
    using decodes_readInt s unfolding decodes_def wire_string_def by force
  obtain s2 where 2: "Source_call rd (length str) s1 = Inr (to_bytes str, s2)" "ok s2"
      "rest s2 = wire_padding (length str) @ r"
    using decodes_call [of "length str" "to_bytes str"] 1 unfolding decodes_def by force
  from readPadding_enough [OF 2(2,3)] 1 2 len
  show "\<exists>s'. readString rd s = Inr (str, s') \<and> ok s' \<and> rest s' = r"
    by (auto simp: readString_def)
qed

lemma decodes_readStrings_loop:
  assumes "\<forall>x\<in>set ss. length x < 2 ^ 32"
  shows "decodes (readStrings_loop rd ins (length ss) acc) (concat (map wire_string ss)) (fold ins ss acc)"
  using assms
proof (induction ss arbitrary: acc)
  case Nil
  then show ?case by (simp add: decodes_def)
next
  case (Cons x ss)
  have "decodes (\<lambda>s. bindE (readString rd s) (\<lambda>(str, s). readStrings_loop rd ins (length ss) (ins str acc) s))
      (wire_string x @ concat (map wire_string ss)) (fold ins ss (ins x acc))"
    using Cons.prems by (intro decodes_bind [where v = x] decodes_readString Cons.IH) simp_all
  then show ?case by (simp add: decodes_def)
qed

lemma fold_snoc: "fold (\<lambda>x ss. ss @ [x]) xs acc = acc @ xs"
  by (induction xs arbitrary: acc) auto

lemma decodes_readStrings:
  assumes "length ss < 2 ^ 32" and "\<forall>x\<in>set ss. length x < 2 ^ 32"
  shows "decodes (readStrings_list rd) (wire_strings ss) ss"
    and "decodes (readStrings_set rd) (wire_strings ss) (set_of_list ss)"
proof -
  have len: "unat (of_nat (length ss) :: u32) = length ss"
    using assms(1) by (simp add: unsigned_of_nat take_bit_nat_eq_self)
  show "decodes (readStrings_list rd) (wire_strings ss) ss"
    unfolding readStrings_list_def wire_strings_def
    using decodes_bind [OF decodes_readInt, where g = "\<lambda>count. readStrings_loop rd (\<lambda>x ss. ss @ [x]) (unat count) []"]
      decodes_readStrings_loop [OF assms(2), of "\<lambda>x ss. ss @ [x]" "[]"]
    by (simp add: len fold_snoc)
  show "decodes (readStrings_set rd) (wire_strings ss) (set_of_list ss)"
    unfolding readStrings_set_def wire_strings_def
    using decodes_bind [OF decodes_readInt, where g = "\<lambda>count. readStrings_loop rd set_insert (unat count) []"]
      decodes_readStrings_loop [OF assms(2), of set_insert "[]"]
    by (simp add: len set_of_list_def set_insert_all_def)
qed

text \<open>
  Conversely a reader accepts nothing but the wire format: what \<^verbatim>\<open>readInt\<close> and \<^verbatim>\<open>readString\<close> consume is
  the encoding of what they return.
\<close>

lemma readInt_canonical:
  assumes "ok s" and "readInt rd s = Inr (n, s')"
  shows "ok s' \<and> rest s = wire_int n @ rest s'"
proof -
  from assms(2) obtain buf where c: "Source_call rd 8 s = Inr (buf, s')"
    and z: "buf ! 4 = 0" "buf ! 5 = 0" "buf ! 6 = 0" "buf ! 7 = 0"
    and n: "n = ucast (buf ! 0) OR push_bit 8 (ucast (buf ! 1)) OR
                 push_bit 16 (ucast (buf ! 2)) OR push_bit 24 (ucast (buf ! 3))"
    by (auto simp: readInt_def bindE_eq_Inr split: if_splits)
  from call_Inr [OF assms(1) c] have b: "ok s'" "length buf = 8" "rest s = buf @ rest s'"
    by auto
  have "buf = wire_int n"
    unfolding n encode_int using b(2) z
    by (intro nth_equalityI) (auto simp: less_Suc_eq numeral_eq_Suc)
  with b show ?thesis by simp
qed

lemma readPadding_canonical:
  assumes "ok s" and "readPadding rd len s = Inr s'"
  shows "ok s' \<and> rest s = wire_padding len @ rest s'"
proof (cases "len mod 8 = 0")
  case True
  with assms show ?thesis by (simp add: readPadding_def wire_padding_def)
next
  case False
  with assms(2) obtain z where c: "Source_call rd (8 - len mod 8) s = Inr (z, s')"
    and z: "\<forall>b\<in>set z. b = 0"
    by (auto simp: readPadding_def bindE_eq_Inr list_ex_iff split: if_splits)
  from call_Inr [OF assms(1) c] have b: "ok s'" "length z = 8 - len mod 8" "rest s = z @ rest s'"
    by auto
  from b(2) z have "z = wire_padding len"
    using False by (simp add: wire_padding_def replicate_eqI)
  with b show ?thesis by simp
qed

lemma readString_canonical:
  assumes "ok s" and "readString rd s = Inr (str, s')"
  shows "ok s' \<and> rest s = wire_string str @ rest s' \<and> length str < 2 ^ 32"
proof -
  from assms(2) obtain len s1 buf s2 where
    1: "readInt rd s = Inr (len, s1)" and 2: "Source_call rd (unat len) s1 = Inr (buf, s2)"
    and 3: "readPadding rd (unat len) s2 = Inr s'" and str: "str = of_bytes buf"
    by (auto simp: readString_def bindE_eq_Inr)
  from readInt_canonical [OF assms(1) 1] have r1: "ok s1" "rest s = wire_int len @ rest s1" by auto
  from call_Inr [OF r1(1) 2] have r2: "ok s2" "length buf = unat len" "rest s1 = buf @ rest s2" by auto
  from readPadding_canonical [OF r2(1) 3] have r3: "ok s'" "rest s2 = wire_padding (unat len) @ rest s'"
    by auto
  have "unat len < 2 ^ 32" using unsigned_less [of len, where 'a = nat] by simp
  with r1 r2 r3 str show ?thesis
    by (simp add: wire_string_def)
qed

end

subsection \<open>The sinks and sources of the code\<close>

interpretation string_sink: reliable_sink StringSink_call "\<lambda>s. s" "\<lambda>s. True"
  by unfold_locales (auto simp: StringSink_call_def)

context sink
begin

lemma flush_appends:
  assumes "ok (sinkUnder b)" and "BufferedSink_flush put b = Inr b'"
  shows "sinkBuf b' = [] \<and> sinkBufSize b' = sinkBufSize b \<and> ok (sinkUnder b')
    \<and> written (sinkUnder b') = written (sinkUnder b) @ sinkBuf b"
  using assms put_appends
  by (auto simp: BufferedSink_flush_def bindE_eq_Inr split: if_splits)

end

text \<open>The call operator either buffers the data or passes it on after flushing.\<close>

lemma call_Nil [simp]: "BufferedSink_call write [] b = Inr b"
  by (simp add: BufferedSink_call.simps)

lemma call_buffers:
  assumes "length (sinkBuf b) + length d < sinkBufSize b"
  shows "BufferedSink_call write d b = Inr (b\<lparr>sinkBuf := sinkBuf b @ d\<rparr>)"
  using assms by (subst BufferedSink_call.simps) (simp add: Let_def)

lemma call_passes:
  assumes "d \<noteq> []" and "sinkBufSize b \<le> length (sinkBuf b) + length d"
  shows "BufferedSink_call write d b = bindE (BufferedSink_flush write b) (\<lambda>b.
    bindE (write d (sinkUnder b)) (\<lambda>u. Inr (b\<lparr>sinkUnder := u\<rparr>)))"
  using assms by (subst BufferedSink_call.simps) simp

lemma call_keeps_size:
  assumes "BufferedSink_call write d b = Inr b'"
  shows "sinkBufSize b' = sinkBufSize b"
proof -
  consider "d = []" | "length (sinkBuf b) + length d < sinkBufSize b"
    | "d \<noteq> []" "sinkBufSize b \<le> length (sinkBuf b) + length d"
    by fastforce
  then show ?thesis
    by cases (use assms in \<open>auto simp: call_buffers call_passes BufferedSink_flush_def bindE_eq_Inr
      split: if_splits\<close>)
qed

context sink
begin

abbreviation bwritten :: "'s BufferedSink \<Rightarrow> bytes" where
  "bwritten b \<equiv> written (sinkUnder b) @ sinkBuf b"

abbreviation bok :: "'s BufferedSink \<Rightarrow> bool" where
  "bok b \<equiv> ok (sinkUnder b) \<and> length (sinkBuf b) < sinkBufSize b"

text \<open>
  Buffering preserves the contract: what a buffered sink has accepted is what reached the
  underlying \<^verbatim>\<open>write\<close> followed by what is still in the buffer.
\<close>

lemma buffered_sink: "sink (BufferedSink_call put) bwritten bok"
proof
  fix b d b'
  assume b: "bok b" and c: "BufferedSink_call put d b = Inr b'"
  consider "d = []" | "length (sinkBuf b) + length d < sinkBufSize b"
    | "d \<noteq> []" "sinkBufSize b \<le> length (sinkBuf b) + length d"
    by fastforce
  then show "bok b' \<and> bwritten b' = bwritten b @ d"
  proof cases
    case 3
    with c obtain b1 u where f: "BufferedSink_flush put b = Inr b1"
      and u: "put d (sinkUnder b1) = Inr u" and b': "b' = b1\<lparr>sinkUnder := u\<rparr>"
      by (auto simp: call_passes bindE_eq_Inr)
    from flush_appends [OF _ f] b have 1: "sinkBuf b1 = []" "sinkBufSize b1 = sinkBufSize b"
        "ok (sinkUnder b1)" "written (sinkUnder b1) = bwritten b"
      by auto
    from put_appends [OF 1(3) u] 1 b b' show ?thesis by (auto simp del: append_assoc)
  qed (use b c in \<open>auto simp: call_buffers\<close>)
qed

end

context reliable_sink
begin

lemma flush_returns:
  "ok (sinkUnder b) \<Longrightarrow> \<exists>b'. BufferedSink_flush put b = Inr b'"
  using put_returns [of "sinkUnder b" "sinkBuf b"] by (auto simp: BufferedSink_flush_def)

lemma buffered_reliable_sink: "reliable_sink (BufferedSink_call put) bwritten bok"
proof (intro reliable_sink.intro reliable_sink_axioms.intro buffered_sink)
  fix b :: "'s BufferedSink" and d :: bytes
  assume b: "bok b"
  consider "d = []" | "length (sinkBuf b) + length d < sinkBufSize b"
    | "d \<noteq> []" "sinkBufSize b \<le> length (sinkBuf b) + length d"
    by fastforce
  then show "\<exists>b'. BufferedSink_call put d b = Inr b'"
  proof cases
    case 3
    from b flush_returns [of b] obtain b1 where f: "BufferedSink_flush put b = Inr b1" by auto
    with flush_appends b have "ok (sinkUnder b1)" by blast
    with put_returns [of "sinkUnder b1" d] 3 f show ?thesis
      by (auto simp: call_passes)
  qed (auto simp: call_buffers)
qed

text \<open>Any sequence of calls followed by a flush has handed the concatenation to \<^verbatim>\<open>write\<close>.\<close>

lemma buffered_calls_flush:
  assumes "ok u" and "0 < n"
  shows "\<exists>c. bindE (foldE (BufferedSink_call put) ds (BufferedSink_new n u)) (BufferedSink_flush put)
      = Inr (BufferedSink_new n c) \<and> ok c \<and> written c = written u @ concat ds"
proof -
  note buffered = buffered_reliable_sink
  let ?b = "BufferedSink_new n u"
  have "reliable_sink.delivers bwritten bok (foldE (BufferedSink_call put) ds) (concat (map (\<lambda>d. d) ds))"
    by (intro reliable_sink.delivers_fold [OF buffered] reliable_sink.delivers_put [OF buffered])
  moreover have "bok ?b" "bwritten ?b = written u"
    using assms by (simp_all add: BufferedSink_new_def)
  ultimately obtain b where b: "foldE (BufferedSink_call put) ds ?b = Inr b" "bok b"
      "bwritten b = written u @ concat ds"
    unfolding reliable_sink.delivers_def [OF buffered] by fastforce
  have "sinkBufSize b = n"
    using b(1) by (rule foldE_invariant) (auto simp: BufferedSink_new_def dest: call_keeps_size)
  moreover obtain c where c: "BufferedSink_flush put b = Inr c"
    using flush_returns [of b] b(2) by blast
  moreover have "sinkBuf c = []" "sinkBufSize c = sinkBufSize b" "ok (sinkUnder c)"
      "written (sinkUnder c) = bwritten b"
    using flush_appends [OF _ c] b(2) by auto
  ultimately show ?thesis
    using b by (intro exI [of _ "sinkUnder c"]) (simp add: BufferedSink_new_def)
qed

end

text \<open>A buffered source over any source is a source again.\<close>

context source
begin

abbreviation brest :: "'s BufferedSource \<Rightarrow> bytes" where
  "brest b \<equiv> drop (bufPosOut b) (take (bufPosIn b) (srcBuf b)) @ rest (srcUnder b)"

abbreviation bok :: "'s BufferedSource \<Rightarrow> bool" where
  "bok b \<equiv> ok (srcUnder b) \<and> 0 < srcBufSize b \<and> bufPosIn b \<le> length (srcBuf b)
     \<and> (bufPosOut b < bufPosIn b \<or> bufPosIn b = 0 \<and> bufPosOut b = 0)"

lemma buffered_source: "source (BufferedSource_read rd) brest bok"
proof
  fix b :: "'s BufferedSource" and len :: nat
  assume ok: "bok b" and len: "0 < len" and rest: "brest b = []"
  then have "bufPosIn b = 0" by auto
  with ok rest read_end [of "srcUnder b" "srcBufSize b"]
  show "\<exists>m. BufferedSource_read rd len b = Inl (EndOfFile m)"
    by (auto simp: BufferedSource_read_def)
next
  fix b :: "'s BufferedSource" and len :: nat
  assume ok: "bok b" and len: "0 < len" and rest: "brest b \<noteq> []"
  define fill where "fill = (if bufPosIn b = 0
            then bindE (rd (srcBufSize b) (srcUnder b)) (\<lambda>(d, u).
                   Inr (b\<lparr>srcBuf := d, bufPosIn := length d, srcUnder := u\<rparr>))
            else Inr b)"
  obtain c where c: "fill = Inr c" "ok (srcUnder c)" "0 < srcBufSize c"
      "bufPosIn c \<le> length (srcBuf c)" "bufPosOut c < bufPosIn c"
      "brest b = brest c"
  proof (cases "bufPosIn b = 0")
    case True
    with ok rest read_some [of "srcUnder b" "srcBufSize b"] obtain d u where
      "rd (srcBufSize b) (srcUnder b) = Inr (d, u)" "d \<noteq> []" "rest (srcUnder b) = d @ rest u" "ok u"
      by auto
    with True ok that show ?thesis by (auto simp: fill_def)
  next
    case False
    with ok that show ?thesis by (auto simp: fill_def)
  qed
  define n where "n = min len (bufPosIn c - bufPosOut c)"
  have n: "0 < n" "n \<le> len" "n \<le> bufPosIn c - bufPosOut c"
    "(if len > bufPosIn c - bufPosOut c then bufPosIn c - bufPosOut c else len) = n"
    using len c by (auto simp: n_def)
  let ?d = "take n (drop (bufPosOut c) (srcBuf c))"
  have "n + (bufPosIn c - (n + bufPosOut c)) = bufPosIn c - bufPosOut c"
    using n(3) by simp
  then have split: "drop (bufPosOut c) (take (bufPosIn c) (srcBuf c))
      = ?d @ drop (bufPosOut c + n) (take (bufPosIn c) (srcBuf c))"
    using take_add [of n "bufPosIn c - bufPosOut c - n" "drop (bufPosOut c) (srcBuf c)"]
    by (simp add: drop_take add.commute)
  have d: "?d \<noteq> []" "length ?d \<le> len"
    using n c by auto
  show "\<exists>d s'. BufferedSource_read rd len b = Inr (d, s') \<and> d \<noteq> [] \<and> length d \<le> len \<and>
      brest b = d @ brest s' \<and> bok s'"
  proof (cases "bufPosIn c = bufPosOut c + n")
    case True
    then have "BufferedSource_read rd len b = Inr (?d, c\<lparr>bufPosIn := 0, bufPosOut := 0\<rparr>)"
      using c(1) n(4) by (simp add: BufferedSource_read_def fill_def [symmetric] Let_def)
    moreover have "brest c = ?d @ rest (srcUnder c)"
      using split True by simp
    ultimately show ?thesis using d c by auto
  next
    case False
    then have "BufferedSource_read rd len b = Inr (?d, c\<lparr>bufPosOut := bufPosOut c + n\<rparr>)"
      using c(1) n(4) by (simp add: BufferedSource_read_def fill_def [symmetric] Let_def)
    moreover have "brest c = ?d @ brest (c\<lparr>bufPosOut := bufPosOut c + n\<rparr>)"
      using split by simp
    ultimately show ?thesis using d c n False by auto
  qed
qed

end

interpretation string_source: source StringSource_read "\<lambda>s. drop (srcPos s) (srcStr s)"
  "\<lambda>s. srcPos s \<le> length (srcStr s)"
proof
  fix s :: StringSource and len :: nat
  assume ok: "srcPos s \<le> length (srcStr s)" and len: "0 < len"
    and rest: "drop (srcPos s) (srcStr s) \<noteq> []"
  let ?d = "take len (drop (srcPos s) (srcStr s))"
  have "drop (srcPos s) (srcStr s) = ?d @ drop (srcPos s + length ?d) (srcStr s)"
    by (cases "len \<le> length (drop (srcPos s) (srcStr s))") (simp_all flip: drop_drop add: add.commute)
  with ok len rest show "\<exists>d s'. StringSource_read len s = Inr (d, s') \<and> d \<noteq> [] \<and> length d \<le> len
      \<and> drop (srcPos s) (srcStr s) = d @ drop (srcPos s') (srcStr s') \<and> srcPos s' \<le> length (srcStr s')"
    by (auto simp: StringSource_read_def Let_def)
qed (auto simp: StringSource_read_def)

text \<open>
  A descriptor that never fails, whatever short reads and interruptions the kernel produces; the
  buffered \<^verbatim>\<open>FdSource\<close> of the code is \<open>fd_source.buffered\<close>.
\<close>

lemma read_fd_some:
  "Fail \<notin> set as \<Longrightarrow> ds \<noteq> [] \<Longrightarrow> 0 < len \<Longrightarrow>
   \<exists>k as'. 0 < k \<and> k \<le> len \<and> read_fd len ds as = Inr (take k ds, drop k ds, as') \<and> Fail \<notin> set as'"
proof (induction len ds as rule: read_fd.induct)
  case (3 len ds n as)
  then have "0 < min len (max 1 n) \<and> min len (max 1 n) \<le> len" by simp
  with 3 show ?case by (intro exI [of _ "min len (max 1 n)"] exI [of _ as]) (simp add: Let_def)
qed auto

lemma read_fd_end:
  "Fail \<notin> set as \<Longrightarrow> read_fd len [] as = Inl (EndOfFile ''unexpected end-of-file'')"
  by (induction len "[] :: bytes" as rule: read_fd.induct) auto

interpretation fd_source: source FdSource_readUnbuffered fdData "\<lambda>f. Fail \<notin> set (fdAnswers f)"
proof
  fix f :: fd_in and len :: nat
  assume ok: "Fail \<notin> set (fdAnswers f)" and len: "0 < len" and rest: "fdData f \<noteq> []"
  from read_fd_some [OF ok rest len] obtain k as' where
    "0 < k" "k \<le> len" "read_fd len (fdData f) (fdAnswers f) = Inr (take k (fdData f), drop k (fdData f), as')"
    "Fail \<notin> set as'" by blast
  with rest show "\<exists>d s'. FdSource_readUnbuffered len f = Inr (d, s') \<and> d \<noteq> [] \<and> length d \<le> len
      \<and> fdData f = d @ fdData s' \<and> Fail \<notin> set (fdAnswers s')"
    by (auto simp: FdSource_readUnbuffered_def)
qed (auto simp: FdSource_readUnbuffered_def read_fd_end)

interpretation buffered_fd_source: source "BufferedSource_read FdSource_readUnbuffered"
  fd_source.brest fd_source.bok
  by (rule fd_source.buffered_source)

interpretation buffered_string_sink: reliable_sink "BufferedSink_call StringSink_call"
  string_sink.bwritten string_sink.bok
  by (rule string_sink.buffered_reliable_sink)

subsection \<open>Properties\<close>



text \<open>
  C18: The encoding is canonical: whatever input \<^verbatim>\<open>readString\<close> accepts, the bytes it consumed
  are exactly what \<^verbatim>\<open>writeString\<close> writes for the string it returned, so no two encodings of a
  string exist (non-zero padding and 64-bit lengths are refused).
\<close>

theorem readString_accepts_only_wire_format:
  assumes "readString StringSource_read \<lparr>srcStr = input, srcPos = 0\<rparr> = Inr (str, s')"
  shows "\<exists>out. writeString StringSink_call str [] = Inr out \<and> input = out @ drop (srcPos s') (srcStr s')"
proof -
  have "input = wire_string str @ drop (srcPos s') (srcStr s')"
    using string_source.readString_canonical [OF _ assms] by simp
  moreover obtain out where "writeString StringSink_call str [] = Inr out" "out = wire_string str"
    using string_sink.delivers_writeString [of str] by (auto simp: string_sink.delivers_def)
  ultimately show ?thesis by blast
qed

theorem readString_accepts_only_wire_format_witness:
  "\<exists>s' out. readString StringSource_read
      \<lparr>srcStr = [1, 0, 0, 0, 0, 0, 0, 0, 65, 0, 0, 0, 0, 0, 0, 0, 9], srcPos = 0\<rparr> = Inr (''A'', s') \<and>
    writeString StringSink_call ''A'' [] = Inr out \<and>
    [1, 0, 0, 0, 0, 0, 0, 0, 65, 0, 0, 0, 0, 0, 0, 0, 9] = out @ drop (srcPos s') (srcStr s')"
proof -
  let ?in = "[1, 0, 0, 0, 0, 0, 0, 0, 65, 0, 0, 0, 0, 0, 0, 0, 9] :: bytes"
  have "readString StringSource_read \<lparr>srcStr = ?in, srcPos = 0\<rparr>
      = Inr (''A'', \<lparr>srcStr = ?in, srcPos = 16\<rparr>)"
    by code_simp
  from this readString_accepts_only_wire_format [OF this] show ?thesis by blast
qed

text \<open>
  C19: A buffered sink loses, duplicates and reorders nothing: after any sequence of calls and a
  final \<^verbatim>\<open>flush\<close>, the underlying \<^verbatim>\<open>write\<close> has received the concatenation of all the data and the
  buffer is empty, for every buffer size.
\<close>

theorem BufferedSink_calls_flush:
  assumes "0 < n"
  shows "bindE (foldE (BufferedSink_call StringSink_call) ds (BufferedSink_new n []))
      (BufferedSink_flush StringSink_call) = Inr (BufferedSink_new n (concat ds))"
  using string_sink.buffered_calls_flush [OF _ assms, where u = "[]" and ds = ds] by auto

theorem BufferedSink_calls_flush_witness:
  "bindE (foldE (BufferedSink_call StringSink_call) [[1, 2], [3, 4, 5, 6], [], [7]] (BufferedSink_new 3 []))
      (BufferedSink_flush StringSink_call) = Inr (BufferedSink_new 3 [1, 2, 3, 4, 5, 6, 7])"
  using BufferedSink_calls_flush [of 3 "[[1, 2], [3, 4, 5, 6], [], [7]]"] by simp

end
