(* ===== verification/Hashes.thy ===== *)
theory Hashes
  imports Serialise
begin

text \<open>
  Cryptographic hashes of \<^verbatim>\<open>src/libutil/hash.cc\<close>: the hash object, its base-16 and base-32
  representations, compression, hash types, and the hashing sink.

  The digest algorithms (OpenSSL) are not part of the program's own code; they are the parameter
  \<open>dg\<close>, a record of \<^verbatim>\<open>Init\<close>, \<^verbatim>\<open>Update\<close> and \<^verbatim>\<open>Final\<close>, and \<open>digest_ok\<close> states what their documentation
  promises.
\<close>

unbundle bit_operations_syntax

subsection \<open>Hash objects\<close>

datatype HashType = htUnknown | htMD5 | htSHA1 | htSHA256

record Hash =
  hashSize :: nat
  hash :: bytes
  hashType :: HashType

definition maxHashSize :: nat where
  "maxHashSize = 32"

definition Hash_unusable :: Hash where
  "Hash_unusable = \<lparr>hashSize = 0, hash = replicate maxHashSize 0, hashType = htUnknown\<rparr>"

fun typeSize :: "HashType \<Rightarrow> nat res" where
  "typeSize htMD5 = Inr 16"
| "typeSize htSHA1 = Inr 20"
| "typeSize htSHA256 = Inr 32"
| "typeSize htUnknown = Inl (Error ''unknown hash type'')"

definition Hash_new :: "HashType \<Rightarrow> Hash res" where
  "Hash_new ht = bindE (typeSize ht) (\<lambda>n.
     bindE (guardE (n \<le> maxHashSize) (AssertFail ''hashSize <= maxHashSize'')) (\<lambda>_.
       Inr \<lparr>hashSize = n, hash = replicate maxHashSize 0, hashType = ht\<rparr>))"

definition hash_eq :: "Hash \<Rightarrow> Hash \<Rightarrow> bool" where
  "hash_eq h1 h2 =
     (if hashSize h1 \<noteq> hashSize h2 then False
      else list_all (\<lambda>i. hash h1 ! i = hash h2 ! i) [0..<hashSize h1])"

definition hash_neq :: "Hash \<Rightarrow> Hash \<Rightarrow> bool" where
  "hash_neq h1 h2 = (\<not> hash_eq h1 h2)"

fun hash_less_loop :: "Hash \<Rightarrow> Hash \<Rightarrow> nat list \<Rightarrow> bool" where
  "hash_less_loop h1 h2 [] = False"
| "hash_less_loop h1 h2 (i # is) =
     (if hash h1 ! i < hash h2 ! i then True
      else if hash h1 ! i > hash h2 ! i then False
      else hash_less_loop h1 h2 is)"

definition hash_less :: "Hash \<Rightarrow> Hash \<Rightarrow> bool" where
  "hash_less h1 h2 = hash_less_loop h1 h2 [0..<hashSize h1]"

subsection \<open>Base 16\<close>

definition base16Chars :: string where
  "base16Chars = ''0123456789abcdef''"

definition printHash :: "Hash \<Rightarrow> string" where
  "printHash h = concat (map (\<lambda>i.
     [base16Chars ! unat (drop_bit 4 (hash h ! i)), base16Chars ! unat (hash h ! i AND 0x0f)])
     [0..<hashSize h])"

text \<open>\<^verbatim>\<open>isxdigit\<close>, and the value \<^verbatim>\<open>std::hex\<close> extracts for a digit.\<close>

definition isxdigit :: "char \<Rightarrow> bool" where
  "isxdigit c \<longleftrightarrow> (CHR ''0'' \<le> c \<and> c \<le> CHR ''9'') \<or> (CHR ''a'' \<le> c \<and> c \<le> CHR ''f'')
     \<or> (CHR ''A'' \<le> c \<and> c \<le> CHR ''F'')"

definition xdigit_value :: "char \<Rightarrow> nat" where
  "xdigit_value c =
     (if c \<le> CHR ''9'' then of_char c - of_char (CHR ''0'')
      else if c \<le> CHR ''F'' then of_char c - of_char (CHR ''A'') + 10
      else of_char c - of_char (CHR ''a'') + 10)"

definition parseHash :: "HashType \<Rightarrow> string \<Rightarrow> Hash res" where
  "parseHash ht s =
     bindE (Hash_new ht) (\<lambda>h.
       if length s \<noteq> hashSize h * 2 then Inl (Error (''invalid hash `'' @ s @ [CHR 0x27]))
       else foldE (\<lambda>i h.
         let c0 = s ! (i * 2); c1 = s ! (i * 2 + 1)
         in if \<not> isxdigit c0 \<or> \<not> isxdigit c1 then Inl (Error (''invalid hash `'' @ s @ [CHR 0x27]))
            else Inr (h\<lparr>hash := (hash h)[i := of_nat (16 * xdigit_value c0 + xdigit_value c1)]\<rparr>))
         [0..<hashSize h] h)"

subsection \<open>Base 32\<close>

text \<open>
  \<^verbatim>\<open>divMod\<close> divides the number whose little-endian bytes are \<open>bytes\<close>.  Its \<^verbatim>\<open>int pos\<close> runs downwards;
  the argument \<open>n\<close> of the loops is \<^verbatim>\<open>pos + 1\<close>.
\<close>

fun divMod_skip :: "bytes \<Rightarrow> nat \<Rightarrow> nat" where
  "divMod_skip bs 0 = 0"
| "divMod_skip bs (Suc pos) = (if bs ! pos = 0 then divMod_skip bs pos else Suc pos)"

fun divMod_loop :: "bytes \<Rightarrow> byte \<Rightarrow> nat \<Rightarrow> u32 \<Rightarrow> bytes \<times> u32" where
  "divMod_loop bs y 0 borrow = (bs, borrow)"
| "divMod_loop bs y (Suc pos) borrow =
     (let s = ucast (bs ! pos) + push_bit 8 borrow;
          d = s div ucast y
      in divMod_loop (bs[pos := ucast d]) y pos (s mod ucast y))"

definition divMod :: "bytes \<Rightarrow> byte \<Rightarrow> bytes \<times> byte" where
  "divMod bs y =
     (let (bs', borrow) = divMod_loop bs y (divMod_skip bs maxHashSize) 0 in (bs', ucast borrow))"

definition hashLength32 :: "Hash \<Rightarrow> nat" where
  "hashLength32 h = unat (((of_nat (hashSize h) * 8 - 1) div 5 + 1) :: u32)"

definition base32Chars :: string where
  "base32Chars = ''0123456789abcdfghijklmnpqrsvwxyz''"

fun printHash32_loop :: "nat \<Rightarrow> bytes \<Rightarrow> string \<Rightarrow> bytes \<times> string" where
  "printHash32_loop 0 bs s = (bs, s)"
| "printHash32_loop (Suc pos) bs s =
     (let (bs', digit) = divMod bs 32
      in printHash32_loop pos bs' (s[pos := base32Chars ! unat digit]))"

definition printHash32 :: "Hash \<Rightarrow> string res" where
  "printHash32 h =
     (let len = hashLength32 h;
          (bs, s) = printHash32_loop len (hash h) (replicate len (CHR ''0''))
      in if list_all (\<lambda>b. b = 0) bs then Inr s else Inl (AssertFail ''hash2.hash[i] == 0''))"

definition printHash16or32 :: "Hash \<Rightarrow> string res" where
  "printHash16or32 h = (if hashType h = htMD5 then Inr (printHash h) else printHash32 h)"

text \<open>\<open>k\<close> counts the positions left, from \<open>pos\<close> up to \<^verbatim>\<open>maxSize\<close>.\<close>

fun mul_loop :: "bytes \<Rightarrow> byte \<Rightarrow> nat \<Rightarrow> nat \<Rightarrow> byte \<Rightarrow> bytes \<times> byte" where
  "mul_loop bs y pos 0 carry = (bs, carry)"
| "mul_loop bs y pos (Suc k) carry =
     (let m = ucast (bs ! pos) * ucast y + ucast carry :: u32
      in mul_loop (bs[pos := ucast (m AND 0xff)]) y (Suc pos) k (ucast (drop_bit 8 m)))"

definition mul :: "bytes \<Rightarrow> byte \<Rightarrow> nat \<Rightarrow> bytes \<times> bool" where
  "mul bs y maxSize = (let (bs', carry) = mul_loop bs y 0 maxSize 0 in (bs', carry \<noteq> 0))"

fun add_loop :: "bytes \<Rightarrow> nat \<Rightarrow> nat \<Rightarrow> byte \<Rightarrow> bytes \<times> byte" where
  "add_loop bs pos 0 carry = (bs, carry)"
| "add_loop bs pos (Suc k) carry =
     (let m = ucast (bs ! pos) + ucast carry :: u32;
          bs' = bs[pos := ucast (m AND 0xff)];
          carry' = ucast (drop_bit 8 m)
      in if carry' = 0 then (bs', carry') else add_loop bs' (Suc pos) k carry')"

definition add :: "bytes \<Rightarrow> byte \<Rightarrow> nat \<Rightarrow> bytes \<times> bool" where
  "add bs y maxSize = (let (bs', carry) = add_loop bs 0 maxSize y in (bs', carry \<noteq> 0))"

text \<open>The search loop over \<^verbatim>\<open>base32Chars\<close> leaves its size, 32, when the character is not found.\<close>

definition digit_of :: "char \<Rightarrow> nat" where
  "digit_of c = (case find_char c base32Chars of Some i \<Rightarrow> i | None \<Rightarrow> length base32Chars)"

definition parseHash32_step :: "string \<Rightarrow> char \<Rightarrow> Hash \<Rightarrow> Hash res" where
  "parseHash32_step s c h =
     (let digit = digit_of c
      in if digit \<ge> 32 then Inl (Error (''invalid base-32 hash `'' @ s @ [CHR 0x27]))
         else let (bs, over) = mul (hash h) 32 (hashSize h)
              in if over then Inl (Error (''base-32 hash `'' @ s @ [CHR 0x27] @ '' is too large''))
                 else let (bs, over) = add bs (of_nat digit) (hashSize h)
                      in if over then Inl (Error (''base-32 hash `'' @ s @ [CHR 0x27] @ '' is too large''))
                         else Inr (h\<lparr>hash := bs\<rparr>))"

definition parseHash32 :: "HashType \<Rightarrow> string \<Rightarrow> Hash res" where
  "parseHash32 ht s = bindE (Hash_new ht) (foldE (parseHash32_step s) s)"

fun parseHashType :: "string \<Rightarrow> HashType" where
  "parseHashType s =
     (if s = ''md5'' then htMD5 else if s = ''sha1'' then htSHA1
      else if s = ''sha256'' then htSHA256 else htUnknown)"

fun printHashType :: "HashType \<Rightarrow> string res" where
  "printHashType htMD5 = Inr ''md5''"
| "printHashType htSHA1 = Inr ''sha1''"
| "printHashType htSHA256 = Inr ''sha256''"
| "printHashType htUnknown = Inl (Error ''cannot print unknown hash type'')"

definition parseHash16or32 :: "HashType \<Rightarrow> string \<Rightarrow> Hash res" where
  "parseHash16or32 ht s =
     bindE (Hash_new ht) (\<lambda>h.
       if length s = hashSize h * 2 then parseHash ht s
       else if length s = hashLength32 h then parseHash32 ht s
       else bindE (printHashType ht) (\<lambda>t.
         Inl (Error (''hash `'' @ s @ [CHR 0x27] @ '' has wrong length for hash type `'' @ t @ [CHR 0x27]))))"

definition isHash :: "string \<Rightarrow> bool" where
  "isHash s = (if length s \<noteq> 32 then False
     else list_all (\<lambda>c. (CHR ''0'' \<le> c \<and> c \<le> CHR ''9'') \<or> (CHR ''a'' \<le> c \<and> c \<le> CHR ''f'')) s)"

subsection \<open>Hashing\<close>

record 'c digest =
  dInit :: "HashType \<Rightarrow> 'c"
  dUpdate :: "HashType \<Rightarrow> 'c \<Rightarrow> bytes \<Rightarrow> 'c"
  dFinal :: "HashType \<Rightarrow> 'c \<Rightarrow> bytes"

definition start :: "'c digest \<Rightarrow> HashType \<Rightarrow> 'c" where
  "start dg ht = dInit dg ht"

definition update :: "'c digest \<Rightarrow> HashType \<Rightarrow> 'c \<Rightarrow> bytes \<Rightarrow> 'c" where
  "update dg ht ctx data = dUpdate dg ht ctx data"

text \<open>\<^verbatim>\<open>finish\<close> stores the digest at the start of the array.\<close>

definition finish :: "'c digest \<Rightarrow> HashType \<Rightarrow> 'c \<Rightarrow> bytes \<Rightarrow> bytes" where
  "finish dg ht ctx arr = (let d = dFinal dg ht ctx in d @ drop (length d) arr)"

definition hashString :: "'c digest \<Rightarrow> HashType \<Rightarrow> string \<Rightarrow> Hash res" where
  "hashString dg ht s =
     bindE (Hash_new ht) (\<lambda>h.
       let ctx = update dg ht (start dg ht) (to_bytes s)
       in Inr (h\<lparr>hash := finish dg ht ctx (hash h)\<rparr>))"

record 'c HashSink =
  hsType :: HashType
  hsCtx :: 'c
  hsBytes :: u64

definition HashSink_new :: "'c digest \<Rightarrow> HashType \<Rightarrow> 'c HashSink BufferedSink" where
  "HashSink_new dg ht =
     BufferedSink_new 32768 \<lparr>hsType = ht, hsCtx = start dg ht, hsBytes = 0\<rparr>"

definition HashSink_write :: "'c digest \<Rightarrow> bytes \<Rightarrow> 'c HashSink \<Rightarrow> 'c HashSink res" where
  "HashSink_write dg data h =
     Inr (h\<lparr>hsBytes := hsBytes h + of_nat (length data),
            hsCtx := update dg (hsType h) (hsCtx h) data\<rparr>)"

definition HashSink_finish ::
  "'c digest \<Rightarrow> 'c HashSink BufferedSink \<Rightarrow> ((Hash \<times> u64) \<times> 'c HashSink BufferedSink) res" where
  "HashSink_finish dg b =
     bindE (BufferedSink_flush (HashSink_write dg) b) (\<lambda>b.
       let u = sinkUnder b
       in bindE (Hash_new (hsType u)) (\<lambda>h.
            Inr ((h\<lparr>hash := finish dg (hsType u) (hsCtx u) (hash h)\<rparr>, hsBytes u), b)))"

definition HashSink_currentHash ::
  "'c digest \<Rightarrow> 'c HashSink BufferedSink \<Rightarrow> ((Hash \<times> u64) \<times> 'c HashSink BufferedSink) res" where
  "HashSink_currentHash dg b =
     bindE (BufferedSink_flush (HashSink_write dg) b) (\<lambda>b.
       let u = sinkUnder b; ctx2 = hsCtx u
       in bindE (Hash_new (hsType u)) (\<lambda>h.
            Inr ((h\<lparr>hash := finish dg (hsType u) ctx2 (hash h)\<rparr>, hsBytes u), b)))"

text \<open>A new size of zero divides by zero; a hash longer than the array is read past its end.\<close>

definition compressHash :: "Hash \<Rightarrow> nat \<Rightarrow> Hash res" where
  "compressHash h newSize =
     (let h0 = Hash_unusable\<lparr>hashSize := newSize\<rparr>
      in if hashSize h > 0 \<and> newSize = 0 then Inl (Undefined ''division by zero'')
         else if hashSize h > maxHashSize then Inl (Undefined ''array index out of bounds'')
         else Inr (fold (\<lambda>i h'. h'\<lparr>hash := (hash h')[i mod newSize := hash h' ! (i mod newSize) XOR hash h ! i]\<rparr>)
                [0..<hashSize h] h0))"

subsection \<open>The number a hash denotes\<close>

primrec bytes_val :: "bytes \<Rightarrow> nat" where
  "bytes_val [] = 0"
| "bytes_val (b # bs) = unat b + 256 * bytes_val bs"

definition hash_val :: "Hash \<Rightarrow> nat" where
  "hash_val h = bytes_val (hash h)"

text \<open>
  The shape every hash of the program has: the array is full, the bytes past the hash are zero.
  \<open>wf_hash\<close> is a hash whose type is known.
\<close>

definition hash_ok :: "Hash \<Rightarrow> bool" where
  "hash_ok h \<longleftrightarrow> length (hash h) = maxHashSize \<and> 0 < hashSize h \<and> hashSize h \<le> maxHashSize
     \<and> list_all (\<lambda>b. b = 0) (drop (hashSize h) (hash h))"

definition wf_hash :: "Hash \<Rightarrow> bool" where
  "wf_hash h \<longleftrightarrow> hash_ok h \<and> typeSize (hashType h) = Inr (hashSize h)"

lemma unat_byte_less: "unat (b :: byte) < 256"
  using unsigned_less [of b, where 'a = nat] by simp

lemma bytes_val_append: "bytes_val (xs @ ys) = bytes_val xs + 256 ^ length xs * bytes_val ys"
  by (induction xs) (auto simp: algebra_simps)

lemma bytes_val_less: "bytes_val bs < 256 ^ length bs"
proof (induction bs)
  case (Cons b bs)
  have "unat b + 256 * bytes_val bs < 256 * (bytes_val bs + 1)"
    using unat_byte_less [of b] by simp
  also have "\<dots> \<le> 256 * 256 ^ length bs"
    using Cons by simp
  finally show ?case by simp
qed simp

lemma bytes_val_0: "bytes_val bs = 0 \<longleftrightarrow> list_all (\<lambda>b. b = 0) bs"
  by (induction bs) (auto simp: unat_eq_0)

lemma bytes_val_replicate_0 [simp]: "bytes_val (replicate n 0) = 0"
  by (induction n) auto

lemma bytes_val_inj: "length bs = length cs \<Longrightarrow> bytes_val bs = bytes_val cs \<Longrightarrow> bs = cs"
proof (induction bs cs rule: list_induct2)
  case (Cons b bs c cs)
  then have "unat b + 256 * bytes_val bs = unat c + 256 * bytes_val cs" by simp
  then have "(unat b + 256 * bytes_val bs) mod 256 = (unat c + 256 * bytes_val cs) mod 256"
    "(unat b + 256 * bytes_val bs) div 256 = (unat c + 256 * bytes_val cs) div 256" by simp_all
  then have "unat b = unat c" "bytes_val bs = bytes_val cs"
    using unat_byte_less [of b] unat_byte_less [of c] by simp_all
  with Cons show ?case by (simp add: word_unat_eq_iff)
qed simp

lemma bytes_val_split: "bytes_val bs = bytes_val (take n bs) + 256 ^ min n (length bs) * bytes_val (drop n bs)"
  by (metis append_take_drop_id bytes_val_append length_take min.commute)

lemma hash_val_less: "hash_ok h \<Longrightarrow> hash_val h < 256 ^ hashSize h"
  using bytes_val_split [of "hash h" "hashSize h"] bytes_val_less [of "take (hashSize h) (hash h)"]
    bytes_val_0 [of "drop (hashSize h) (hash h)"]
  by (simp add: hash_ok_def hash_val_def min_def split: if_splits)

lemma typeSize_pos: "typeSize ht = Inr n \<Longrightarrow> 0 < n \<and> n \<le> maxHashSize"
  by (cases ht) (auto simp: maxHashSize_def)

lemma Hash_new_eq:
  "Hash_new ht = bindE (typeSize ht) (\<lambda>n. Inr \<lparr>hashSize = n, hash = replicate maxHashSize 0, hashType = ht\<rparr>)"
  by (cases ht) (auto simp: Hash_new_def maxHashSize_def)

lemma Hash_new_wf:
  assumes "Hash_new ht = Inr h"
  shows "wf_hash h" and "hashType h = ht" and "hash_val h = 0" and "typeSize ht = Inr (hashSize h)"
proof -
  from assms obtain n where n: "typeSize ht = Inr n"
    and h: "h = \<lparr>hashSize = n, hash = replicate maxHashSize 0, hashType = ht\<rparr>"
    by (auto simp: Hash_new_eq bindE_eq_Inr)
  show "wf_hash h" "hashType h = ht" "hash_val h = 0" "typeSize ht = Inr (hashSize h)"
    using n typeSize_pos [OF n]
    by (auto simp: h wf_hash_def hash_ok_def hash_val_def list_all_iff)
qed

text \<open>Two well-formed hashes with the same type and the same number are the same object.\<close>

lemma wf_hash_eqI:
  assumes "wf_hash h" and "wf_hash k" and "hashType h = hashType k" and "hash_val h = hash_val k"
  shows "h = k"
  using assms bytes_val_inj [of "hash h" "hash k"]
  by (auto simp: wf_hash_def hash_ok_def hash_val_def intro: Hash.equality)

subsection \<open>Division\<close>

lemma unat_ucast_byte [simp]: "unat (ucast (b :: byte) :: u32) = unat b"
proof -
  have "unat b < 2 ^ 32" using unat_byte_less [of b] by simp
  then show ?thesis by (simp add: unsigned_ucast_eq take_bit_nat_eq_self)
qed

lemma divMod_step:
  fixes b y :: byte and borrow :: u32
  assumes "borrow < ucast y" and "0 < y"
  defines "s \<equiv> ucast b + push_bit 8 borrow :: u32"
  shows "unat s = unat b + 256 * unat borrow"
    and "unat (ucast (s div ucast y) :: byte) = unat s div unat y"
    and "s mod ucast y < ucast y"
    and "unat (s mod ucast y) = unat s mod unat y"
proof -
  have bo: "unat borrow < unat y" using assms(1) by (simp add: word_less_nat_alt)
  have "unat (push_bit 8 borrow) = 256 * unat borrow"
    using bo unat_byte_less [of y]
    by (simp add: push_bit_eq_mult unat_word_ariths)
  then show s: "unat s = unat b + 256 * unat borrow"
    using bo unat_byte_less [of y] unat_byte_less [of b] by (simp add: s_def unat_word_ariths)
  show "unat (s mod ucast y) = unat s mod unat y"
    by (simp add: unat_mod_distrib)
  with assms(2) show "s mod ucast y < ucast y"
    by (simp add: word_less_nat_alt)
  have "unat s < 256 * unat y"
    using s bo unat_byte_less [of b] by linarith
  then have "unat s div unat y < 256"
    by (simp add: less_mult_imp_div_less)
  then show "unat (ucast (s div ucast y) :: byte) = unat s div unat y"
    by (simp add: unsigned_ucast_eq unat_div_distrib take_bit_nat_eq_self)
qed

lemma mult_by_divMod: "(a :: nat) * s = a * (s mod y) + y * (a * (s div y))"
proof -
  have "a * s = a * (s mod y + y * (s div y))" by simp
  also have "\<dots> = a * (s mod y) + y * (a * (s div y))" by (simp only: distrib_left mult.left_commute)
  finally show ?thesis .
qed

lemma divMod_loop_correct:
  assumes "n \<le> length bs" and "borrow < ucast y" and "0 < y" and "divMod_loop bs y n borrow = (bs', r)"
  shows "length bs' = length bs \<and> drop n bs' = drop n bs \<and> r < ucast y
    \<and> bytes_val (take n bs) + 256 ^ n * unat borrow = unat y * bytes_val (take n bs') + unat r"
  using assms
proof (induction n arbitrary: bs borrow)
  case (Suc pos)
  define s where "s = ucast (bs ! pos) + push_bit 8 borrow"
  let ?d = "ucast (s div ucast y) :: byte"
  have step: "unat s = unat (bs ! pos) + 256 * unat borrow" "unat ?d = unat s div unat y"
      "s mod ucast y < ucast y" "unat (s mod ucast y) = unat s mod unat y"
    using divMod_step [OF Suc.prems(2,3), of "bs ! pos"] by (simp_all add: s_def)
  have rec: "divMod_loop (bs[pos := ?d]) y pos (s mod ucast y) = (bs', r)"
    using Suc.prems(4) by (simp add: s_def Let_def)
  from Suc.IH [OF _ step(3) Suc.prems(3) rec] Suc.prems(1)
  have IH: "length bs' = length bs" "drop pos bs' = drop pos (bs[pos := ?d])" "r < ucast y"
    "bytes_val (take pos bs) + 256 ^ pos * (unat s mod unat y) = unat y * bytes_val (take pos bs') + unat r"
    using step(4) by auto
  have "drop pos (bs[pos := ?d]) = ?d # drop (Suc pos) bs"
    using Suc.prems(1) by (simp add: drop_update_swap Cons_nth_drop_Suc [symmetric])
  with IH(2) have pos: "bs' ! pos = ?d" "drop (Suc pos) bs' = drop (Suc pos) bs"
    using Suc.prems(1) IH(1) by (metis Cons_nth_drop_Suc Suc_le_lessD list.inject)+
  have "bytes_val (take (Suc pos) bs) + 256 ^ Suc pos * unat borrow
      = bytes_val (take pos bs) + 256 ^ pos * unat s"
    using Suc.prems(1) step(1) by (simp add: take_Suc_conv_app_nth bytes_val_append algebra_simps)
  also have "256 ^ pos * unat s = 256 ^ pos * (unat s mod unat y) + unat y * (256 ^ pos * (unat s div unat y))"
    by (rule mult_by_divMod)
  also have "bytes_val (take pos bs) + (256 ^ pos * (unat s mod unat y) + unat y * (256 ^ pos * (unat s div unat y)))
      = unat y * bytes_val (take (Suc pos) bs') + unat r"
    using IH(4) Suc.prems(1) IH(1) pos(1) step(2)
    by (simp add: take_Suc_conv_app_nth bytes_val_append algebra_simps)
  finally show ?case using IH pos by simp
qed simp

lemma divMod_skip_correct:
  "divMod_skip bs n \<le> n \<and> (\<forall>i. divMod_skip bs n \<le> i \<and> i < n \<longrightarrow> bs ! i = 0)"
  by (induction n) (auto simp: less_Suc_eq)

text \<open>\<^verbatim>\<open>divMod\<close> divides the whole array, the skipped leading zeros included.\<close>

lemma divMod_correct:
  assumes "length bs = maxHashSize" and "0 < y" and "divMod bs y = (bs', r)"
  shows "length bs' = maxHashSize \<and> bytes_val bs = unat y * bytes_val bs' + unat r \<and> r < y"
proof -
  define n where "n = divMod_skip bs maxHashSize"
  obtain r' where loop: "divMod_loop bs y n 0 = (bs', r')" and r: "r = ucast r'"
    using assms(3) by (auto simp: divMod_def n_def split: prod.splits)
  have n: "n \<le> length bs" "\<forall>b\<in>set (drop n bs). b = 0"
    using divMod_skip_correct [of bs maxHashSize] assms(1)
    by (auto simp: n_def in_set_conv_nth)
  have "(0 :: u32) < ucast y"
    using assms(2) by (simp add: word_less_nat_alt)
  from divMod_loop_correct [OF n(1) this assms(2) loop]
  have c: "length bs' = length bs" "drop n bs' = drop n bs" "r' < ucast y"
    "bytes_val (take n bs) = unat y * bytes_val (take n bs') + unat r'"
    by auto
  have z: "bytes_val (drop n bs) = 0"
    using n(2) by (simp add: bytes_val_0 list_all_iff)
  have "bytes_val bs = bytes_val (take n bs)" "bytes_val bs' = bytes_val (take n bs')"
    using bytes_val_split [of bs n] bytes_val_split [of bs' n] z c(2) by simp_all
  moreover have "unat r' < unat y"
    using c(3) by (simp add: word_less_nat_alt)
  moreover from this have "unat r = unat r'"
    using unat_byte_less [of y] by (simp add: r unsigned_ucast_eq take_bit_nat_eq_self)
  ultimately show ?thesis
    using c assms(1) by (simp add: word_less_nat_alt)
qed

subsection \<open>Printing in base 32\<close>

definition b32_val :: "string \<Rightarrow> nat" where
  "b32_val s = foldl (\<lambda>n c. 32 * n + digit_of c) 0 s"

lemma b32_val_snoc: "b32_val (s @ [c]) = 32 * b32_val s + digit_of c"
  by (simp add: b32_val_def)

lemma base32Chars_facts: "length base32Chars = 32" "distinct base32Chars"
  by (simp_all add: base32Chars_def)

lemma nth_notin_take: "distinct xs \<Longrightarrow> i < length xs \<Longrightarrow> xs ! i \<notin> set (take i xs)"
  by (metis distinct_append id_take_nth_drop not_distinct_conv_prefix)

lemma digit_of_nth: "d < 32 \<Longrightarrow> digit_of (base32Chars ! d) = d"
proof -
  assume "d < 32"
  then have "find_char (base32Chars ! d) base32Chars = Some d"
    using base32Chars_facts by (simp add: find_char_Some nth_notin_take)
  then show ?thesis by (simp add: digit_of_def)
qed

lemma digit_of_less: "digit_of c < 32 \<longleftrightarrow> c \<in> set base32Chars"
proof (cases "find_char c base32Chars")
  case None
  then show ?thesis
    using find_char_None [of c base32Chars] by (simp add: digit_of_def base32Chars_facts)
next
  case (Some i)
  then have "i < 32" "base32Chars ! i = c"
    by (simp_all add: find_char_Some base32Chars_facts)
  with Some show ?thesis
    using nth_mem [of i base32Chars] by (simp add: digit_of_def base32Chars_facts)
qed

lemma printHash32_loop_correct:
  assumes "length bs = maxHashSize" and "n \<le> length s" and "printHash32_loop n bs s = (bs', s')"
  shows "length bs' = maxHashSize \<and> length s' = length s \<and> drop n s' = drop n s
    \<and> set (take n s') \<subseteq> set base32Chars
    \<and> bytes_val bs = 32 ^ n * bytes_val bs' + b32_val (take n s')"
  using assms
proof (induction n arbitrary: bs s)
  case 0
  then show ?case by (simp add: b32_val_def)
next
  case (Suc pos)
  obtain bs1 d where d: "divMod bs 32 = (bs1, d)" by fastforce
  from divMod_correct [OF Suc.prems(1) _ d] have 1: "length bs1 = maxHashSize"
      "bytes_val bs = 32 * bytes_val bs1 + unat d" "unat d < 32"
    by (auto simp: word_less_nat_alt)
  let ?s = "s[pos := base32Chars ! unat d]"
  from Suc.prems(3) d have rec: "printHash32_loop pos bs1 ?s = (bs', s')" by simp
  from Suc.IH [OF 1(1) _ rec] Suc.prems(2) have IH: "length bs' = maxHashSize" "length s' = length s"
      "drop pos s' = drop pos ?s" "set (take pos s') \<subseteq> set base32Chars"
      "bytes_val bs1 = 32 ^ pos * bytes_val bs' + b32_val (take pos s')"
    by auto
  have "drop pos ?s = base32Chars ! unat d # drop (Suc pos) s"
    using Suc.prems(2) by (simp add: drop_update_swap Cons_nth_drop_Suc [symmetric])
  with IH(2,3) have p: "s' ! pos = base32Chars ! unat d" "drop (Suc pos) s' = drop (Suc pos) s"
    using Suc.prems(2) by (metis Cons_nth_drop_Suc Suc_le_lessD list.inject)+
  have t: "take (Suc pos) s' = take pos s' @ [base32Chars ! unat d]"
    using Suc.prems(2) IH(2) p(1) by (simp add: take_Suc_conv_app_nth)
  have "base32Chars ! unat d \<in> set base32Chars"
    using 1(3) base32Chars_facts(1) by simp
  with IH p t 1 show ?case
    by (simp add: b32_val_snoc digit_of_nth algebra_simps)
qed

subsection \<open>Multiplication and addition\<close>

lemma mul_step:
  fixes b y carry :: byte
  defines "m \<equiv> ucast b * ucast y + ucast carry :: u32"
  shows "unat m = unat b * unat y + unat carry"
    and "unat (ucast (m AND 0xff) :: byte) = unat m mod 256"
    and "unat (ucast (drop_bit 8 m) :: byte) = unat m div 256"
proof -
  have "unat b * unat y \<le> 255 * 255"
    using unat_byte_less [of b] unat_byte_less [of y] by (intro mult_le_mono) simp_all
  then have le: "unat b * unat y + unat carry \<le> 65280"
    using unat_byte_less [of carry] by simp
  then show m: "unat m = unat b * unat y + unat carry"
    by (simp add: m_def unat_word_ariths)
  show "unat (ucast (m AND 0xff) :: byte) = unat m mod 256"
    by (simp add: masked_low_byte unsigned_ucast_eq unsigned_take_bit_eq take_bit_eq_mod unat_mod_distrib)
  show "unat (ucast (drop_bit 8 m) :: byte) = unat m div 256"
    using le by (simp add: unsigned_ucast_eq unsigned_drop_bit_eq drop_bit_eq_div take_bit_eq_mod
        unat_div_distrib m)
qed

lemma take_Suc_drop: "pos < length bs \<Longrightarrow> take (Suc k) (drop pos bs) = bs ! pos # take k (drop (Suc pos) bs)"
  by (metis Cons_nth_drop_Suc take_Suc_Cons)

lemma mul_loop_correct:
  assumes "pos + k \<le> length bs" and "mul_loop bs y pos k carry = (bs', c')"
  shows "length bs' = length bs \<and> take pos bs' = take pos bs \<and> drop (pos + k) bs' = drop (pos + k) bs
    \<and> bytes_val (take k (drop pos bs)) * unat y + unat carry
        = bytes_val (take k (drop pos bs')) + 256 ^ k * unat c'"
  using assms
proof (induction k arbitrary: bs pos carry)
  case (Suc k)
  define m where "m = (ucast (bs ! pos) * ucast y + ucast carry :: u32)"
  let ?lo = "ucast (m AND 0xff) :: byte" and ?hi = "ucast (drop_bit 8 m) :: byte"
  note step = mul_step [of "bs ! pos" y carry, folded m_def]
  have pos: "pos < length bs" using Suc.prems(1) by simp
  have rec: "mul_loop (bs[pos := ?lo]) y (Suc pos) k ?hi = (bs', c')"
    using Suc.prems(2) by (simp add: m_def Let_def)
  from Suc.IH [OF _ rec] Suc.prems(1)
  have IH: "length bs' = length bs" "take (Suc pos) bs' = take (Suc pos) (bs[pos := ?lo])"
    "drop (pos + Suc k) bs' = drop (pos + Suc k) bs"
    "bytes_val (take k (drop (Suc pos) bs)) * unat y + unat ?hi
       = bytes_val (take k (drop (Suc pos) bs')) + 256 ^ k * unat c'"
    by auto
  have lo: "bs' ! pos = ?lo"
    using IH(2) pos by (metis length_list_update lessI nth_list_update_eq nth_take)
  have low: "take pos bs' = take pos bs"
    using arg_cong [OF IH(2), of "take pos"] by simp
  have "bytes_val (take (Suc k) (drop pos bs)) * unat y + unat carry
      = unat m + 256 * (bytes_val (take k (drop (Suc pos) bs)) * unat y)"
    using pos step(1) by (simp add: take_Suc_drop algebra_simps)
  also have "unat m = unat ?lo + 256 * unat ?hi"
    using step(2,3) by simp
  also have "unat ?lo + 256 * unat ?hi + 256 * (bytes_val (take k (drop (Suc pos) bs)) * unat y)
      = bytes_val (take (Suc k) (drop pos bs')) + 256 ^ Suc k * unat c'"
    using IH(1,4) pos lo by (simp add: take_Suc_drop algebra_simps)
  finally show ?case using IH low by simp
qed simp

lemma mul_loop_one_zero: "pos + k \<le> length bs \<Longrightarrow> mul_loop bs 1 pos k 0 = (bs, 0)"
proof (induction k arbitrary: pos)
  case (Suc k)
  have "ucast ((ucast (bs ! pos) :: u32) AND 0xff) = bs ! pos"
    "ucast (drop_bit 8 (ucast (bs ! pos) :: u32)) = (0 :: byte)"
    using unat_byte_less [of "bs ! pos"]
    by (simp_all add: masked_low_byte word_unat_eq_iff unsigned_ucast_eq unsigned_take_bit_eq
        unsigned_drop_bit_eq take_bit_eq_mod drop_bit_eq_div unat_mod_distrib unat_div_distrib)
  with Suc show ?case by simp
qed simp

text \<open>The early exit of \<^verbatim>\<open>add\<close> changes nothing: it is multiplication by one with an initial carry.\<close>

lemma add_loop_mul: "pos + k \<le> length bs \<Longrightarrow> add_loop bs pos k carry = mul_loop bs 1 pos k carry"
proof (induction k arbitrary: bs pos carry)
  case (Suc k)
  then show ?case
    by (auto simp: Let_def mul_loop_one_zero)
qed simp

lemma mul_add_correct:
  assumes "n \<le> length bs"
  shows "mul bs y n = (bs1, o1) \<Longrightarrow>
      \<exists>c. length bs1 = length bs \<and> drop n bs1 = drop n bs \<and> o1 = (c \<noteq> (0 :: nat)) \<and>
        bytes_val (take n bs) * unat y = bytes_val (take n bs1) + 256 ^ n * c"
    and "add bs y n = (bs1, o1) \<Longrightarrow>
      \<exists>c. length bs1 = length bs \<and> drop n bs1 = drop n bs \<and> o1 = (c \<noteq> (0 :: nat)) \<and>
        bytes_val (take n bs) + unat y = bytes_val (take n bs1) + 256 ^ n * c"
proof -
  assume "mul bs y n = (bs1, o1)"
  then obtain c where c: "mul_loop bs y 0 n 0 = (bs1, c)" "o1 = (c \<noteq> 0)"
    by (auto simp: mul_def split: prod.splits)
  from mul_loop_correct [OF _ c(1)] assms c(2)
  show "\<exists>c. length bs1 = length bs \<and> drop n bs1 = drop n bs \<and> o1 = (c \<noteq> (0 :: nat)) \<and>
        bytes_val (take n bs) * unat y = bytes_val (take n bs1) + 256 ^ n * c"
    by (intro exI [of _ "unat c"]) (auto simp: unat_eq_0)
next
  assume "add bs y n = (bs1, o1)"
  then obtain c where c: "mul_loop bs 1 0 n y = (bs1, c)" "o1 = (c \<noteq> 0)"
    using assms by (auto simp: add_def add_loop_mul split: prod.splits)
  from mul_loop_correct [OF _ c(1)] assms c(2)
  show "\<exists>c. length bs1 = length bs \<and> drop n bs1 = drop n bs \<and> o1 = (c \<noteq> (0 :: nat)) \<and>
        bytes_val (take n bs) + unat y = bytes_val (take n bs1) + 256 ^ n * c"
    by (intro exI [of _ "unat c"]) (auto simp: unat_eq_0)
qed

subsection \<open>Parsing base 32\<close>

lemma hash_ok_val_take: "hash_ok h \<Longrightarrow> hash_val h = bytes_val (take (hashSize h) (hash h))"
  using bytes_val_split [of "hash h" "hashSize h"] bytes_val_0 [of "drop (hashSize h) (hash h)"]
  by (simp add: hash_ok_def hash_val_def)

lemma hash_ok_eqI:
  assumes "hash_ok h" and "hash_ok k" and "hashSize h = hashSize k" and "hashType h = hashType k"
    and "hash_val h = hash_val k"
  shows "h = k"
proof -
  have "hash h = hash k"
    using assms by (intro bytes_val_inj) (auto simp: hash_ok_def hash_val_def)
  with assms show ?thesis by (auto intro: Hash.equality)
qed

primrec bytes_of :: "nat \<Rightarrow> nat \<Rightarrow> bytes" where
  "bytes_of 0 n = []"
| "bytes_of (Suc k) n = of_nat n # bytes_of k (n div 256)"

lemma bytes_val_of: "n < 256 ^ k \<Longrightarrow> bytes_val (bytes_of k n) = n"
proof (induction k arbitrary: n)
  case (Suc k)
  then have "n div 256 < 256 ^ k" by (simp add: less_mult_imp_div_less mult.commute)
  with Suc show ?case by (simp add: unsigned_of_nat take_bit_eq_mod)
qed simp

lemma length_bytes_of [simp]: "length (bytes_of k n) = k"
  by (induction k arbitrary: n) auto

text \<open>Every number that fits is the number of some hash of that size.\<close>

lemma hash_of_val:
  assumes "hash_ok h" and "n < 256 ^ hashSize h"
  shows "\<exists>k. hash_ok k \<and> hashSize k = hashSize h \<and> hashType k = hashType h \<and> hash_val k = n"
proof -
  let ?k = "h\<lparr>hash := bytes_of (hashSize h) n @ replicate (maxHashSize - hashSize h) 0\<rparr>"
  have "hash_ok ?k \<and> hashSize ?k = hashSize h \<and> hashType ?k = hashType h \<and> hash_val ?k = n"
    using assms by (auto simp: hash_ok_def hash_val_def bytes_val_append bytes_val_of list_all_iff)
  then show ?thesis by blast
qed

text \<open>One character: the number is multiplied by 32 and the digit added, or does not fit.\<close>

lemma parseHash32_step_iff:
  assumes "hash_ok h"
  shows "parseHash32_step s c h = Inr h' \<longleftrightarrow>
    c \<in> set base32Chars \<and> hash_ok h' \<and> hashSize h' = hashSize h \<and> hashType h' = hashType h
      \<and> hash_val h' = 32 * hash_val h + digit_of c"
    (is "?L \<longleftrightarrow> ?R")
proof -
  let ?n = "hashSize h"
  obtain bs1 o1 where m: "mul (hash h) 32 ?n = (bs1, o1)" by fastforce
  obtain bs2 o2 where a: "add bs1 (of_nat (digit_of c)) ?n = (bs2, o2)" by fastforce
  have h: "length (hash h) = maxHashSize" "0 < ?n" "?n \<le> maxHashSize"
      "list_all (\<lambda>b. b = 0) (drop ?n (hash h))"
    using assms by (auto simp: hash_ok_def)
  from mul_add_correct(1) [OF _ m] h obtain c1 where c1: "length bs1 = maxHashSize"
      "drop ?n bs1 = drop ?n (hash h)" "o1 = (c1 \<noteq> 0)"
      "hash_val h * 32 = bytes_val (take ?n bs1) + 256 ^ ?n * c1"
    using hash_ok_val_take [OF assms] by auto
  from mul_add_correct(2) [OF _ a] h c1(1) obtain c2 where c2: "length bs2 = maxHashSize"
      "drop ?n bs2 = drop ?n bs1" "o2 = (c2 \<noteq> 0)"
      "bytes_val (take ?n bs1) + unat (of_nat (digit_of c) :: byte) = bytes_val (take ?n bs2) + 256 ^ ?n * c2"
    by auto
  let ?h = "h\<lparr>hash := bs2\<rparr>"
  have ok: "hash_ok ?h"
    using h c1 c2 by (simp add: hash_ok_def)
  have L: "?L \<longleftrightarrow> c \<in> set base32Chars \<and> c1 = 0 \<and> c2 = 0 \<and> h' = ?h"
    using m a c1(3) c2(3) digit_of_less [of c] by (auto simp: parseHash32_step_def Let_def)
  show ?thesis
  proof (cases "c \<in> set base32Chars")
    case True
    then have d: "digit_of c < 32" by (simp add: digit_of_less)
    then have du: "unat (of_nat (digit_of c) :: byte) = digit_of c"
      by (simp add: unsigned_of_nat take_bit_nat_eq_self)
    have eq: "32 * hash_val h + digit_of c = hash_val ?h + 256 ^ ?n * (c1 + c2)"
      using c1(4) c2(4) du hash_ok_val_take [OF ok] by (simp add: algebra_simps)
    have "?R \<longleftrightarrow> c1 + c2 = 0 \<and> h' = ?h"
    proof
      assume R: ?R
      then have "hash_val h' < 256 ^ ?n"
        using hash_val_less [of h'] by simp
      with R eq have "256 ^ ?n * (c1 + c2) < 256 ^ ?n"
        by linarith
      then have z: "c1 + c2 = 0"
        using mult_less_cancel1 [of "256 ^ ?n" "c1 + c2" 1] by simp
      with R eq have "hash_val h' = hash_val ?h" by simp
      with R ok z show "c1 + c2 = 0 \<and> h' = ?h" by (simp add: hash_ok_eqI)
    next
      assume "c1 + c2 = 0 \<and> h' = ?h"
      with eq ok True show ?R by simp
    qed
    with L True show ?thesis by simp
  qed (use L in simp)
qed

abbreviation b32_fold :: "nat \<Rightarrow> string \<Rightarrow> nat" where
  "b32_fold \<equiv> foldl (\<lambda>n c. 32 * n + digit_of c)"

lemma b32_fold_ge: "n \<le> b32_fold n cs"
proof (induction cs arbitrary: n)
  case (Cons c cs)
  have "n \<le> 32 * n + digit_of c" by simp
  also have "\<dots> \<le> b32_fold (32 * n + digit_of c) cs" by (rule Cons)
  finally show ?case by simp
qed simp

lemma foldE_parseHash32_iff:
  assumes "hash_ok h"
  shows "foldE (parseHash32_step s) cs h = Inr h' \<longleftrightarrow>
    set cs \<subseteq> set base32Chars \<and> hash_ok h' \<and> hashSize h' = hashSize h \<and> hashType h' = hashType h
      \<and> hash_val h' = b32_fold (hash_val h) cs"
  using assms
proof (induction cs arbitrary: h)
  case Nil
  then show ?case by (auto intro: hash_ok_eqI)
next
  case (Cons c cs)
  let ?v = "32 * hash_val h + digit_of c"
  show ?case (is "?L \<longleftrightarrow> ?R")
  proof
    assume ?L
    then obtain h1 where "parseHash32_step s c h = Inr h1" "foldE (parseHash32_step s) cs h1 = Inr h'"
      by (auto simp: bindE_eq_Inr)
    with Cons show ?R by (auto simp: parseHash32_step_iff)
  next
    assume R: ?R
    then have "?v < 256 ^ hashSize h"
      using hash_val_less [of h'] b32_fold_ge [of ?v cs] by simp
    then obtain h1 where h1: "hash_ok h1" "hashSize h1 = hashSize h" "hashType h1 = hashType h"
        "hash_val h1 = ?v"
      using hash_of_val [OF Cons.prems] by blast
    with R Cons.prems have "parseHash32_step s c h = Inr h1"
      by (simp add: parseHash32_step_iff)
    moreover have "foldE (parseHash32_step s) cs h1 = Inr h'"
      using R h1 by (simp add: Cons.IH)
    ultimately show ?L by simp
  qed
qed

lemma hashLength32_eq:
  assumes "0 < hashSize h" and "hashSize h \<le> maxHashSize"
  shows "hashLength32 h = (hashSize h * 8 - 1) div 5 + 1"
proof -
  let ?n = "hashSize h"
  have n: "?n \<le> 32" using assms(2) by (simp add: maxHashSize_def)
  have w: "of_nat ?n * 8 - 1 = (of_nat (?n * 8 - 1) :: u32)"
    using assms(1) by (simp add: of_nat_diff)
  have "(?n * 8 - 1) div 5 + 1 \<le> 60" using n by simp
  then show ?thesis
    using n unfolding hashLength32_def w
    by (simp add: unat_word_ariths unat_div_distrib unsigned_of_nat take_bit_nat_eq_self)
qed

lemma hashLength32_enough:
  assumes "hash_ok h"
  shows "256 ^ hashSize h \<le> (32 :: nat) ^ hashLength32 h"
proof -
  let ?n = "hashSize h"
  have len: "hashLength32 h = (?n * 8 - 1) div 5 + 1"
    using assms by (simp add: hashLength32_eq hash_ok_def)
  have "8 * ?n \<le> 5 * hashLength32 h"
    using len by simp
  then have "(2 :: nat) ^ (8 * ?n) \<le> 2 ^ (5 * hashLength32 h)"
    by (intro power_increasing) simp_all
  then show ?thesis
    by (simp add: power_mult)
qed

text \<open>\<^verbatim>\<open>printHash32\<close> passes its final assertion and prints the number in base 32.\<close>

lemma printHash32_correct:
  assumes "hash_ok h"
  shows "\<exists>s. printHash32 h = Inr s \<and> length s = hashLength32 h \<and> set s \<subseteq> set base32Chars
    \<and> b32_val s = hash_val h"
proof -
  let ?len = "hashLength32 h"
  obtain bs s where loop: "printHash32_loop ?len (hash h) (replicate ?len (CHR ''0'')) = (bs, s)"
    by fastforce
  from printHash32_loop_correct [OF _ _ loop] assms
  have c: "length s = ?len" "set s \<subseteq> set base32Chars"
      "hash_val h = 32 ^ ?len * bytes_val bs + b32_val s"
    by (auto simp: hash_ok_def hash_val_def)
  have "32 ^ ?len * bytes_val bs < (32 ^ ?len :: nat)"
    using hash_val_less [OF assms] hashLength32_enough [OF assms] c(3) by linarith
  then have z: "bytes_val bs = 0"
    using mult_less_cancel1 [of "32 ^ ?len" "bytes_val bs" 1] by simp
  then have "printHash32 h = Inr s"
    using loop by (simp add: printHash32_def bytes_val_0)
  with c z show ?thesis by simp
qed

subsection \<open>Properties of the representations\<close>


lemma parseHash32_printHash32:
  assumes "wf_hash h"
  shows "\<exists>s. printHash32 h = Inr s \<and> length s = hashLength32 h \<and> set s \<subseteq> set base32Chars
    \<and> parseHash32 (hashType h) s = Inr h"
proof -
  from assms have "hash_ok h" by (simp add: wf_hash_def)
  from printHash32_correct [OF this] obtain s where s: "printHash32 h = Inr s"
      "length s = hashLength32 h" "set s \<subseteq> set base32Chars" "b32_val s = hash_val h"
    by blast
  obtain h0 where n: "Hash_new (hashType h) = Inr h0"
    using assms by (auto simp: wf_hash_def Hash_new_eq)
  have "parseHash32 (hashType h) s = Inr h"
    using foldE_parseHash32_iff [of h0 s s h] Hash_new_wf [OF n] assms s n
    by (auto simp: parseHash32_def b32_val_def wf_hash_def)
  with s show ?thesis by blast
qed

text \<open>
  C15: Base 32 round trip: every well-formed hash prints (the assertion at the end of
  \<^verbatim>\<open>printHash32\<close> never fails) as \<^verbatim>\<open>hashLength32\<close> characters of the alphabet, and parsing them with
  the hash's type gives the hash back.
\<close>

theorem printHash32_roundtrip:
  assumes "wf_hash h"
  shows "\<exists>s. printHash32 h = Inr s \<and> length s = hashLength32 h \<and> set s \<subseteq> set base32Chars
    \<and> parseHash32 (hashType h) s = Inr h"
  using assms by (rule parseHash32_printHash32)

theorem printHash32_roundtrip_witness:
  "let h = \<lparr>hashSize = 16, hash = [3, 255, 0, 17, 9, 9, 200, 1, 0, 0, 77, 128, 64, 5, 6, 250] @ replicate 16 0,
            hashType = htMD5\<rparr>
   in wf_hash h \<and> (\<exists>s. printHash32 h = Inr s \<and> length s = hashLength32 h \<and>
        set s \<subseteq> set base32Chars \<and> parseHash32 (hashType h) s = Inr h)"
proof -
  let ?h = "\<lparr>hashSize = 16, hash = [3, 255, 0, 17, 9, 9, 200, 1, 0, 0, 77, 128, 64, 5, 6, 250] @ replicate 16 0,
            hashType = htMD5\<rparr>"
  have "wf_hash ?h" by (simp add: wf_hash_def hash_ok_def maxHashSize_def list_all_iff)
  from this printHash32_roundtrip [OF this] show ?thesis by (simp only: Let_def)
qed

subsection \<open>Base 16\<close>

lemma foldE_stores:
  assumes "n \<le> length (hash h)"
  shows "foldE (\<lambda>i h. if P i then Inl e else Inr (h\<lparr>hash := (hash h)[i := g i]\<rparr>)) [0..<n] h
    = (if \<exists>i<n. P i then Inl e else Inr (h\<lparr>hash := map g [0..<n] @ drop n (hash h)\<rparr>))"
  using assms
proof (induction n)
  case (Suc n)
  have "(map g [0..<n] @ drop n (hash h))[n := g n] = map g [0..<Suc n] @ drop (Suc n) (hash h)"
    using Suc.prems by (simp add: list_update_append Cons_nth_drop_Suc [symmetric])
  with Suc show ?case
    by (auto simp: foldE_append less_Suc_eq)
qed simp

lemma length_concat_pairs: "length (concat (map (\<lambda>i. [a i, b i]) xs)) = 2 * length xs"
  by (induction xs) auto

lemma nth_concat_pairs:
  "i < length xs \<Longrightarrow> concat (map (\<lambda>i. [a i, b i]) xs) ! (2 * i) = a (xs ! i)
    \<and> concat (map (\<lambda>i. [a i, b i]) xs) ! Suc (2 * i) = b (xs ! i)"
proof (induction xs arbitrary: i)
  case (Cons x xs)
  then show ?case by (cases i) auto
qed simp

lemma base16_digits:
  assumes "k < 16"
  shows "isxdigit (base16Chars ! k)" and "xdigit_value (base16Chars ! k) = k"
proof -
  from assms have k: "k = 0 \<or> k = 1 \<or> k = 2 \<or> k = 3 \<or> k = 4 \<or> k = 5 \<or> k = 6 \<or> k = 7 \<or> k = 8 \<or> k = 9
      \<or> k = 10 \<or> k = 11 \<or> k = 12 \<or> k = 13 \<or> k = 14 \<or> k = 15"
    by arith
  then show "isxdigit (base16Chars ! k)"
    by (elim disjE; simp add: isxdigit_def base16Chars_def)
  from k show "xdigit_value (base16Chars ! k) = k"
    by (elim disjE; simp add: xdigit_value_def base16Chars_def)
qed

lemma nibbles:
  fixes b :: byte
  shows "unat (drop_bit 4 b) < 16" and "unat (b AND 0x0f) < 16"
    and "16 * unat (drop_bit 4 b) + unat (b AND 0x0f) = unat b"
proof -
  have "b AND 0x0f = take_bit 4 b"
    by (simp add: take_bit_eq_mask mask_eq_exp_minus_1)
  then have lo: "unat (b AND 0x0f) = unat b mod 16"
    by (simp add: take_bit_eq_mod unat_mod_distrib)
  have hi: "unat (drop_bit 4 b) = unat b div 16"
    by (simp add: drop_bit_eq_div unat_div_distrib)
  show "unat (drop_bit 4 b) < 16" "unat (b AND 0x0f) < 16"
    "16 * unat (drop_bit 4 b) + unat (b AND 0x0f) = unat b"
    using unat_byte_less [of b] by (auto simp: lo hi)
qed

lemma nibbles_word: "16 * drop_bit 4 b + (b AND 0x0f) = (b :: byte)"
  using arg_cong [OF nibbles(3) [of b], of "of_nat :: nat \<Rightarrow> byte"] by simp

lemma parseHash_eq:
  "parseHash ht s = bindE (Hash_new ht) (\<lambda>h.
     if length s \<noteq> 2 * hashSize h \<or> (\<exists>i<hashSize h. \<not> isxdigit (s ! (2 * i)) \<or> \<not> isxdigit (s ! Suc (2 * i)))
     then Inl (Error (''invalid hash `'' @ s @ [CHR 0x27]))
     else Inr (h\<lparr>hash := map (\<lambda>i. of_nat (16 * xdigit_value (s ! (2 * i)) + xdigit_value (s ! Suc (2 * i))))
       [0..<hashSize h] @ drop (hashSize h) (hash h)\<rparr>))"
proof (cases "Hash_new ht")
  case (Inr h)
  have "hashSize h \<le> length (hash h)"
    using Hash_new_wf [OF Inr] by (simp add: wf_hash_def hash_ok_def)
  from foldE_stores [OF this] Inr show ?thesis
    unfolding parseHash_def Let_def by (simp add: mult.commute)
qed (simp add: parseHash_def)

lemma length_printHash: "length (printHash h) = 2 * hashSize h"
  by (simp add: printHash_def length_concat_pairs)

lemma printHash_digits: "list_all isxdigit (printHash h)"
  by (auto simp: printHash_def list_all_iff base16_digits nibbles)

lemma parseHash_printHash:
  assumes "wf_hash h"
  shows "parseHash (hashType h) (printHash h) = Inr h"
proof -
  let ?n = "hashSize h" and ?s = "printHash h"
  obtain h0 where n: "Hash_new (hashType h) = Inr h0"
    using assms by (auto simp: wf_hash_def Hash_new_eq)
  have h0: "hashSize h0 = ?n" "drop ?n (hash h0) = drop ?n (hash h)" "hashType h0 = hashType h"
  proof -
    show "hashSize h0 = ?n" "hashType h0 = hashType h"
      using Hash_new_wf [OF n] assms by (auto simp: wf_hash_def)
    have z: "length (drop ?n (hash h)) = maxHashSize - ?n" "\<forall>b\<in>set (drop ?n (hash h)). b = 0"
      using assms by (auto simp: wf_hash_def hash_ok_def list_all_iff)
    have "hash h0 = replicate maxHashSize 0"
      using n by (auto simp: Hash_new_eq bindE_eq_Inr)
    then show "drop ?n (hash h0) = drop ?n (hash h)"
      using z by (simp add: replicate_eqI [symmetric])
  qed
  have len: "length ?s = 2 * ?n"
    by (simp add: printHash_def length_concat_pairs)
  have digits: "?s ! (2 * i) = base16Chars ! unat (drop_bit 4 (hash h ! i))"
      "?s ! Suc (2 * i) = base16Chars ! unat (hash h ! i AND 0x0f)" if "i < ?n" for i
    using that nth_concat_pairs [of i "[0..<?n]" "\<lambda>i. base16Chars ! unat (drop_bit 4 (hash h ! i))"
        "\<lambda>i. base16Chars ! unat (hash h ! i AND 0x0f)"]
    by (simp_all add: printHash_def)
  have "map (\<lambda>i. of_nat (16 * xdigit_value (?s ! (2 * i)) + xdigit_value (?s ! Suc (2 * i)))) [0..<?n]
      = take ?n (hash h)"
    using assms
    by (intro nth_equalityI) (simp_all add: wf_hash_def hash_ok_def digits base16_digits nibbles nibbles_word)
  with n h0 len show ?thesis
    by (auto simp: parseHash_eq digits base16_digits nibbles intro: Hash.equality)
qed

text \<open>
  C20: Base 16 round trip: parsing the hexadecimal representation of a well-formed hash with its
  type gives the hash back, and \<^verbatim>\<open>parseHash16or32\<close> tells from the length which of the two bases
  \<^verbatim>\<open>printHash16or32\<close> chose.
\<close>

theorem printHash_roundtrip:
  assumes "wf_hash h"
  shows "parseHash (hashType h) (printHash h) = Inr h \<and>
    (\<exists>s. printHash16or32 h = Inr s \<and> parseHash16or32 (hashType h) s = Inr h)"
proof -
  obtain h0 where h0: "Hash_new (hashType h) = Inr h0" "hashSize h0 = hashSize h"
    using assms Hash_new_wf by (fastforce simp: wf_hash_def Hash_new_eq)
  have "\<exists>s. printHash16or32 h = Inr s \<and> parseHash16or32 (hashType h) s = Inr h"
  proof (cases "hashType h = htMD5")
    case True
    then show ?thesis
      using h0 parseHash_printHash [OF assms] by (simp add: printHash16or32_def parseHash16or32_def length_printHash)
  next
    case False
    obtain s where s: "printHash32 h = Inr s" "length s = hashLength32 h" "parseHash32 (hashType h) s = Inr h"
      using parseHash32_printHash32 [OF assms] by blast
    have "hashSize h = 20 \<or> hashSize h = 32"
      using assms False by (cases "hashType h") (auto simp: wf_hash_def)
    then have "hashLength32 h \<noteq> hashSize h * 2" "hashLength32 h0 = hashLength32 h"
      using h0 by (auto simp: hashLength32_def)
    then show ?thesis using s h0 False by (simp add: printHash16or32_def parseHash16or32_def)
  qed
  with parseHash_printHash [OF assms] show ?thesis by blast
qed

theorem printHash_roundtrip_witness:
  "let h = \<lparr>hashSize = 16, hash = [3, 255, 0, 17, 9, 9, 200, 1, 0, 0, 77, 128, 64, 5, 6, 250] @ replicate 16 0,
            hashType = htMD5\<rparr>
   in wf_hash h \<and> parseHash (hashType h) (printHash h) = Inr h"
proof -
  let ?h = "\<lparr>hashSize = 16, hash = [3, 255, 0, 17, 9, 9, 200, 1, 0, 0, 77, 128, 64, 5, 6, 250] @ replicate 16 0,
            hashType = htMD5\<rparr>"
  have "wf_hash ?h" by (simp add: wf_hash_def hash_ok_def maxHashSize_def list_all_iff)
  from this printHash_roundtrip [OF this] show ?thesis by (simp only: Let_def)
qed

subsection \<open>Order and compression\<close>

lemma hash_less_loop_irrefl: "\<not> hash_less_loop h h ks"
  by (induction ks) auto

lemma hash_less_loop_trans:
  "hash_less_loop h1 h2 ks \<Longrightarrow> hash_less_loop h2 h3 ks \<Longrightarrow> hash_less_loop h1 h3 ks"
  by (induction ks) (auto split: if_splits)

lemma hash_less_loop_total:
  "hash_less_loop h1 h2 ks \<or> hash_less_loop h2 h1 ks \<longleftrightarrow> \<not> list_all (\<lambda>i. hash h1 ! i = hash h2 ! i) ks"
  by (induction ks) (auto split: if_splits)

text \<open>
  C21: On hashes of one size \<^verbatim>\<open>operator <\<close> is a strict linear order whose ties are exactly the pairs
  \<^verbatim>\<open>operator ==\<close> identifies, so hashes can be keys of ordered containers.
\<close>

theorem hash_less_linear:
  assumes "hashSize h1 = n" and "hashSize h2 = n" and "hashSize h3 = n"
  shows "\<not> hash_less h1 h1 \<and> (hash_less h1 h2 \<and> hash_less h2 h3 \<longrightarrow> hash_less h1 h3) \<and>
    (hash_neq h1 h2 \<longleftrightarrow> hash_less h1 h2 \<or> hash_less h2 h1)"
  using assms hash_less_loop_trans [of h1 h2 _ h3] hash_less_loop_total [of h1 h2]
  by (auto simp: hash_less_def hash_neq_def hash_eq_def hash_less_loop_irrefl)

theorem hash_less_linear_witness:
  "let h1 = \<lparr>hashSize = 2, hash = [1, 9], hashType = htUnknown\<rparr>;
       h2 = \<lparr>hashSize = 2, hash = [1, 200], hashType = htUnknown\<rparr>;
       h3 = \<lparr>hashSize = 2, hash = [2, 0], hashType = htUnknown\<rparr>
   in hash_less h1 h2 \<and> hash_less h2 h3 \<and> hash_less h1 h3 \<and> hash_neq h1 h2"
proof -
  let ?h1 = "\<lparr>hashSize = 2, hash = [1, 9], hashType = htUnknown\<rparr>"
  let ?h2 = "\<lparr>hashSize = 2, hash = [1, 200], hashType = htUnknown\<rparr>"
  let ?h3 = "\<lparr>hashSize = 2, hash = [2, 0], hashType = htUnknown\<rparr>"
  have "hash_less ?h1 ?h2" "hash_less ?h2 ?h3"
    by (simp_all add: hash_less_def upt_rec)
  with hash_less_linear [of ?h1 2 ?h2 ?h3] show ?thesis by (simp add: Let_def)
qed

lemma compress_fold:
  fixes f :: "nat \<Rightarrow> byte" and ks :: "nat list"
  assumes "length (hash g) = maxHashSize" and "0 < n" and "n \<le> maxHashSize"
  defines "r \<equiv> fold (\<lambda>i h'. h'\<lparr>hash := (hash h')[i mod n := hash h' ! (i mod n) XOR f i]\<rparr>) ks g"
  shows "hashSize r = hashSize g \<and> hashType r = hashType g \<and> length (hash r) = maxHashSize \<and>
    (\<forall>j<maxHashSize. hash r ! j = fold (\<lambda>i b. b XOR f i) (filter (\<lambda>i. i mod n = j) ks) (hash g ! j))"
  using assms(1) unfolding r_def
proof (induction ks arbitrary: g)
  case (Cons i ks)
  let ?g = "g\<lparr>hash := (hash g)[i mod n := hash g ! (i mod n) XOR f i]\<rparr>"
  have "i mod n < maxHashSize" using assms(2,3) mod_less_divisor [of n i] by linarith
  moreover have "length (hash ?g) = maxHashSize" using Cons.prems by simp
  note Cons.IH [OF this]
  ultimately show ?case using Cons.prems by (auto simp: nth_list_update)
qed simp

lemma compressHash_eq:
  assumes "hash_ok h" and "0 < n"
  shows "compressHash h n = Inr (fold
    (\<lambda>i h'. h'\<lparr>hash := (hash h')[i mod n := hash h' ! (i mod n) XOR hash h ! i]\<rparr>)
    [0..<hashSize h] (Hash_unusable\<lparr>hashSize := n\<rparr>))"
  using assms by (simp add: compressHash_def hash_ok_def Let_def)

lemma compressHash_bytes:
  assumes "hash_ok h" and "0 < n" and "n \<le> maxHashSize" and "compressHash h n = Inr r"
  shows "hashSize r = n \<and> length (hash r) = maxHashSize \<and> (\<forall>j<maxHashSize. hash r ! j
    = fold (\<lambda>i b. b XOR hash h ! i) (filter (\<lambda>i. i mod n = j) [0..<hashSize h]) 0)"
  using compress_fold [OF _ assms(2,3), of "Hash_unusable\<lparr>hashSize := n\<rparr>" "\<lambda>i. hash h ! i" "[0..<hashSize h]"]
    assms(4) compressHash_eq [OF assms(1,2)]
  by (auto simp: Hash_unusable_def)

lemma compressHash_ok:
  assumes "hash_ok h" and "0 < n" and "n \<le> maxHashSize"
  shows "\<exists>r. compressHash h n = Inr r \<and> hash_ok r \<and> hashSize r = n"
proof -
  obtain r where r: "compressHash h n = Inr r"
    using compressHash_eq [OF assms(1,2)] by blast
  note b = compressHash_bytes [OF assms r]
  have "hash r ! j = 0" if "n \<le> j" "j < maxHashSize" for j
  proof -
    have "filter (\<lambda>i. i mod n = j) [0..<hashSize h] = []"
      using that assms(2) by (auto simp: filter_empty_conv) (metis mod_less_divisor not_le)
    with b that show ?thesis by simp
  qed
  then have "list_all (\<lambda>b. b = 0) (drop n (hash r))"
    using b by (auto simp: list_all_iff in_set_conv_nth)
  with r b assms show ?thesis by (auto simp: hash_ok_def)
qed

text \<open>
  C22: \<^verbatim>\<open>compressHash\<close> to \<open>n\<close> bytes: byte \<open>j\<close> of the result is the exclusive or of the bytes of the
  hash at the positions congruent to \<open>j\<close> modulo \<open>n\<close>, and the rest of the array is zero.
\<close>

theorem compressHash_xors:
  assumes "hash_ok h" and "0 < n" and "n \<le> maxHashSize"
  shows "\<exists>r. compressHash h n = Inr r \<and> hash_ok r \<and> hashSize r = n \<and>
    (\<forall>j<n. hash r ! j = fold (\<lambda>i b. b XOR hash h ! i) (filter (\<lambda>i. i mod n = j) [0..<hashSize h]) 0)"
  using compressHash_ok [OF assms] compressHash_bytes [OF assms] assms(3) by fastforce

theorem compressHash_xors_witness:
  "let h = \<lparr>hashSize = 3, hash = [5, 6, 7] @ replicate 29 0, hashType = htUnknown\<rparr>
   in hash_ok h \<and> (\<exists>r. compressHash h 2 = Inr r \<and> hash_ok r \<and> hashSize r = 2 \<and> hash r ! 0 = 2 \<and> hash r ! 1 = 6)"
proof -
  let ?h = "\<lparr>hashSize = 3, hash = [5, 6, 7] @ replicate 29 0, hashType = htUnknown\<rparr>"
  have ok: "hash_ok ?h" by (simp add: hash_ok_def maxHashSize_def list_all_iff)
  from compressHash_xors [OF this, of 2] obtain r where
    r: "compressHash ?h 2 = Inr r" "hash_ok r" "hashSize r = 2"
    and x: "\<forall>j<2. hash r ! j = fold (\<lambda>i b. b XOR hash ?h ! i) (filter (\<lambda>i. i mod 2 = j) [0..<3]) 0"
    by (auto simp: maxHashSize_def)
  from x have "hash r ! 0 = 2" "hash r ! 1 = 6" by (simp_all add: upt_rec)
  with ok r show ?thesis by (auto simp: Let_def)
qed

subsection \<open>The hashing sink\<close>

text \<open>
  What the documentation of the digest library promises: the digest of an algorithm has its size,
  and updating is incremental.
\<close>

definition digest_ok :: "'c digest \<Rightarrow> bool" where
  "digest_ok dg \<longleftrightarrow>
     (\<forall>ht n ctx. typeSize ht = Inr n \<longrightarrow> length (dFinal dg ht ctx) = n) \<and>
     (\<forall>ht ctx a b. dUpdate dg ht (dUpdate dg ht ctx a) b = dUpdate dg ht ctx (a @ b)) \<and>
     (\<forall>ht ctx. dUpdate dg ht ctx [] = ctx)"

lemma digest_okD:
  assumes "digest_ok dg"
  shows "typeSize ht = Inr n \<Longrightarrow> length (dFinal dg ht ctx) = n"
    and "dUpdate dg ht (dUpdate dg ht ctx a) b = dUpdate dg ht ctx (a @ b)"
    and "dUpdate dg ht ctx [] = ctx"
  using assms by (auto simp: digest_ok_def)

lemma finish_wf:
  assumes "digest_ok dg" and "Hash_new ht = Inr h"
  shows "wf_hash (h\<lparr>hash := finish dg ht ctx (hash h)\<rparr>)"
proof -
  obtain n where n: "typeSize ht = Inr n"
    and h: "h = \<lparr>hashSize = n, hash = replicate maxHashSize 0, hashType = ht\<rparr>"
    using assms(2) by (auto simp: Hash_new_eq bindE_eq_Inr)
  then show ?thesis
    using typeSize_pos [OF n] digest_okD(1) [OF assms(1) n]
    by (simp add: finish_def wf_hash_def hash_ok_def Let_def list_all_iff)
qed

lemma hashString_wf:
  assumes "digest_ok dg" and "ht \<noteq> htUnknown"
  shows "\<exists>h. hashString dg ht s = Inr h \<and> wf_hash h \<and> hashType h = ht"
proof -
  obtain h where h: "Hash_new ht = Inr h"
    using assms(2) by (cases ht) (auto simp: Hash_new_eq)
  from finish_wf [OF assms(1) h] Hash_new_wf(2) [OF h] show ?thesis
    by (simp add: hashString_def h Let_def)
qed

text \<open>
  The state of the sink after absorbing some data; under it the sink is a sink of the strings
  absorbed so far, so buffering and writing behave as the contract says.
\<close>

definition absorbed :: "'c digest \<Rightarrow> HashType \<Rightarrow> bytes \<Rightarrow> 'c HashSink" where
  "absorbed dg ht data =
     \<lparr>hsType = ht, hsCtx = update dg ht (start dg ht) data, hsBytes = of_nat (length data)\<rparr>"

definition lift_sink :: "('a \<Rightarrow> 'b) \<Rightarrow> 'a BufferedSink \<Rightarrow> 'b BufferedSink" where
  "lift_sink f b = \<lparr>sinkBufSize = sinkBufSize b, sinkBuf = sinkBuf b, sinkUnder = f (sinkUnder b)\<rparr>"

lemma lift_sink_simps [simp]:
  "sinkBufSize (lift_sink f b) = sinkBufSize b" "sinkBuf (lift_sink f b) = sinkBuf b"
  "sinkUnder (lift_sink f b) = f (sinkUnder b)"
  "lift_sink f (BufferedSink_new n u) = BufferedSink_new n (f u)"
  by (simp_all add: lift_sink_def BufferedSink_new_def)

lemma HashSink_write_absorbed:
  assumes "digest_ok dg"
  shows "HashSink_write dg data (absorbed dg ht s) = Inr (absorbed dg ht (s @ data))"
  using digest_okD(2) [OF assms] by (simp add: HashSink_write_def absorbed_def update_def)

lemma HashSink_flush_absorbed:
  assumes "digest_ok dg"
  shows "BufferedSink_flush (HashSink_write dg) (lift_sink (absorbed dg ht) b)
    = bindE (BufferedSink_flush StringSink_call b) (\<lambda>b. Inr (lift_sink (absorbed dg ht) b))"
  using assms by (simp add: BufferedSink_flush_def HashSink_write_absorbed StringSink_call_def lift_sink_def)

lemma HashSink_call_absorbed:
  assumes "digest_ok dg"
  shows "BufferedSink_call (HashSink_write dg) d (lift_sink (absorbed dg ht) b)
    = bindE (BufferedSink_call StringSink_call d b) (\<lambda>b. Inr (lift_sink (absorbed dg ht) b))"
proof -
  consider "d = []" | "length (sinkBuf b) + length d < sinkBufSize b"
    | "d \<noteq> []" "sinkBufSize b \<le> length (sinkBuf b) + length d"
    by fastforce
  then show ?thesis
  proof cases
    case 3
    with assms show ?thesis
      by (simp add: call_passes BufferedSink_flush_def StringSink_call_def HashSink_write_absorbed lift_sink_def)
  next
    case 2
    then show ?thesis by (simp add: call_buffers lift_sink_def)
  qed simp
qed

lemma HashSink_calls_absorbed:
  assumes "digest_ok dg"
  shows "foldE (BufferedSink_call (HashSink_write dg)) ds (lift_sink (absorbed dg ht) b)
    = bindE (foldE (BufferedSink_call StringSink_call) ds b) (\<lambda>b. Inr (lift_sink (absorbed dg ht) b))"
proof (induction ds arbitrary: b)
  case (Cons d ds)
  with assms show ?case by (simp add: HashSink_call_absorbed bindE_assoc)
qed simp

lemma HashSink_new_absorbed:
  "digest_ok dg \<Longrightarrow> HashSink_new dg ht = lift_sink (absorbed dg ht) (BufferedSink_new 32768 [])"
  by (simp add: HashSink_new_def absorbed_def update_def digest_okD(3))

lemma HashSink_calls_finish:
  assumes "digest_ok dg"
  shows "bindE (bindE (foldE (BufferedSink_call (HashSink_write dg)) ds (HashSink_new dg ht))
        (HashSink_finish dg)) (\<lambda>(r, b). Inr r)
    = bindE (hashString dg ht (of_bytes (concat ds))) (\<lambda>h. Inr (h, of_nat (length (concat ds))))"
proof -
  obtain b where b: "foldE (BufferedSink_call StringSink_call) ds (BufferedSink_new 32768 []) = Inr b"
      "BufferedSink_flush StringSink_call b = Inr (BufferedSink_new 32768 (concat ds))"
    using string_sink.buffered_calls_flush [where u = "[]" and ds = ds and n = 32768]
    by (auto simp: bindE_eq_Inr)
  show ?thesis
    unfolding HashSink_new_absorbed [OF assms] HashSink_calls_absorbed [OF assms] b(1)
    by (cases "Hash_new ht")
      (simp_all add: HashSink_finish_def HashSink_flush_absorbed assms b(2) hashString_def absorbed_def
        Let_def BufferedSink_new_def)
qed


text \<open>A stand-in digest for evaluation: the context collects the data, the digest is its last bytes.\<close>

definition demo_digest :: "bytes digest" where
  "demo_digest = \<lparr>dInit = (\<lambda>ht. []), dUpdate = (\<lambda>ht ctx d. ctx @ d),
     dFinal = (\<lambda>ht ctx. case typeSize ht of Inr n \<Rightarrow> take n (rev ctx @ replicate n 0) | Inl e \<Rightarrow> [])\<rparr>"

lemma demo_digest_ok: "digest_ok demo_digest"
  by (auto simp: digest_ok_def demo_digest_def)


end
