(* ===== verification/Util_Strings.thy ===== *)
theory Util_Strings
  imports Containers
begin

text \<open>
  The string and path functions of \<^verbatim>\<open>src/libutil/util.cc\<close> and \<^verbatim>\<open>util.hh\<close>: canonical paths,
  tokenising and joining, numbers, and the stream primitives the derivation parser is built from.

  An \<^verbatim>\<open>std::istream\<close> is the text not yet read.  What the file system and the process environment
  answer (\<^verbatim>\<open>getcwd\<close>, \<^verbatim>\<open>lstat\<close>, \<^verbatim>\<open>readlink\<close>) is a parameter of the path functions.
\<close>

subsection \<open>Paths\<close>

definition dirOf :: "path \<Rightarrow> path res" where
  "dirOf p = (case rfind_char (CHR ''/'') p of
     None \<Rightarrow> Inl (Error (''invalid file name `'' @ p @ [CHR 0x27]))
   | Some pos \<Rightarrow> Inr (if pos = 0 then ''/'' else take pos p))"

definition baseNameOf :: "path \<Rightarrow> string res" where
  "baseNameOf p = (case rfind_char (CHR ''/'') p of
     None \<Rightarrow> Inl (Error (''invalid file name `'' @ p @ [CHR 0x27]))
   | Some pos \<Rightarrow> Inr (drop (pos + 1) p))"

definition maxFollow :: nat where
  "maxFollow = 1024"

lemma skip_length: "dropWhile P i = c # r \<Longrightarrow> length r < length i"
  by (metis Suc_le_eq length_Cons length_dropWhile_le)

text \<open>
  The loop of \<^verbatim>\<open>canonPath\<close>: \<open>i\<close> is the rest of the input from the iterator on, \<open>s\<close> the result so far.
  \<open>link s\<close> is the answer of \<^verbatim>\<open>isLink(s)\<close> and \<^verbatim>\<open>readLink(s)\<close>: the target of a symbolic link, \<open>None\<close> for
  anything else.  The nested call is the \<^verbatim>\<open>absPath\<close> that makes the target absolute.
\<close>

function canonPath_loop ::
  "(path \<Rightarrow> string option res) \<Rightarrow> bool \<Rightarrow> path \<Rightarrow> string \<Rightarrow> string \<Rightarrow> nat \<Rightarrow> path res" where
  "canonPath_loop link resolve p i s followCount =
     (case dropWhile (\<lambda>c. c = CHR ''/'') i of
        [] \<Rightarrow> Inr (if s = [] then ''/'' else s)
      | c # r \<Rightarrow>
          if c = CHR ''.'' \<and> (r = [] \<or> hd r = CHR ''/'')
          then canonPath_loop link resolve p r s followCount
          else if c = CHR ''.'' \<and> r \<noteq> [] \<and> hd r = CHR ''.'' \<and> (tl r = [] \<or> hd (tl r) = CHR ''/'')
          then (if s \<noteq> [] then
                  (case rfind_char (CHR ''/'') s of
                     None \<Rightarrow> Inl OutOfRange
                   | Some pos \<Rightarrow> canonPath_loop link resolve p (tl r) (take pos s) followCount)
                else canonPath_loop link resolve p (tl r) s followCount)
          else
            let comp = c # takeWhile (\<lambda>c. c \<noteq> CHR ''/'') r;
                i' = dropWhile (\<lambda>c. c \<noteq> CHR ''/'') r;
                s' = s @ [CHR ''/''] @ comp
            in if resolve then
                 bindE (link s') (\<lambda>l. case l of
                     None \<Rightarrow> canonPath_loop link resolve p i' s' followCount
                   | Some target \<Rightarrow>
                       if Suc followCount \<ge> maxFollow
                       then Inl (Error (''infinite symlink recursion in path `'' @ p @ [CHR 0x27]))
                       else bindE (if char_at target 0 \<noteq> CHR ''/''
                                   then bindE (dirOf s') (\<lambda>d. Inr (d @ ''/'' @ target)) else Inr target)
                         (\<lambda>t. bindE (if char_at t 0 \<noteq> CHR ''/''
                                then Inl (Error (''not an absolute path: `'' @ t @ [CHR 0x27]))
                                else canonPath_loop link False t t [] 0)
                         (\<lambda>t. canonPath_loop link resolve p (t @ i') [] (Suc followCount))))
               else canonPath_loop link resolve p i' s' followCount)"
  by pat_completeness auto
termination
proof (relation "measures [\<lambda>(link, resolve, p, i, s, n). if resolve then 1 else 0,
    \<lambda>(link, resolve, p, i, s, n). maxFollow - n, \<lambda>(link, resolve, p, i, s, n). length i]", goal_cases)
  case 1 show ?case by simp
qed (auto dest!: skip_length simp: maxFollow_def intro: le_less_trans [OF length_dropWhile_le])

declare canonPath_loop.simps [simp del]

definition canonPath :: "(path \<Rightarrow> string option res) \<Rightarrow> path \<Rightarrow> bool \<Rightarrow> path res" where
  "canonPath link p resolve =
     (if char_at p 0 \<noteq> CHR ''/'' then Inl (Error (''not an absolute path: `'' @ p @ [CHR 0x27]))
      else canonPath_loop link resolve p p [] 0)"

definition absPath :: "(path \<Rightarrow> string option res) \<Rightarrow> path res \<Rightarrow> path \<Rightarrow> path \<Rightarrow> path res" where
  "absPath link getcwd p dir =
     bindE (if char_at p 0 \<noteq> CHR ''/''
            then bindE (if dir = [] then getcwd else Inr dir) (\<lambda>d. Inr (d @ ''/'' @ p))
            else Inr p)
       (\<lambda>p. canonPath link p False)"

subsection \<open>Tokens\<close>

text \<open>
  \<^verbatim>\<open>pos\<close> and \<^verbatim>\<open>end\<close> are kept as the suffix of the string they point at: \<open>find_first_not_of\<close> skips
  separators, and the token that starts at \<^verbatim>\<open>pos\<close> runs to the next separator after it.
\<close>

function tokenizeString :: "string \<Rightarrow> string \<Rightarrow> string list" where
  "tokenizeString seps s =
     (case dropWhile (\<lambda>c. c \<in> set seps) s of
        [] \<Rightarrow> []
      | c # r \<Rightarrow> (c # takeWhile (\<lambda>c. c \<notin> set seps) r)
                  # tokenizeString seps (dropWhile (\<lambda>c. c \<notin> set seps) r))"
  by pat_completeness auto
termination
  by (relation "measure (\<lambda>(seps, s). length s)")
    (auto dest!: skip_length intro: le_less_trans [OF length_dropWhile_le])

declare tokenizeString.simps [simp del]

definition tokenizeString_set :: "string \<Rightarrow> string \<Rightarrow> string list" where
  "tokenizeString_set seps s = set_of_list (tokenizeString seps s)"

definition concatStringsSep :: "string \<Rightarrow> string list \<Rightarrow> string" where
  "concatStringsSep sep ss = fold (\<lambda>x s. (if length s \<noteq> 0 then s @ sep else s) @ x) ss []"

definition chomp :: "string \<Rightarrow> string" where
  "chomp s = rev (dropWhile (\<lambda>c. c \<in> {CHR '' '', CHR 0x0A, CHR 0x0D, CHR 0x09}) (rev s))"

definition hasSuffix :: "string \<Rightarrow> string \<Rightarrow> bool" where
  "hasSuffix s suffix \<longleftrightarrow> length s \<ge> length suffix \<and> drop (length s - length suffix) s = suffix"

subsection \<open>Numbers\<close>

definition isdigit :: "char \<Rightarrow> bool" where
  "isdigit c \<longleftrightarrow> CHR ''0'' \<le> c \<and> c \<le> CHR ''9''"

definition isspace :: "char \<Rightarrow> bool" where
  "isspace c \<longleftrightarrow> c \<in> {CHR '' '', CHR 0x09, CHR 0x0A, CHR 0x0B, CHR 0x0C, CHR 0x0D}"

definition digit_value :: "char \<Rightarrow> nat" where
  "digit_value c = of_char c - of_char (CHR ''0'')"

definition digits_value :: "string \<Rightarrow> nat" where
  "digits_value s = foldl (\<lambda>n c. 10 * n + digit_value c) 0 s"

text \<open>
  \<^verbatim>\<open>str >> n\<close> skips white space, reads a sign and digits, and fails when there is no digit or the value
  does not fit the type; \<^verbatim>\<open>string2Int\<close> also wants the end of the string.  The two instances the
  sources use read an \<^verbatim>\<open>int\<close> and an \<^verbatim>\<open>unsigned long long\<close> (where a minus sign negates modulo 2 to the 64).
\<close>

definition scan_number :: "string \<Rightarrow> (bool \<times> nat) option" where
  "scan_number s =
     (let t = dropWhile isspace s;
          neg = (t \<noteq> [] \<and> hd t = CHR ''-'');
          u = (if t \<noteq> [] \<and> (hd t = CHR ''-'' \<or> hd t = CHR ''+'') then tl t else t)
      in if u \<noteq> [] \<and> list_all isdigit u then Some (neg, digits_value u) else None)"

definition string2Int :: "string \<Rightarrow> int option" where
  "string2Int s = (case scan_number s of
     None \<Rightarrow> None
   | Some (neg, n) \<Rightarrow>
       (let v = (if neg then - int n else int n)
        in if - (2 ^ 31) \<le> v \<and> v < 2 ^ 31 then Some v else None))"

definition string2Int_u64 :: "string \<Rightarrow> u64 option" where
  "string2Int_u64 s = (case scan_number s of
     None \<Rightarrow> None
   | Some (neg, n) \<Rightarrow>
       if n < 2 ^ 64 then Some (if neg then - of_nat n else of_nat n) else None)"

fun show_nat :: "nat \<Rightarrow> string" where
  "show_nat n =
     (if n < 10 then [char_of (48 + n)] else show_nat (n div 10) @ [char_of (48 + n mod 10)])"

declare show_nat.simps [simp del]

definition int2String :: "int \<Rightarrow> string" where
  "int2String n = (if n < 0 then CHR ''-'' # show_nat (nat (- n)) else show_nat (nat n))"

subsection \<open>Reading from a stream\<close>

text \<open>A short read leaves part of the buffer that is compared uninitialised.\<close>

definition expect :: "string \<Rightarrow> string \<Rightarrow> string res" where
  "expect s str =
     (if length str < length s then Inl (Undefined ''comparison with uninitialised memory'')
      else if take (length s) str \<noteq> s then Inl (Error (''expected string `'' @ s @ [CHR 0x27]))
      else Inr (drop (length s) str))"

text \<open>
  At the end of the input \<^verbatim>\<open>str.get()\<close> returns \<^verbatim>\<open>EOF\<close>, which is not the closing quote, every time it is
  called: the loop then appends to its result for ever.
\<close>

fun parseString_loop :: "string \<Rightarrow> string \<Rightarrow> (string \<times> string) res" where
  "parseString_loop res [] = Inl Diverges"
| "parseString_loop res (c # str) =
     (if c = CHR 0x22 then Inr (res, str)
      else if c = CHR 0x5C then
        (case str of
           [] \<Rightarrow> Inl Diverges
         | d # str \<Rightarrow> parseString_loop (res @
             [if d = CHR ''n'' then CHR 0x0A else if d = CHR ''r'' then CHR 0x0D
              else if d = CHR ''t'' then CHR 0x09 else d]) str)
      else parseString_loop (res @ [c]) str)"

definition parseString :: "string \<Rightarrow> (string \<times> string) res" where
  "parseString str = bindE (expect [CHR 0x22] str) (parseString_loop [])"

definition endOfList :: "string \<Rightarrow> bool \<times> string" where
  "endOfList str =
     (if str \<noteq> [] \<and> hd str = CHR '','' then (False, tl str)
      else if str \<noteq> [] \<and> hd str = CHR '']'' then (True, tl str)
      else (False, str))"

text \<open>\<open>c * 8 + digit\<close> is computed in an \<^verbatim>\<open>unsigned char\<close>.\<close>

fun decodeOctal_digits :: "byte \<Rightarrow> string \<Rightarrow> byte \<times> string" where
  "decodeOctal_digits c [] = (c, [])"
| "decodeOctal_digits c (d # s) =
     (if CHR ''0'' \<le> d \<and> d < CHR ''8''
      then decodeOctal_digits (c * 8 + (byte_of_char d - byte_of_char (CHR ''0''))) s else (c, d # s))"

lemma decodeOctal_digits_length: "length (snd (decodeOctal_digits c s)) \<le> length s"
  by (induction c s rule: decodeOctal_digits.induct) (auto simp: le_SucI)

function decodeOctalEscaped :: "string \<Rightarrow> string" where
  "decodeOctalEscaped [] = []"
| "decodeOctalEscaped (c # s) =
     (if c \<noteq> CHR 0x5C then c # decodeOctalEscaped s
      else let (b, r) = decodeOctal_digits 0 s in char_of_byte b # decodeOctalEscaped r)"
  by pat_completeness auto
termination
  by (relation "measure length")
    (auto intro!: le_imp_less_Suc, metis decodeOctal_digits_length snd_conv)

definition statusOk :: "nat option \<Rightarrow> bool" where
  "statusOk exited = (case exited of Some code \<Rightarrow> code = 0 | None \<Rightarrow> False)"

subsection \<open>Canonical paths\<close>

text \<open>
  The reference: a path is the list of its components; \<open>.\<close> is dropped and \<open>..\<close> removes the component
  before it, if there is one.
\<close>

abbreviation slashes :: "string list \<Rightarrow> string" where
  "slashes cs \<equiv> concat (map (\<lambda>c. CHR ''/'' # c) cs)"

definition render_path :: "string list \<Rightarrow> path" where
  "render_path cs = (if cs = [] then ''/'' else slashes cs)"

definition norm_step :: "string list \<Rightarrow> string \<Rightarrow> string list" where
  "norm_step cs c = (if c = ''.'' then cs else if c = ''..'' then butlast cs else cs @ [c])"

definition normal_comps :: "string list \<Rightarrow> bool" where
  "normal_comps cs \<longleftrightarrow> (\<forall>c \<in> set cs. c \<noteq> [] \<and> CHR ''/'' \<notin> set c \<and> c \<noteq> ''.'' \<and> c \<noteq> ''..'')"

lemma normal_comps_simps [simp]:
  "normal_comps []"
  "normal_comps (c # cs) \<longleftrightarrow>
     (c \<noteq> [] \<and> CHR ''/'' \<notin> set c \<and> c \<noteq> ''.'' \<and> c \<noteq> ''..'') \<and> normal_comps cs"
  "normal_comps (cs @ ds) \<longleftrightarrow> normal_comps cs \<and> normal_comps ds"
  by (auto simp: normal_comps_def)

lemma normal_comps_butlast: "normal_comps cs \<Longrightarrow> normal_comps (butlast cs)"
  by (auto simp: normal_comps_def dest: in_set_butlastD)

lemma rfind_slashes:
  assumes "normal_comps (cs @ [c])"
  shows "rfind_char (CHR ''/'') (slashes (cs @ [c])) = Some (length (slashes cs))"
  using assms by (simp add: rfind_char_append)

lemma take_to_sep: "takeWhile (\<lambda>c. c \<noteq> x) r = [] \<longleftrightarrow> r = [] \<or> hd r = x"
  by (cases r) auto

lemma dropWhile_hd: "r = [] \<or> hd r = x \<Longrightarrow> dropWhile (\<lambda>c. c \<noteq> x) r = r"
  by (cases r) auto

lemma one_dot:
  "c # takeWhile (\<lambda>c. c \<noteq> x) r = ''.'' \<longleftrightarrow> c = CHR ''.'' \<and> (r = [] \<or> hd r = x)"
  by (cases r) auto

lemma two_dots:
  assumes "x \<noteq> CHR ''.''"
  shows "c # takeWhile (\<lambda>c. c \<noteq> x) r = ''..'' \<longleftrightarrow>
    c = CHR ''.'' \<and> r \<noteq> [] \<and> hd r = CHR ''.'' \<and> (tl r = [] \<or> hd (tl r) = x)"
  using assms by (cases r; cases "tl r") auto

lemma not_dots:
  assumes "c # takeWhile (\<lambda>c. c \<noteq> CHR ''/'') r \<noteq> ''.''" "c # takeWhile (\<lambda>c. c \<noteq> CHR ''/'') r \<noteq> ''..''"
  shows "(c = CHR ''.'' \<and> (r = [] \<or> hd r = CHR ''/'')) = False"
    "(c = CHR ''.'' \<and> r \<noteq> [] \<and> hd r = CHR ''.'' \<and> (tl r = [] \<or> hd (tl r) = CHR ''/'')) = False"
  using assms one_dot [of c "CHR ''/''" r] two_dots [of "CHR ''/''" c r] by blast+

lemma dropWhile_two_dots:
  assumes "x \<noteq> CHR ''.''" and "r \<noteq> []" "hd r = CHR ''.''" "tl r = [] \<or> hd (tl r) = x"
  shows "dropWhile (\<lambda>c. c \<noteq> x) r = tl r"
  using assms by (cases r; cases "tl r") auto

lemma tokens_end: "dropWhile (\<lambda>c. c = CHR ''/'') i = [] \<Longrightarrow> tokenizeString ''/'' i = []"
  by (simp add: tokenizeString.simps [of _ i] del: dropWhile_eq_Nil_conv)

lemma tokens_next:
  "dropWhile (\<lambda>c. c = CHR ''/'') i = c # r \<Longrightarrow> tokenizeString ''/'' i =
     (c # takeWhile (\<lambda>c. c \<noteq> CHR ''/'') r) # tokenizeString ''/'' (dropWhile (\<lambda>c. c \<noteq> CHR ''/'') r)"
  by (simp add: tokenizeString.simps [of _ i])

lemma canonPath_loop_end:
  "dropWhile (\<lambda>c. c = CHR ''/'') i = [] \<Longrightarrow>
     canonPath_loop link resolve p i (slashes cs) n = Inr (render_path cs)"
  by (subst canonPath_loop.simps) (simp add: render_path_def del: dropWhile_eq_Nil_conv)

text \<open>One round of the loop, on the components.\<close>

lemma canonPath_round:
  assumes "normal_comps cs" and "dropWhile (\<lambda>c. c = CHR ''/'') i = c # r"
    and comp: "d = c # takeWhile (\<lambda>c. c \<noteq> CHR ''/'') r"
    and rest: "rest = dropWhile (\<lambda>c. c \<noteq> CHR ''/'') r"
    and plain: "\<not> resolve \<or> d = ''.'' \<or> d = ''..''"
  shows "canonPath_loop link resolve p i (slashes cs) n =
    canonPath_loop link resolve p rest (slashes (norm_step cs d)) n"
proof (cases "d = ''.''")
  case True
  then show ?thesis
    using assms one_dot [of c "CHR ''/''" r] dropWhile_hd [of r "CHR ''/''"]
    by (subst canonPath_loop.simps) (simp add: norm_step_def)
next
  case nodot: False
  show ?thesis
  proof (cases "d = ''..''")
    case True
    then have dd: "c = CHR ''.''" "r \<noteq> []" "hd r = CHR ''.''" "tl r = [] \<or> hd (tl r) = CHR ''/''"
      using two_dots [of "CHR ''/''" c r] comp by simp_all
    then have r: "rest = tl r" and n1: "r = [] \<or> hd r = CHR ''/'' \<longleftrightarrow> False"
      using rest dropWhile_two_dots [of "CHR ''/''" r] by simp_all
    show ?thesis
    proof (cases cs rule: rev_cases)
      case Nil
      then show ?thesis using assms(2) dd r n1 True
        by (subst canonPath_loop.simps) (simp add: norm_step_def)
    next
      case (snoc ds e)
      then have "rfind_char (CHR ''/'') (slashes cs) = Some (length (slashes ds))"
        using assms(1) rfind_slashes by blast
      then show ?thesis using assms(2) dd r n1 True snoc
        by (subst canonPath_loop.simps) (simp add: norm_step_def)
    qed
  next
    case False
    have s': "slashes (cs @ [d]) = slashes cs @ [CHR ''/''] @ d" by simp
    have "\<not> resolve" and step: "norm_step cs d = cs @ [d]"
      using plain nodot False by (simp_all add: norm_step_def)
    then show ?thesis
      unfolding canonPath_loop.simps [of link resolve p i] assms(2) list.case
        not_dots [OF nodot [unfolded comp] False [unfolded comp]] if_False Let_def step s'
        comp [symmetric] rest [symmetric]
      by (simp only: if_False)
  qed
qed

lemma takeWhile_not_in: "x \<notin> set (takeWhile (\<lambda>c. c \<noteq> x) r)"
  by (metis set_takeWhileD)

lemma normal_norm_step:
  assumes "normal_comps cs" and "c \<noteq> CHR ''/''"
  shows "normal_comps (norm_step cs (c # takeWhile (\<lambda>c. c \<noteq> CHR ''/'') r))"
  using assms takeWhile_not_in [of "CHR ''/''" r]
  by (auto simp: norm_step_def normal_comps_butlast)

lemma dropWhile_hd_not: "dropWhile P i = c # r \<Longrightarrow> \<not> P c"
  by (metis dropWhile_eq_Cons_conv)

lemma canonPath_loop_plain:
  assumes "normal_comps cs"
  shows "canonPath_loop link False p i (slashes cs) n =
    Inr (render_path (foldl norm_step cs (tokenizeString ''/'' i)))"
  using assms
proof (induction i arbitrary: cs rule: length_induct)
  case (1 i)
  show ?case
  proof (cases "dropWhile (\<lambda>c. c = CHR ''/'') i")
    case Nil
    then show ?thesis
      by (simp add: canonPath_loop_end tokens_end del: dropWhile_eq_Nil_conv)
  next
    case (Cons c r)
    let ?comp = "c # takeWhile (\<lambda>c. c \<noteq> CHR ''/'') r"
    let ?rest = "dropWhile (\<lambda>c. c \<noteq> CHR ''/'') r"
    have "length ?rest < length i"
      using skip_length [OF Cons] length_dropWhile_le le_less_trans by blast
    with 1 have "canonPath_loop link False p ?rest (slashes (norm_step cs ?comp)) n =
        Inr (render_path (foldl norm_step (norm_step cs ?comp) (tokenizeString ''/'' ?rest)))"
      using normal_norm_step dropWhile_hd_not [OF Cons] by simp
    moreover have "tokenizeString ''/'' i = ?comp # tokenizeString ''/'' ?rest"
      using Cons by (rule tokens_next)
    ultimately show ?thesis
      using canonPath_round [OF "1.prems" Cons refl refl] by simp
  qed
qed

lemma normal_tokens:
  "normal_comps cs \<Longrightarrow> normal_comps (foldl norm_step cs (tokenizeString ''/'' i))"
proof (induction i arbitrary: cs rule: length_induct)
  case (1 i)
  show ?case
  proof (cases "dropWhile (\<lambda>c. c = CHR ''/'') i")
    case Nil
    then show ?thesis using "1.prems" by (simp add: tokens_end del: dropWhile_eq_Nil_conv)
  next
    case (Cons c r)
    have "length (dropWhile (\<lambda>c. c \<noteq> CHR ''/'') r) < length i"
      using skip_length [OF Cons] length_dropWhile_le le_less_trans by blast
    then show ?thesis using 1 Cons normal_norm_step [OF "1.prems" dropWhile_hd_not [OF Cons], of r]
      by (simp add: tokens_next)
  qed
qed

text \<open>
  Without following links, \<^verbatim>\<open>canonPath\<close> of an absolute path is the path of its components with
  every \<^verbatim>\<open>.\<close> dropped and every \<^verbatim>\<open>..\<close> cancelled against the component before it (at the root it
  cancels nothing); a relative path is refused.
\<close>

theorem canonPath_components:
  "canonPath link p False =
     (if p \<noteq> [] \<and> hd p = CHR ''/''
      then Inr (render_path (foldl norm_step [] (tokenizeString ''/'' p)))
      else Inl (Error (''not an absolute path: `'' @ p @ [CHR 0x27])))"
  using canonPath_loop_plain [of "[]" link p p 0]
  by (cases p) (auto simp: canonPath_def char_at_def)

lemma tokenizeString_slashes:
  assumes "normal_comps cs"
  shows "tokenizeString ''/'' (slashes cs) = cs"
  using assms
proof (induction cs)
  case Nil
  then show ?case by (subst tokenizeString.simps) simp
next
  case (Cons d cs)
  then obtain c d' where d: "d = c # d'" "c \<noteq> CHR ''/''" "CHR ''/'' \<notin> set d'"
    by (cases d) auto
  have "takeWhile (\<lambda>c. c \<noteq> CHR ''/'') (d' @ slashes cs) = d'"
    "dropWhile (\<lambda>c. c \<noteq> CHR ''/'') (d' @ slashes cs) = slashes cs"
    using d(3) by (induction d') (auto, (cases cs; auto)+)
  then show ?case using Cons d by (subst tokenizeString.simps) simp
qed

lemma foldl_norm_step_normal:
  "normal_comps ds \<Longrightarrow> foldl norm_step cs ds = cs @ ds"
  by (induction ds arbitrary: cs) (auto simp: norm_step_def)

lemma canonPath_rendered: "normal_comps cs \<Longrightarrow> canonPath link (render_path cs) False = Inr (render_path cs)"
proof -
  assume n: "normal_comps cs"
  have "tokenizeString ''/'' (render_path cs) = cs"
    using n tokenizeString_slashes
    by (cases "cs = []") (simp_all add: render_path_def tokenizeString.simps)
  moreover have "render_path cs \<noteq> [] \<and> hd (render_path cs) = CHR ''/''"
    by (cases cs) (auto simp: render_path_def)
  ultimately show ?thesis
    using n canonPath_loop_plain [of "[]" link "render_path cs" "render_path cs" 0]
    by (auto simp: canonPath_def char_at_def hd_conv_nth foldl_norm_step_normal)
qed

text \<open>Following links, the result so far stays a normalised path whatever the links are.\<close>

lemma canonPath_round_link:
  assumes "dropWhile (\<lambda>c. c = CHR ''/'') i = c # r"
    and d: "d = c # takeWhile (\<lambda>c. c \<noteq> CHR ''/'') r"
    and rest: "rest = dropWhile (\<lambda>c. c \<noteq> CHR ''/'') r"
    and "d \<noteq> ''.''" "d \<noteq> ''..''"
    and ret: "canonPath_loop link True p i (slashes cs) n = Inr q"
  shows "canonPath_loop link True p rest (slashes (cs @ [d])) n = Inr q \<or>
    n < maxFollow \<and> (\<exists>t. canonPath_loop link True p t [] (Suc n) = Inr q)"
proof -
  note nd = not_dots [OF assms(4,5) [unfolded d]]
  have s': "slashes (cs @ [d]) = slashes cs @ [CHR ''/''] @ d" by simp
  from ret obtain l where l: "link (slashes (cs @ [d])) = Inr l" and r: "(case l of
        None \<Rightarrow> canonPath_loop link True p rest (slashes (cs @ [d])) n
      | Some target \<Rightarrow>
          if Suc n \<ge> maxFollow
          then Inl (Error (''infinite symlink recursion in path `'' @ p @ [CHR 0x27]))
          else bindE (if char_at target 0 \<noteq> CHR ''/''
                      then bindE (dirOf (slashes (cs @ [d]))) (\<lambda>d. Inr (d @ ''/'' @ target)) else Inr target)
            (\<lambda>t. bindE (if char_at t 0 \<noteq> CHR ''/''
                   then Inl (Error (''not an absolute path: `'' @ t @ [CHR 0x27]))
                   else canonPath_loop link False t t [] 0)
            (\<lambda>t. canonPath_loop link True p (t @ rest) [] (Suc n)))) = Inr q"
    unfolding canonPath_loop.simps [of link True p i] assms(1) list.case nd if_False Let_def
      d [symmetric] rest [symmetric] s' [symmetric] if_True bindE_eq_Inr by (elim exE conjE)
  show ?thesis
  proof (cases l)
    case None
    with r show ?thesis by (simp only: option.case simp_thms)
  next
    case (Some target)
    with r have "Suc n < maxFollow" by (simp only: option.case split: if_splits) simp_all
    with r Some show ?thesis by (simp only: option.case if_False not_le [symmetric] bindE_eq_Inr) auto
  qed
qed

lemma canonPath_loop_normal:
  assumes "canonPath_loop link True p i (slashes cs) n = Inr q" and "normal_comps cs"
  shows "\<exists>ds. normal_comps ds \<and> q = render_path ds"
  using assms
proof (induction "maxFollow - n" arbitrary: n i cs rule: less_induct)
  case outer: less
  from outer.prems show ?case
  proof (induction i arbitrary: cs rule: length_induct)
    case (1 i)
    show ?case
    proof (cases "dropWhile (\<lambda>c. c = CHR ''/'') i")
      case Nil
      then show ?thesis using "1.prems"
        by (auto simp add: canonPath_loop_end simp del: dropWhile_eq_Nil_conv)
    next
      case (Cons c r)
      define d where "d = c # takeWhile (\<lambda>c. c \<noteq> CHR ''/'') r"
      define rest where "rest = dropWhile (\<lambda>c. c \<noteq> CHR ''/'') r"
      have normal: "normal_comps (norm_step cs d)"
        unfolding d_def using normal_norm_step "1.prems"(2) dropWhile_hd_not [OF Cons] by simp
      have len: "length rest < length i"
        unfolding rest_def using skip_length [OF Cons] length_dropWhile_le le_less_trans by blast
      consider "canonPath_loop link True p rest (slashes (norm_step cs d)) n = Inr q"
        | t where "n < maxFollow" "canonPath_loop link True p t (slashes []) (Suc n) = Inr q"
      proof (cases "d = ''.'' \<or> d = ''..''")
        case True
        then show ?thesis using that(1) canonPath_round [OF "1.prems"(2) Cons d_def rest_def] "1.prems"(1)
          by (metis (full_types))
      next
        case False
        then have "norm_step cs d = cs @ [d]" by (simp add: norm_step_def)
        then show ?thesis using that False canonPath_round_link [OF Cons d_def rest_def _ _ "1.prems"(1)]
          by auto
      qed
      then show ?thesis
      proof cases
        case 1
        then show ?thesis using "1.IH" len normal by blast
      next
        case 2
        then show ?thesis using outer.hyps [of "Suc n" t "[]"] by simp
      qed
    qed
  qed
qed



subsection \<open>Tokens and joined strings\<close>

fun join :: "string \<Rightarrow> string list \<Rightarrow> string" where
  "join sep [] = []"
| "join sep (x # xs) = x @ concat (map (\<lambda>y. sep @ y) xs)"

lemma concatStringsSep_started:
  "s \<noteq> [] \<Longrightarrow> fold (\<lambda>x s. (if length s \<noteq> 0 then s @ sep else s) @ x) xs s = s @ concat (map (\<lambda>y. sep @ y) xs)"
  by (induction xs arbitrary: s) auto

text \<open>
  The test \<^verbatim>\<open>s.size() != 0\<close> takes empty strings at the front for no strings at all: their separators
  are missing from the result.
\<close>

lemma concatStringsSep_join: "concatStringsSep sep ss = join sep (dropWhile (\<lambda>x. x = []) ss)"
proof (induction ss)
  case (Cons x ss)
  then show ?case
    using concatStringsSep_started [of x sep ss] by (cases "x = []") (simp_all add: concatStringsSep_def)
qed (simp add: concatStringsSep_def)

lemma concatStringsSep_leading_empty: "concatStringsSep sep ([] # ss) = concatStringsSep sep ss"
  by (simp add: concatStringsSep_join)

lemma tokenizeString_skip:
  "set sep \<subseteq> set seps \<Longrightarrow> tokenizeString seps (sep @ s) = tokenizeString seps s"
proof (induction sep)
  case (Cons c sep)
  then show ?case
    by (metis (no_types, lifting) append_Cons dropWhile.simps(2) list.set_intros(1) set_subset_Cons
        subset_code(1) tokenizeString.simps)
qed simp

lemma tokenizeString_token:
  assumes "w \<noteq> []" and "set w \<inter> set seps = {}" and "r = [] \<or> hd r \<in> set seps"
  shows "tokenizeString seps (w @ r) = w # tokenizeString seps r"
proof -
  obtain c v where w: "w = c # v" using assms(1) by (cases w) auto
  have "takeWhile (\<lambda>c. c \<notin> set seps) (v @ r) = v" "dropWhile (\<lambda>c. c \<notin> set seps) (v @ r) = r"
    using assms w by (cases r; force simp: takeWhile_append dropWhile_append)+
  then show ?thesis using assms w by (simp add: tokenizeString.simps [of _ "c # v @ r"])
qed

lemma tokenizeString_Nil [simp]: "tokenizeString seps [] = []"
  by (simp add: tokenizeString.simps)

lemma tokenizeString_tail:
  assumes "sep \<noteq> []" and "set sep \<subseteq> set seps" and "\<forall>w \<in> set ws. w \<noteq> [] \<and> set w \<inter> set seps = {}"
  shows "tokenizeString seps (concat (map (\<lambda>y. sep @ y) ws)) = ws"
  using assms(3)
proof (induction ws)
  case (Cons w ws)
  let ?r = "concat (map (\<lambda>y. sep @ y) ws)"
  have "?r = [] \<or> hd ?r \<in> set seps"
    using assms(1,2) by (cases ws) (auto dest: hd_in_set)
  then show ?case
    using Cons tokenizeString_skip [OF assms(2), of "w @ ?r"] tokenizeString_token [of w seps ?r] by auto
qed simp

lemma tokens_of_joined:
  assumes "sep \<noteq> []" and "set sep \<subseteq> set seps" and "\<forall>w \<in> set ws. w \<noteq> [] \<and> set w \<inter> set seps = {}"
  shows "tokenizeString seps (concatStringsSep sep ws) = ws"
proof (cases ws)
  case Nil
  then show ?thesis by (simp add: concatStringsSep_def)
next
  case (Cons w us)
  let ?r = "concat (map (\<lambda>y. sep @ y) us)"
  have "?r = [] \<or> hd ?r \<in> set seps"
    using assms(1,2) by (cases us) (auto dest: hd_in_set)
  then show ?thesis
    using Cons assms tokenizeString_tail [OF assms(1,2), of us] tokenizeString_token [of w seps ?r]
    by (simp add: concatStringsSep_join)
qed

text \<open>
  Splitting what \<^verbatim>\<open>concatStringsSep\<close> joined gives the strings back, for every list of non-empty
  strings without separator characters and every separator made of them.
\<close>

theorem tokenizeString_concatStringsSep:
  assumes "sep \<noteq> []" and "set sep \<subseteq> set seps" and "\<forall>w \<in> set ws. w \<noteq> [] \<and> set w \<inter> set seps = {}"
  shows "tokenizeString seps (concatStringsSep sep ws) = ws"
  using assms by (rule tokens_of_joined)

theorem tokenizeString_concatStringsSep_witness:
  "tokenizeString '' ,'' (concatStringsSep '', '' [''out'', ''dev'']) = [''out'', ''dev'']"
  by (rule tokenizeString_concatStringsSep) simp_all

subsection \<open>Numbers\<close>

lemma of_char_char_of_small: "n < 256 \<Longrightarrow> (of_char (char_of n :: char) :: nat) = n"
  by (simp add: of_char_mod_256)

lemma digit_facts:
  assumes "n < 10"
  shows "isdigit (char_of (48 + n))" "digit_value (char_of (48 + n)) = n"
proof -
  have "(of_char (char_of (48 + n) :: char) :: nat) = 48 + n"
    using assms by (simp add: of_char_mod_256)
  then show "isdigit (char_of (48 + n))" "digit_value (char_of (48 + n)) = n"
    using assms by (simp_all add: isdigit_def digit_value_def less_eq_char_def)
qed

lemma show_nat_digits:
  "show_nat n \<noteq> [] \<and> list_all isdigit (show_nat n) \<and> digits_value (show_nat n) = n"
proof (induction n rule: show_nat.induct)
  case (1 n)
  then show ?case
    by (subst (1 2 3) show_nat.simps) (auto simp: digit_facts digits_value_def)
qed

lemma isdigit_plain: "isdigit c \<Longrightarrow> \<not> isspace c \<and> c \<noteq> CHR ''-'' \<and> c \<noteq> CHR ''+''"
  by (auto simp: isdigit_def isspace_def less_eq_char_def)

lemma scan_number_show: "scan_number (show_nat n) = Some (False, n)"
proof -
  obtain c s where s: "show_nat n = c # s" using show_nat_digits [of n] by (cases "show_nat n") auto
  then have "isdigit c" using show_nat_digits [of n] by simp
  then show ?thesis using s show_nat_digits [of n] isdigit_plain [of c]
    by (simp add: scan_number_def Let_def)
qed

lemma scan_number_show_neg: "scan_number (CHR ''-'' # show_nat n) = Some (True, n)"
  using show_nat_digits [of n] by (simp add: scan_number_def Let_def isspace_def)

lemma string2Int_int2String:
  "- (2 ^ 31) \<le> n \<Longrightarrow> n < 2 ^ 31 \<Longrightarrow> string2Int (int2String n) = Some n"
  by (simp add: string2Int_def int2String_def scan_number_show scan_number_show_neg)
    arith

subsection \<open>Quoted strings\<close>

text \<open>
  \<^verbatim>\<open>parseString\<close> never notices the end of its input: without a closing quote it does not return.
\<close>

lemma parseString_loop_unterminated:
  "CHR 0x22 \<notin> set str \<Longrightarrow> parseString_loop res str = Inl Diverges"
proof (induction res str rule: parseString_loop.induct)
  case (2 res c str)
  then have "c \<noteq> CHR 0x22" by auto
  with 2 show ?case by (cases str) (simp_all del: parseString_loop.simps add: parseString_loop.simps(2) [of res])
qed simp

lemma parseString_unterminated:
  "CHR 0x22 \<notin> set str \<Longrightarrow> parseString (CHR 0x22 # str) = Inl Diverges"
  by (simp add: parseString_def expect_def parseString_loop_unterminated)

lemma expect_prefix [simp]: "expect s (s @ r) = Inr r"
  by (simp add: expect_def)

end
