(* ===== verification/Store_Paths.thy ===== *)
theory Store_Paths
  imports Hashes Util_Strings
begin

text \<open>
  Store paths and the text form of path registrations: \<^verbatim>\<open>src/libstore/store-api.cc\<close> and
  \<^verbatim>\<open>registerValidity\<close> of \<^verbatim>\<open>src/nix-store/nix-store.cc\<close>.

  \<^verbatim>\<open>settings.nixStore\<close> is the argument \<open>store\<close>, the digest algorithms the argument \<open>dg\<close>, and the store
  database a function from paths to their registrations.
\<close>

subsection \<open>Store paths\<close>

definition isInStore :: "path \<Rightarrow> path \<Rightarrow> bool" where
  "isInStore store p \<longleftrightarrow>
     char_at p 0 = CHR ''/''
     \<and> take (length store) p = store
     \<and> length p \<ge> length store + 2
     \<and> char_at p (length store) = CHR ''/''"

definition isStorePath :: "path \<Rightarrow> path \<Rightarrow> bool" where
  "isStorePath store p \<longleftrightarrow>
     isInStore store p \<and> find_char_from (CHR ''/'') p (length store + 1) = None"

definition assertStorePath :: "path \<Rightarrow> path \<Rightarrow> unit res" where
  "assertStorePath store p =
     guardE (isStorePath store p) (Error (''path `'' @ p @ [CHR 0x27] @ '' is not in the Nix store''))"

definition toStorePath :: "path \<Rightarrow> path \<Rightarrow> path res" where
  "toStorePath store p =
     (if \<not> isInStore store p
      then Inl (Error (''path `'' @ p @ [CHR 0x27] @ '' is not in the Nix store''))
      else case find_char_from (CHR ''/'') p (length store + 1) of
             None \<Rightarrow> Inr p
           | Some slash \<Rightarrow> Inr (take slash p))"

text \<open>
  The loop follows links without a bound, so it need not return: \<open>None\<close>.  \<open>link\<close> answers for
  \<^verbatim>\<open>isLink\<close> and \<^verbatim>\<open>readLink\<close> as in \<open>canonPath\<close>.
\<close>

partial_function (option) followLinksToStore_loop ::
  "(path \<Rightarrow> string option res) \<Rightarrow> path res \<Rightarrow> path \<Rightarrow> path \<Rightarrow> path res option" where
  "followLinksToStore_loop link getcwd store p =
     (if isInStore store p then Some (Inr p)
      else case link p of
        Inl e \<Rightarrow> Some (Inl e)
      | Inr None \<Rightarrow> Some (Inl (Error (''path `'' @ p @ [CHR 0x27] @ '' is not in the Nix store'')))
      | Inr (Some target) \<Rightarrow>
          (case bindE (dirOf p) (absPath link getcwd target) of
             Inl e \<Rightarrow> Some (Inl e)
           | Inr p \<Rightarrow> followLinksToStore_loop link getcwd store p))"

declare followLinksToStore_loop.simps [code]

definition followLinksToStore ::
  "(path \<Rightarrow> string option res) \<Rightarrow> path res \<Rightarrow> path \<Rightarrow> path \<Rightarrow> path res option" where
  "followLinksToStore link getcwd store p =
     (case absPath link getcwd p [] of
        Inl e \<Rightarrow> Some (Inl e)
      | Inr p \<Rightarrow> followLinksToStore_loop link getcwd store p)"

definition followLinksToStorePath ::
  "(path \<Rightarrow> string option res) \<Rightarrow> path res \<Rightarrow> path \<Rightarrow> path \<Rightarrow> path res option" where
  "followLinksToStorePath link getcwd store p =
     map_option (\<lambda>r. bindE r (toStorePath store)) (followLinksToStore link getcwd store p)"

definition storePathToName :: "path \<Rightarrow> path \<Rightarrow> string res" where
  "storePathToName store p =
     bindE (assertStorePath store p) (\<lambda>_. substr p (length store + 34))"

subsection \<open>Making store paths\<close>

definition storeNameChar :: "char \<Rightarrow> bool" where
  "storeNameChar c \<longleftrightarrow>
     (CHR ''A'' \<le> c \<and> c \<le> CHR ''Z'') \<or> (CHR ''a'' \<le> c \<and> c \<le> CHR ''z'')
     \<or> (CHR ''0'' \<le> c \<and> c \<le> CHR ''9'') \<or> c \<in> set ''+-._?=''"

definition checkStoreName :: "string \<Rightarrow> unit res" where
  "checkStoreName name =
     (if take 1 name = ''.'' then Inl (Error (''illegal name: `'' @ name @ [CHR 0x27]))
      else foldE (\<lambda>c _. guardE (storeNameChar c)
             (Error (''invalid character `'' @ [c, CHR 0x27] @ '' in name `'' @ name @ [CHR 0x27])))
           name ())"

definition makeStorePath :: "'c digest \<Rightarrow> path \<Rightarrow> string \<Rightarrow> Hash \<Rightarrow> string \<Rightarrow> path res" where
  "makeStorePath dg store type h name =
     (let s = type @ '':sha256:'' @ printHash h @ '':'' @ store @ '':'' @ name
      in bindE (checkStoreName name) (\<lambda>_.
         bindE (hashString dg htSHA256 s) (\<lambda>h.
         bindE (compressHash h 20) (\<lambda>h.
         bindE (printHash32 h) (\<lambda>h32.
           Inr (store @ ''/'' @ h32 @ ''-'' @ name))))))"

definition makeOutputPath :: "'c digest \<Rightarrow> path \<Rightarrow> string \<Rightarrow> Hash \<Rightarrow> string \<Rightarrow> path res" where
  "makeOutputPath dg store oid h name =
     makeStorePath dg store (''output:'' @ oid) h (name @ (if oid = ''out'' then '''' else ''-'' @ oid))"

definition makeFixedOutputPath ::
  "'c digest \<Rightarrow> path \<Rightarrow> bool \<Rightarrow> HashType \<Rightarrow> Hash \<Rightarrow> string \<Rightarrow> path res" where
  "makeFixedOutputPath dg store recursive hashAlgo h name =
     (if hashAlgo = htSHA256 \<and> recursive
      then makeStorePath dg store ''source'' h name
      else bindE (printHashType hashAlgo) (\<lambda>t.
           bindE (hashString dg htSHA256
                    (''fixed:out:'' @ (if recursive then ''r:'' else '''') @ t @ '':'' @ printHash h @ '':''))
             (\<lambda>h. makeStorePath dg store ''output:out'' h name)))"

definition computeStorePathForText ::
  "'c digest \<Rightarrow> path \<Rightarrow> string \<Rightarrow> string \<Rightarrow> path list \<Rightarrow> path res" where
  "computeStorePathForText dg store name s references =
     bindE (hashString dg htSHA256 s) (\<lambda>h.
       let type = fold (\<lambda>r type. type @ '':'' @ r) references ''text''
       in makeStorePath dg store type h name)"

subsection \<open>Registrations as text\<close>

record ValidPathInfo =
  viPath :: path
  viDeriver :: path
  viHash :: Hash
  viReferences :: "path list"
  viRegistrationTime :: int
  viNarSize :: u64
  viId :: u64

text \<open>\<^verbatim>\<open>id\<close> has no initial value in the constructor; it is only used by the local store.\<close>

definition ValidPathInfo_new :: ValidPathInfo where
  "ValidPathInfo_new = \<lparr>viPath = [], viDeriver = [], viHash = Hash_unusable, viReferences = [],
     viRegistrationTime = 0, viNarSize = 0, viId = 0\<rparr>"

abbreviation nl :: string where
  "nl \<equiv> [CHR 0x0A]"

definition registration_entry :: "bool \<Rightarrow> bool \<Rightarrow> path \<Rightarrow> ValidPathInfo \<Rightarrow> string" where
  "registration_entry showDerivers showHash p info =
     p @ nl
     @ (if showHash then printHash (viHash info) @ nl @ show_nat (unat (viNarSize info)) @ nl else [])
     @ (if showDerivers then viDeriver info else []) @ nl
     @ show_nat (length (viReferences info)) @ nl
     @ concat (map (\<lambda>r. r @ nl) (viReferences info))"

definition makeValidityRegistration ::
  "(path \<Rightarrow> ValidPathInfo res) \<Rightarrow> path list \<Rightarrow> bool \<Rightarrow> bool \<Rightarrow> string res" where
  "makeValidityRegistration queryPathInfo paths showDerivers showHash =
     foldE (\<lambda>p s. bindE (queryPathInfo p) (\<lambda>info.
       Inr (s @ registration_entry showDerivers showHash p info))) paths []"

text \<open>
  An input stream with its \<^verbatim>\<open>eofbit\<close> and \<^verbatim>\<open>failbit\<close>.  \<^verbatim>\<open>getline\<close> on a stream that is no longer good
  fails and leaves the string as it was; at the end of the input it takes what is left.
\<close>

record istream =
  isText :: string
  isEof :: bool
  isFail :: bool

definition istream_of :: "string \<Rightarrow> istream" where
  "istream_of s = \<lparr>isText = s, isEof = False, isFail = False\<rparr>"

definition getline :: "istream \<Rightarrow> string \<Rightarrow> istream \<times> string" where
  "getline str s =
     (if isEof str \<or> isFail str then (str\<lparr>isFail := True\<rparr>, s)
      else case find_char (CHR 0x0A) (isText str) of
        Some i \<Rightarrow> (str\<lparr>isText := drop (Suc i) (isText str)\<rparr>, take i (isText str))
      | None \<Rightarrow> (str\<lparr>isText := [], isEof := True, isFail := (isText str = [])\<rparr>, isText str))"

fun decode_references :: "nat \<Rightarrow> istream \<Rightarrow> string \<Rightarrow> path list \<Rightarrow> istream \<times> path list" where
  "decode_references 0 str s refs = (str, refs)"
| "decode_references (Suc n) str s refs =
     (let (str, s) = getline str s in decode_references n str s (set_insert s refs))"

text \<open>
  A negative count makes \<^verbatim>\<open>while (n--)\<close> run until the \<^verbatim>\<open>int\<close> overflows.  The string \<^verbatim>\<open>s\<close> of the
  first block is another variable than the one of the second.
\<close>

definition decode_hash :: "bool \<Rightarrow> istream \<Rightarrow> ValidPathInfo \<Rightarrow> (istream \<times> ValidPathInfo) res" where
  "decode_hash hashGiven str info =
     (if \<not> hashGiven then Inr (str, info)
      else let (str, s) = getline str []
           in bindE (parseHash htSHA256 s) (\<lambda>h.
                let (str, s) = getline str s
                in case string2Int_u64 s of
                     None \<Rightarrow> Inl (Error ''number expected'')
                   | Some n \<Rightarrow> Inr (str, info\<lparr>viHash := h, viNarSize := n\<rparr>)))"

definition decode_tail :: "istream \<Rightarrow> ValidPathInfo \<Rightarrow> (istream \<times> ValidPathInfo) res" where
  "decode_tail str info =
     (let (str, d) = getline str (viDeriver info);
          info = info\<lparr>viDeriver := d\<rparr>;
          (str, s) = getline str []
      in case string2Int s of
           None \<Rightarrow> Inl (Error ''number expected'')
         | Some n \<Rightarrow>
             if n < 0 then Inl (Undefined ''signed integer overflow'')
             else let (str, refs) = decode_references (nat n) str s (viReferences info)
                  in if isFail str \<or> isEof str then Inl (Error ''missing input'')
                     else Inr (str, info\<lparr>viReferences := refs\<rparr>))"

definition decodeValidPathInfo :: "istream \<Rightarrow> bool \<Rightarrow> (istream \<times> ValidPathInfo) res" where
  "decodeValidPathInfo str hashGiven =
     (let info = ValidPathInfo_new;
          (str, p) = getline str (viPath info)
      in if isEof str then Inr (str, info\<lparr>viPath := []\<rparr>)
         else bindE (decode_hash hashGiven str (info\<lparr>viPath := p\<rparr>)) (\<lambda>(str, info). decode_tail str info))"

definition showPaths :: "path list \<Rightarrow> string" where
  "showPaths paths =
     fold (\<lambda>p s. (if length s \<noteq> 0 then s @ '', '' else s) @ ''`'' @ p @ [CHR 0x27]) paths []"

definition exportPaths ::
  "(bytes \<Rightarrow> 's \<Rightarrow> 's res) \<Rightarrow> (path \<Rightarrow> bool \<Rightarrow> 's \<Rightarrow> 's res) \<Rightarrow> path list \<Rightarrow> bool \<Rightarrow> 's \<Rightarrow> 's res" where
  "exportPaths snk exportPath paths sign s =
     bindE (foldE (\<lambda>p s. bindE (writeInt snk 1 s) (exportPath p sign)) paths s) (writeInt snk 0)"

subsection \<open>The registration loop\<close>

lemma getline_length:
  assumes "getline str s = (str', s')" and "\<not> isEof str'" and "\<not> isFail str'"
  shows "length (isText str') < length (isText str)"
  using assms by (auto simp: getline_def find_char_Some split: if_splits option.splits)

lemma getline_mono:
  assumes "getline str s = (str', s')"
  shows "length (isText str') \<le> length (isText str)" "isFail str \<Longrightarrow> isFail str'"
    "isEof str \<Longrightarrow> isEof str'"
  using assms by (auto simp: getline_def split: if_splits option.splits)

lemma decode_references_mono:
  "decode_references n str s refs = (str', refs') \<Longrightarrow>
     length (isText str') \<le> length (isText str) \<and> (isFail str \<longrightarrow> isFail str')"
proof (induction n str s refs rule: decode_references.induct)
  case (2 n str s refs)
  obtain str1 s1 where g: "getline str s = (str1, s1)" by force
  from 2 g have "length (isText str') \<le> length (isText str1) \<and> (isFail str1 \<longrightarrow> isFail str')" by simp
  then show ?case using getline_mono [OF g] by auto
qed simp

lemma decode_hash_mono:
  assumes "decode_hash hashGiven str info = Inr (str', info')"
  shows "length (isText str') \<le> length (isText str) \<and> viPath info' = viPath info"
proof -
  obtain str1 s1 where g: "getline str [] = (str1, s1)" by force
  obtain str2 s2 where g': "getline str1 s1 = (str2, s2)" by force
  show ?thesis
    using assms g g' getline_mono(1) [OF g] getline_mono(1) [OF g']
    by (auto simp: decode_hash_def bindE_eq_Inr split: if_splits option.splits)
qed

lemma decode_tail_mono:
  assumes "decode_tail str info = Inr (str', info')"
  shows "length (isText str') \<le> length (isText str) \<and> viPath info' = viPath info"
proof -
  obtain str1 d where g: "getline str (viDeriver info) = (str1, d)" by force
  obtain str2 s where g': "getline str1 [] = (str2, s)" by force
  obtain n where n: "string2Int s = Some n" "\<not> n < 0"
    using assms g g' by (auto simp: decode_tail_def Let_def split: option.splits if_splits)
  obtain str3 refs where r: "decode_references (nat n) str2 s (viReferences info) = (str3, refs)" by force
  show ?thesis
    using assms g g' n r getline_mono(1) [OF g] getline_mono(1) [OF g'] decode_references_mono [OF r]
    by (auto simp: decode_tail_def split: if_splits)
qed

lemma decodeValidPathInfo_consumes:
  assumes "decodeValidPathInfo str hashGiven = Inr (str', info)" and "viPath info \<noteq> []"
  shows "length (isText str') < length (isText str)"
proof -
  obtain str1 p where g: "getline str [] = (str1, p)" by force
  have e: "\<not> isEof str1"
    using assms g by (auto simp: decodeValidPathInfo_def ValidPathInfo_new_def)
  then have f: "\<not> isFail str1 \<or> p = []"
    using g by (auto simp: getline_def split: if_splits option.splits)
  obtain str2 info2 where d: "decode_hash hashGiven str1 (ValidPathInfo_new\<lparr>viPath := p\<rparr>) = Inr (str2, info2)"
    and t: "decode_tail str2 info2 = Inr (str', info)"
    using assms(1) g e by (auto simp: decodeValidPathInfo_def bindE_eq_Inr ValidPathInfo_new_def)
  show ?thesis
    using decode_hash_mono [OF d] decode_tail_mono [OF t] getline_length [OF g e] f assms(2)
    by auto
qed

text \<open>
  The loop of \<^verbatim>\<open>registerValidity\<close>; what it collects goes to \<^verbatim>\<open>registerValidPaths\<close>.
  \<open>canonicalise\<close> and \<open>hashPath\<close> answer for the metadata pass and the hash of a path that exists.
\<close>

function registerValidity_loop ::
  "(path \<Rightarrow> bool) \<Rightarrow> (path \<Rightarrow> unit res) \<Rightarrow> (path \<Rightarrow> (Hash \<times> u64) res) \<Rightarrow> bool \<Rightarrow> bool \<Rightarrow> bool \<Rightarrow>
     istream \<Rightarrow> ValidPathInfo list \<Rightarrow> ValidPathInfo list res" where
  "registerValidity_loop isValidPath canonicalisePathMetaData hashPath reregister hashGiven canonicalise str infos =
     bindE (decodeValidPathInfo str hashGiven) (\<lambda>(str, info).
       if viPath info = [] then Inr infos
       else if \<not> isValidPath (viPath info) \<or> reregister then
         bindE (if canonicalise then canonicalisePathMetaData (viPath info) else Inr ()) (\<lambda>_.
         bindE (if \<not> hashGiven then bindE (hashPath (viPath info)) (\<lambda>(h, n).
                  Inr (info\<lparr>viHash := h, viNarSize := n\<rparr>)) else Inr info) (\<lambda>info.
           registerValidity_loop isValidPath canonicalisePathMetaData hashPath reregister hashGiven canonicalise
             str (infos @ [info])))
       else registerValidity_loop isValidPath canonicalisePathMetaData hashPath reregister hashGiven canonicalise
              str infos)"
  by pat_completeness auto
termination
  by (relation "measure (\<lambda>(v, c, h, r, g, c, str, infos). length (isText str))")
    (auto dest!: sym [of "Inr _"] decodeValidPathInfo_consumes)

declare registerValidity_loop.simps [simp del]

subsection \<open>Names and store paths\<close>

lemma checkStoreName_ok:
  "checkStoreName name = Inr u \<longleftrightarrow> take 1 name \<noteq> ''.'' \<and> list_all storeNameChar name"
proof -
  have "foldE (\<lambda>c _. guardE (storeNameChar c) (e c)) name () = Inr u \<longleftrightarrow> list_all storeNameChar name" for e
    by (induction name) (auto simp: bindE_eq_Inr)
  then show ?thesis by (auto simp: checkStoreName_def)
qed

lemma storeNameChar_not_slash: "storeNameChar c \<Longrightarrow> c \<noteq> CHR ''/''"
  by (auto simp: storeNameChar_def less_eq_char_def)

lemma base32_not_slash: "set s \<subseteq> set base32Chars \<Longrightarrow> CHR ''/'' \<notin> set s"
  by (auto simp: base32Chars_def)

lemma find_char_from_None: "find_char_from c s n = None \<longleftrightarrow> c \<notin> set (drop n s)"
  by (simp add: find_char_from_def find_char_None)

lemma store_path_shape:
  assumes "char_at store 0 = CHR ''/''" and "length h = 32"
    and "CHR ''/'' \<notin> set h" and "CHR ''/'' \<notin> set name"
  shows "isStorePath store (store @ ''/'' @ h @ ''-'' @ name)"
    and "storePathToName store (store @ ''/'' @ h @ ''-'' @ name) = Inr name"
proof -
  have "char_at (store @ ''/'' @ h @ ''-'' @ name) 0 = CHR ''/''"
    using assms(1) by (cases store) (auto simp: char_at_def split: if_splits)
  then show sp: "isStorePath store (store @ ''/'' @ h @ ''-'' @ name)"
    using assms(3,4) by (simp add: isStorePath_def isInStore_def char_at_def find_char_from_None nth_append)
  have "drop (length store + 34) (store @ ''/'' @ h @ ''-'' @ name) = name"
    using assms(2) by simp
  then show "storePathToName store (store @ ''/'' @ h @ ''-'' @ name) = Inr name"
    using sp assms(2) by (simp add: storePathToName_def assertStorePath_def substr_def)
qed

lemma makeStorePath_shape:
  assumes "digest_ok dg"
  shows "checkStoreName name = Inr () \<Longrightarrow>
    \<exists>h32. makeStorePath dg store type h name = Inr (store @ ''/'' @ h32 @ ''-'' @ name) \<and>
      length h32 = 32 \<and> set h32 \<subseteq> set base32Chars"
    and "checkStoreName name = Inl e \<Longrightarrow> makeStorePath dg store type h name = Inl e"
proof -
  assume ok: "checkStoreName name = Inr ()"
  let ?s = "type @ '':sha256:'' @ printHash h @ '':'' @ store @ '':'' @ name"
  obtain h1 where h1: "hashString dg htSHA256 ?s = Inr h1" "wf_hash h1"
    using hashString_wf [OF assms, of htSHA256] by blast
  obtain h2 where h2: "compressHash h1 20 = Inr h2" "hash_ok h2" "hashSize h2 = 20"
    using compressHash_ok [of h1 20] h1(2) by (auto simp: wf_hash_def maxHashSize_def)
  obtain s where s: "printHash32 h2 = Inr s" "length s = hashLength32 h2"
      "set s \<subseteq> set base32Chars"
    using printHash32_correct [OF h2(2)] by blast
  have "hashLength32 h2 = 32" using h2(3) by (simp add: hashLength32_def)
  then show "\<exists>h32. makeStorePath dg store type h name = Inr (store @ ''/'' @ h32 @ ''-'' @ name) \<and>
      length h32 = 32 \<and> set h32 \<subseteq> set base32Chars"
    using ok h1 h2 s by (simp add: makeStorePath_def)
next
  assume "checkStoreName name = Inl e"
  then show "makeStorePath dg store type h name = Inl e" by (simp add: makeStorePath_def)
qed

text \<open>
  C25: For every type, hash and legal name \<^verbatim>\<open>makeStorePath\<close> returns a path directly below the store, and
  \<^verbatim>\<open>storePathToName\<close> reads the name back from it; an illegal name is refused with the error of
  \<^verbatim>\<open>checkStoreName\<close>.
\<close>

theorem makeStorePath_storePathToName:
  assumes "digest_ok dg" and "char_at store 0 = CHR ''/''"
  shows "case checkStoreName name of
      Inr _ \<Rightarrow> \<exists>p. makeStorePath dg store type h name = Inr p \<and> isStorePath store p \<and>
        storePathToName store p = Inr name
    | Inl e \<Rightarrow> makeStorePath dg store type h name = Inl e"
proof (cases "checkStoreName name")
  case (Inr u)
  then have "CHR ''/'' \<notin> set name"
    using storeNameChar_not_slash by (auto simp: checkStoreName_ok list_all_iff)
  then show ?thesis
    using Inr makeStorePath_shape(1) [OF assms(1), of name store type h] store_path_shape [OF assms(2)]
      base32_not_slash by fastforce
qed (simp add: makeStorePath_shape(2) [OF assms(1)])

theorem makeStorePath_storePathToName_witness:
  "digest_ok demo_digest \<and> checkStoreName ''hello-2.8'' = Inr () \<and>
   (\<exists>p. makeStorePath demo_digest ''/nix/store'' ''source'' Hash_unusable ''hello-2.8'' = Inr p \<and>
     isStorePath ''/nix/store'' p \<and> storePathToName ''/nix/store'' p = Inr ''hello-2.8'')"
proof -
  have ok: "checkStoreName ''hello-2.8'' = Inr ()" by code_simp
  have "char_at ''/nix/store'' 0 = CHR ''/''" by (simp add: char_at_def)
  from makeStorePath_storePathToName [OF demo_digest_ok this,
      where name = "''hello-2.8''" and type = "''source''" and h = Hash_unusable]
  show ?thesis using ok demo_digest_ok by simp
qed

text \<open>A store path too short for a hash and a name raises \<^verbatim>\<open>std::out_of_range\<close>, not an \<^verbatim>\<open>Error\<close>.\<close>

lemma storePathToName_short:
  "isStorePath store p \<Longrightarrow> length p < length store + 34 \<Longrightarrow> storePathToName store p = Inl OutOfRange"
  by (simp add: storePathToName_def assertStorePath_def substr_def)

subsection \<open>The store path a path is in\<close>

lemma isInStore_append: "isInStore store p \<Longrightarrow> isInStore store (p @ r)"
  by (auto simp: isInStore_def char_at_def nth_append split: if_splits)

lemma isStorePath_toStorePath:
  assumes "isStorePath store p"
  shows "toStorePath store p = Inr p" "toStorePath store (p @ CHR ''/'' # r) = Inr p"
proof -
  have in_store: "isInStore store p" and no: "CHR ''/'' \<notin> set (drop (length store + 1) p)"
    and len: "length store + 1 \<le> length p"
    using assms by (auto simp: isStorePath_def isInStore_def find_char_from_None)
  show "toStorePath store p = Inr p"
    using assms in_store by (simp add: toStorePath_def isStorePath_def)
  have "find_char_from (CHR ''/'') (p @ CHR ''/'' # r) (length store + 1) = Some (length p)"
    using find_char_append [OF no, of r] len by (simp add: find_char_from_def)
  then show "toStorePath store (p @ CHR ''/'' # r) = Inr p"
    using isInStore_append [OF in_store, of "CHR ''/'' # r"] by (simp add: toStorePath_def)
qed

lemma isInStore_take:
  assumes "isInStore store p" and "length store + 2 \<le> n"
  shows "isInStore store (take n p)"
  using assms by (auto simp: isInStore_def char_at_def split: if_splits)

lemma toStorePath_cases:
  assumes "isInStore store p" and "char_at p (length store + 1) \<noteq> CHR ''/''"
  shows "\<exists>q r. toStorePath store p = Inr q \<and> isStorePath store q \<and> p = q @ r \<and> (r = [] \<or> hd r = CHR ''/'')"
proof (cases "find_char_from (CHR ''/'') p (length store + 1)")
  case None
  then show ?thesis using assms by (auto simp: toStorePath_def isStorePath_def)
next
  case (Some k)
  then obtain i where i: "k = length store + 1 + i" "find_char (CHR ''/'') (drop (length store + 1) p) = Some i"
    by (auto simp: find_char_from_def)
  then have fc: "i < length p - (length store + 1)" "p ! k = CHR ''/''"
      "CHR ''/'' \<notin> set (take i (drop (length store + 1) p))"
    by (auto simp: find_char_Some)
  have "i \<noteq> 0" using assms(2) fc i(1) by (intro notI) (auto simp: char_at_def split: if_splits)
  then have "isInStore store (take k p)" using assms(1) i(1) by (intro isInStore_take) auto
  moreover have "drop (length store + 1) (take k p) = take i (drop (length store + 1) p)"
    using i(1) by (simp add: drop_take)
  ultimately have "isStorePath store (take k p)"
    using fc(3) by (simp add: isStorePath_def find_char_from_None)
  moreover have "hd (drop k p) = CHR ''/''" "drop k p \<noteq> []"
    using fc i(1) by (auto simp: hd_drop_conv_nth)
  ultimately show ?thesis
    using assms(1) Some by (metis (mono_tags) append_take_drop_id option.case(2) toStorePath_def)
qed

subsection \<open>Following links\<close>

lemma followLinks_in_store:
  assumes "followLinksToStore_loop link getcwd store p = Some (Inr q)"
  shows "isInStore store q"
proof -
  have "\<forall>q. r = Inr q \<longrightarrow> isInStore store q"
    if "followLinksToStore_loop link getcwd store p = Some r" for r
    by (rule followLinksToStore_loop.raw_induct [OF _ that])
      (auto split: if_splits sum.splits option.splits)
  with assms show ?thesis by blast
qed

text \<open>A symbolic link outside the store that leads to itself is followed for ever.\<close>

lemma followLinks_self:
  assumes "\<not> isInStore store p" and "link p = Inr (Some target)"
    and "bindE (dirOf p) (absPath link getcwd target) = Inr p"
  shows "followLinksToStore_loop link getcwd store p = None"
proof (rule ccontr)
  assume "followLinksToStore_loop link getcwd store p \<noteq> None"
  then obtain r where r: "followLinksToStore_loop link getcwd store p = Some r" by blast
  have "(link', getcwd', store', p') = (link, getcwd, store, p) \<longrightarrow> False"
    if "followLinksToStore_loop link' getcwd' store' p' = Some r'" for link' getcwd' store' p' r'
    by (rule followLinksToStore_loop.raw_induct [OF _ that])
      (use assms in \<open>fastforce\<close>)
  with r show False by blast
qed

lemma followLinks_self_example:
  "followLinksToStore (\<lambda>p. Inr (if p = ''/l'' then Some ''l'' else None)) (Inr ''/'') ''/nix/store'' ''/l'' = None"
proof -
  let ?link = "\<lambda>p. Inr (if p = ''/l'' then Some ''l'' else None)"
  have "\<not> isInStore ''/nix/store'' ''/l''" by code_simp
  moreover have "bindE (dirOf ''/l'') (absPath ?link (Inr ''/'') ''l'') = Inr ''/l''" by code_simp
  moreover have "absPath ?link (Inr ''/'') ''/l'' [] = Inr ''/l''" by code_simp
  ultimately show ?thesis
    using followLinks_self [of "''/nix/store''" "''/l''" ?link "''l''" "Inr ''/''"]
    by (simp add: followLinksToStore_def)
qed

subsection \<open>Registrations\<close>

lemma getline_line:
  assumes "CHR 0x0A \<notin> set l"
  shows "getline (istream_of (l @ CHR 0x0A # r)) s = (istream_of r, l)"
  using assms by (simp add: getline_def istream_of_def find_char_append)

lemma string2Int_show: "n < 2 ^ 31 \<Longrightarrow> string2Int (show_nat n) = Some (int n)"
  by (simp add: string2Int_def scan_number_show)

lemma string2Int_u64_show: "string2Int_u64 (show_nat (unat n)) = Some n"
  using unsigned_less [of n, where 'a = nat] by (simp add: string2Int_u64_def scan_number_show)

lemma show_nat_line: "CHR 0x0A \<notin> set (show_nat n)"
  using show_nat_digits [of n] by (auto simp: list_all_iff isdigit_def less_eq_char_def)

lemma printHash_line: "CHR 0x0A \<notin> set (printHash h)"
  using printHash_digits [of h] by (auto simp: list_all_iff isxdigit_def less_eq_char_def)

lemma decode_references_lines:
  assumes "\<forall>r \<in> set rs. CHR 0x0A \<notin> set r"
  shows "decode_references (length rs) (istream_of (concat (map (\<lambda>r. r @ nl) rs) @ t)) s refs
    = (istream_of t, set_insert_all rs refs)"
  using assms by (induction rs arbitrary: s refs) (auto simp: getline_line set_insert_all_def)

text \<open>What a registration must satisfy to be written as lines of text.\<close>

definition registrable :: "ValidPathInfo \<Rightarrow> bool" where
  "registrable info \<longleftrightarrow>
     viPath info \<noteq> [] \<and> CHR 0x0A \<notin> set (viPath info) \<and> CHR 0x0A \<notin> set (viDeriver info)
     \<and> wf_hash (viHash info) \<and> hashType (viHash info) = htSHA256
     \<and> is_set (viReferences info) \<and> list_all (\<lambda>r. CHR 0x0A \<notin> set r) (viReferences info)
     \<and> length (viReferences info) < 2 ^ 31"

definition decoded :: "ValidPathInfo \<Rightarrow> ValidPathInfo" where
  "decoded info = info\<lparr>viRegistrationTime := 0, viId := 0\<rparr>"

lemma decode_hash_entry:
  assumes "registrable info"
  shows "decode_hash True (istream_of (printHash (viHash info) @ nl @ show_nat (unat (viNarSize info)) @ nl @ t)) i
    = Inr (istream_of t, i\<lparr>viHash := viHash info, viNarSize := viNarSize info\<rparr>)"
  using assms parseHash_printHash [of "viHash info"]
  by (simp add: decode_hash_def getline_line printHash_line show_nat_line string2Int_u64_show registrable_def)

lemma decode_tail_entry:
  assumes "registrable info" and "viReferences i = []"
  shows "decode_tail (istream_of (viDeriver info @ nl @ show_nat (length (viReferences info)) @ nl
      @ concat (map (\<lambda>r. r @ nl) (viReferences info)) @ t)) i
    = Inr (istream_of t, i\<lparr>viDeriver := viDeriver info, viReferences := viReferences info\<rparr>)"
proof -
  let ?rs = "viReferences info"
  have "decode_references (length ?rs) (istream_of (concat (map (\<lambda>r. r @ nl) ?rs) @ t)) s []
      = (istream_of t, ?rs)" for s
    using assms decode_references_lines [of ?rs t s "[]"] set_of_list_id [of ?rs]
    by (auto simp: registrable_def list_all_iff set_of_list_def)
  then show ?thesis
    using assms by (simp add: decode_tail_def getline_line show_nat_line string2Int_show registrable_def
        Let_def) (simp add: istream_of_def)
qed

lemma decode_entry:
  assumes "registrable info"
  shows "decodeValidPathInfo (istream_of (registration_entry True True (viPath info) info @ t)) True
    = Inr (istream_of t, decoded info)"
proof -
  let ?h = "printHash (viHash info) @ nl @ show_nat (unat (viNarSize info)) @ nl"
  let ?t = "viDeriver info @ nl @ show_nat (length (viReferences info)) @ nl
      @ concat (map (\<lambda>r. r @ nl) (viReferences info)) @ t"
  have e: "registration_entry True True (viPath info) info @ t = viPath info @ CHR 0x0A # (?h @ ?t)"
    by (simp add: registration_entry_def)
  have g: "getline (istream_of (viPath info @ CHR 0x0A # (?h @ ?t))) [] = (istream_of (?h @ ?t), viPath info)"
    using assms by (intro getline_line) (simp add: registrable_def)
  have "\<not> isEof (istream_of (?h @ ?t))" by (simp add: istream_of_def)
  then show ?thesis
    unfolding e decodeValidPathInfo_def
    using g decode_hash_entry [OF assms, of ?t] decode_tail_entry [OF assms]
    by (simp add: ValidPathInfo_new_def decoded_def)
qed

lemma decode_end: "decodeValidPathInfo (istream_of []) hashGiven = Inr (\<lparr>isText = [], isEof = True, isFail = True\<rparr>, ValidPathInfo_new)"
  by (simp add: decodeValidPathInfo_def getline_def istream_of_def ValidPathInfo_new_def)

lemma registerValidity_entries:
  assumes "list_all registrable infos"
  shows "registerValidity_loop v c hp True True False
      (istream_of (concat (map (\<lambda>info. registration_entry True True (viPath info) info) infos))) acc
    = Inr (acc @ map decoded infos)"
  using assms
proof (induction infos arbitrary: acc)
  case Nil
  then show ?case by (subst registerValidity_loop.simps) (simp add: decode_end ValidPathInfo_new_def)
next
  case (Cons info infos)
  then have "viPath (decoded info) \<noteq> []" by (simp add: decoded_def registrable_def)
  with Cons show ?case
    by (subst registerValidity_loop.simps) (simp add: decode_entry)
qed

lemma makeValidityRegistration_entries:
  assumes "\<forall>p \<in> set ps. q p = Inr (info p)"
  shows "makeValidityRegistration q ps d h = Inr (concat (map (\<lambda>p. registration_entry d h p (info p)) ps))"
proof -
  have "foldE (\<lambda>p s. bindE (q p) (\<lambda>info. Inr (s @ registration_entry d h p info))) ps s
      = Inr (s @ concat (map (\<lambda>p. registration_entry d h p (info p)) ps))" for s
    using assms by (induction ps arbitrary: s) auto
  then show ?thesis by (simp add: makeValidityRegistration_def)
qed

text \<open>
  C26: Dumping and loading the store database: from the text \<^verbatim>\<open>makeValidityRegistration\<close> prints for a set
  of paths, with derivers and hashes, \<^verbatim>\<open>registerValidity\<close> collects exactly the registrations of those
  paths, in their order, whatever is already valid.  What is not printed (registration times and
  internal identifiers) is reset.
\<close>

theorem registrations_roundtrip:
  assumes "\<forall>p \<in> set ps. queryPathInfo p = Inr (info p) \<and> viPath (info p) = p \<and> registrable (info p)"
  shows "bindE (makeValidityRegistration queryPathInfo ps True True)
      (\<lambda>s. registerValidity_loop isValid canon hashp True True False (istream_of s) [])
    = Inr (map (\<lambda>p. (info p)\<lparr>viRegistrationTime := 0, viId := 0\<rparr>) ps)"
proof -
  have "concat (map (\<lambda>p. registration_entry True True p (info p)) ps)
      = concat (map (\<lambda>i. registration_entry True True (viPath i) i) (map info ps))"
    using assms by (simp add: comp_def cong: map_cong)
  then show ?thesis
    using assms makeValidityRegistration_entries [of ps queryPathInfo info True True]
      registerValidity_entries [of "map info ps" isValid canon hashp "[]"]
    by (simp add: list_all_iff decoded_def comp_def)
qed

definition demo_info :: "path \<Rightarrow> ValidPathInfo" where
  "demo_info p = \<lparr>viPath = p, viDeriver = ''/nix/store/d.drv'',
     viHash = \<lparr>hashSize = 32, hash = replicate 31 7 @ [255], hashType = htSHA256\<rparr>,
     viReferences = [''/nix/store/a'', p], viRegistrationTime = 1350000000, viNarSize = 2 ^ 63 + 5, viId = 17\<rparr>"

theorem registrations_roundtrip_witness:
  "bindE (makeValidityRegistration (\<lambda>p. Inr (demo_info p)) [''/nix/store/b'', ''/nix/store/c''] True True)
      (\<lambda>s. registerValidity_loop (\<lambda>p. True) (\<lambda>p. Inr ()) (\<lambda>p. Inl Diverges) True True False (istream_of s) [])
    = Inr (map (\<lambda>p. (demo_info p)\<lparr>viRegistrationTime := 0, viId := 0\<rparr>) [''/nix/store/b'', ''/nix/store/c''])"
proof (rule registrations_roundtrip, intro ballI conjI)
  fix p assume "p \<in> set [''/nix/store/b'', ''/nix/store/c'']"
  then show "registrable (demo_info p)"
    by (auto simp: registrable_def demo_info_def wf_hash_def hash_ok_def maxHashSize_def)
qed (simp_all add: demo_info_def)

end
