(* ===== verification/Derivations.thy ===== *)
theory Derivations
  imports Store_Paths
begin

text \<open>
  Derivations: \<^verbatim>\<open>src/libstore/derivations.cc\<close>.  Their text form (\<^verbatim>\<open>parseDerivation\<close>,
  \<^verbatim>\<open>unparseDerivation\<close>), fixed-output derivations, and \<^verbatim>\<open>hashDerivationModulo\<close> with its memo table
  \<^verbatim>\<open>drvHashes\<close> threaded explicitly.
\<close>

subsection \<open>Data\<close>

definition drvExtension :: string where
  "drvExtension = ''.drv''"

record DerivationOutput =
  outPath :: path
  outHashAlgo :: string
  outHash :: string

record Derivation =
  outputs :: "(string \<times> DerivationOutput) list"
  inputDrvs :: "(path \<times> string list) list"
  inputSrcs :: "path list"
  platform :: string
  builder :: path
  args :: "string list"
  env :: "(string \<times> string) list"

definition Derivation_new :: Derivation where
  "Derivation_new = \<lparr>outputs = [], inputDrvs = [], inputSrcs = [], platform = [], builder = [],
     args = [], env = []\<rparr>"

definition parseHashInfo :: "DerivationOutput \<Rightarrow> (bool \<times> HashType \<times> Hash) res" where
  "parseHashInfo out =
     (let recursive = (take 2 (outHashAlgo out) = ''r:'');
          algo = (if recursive then drop 2 (outHashAlgo out) else outHashAlgo out);
          ht = parseHashType algo
      in if ht = htUnknown then Inl (Error (''unknown hash algorithm `'' @ algo @ [CHR 0x27]))
         else bindE (parseHash ht (outHash out)) (\<lambda>h. Inr (recursive, ht, h)))"

subsection \<open>Parsing\<close>

definition parsePath :: "string \<Rightarrow> (path \<times> string) res" where
  "parsePath str =
     bindE (parseString str) (\<lambda>(s, str).
       if length s = 0 \<or> s ! 0 \<noteq> CHR ''/''
       then Inl (Error (''bad path `'' @ s @ [CHR 0x27] @ '' in derivation''))
       else Inr (s, str))"

text \<open>
  \<^verbatim>\<open>while (!endOfList(str))\<close>, the body reading one element into the state.  A body that reads nothing
  would be repeated for ever.
\<close>

function parse_list :: "(string \<Rightarrow> 's \<Rightarrow> ('s \<times> string) res) \<Rightarrow> string \<Rightarrow> 's \<Rightarrow> ('s \<times> string) res" where
  "parse_list item str st =
     (case endOfList str of
        (True, str) \<Rightarrow> Inr (st, str)
      | (False, str) \<Rightarrow>
          bindE (item str st) (\<lambda>(st, str').
            if length str' < length str then parse_list item str' st else Inl Diverges))"
  by pat_completeness auto
termination
  by (relation "measure (\<lambda>(item, str, st). length str)")
    (auto simp: endOfList_def split: if_splits)

declare parse_list.simps [simp del]

definition parseStrings :: "string \<Rightarrow> bool \<Rightarrow> (string list \<times> string) res" where
  "parseStrings str arePaths =
     parse_list (\<lambda>str res.
       bindE (if arePaths then parsePath str else parseString str) (\<lambda>(s, str).
         Inr (set_insert s res, str))) str []"

definition parse_output :: "string \<Rightarrow> Derivation \<Rightarrow> (Derivation \<times> string) res" where
  "parse_output str drv =
     bindE (expect ''('' str) (\<lambda>str. bindE (parseString str) (\<lambda>(oid, str).
     bindE (expect '','' str) (\<lambda>str. bindE (parsePath str) (\<lambda>(p, str).
     bindE (expect '','' str) (\<lambda>str. bindE (parseString str) (\<lambda>(algo, str).
     bindE (expect '','' str) (\<lambda>str. bindE (parseString str) (\<lambda>(h, str).
     bindE (expect '')'' str) (\<lambda>str.
       Inr (drv\<lparr>outputs := map_put oid \<lparr>outPath = p, outHashAlgo = algo, outHash = h\<rparr> (outputs drv)\<rparr>, str))))))))))"

definition parse_input :: "string \<Rightarrow> Derivation \<Rightarrow> (Derivation \<times> string) res" where
  "parse_input str drv =
     bindE (expect ''('' str) (\<lambda>str. bindE (parsePath str) (\<lambda>(p, str).
     bindE (expect '',['' str) (\<lambda>str. bindE (parseStrings str False) (\<lambda>(outs, str).
     bindE (expect '')'' str) (\<lambda>str.
       Inr (drv\<lparr>inputDrvs := map_put p outs (inputDrvs drv)\<rparr>, str))))))"

definition parse_arg :: "string \<Rightarrow> Derivation \<Rightarrow> (Derivation \<times> string) res" where
  "parse_arg str drv = bindE (parseString str) (\<lambda>(s, str). Inr (drv\<lparr>args := args drv @ [s]\<rparr>, str))"

definition parse_env :: "string \<Rightarrow> Derivation \<Rightarrow> (Derivation \<times> string) res" where
  "parse_env str drv =
     bindE (expect ''('' str) (\<lambda>str. bindE (parseString str) (\<lambda>(name, str).
     bindE (expect '','' str) (\<lambda>str. bindE (parseString str) (\<lambda>(v, str).
     bindE (expect '')'' str) (\<lambda>str.
       Inr (drv\<lparr>env := map_put name v (env drv)\<rparr>, str))))))"

definition parseDerivation :: "string \<Rightarrow> Derivation res" where
  "parseDerivation s =
     bindE (expect ''Derive(['' s) (\<lambda>str.
     bindE (parse_list parse_output str Derivation_new) (\<lambda>(drv, str).
     bindE (expect '',['' str) (\<lambda>str.
     bindE (parse_list parse_input str drv) (\<lambda>(drv, str).
     bindE (expect '',['' str) (\<lambda>str. bindE (parseStrings str True) (\<lambda>(srcs, str).
     bindE (expect '','' str) (\<lambda>str. bindE (parseString str) (\<lambda>(plat, str).
     bindE (expect '','' str) (\<lambda>str. bindE (parseString str) (\<lambda>(bld, str).
     bindE (expect '',['' str) (\<lambda>str.
     bindE (parse_list parse_arg str (drv\<lparr>inputSrcs := srcs, platform := plat, builder := bld\<rparr>)) (\<lambda>(drv, str).
     bindE (expect '',['' str) (\<lambda>str.
     bindE (parse_list parse_env str drv) (\<lambda>(drv, str).
     bindE (expect '')'' str) (\<lambda>str.
       Inr drv)))))))))))))))"

subsection \<open>Printing\<close>

text \<open>\<^verbatim>\<open>for (const char * i = s.c_str(); *i; i++)\<close> ends at the first null character of the string.\<close>

definition print_char :: "char \<Rightarrow> string" where
  "print_char c =
     (if c = CHR 0x22 \<or> c = CHR 0x5C then [CHR 0x5C, c]
      else if c = CHR 0x0A then [CHR 0x5C, CHR ''n'']
      else if c = CHR 0x0D then [CHR 0x5C, CHR ''r'']
      else if c = CHR 0x09 then [CHR 0x5C, CHR ''t'']
      else [c])"

definition printString :: "string \<Rightarrow> string" where
  "printString s =
     [CHR 0x22] @ concat (map print_char (takeWhile (\<lambda>c. c \<noteq> CHR 0x00) s)) @ [CHR 0x22]"

text \<open>The loops that print a comma before every element but the first.\<close>

fun print_items :: "('a \<Rightarrow> string) \<Rightarrow> bool \<Rightarrow> 'a list \<Rightarrow> string" where
  "print_items f first [] = []"
| "print_items f first (x # xs) = (if first then [] else '','') @ f x @ print_items f False xs"

definition printStrings :: "string list \<Rightarrow> string" where
  "printStrings ss = ''['' @ print_items printString True ss @ '']''"

definition print_output :: "string \<times> DerivationOutput \<Rightarrow> string" where
  "print_output i = ''('' @ printString (fst i) @ '','' @ printString (outPath (snd i))
     @ '','' @ printString (outHashAlgo (snd i)) @ '','' @ printString (outHash (snd i)) @ '')''"

definition print_input :: "path \<times> string list \<Rightarrow> string" where
  "print_input i = ''('' @ printString (fst i) @ '','' @ printStrings (snd i) @ '')''"

definition print_env :: "string \<times> string \<Rightarrow> string" where
  "print_env i = ''('' @ printString (fst i) @ '','' @ printString (snd i) @ '')''"

definition unparseDerivation :: "Derivation \<Rightarrow> string" where
  "unparseDerivation drv =
     ''Derive(['' @ print_items print_output True (outputs drv)
     @ ''],['' @ print_items print_input True (inputDrvs drv)
     @ ''],'' @ printStrings (inputSrcs drv)
     @ '','' @ printString (platform drv)
     @ '','' @ printString (builder drv)
     @ '','' @ printStrings (args drv)
     @ '',['' @ print_items print_env True (env drv)
     @ ''])''"

subsection \<open>Operations\<close>

definition writeDerivation ::
  "'c digest \<Rightarrow> path \<Rightarrow> bool \<Rightarrow> (string \<Rightarrow> string \<Rightarrow> path list \<Rightarrow> bool \<Rightarrow> path res) \<Rightarrow>
     Derivation \<Rightarrow> string \<Rightarrow> bool \<Rightarrow> path res" where
  "writeDerivation dg store readOnlyMode addTextToStore drv name repair =
     (let references = fold (\<lambda>i. set_insert (fst i)) (inputDrvs drv) (set_insert_all (inputSrcs drv) []);
          suffix = name @ drvExtension;
          contents = unparseDerivation drv
      in if readOnlyMode then computeStorePathForText dg store suffix contents references
         else addTextToStore suffix contents references repair)"

definition isDerivation :: "string \<Rightarrow> bool" where
  "isDerivation fileName = hasSuffix fileName drvExtension"

definition isFixedOutputDrv :: "Derivation \<Rightarrow> bool" where
  "isFixedOutputDrv drv \<longleftrightarrow>
     length (outputs drv) = 1
     \<and> fst (hd (outputs drv)) = ''out''
     \<and> outHash (snd (hd (outputs drv))) \<noteq> []"

type_synonym DrvHashes = "(path \<times> Hash) list"

text \<open>\<^verbatim>\<open>drvHashes[p]\<close> adds an unusable hash under a new key.\<close>

definition drvHashes_at :: "path \<Rightarrow> DrvHashes \<Rightarrow> Hash \<times> DrvHashes" where
  "drvHashes_at p memo = (case map_of memo p of
     Some h \<Rightarrow> (h, memo)
   | None \<Rightarrow> (Hash_unusable, map_put p Hash_unusable memo))"

text \<open>
  One input of the loop: \<open>rec\<close> is the recursive call.  \<open>valid\<close> is \<^verbatim>\<open>store.isValidPath\<close> and \<open>readFile\<close>
  reads a derivation from the store.
\<close>

definition modulo_input ::
  "(Derivation \<Rightarrow> DrvHashes \<Rightarrow> (Hash \<times> DrvHashes) res) \<Rightarrow> (path \<Rightarrow> bool) \<Rightarrow> (path \<Rightarrow> string res) \<Rightarrow>
     path \<times> string list \<Rightarrow> (string \<times> string list) list \<times> DrvHashes \<Rightarrow>
     ((string \<times> string list) list \<times> DrvHashes) res" where
  "modulo_input rec valid readFile i st =
     (let (h, memo) = drvHashes_at (fst i) (snd st)
      in bindE (if hashType h = htUnknown then
                  bindE (guardE (valid (fst i)) (AssertFail ''store.isValidPath(i->first)'')) (\<lambda>_.
                  bindE (readFile (fst i)) (\<lambda>s.
                  bindE (parseDerivation s) (\<lambda>drv2.
                  bindE (rec drv2 memo) (\<lambda>(h, memo).
                    Inr (h, map_put (fst i) h memo)))))
                else Inr (h, memo))
           (\<lambda>(h, memo). Inr (map_put (printHash h) (snd i) (fst st), memo)))"

text \<open>The recursion follows the input derivations; the first argument bounds its depth.\<close>

fun hashDerivationModulo ::
  "nat \<Rightarrow> 'c digest \<Rightarrow> (path \<Rightarrow> bool) \<Rightarrow> (path \<Rightarrow> string res) \<Rightarrow> Derivation \<Rightarrow> DrvHashes \<Rightarrow>
     (Hash \<times> DrvHashes) res" where
  "hashDerivationModulo 0 dg valid readFile drv memo = Inl Diverges"
| "hashDerivationModulo (Suc n) dg valid readFile drv memo =
     (if isFixedOutputDrv drv then
        let i = hd (outputs drv)
        in bindE (hashString dg htSHA256
                    (''fixed:out:'' @ outHashAlgo (snd i) @ '':'' @ outHash (snd i) @ '':'' @ outPath (snd i)))
             (\<lambda>h. Inr (h, memo))
      else
        bindE (foldE (modulo_input (hashDerivationModulo n dg valid readFile) valid readFile)
                 (inputDrvs drv) ([], memo))
          (\<lambda>(inputs2, memo).
            bindE (hashString dg htSHA256 (unparseDerivation (drv\<lparr>inputDrvs := inputs2\<rparr>)))
              (\<lambda>h. Inr (h, memo))))"

definition parseDrvPathWithOutputs :: "string \<Rightarrow> string \<times> string list" where
  "parseDrvPathWithOutputs s = (case find_char (CHR ''!'') s of
     None \<Rightarrow> (s, [])
   | Some n \<Rightarrow> (take n s, tokenizeString_set '','' (drop (n + 1) s)))"

definition makeDrvPathWithOutputs :: "path \<Rightarrow> string list \<Rightarrow> path" where
  "makeDrvPathWithOutputs drvPath outs =
     (if outs = [] then drvPath else drvPath @ ''!'' @ concatStringsSep '','' outs)"

definition wantOutput :: "string \<Rightarrow> string list \<Rightarrow> bool" where
  "wantOutput output wanted \<longleftrightarrow> wanted = [] \<or> output \<in> set wanted"

subsection \<open>Printed strings parse\<close>

definition nul_free :: "string \<Rightarrow> bool" where
  "nul_free s \<longleftrightarrow> CHR 0x00 \<notin> set s"

lemma takeWhile_nul_free: "nul_free s \<Longrightarrow> takeWhile (\<lambda>c. c \<noteq> CHR 0x00) s = s"
  by (auto simp: nul_free_def takeWhile_eq_all_conv)

lemma parseString_loop_print:
  "parseString_loop res (concat (map print_char s) @ CHR 0x22 # r) = Inr (res @ s, r)"
  by (induction s arbitrary: res) (simp_all add: print_char_def)

lemma parseString_printString [simp]:
  "nul_free s \<Longrightarrow> parseString (printString s @ r) = Inr (s, r)"
  by (simp add: parseString_def printString_def expect_def parseString_loop_print takeWhile_nul_free)

definition abs_path :: "path \<Rightarrow> bool" where
  "abs_path p \<longleftrightarrow> nul_free p \<and> p \<noteq> [] \<and> hd p = CHR ''/''"

lemma parsePath_printString [simp]: "abs_path p \<Longrightarrow> parsePath (printString p @ r) = Inr (p, r)"
  by (cases p) (auto simp: parsePath_def abs_path_def)

lemma expect_one [simp]: "expect [c] (c # r) = Inr r"
  by (simp add: expect_def)

lemma expect_two [simp]: "expect [c, d] (c # d # r) = Inr r"
  by (simp add: expect_def)

text \<open>
  The contract between the printer and the parser of the elements of a list: \<open>item\<close> reads back
  what \<open>print\<close> printed and stores it with \<open>put\<close>, and no printed element looks like the end of the list
  or a separator.  It gives the contract of the whole list.
\<close>

locale list_item =
  fixes print :: "'a \<Rightarrow> string"
    and item :: "string \<Rightarrow> 's \<Rightarrow> ('s \<times> string) res"
    and put :: "'a \<Rightarrow> 's \<Rightarrow> 's"
    and ok :: "'a \<Rightarrow> bool"
  assumes item_print: "ok x \<Longrightarrow> item (print x @ r) st = Inr (put x st, r)"
    and print_start: "print x \<noteq> [] \<and> hd (print x) \<noteq> CHR '','' \<and> hd (print x) \<noteq> CHR '']''"
begin

lemma parse_list_end: "parse_list item (CHR '']'' # r) st = Inr (st, r)"
  by (subst parse_list.simps) (simp add: endOfList_def)

lemma parse_list_item:
  assumes "ok x"
  shows "parse_list item (print x @ r) st = parse_list item r (put x st)"
    and "parse_list item (CHR '','' # print x @ r) st = parse_list item r (put x st)"
proof -
  have "endOfList (print x @ r) = (False, print x @ r)"
    using print_start [of x] by (cases "print x") (auto simp: endOfList_def)
  moreover have "length r < length (print x @ r)" using print_start [of x] by simp
  ultimately show "parse_list item (print x @ r) st = parse_list item r (put x st)"
    "parse_list item (CHR '','' # print x @ r) st = parse_list item r (put x st)"
    using item_print [OF assms] by (subst parse_list.simps, simp add: endOfList_def)+
qed

lemma parse_print_list:
  assumes "list_all ok xs"
  shows "parse_list item (print_items print first xs @ CHR '']'' # r) st = Inr (fold put xs st, r)"
  using assms
proof (induction xs arbitrary: first st)
  case (Cons x xs)
  then show ?case by (cases first) (simp_all add: parse_list_item)
qed (simp add: parse_list_end)

end

lemma printString_start: "printString s \<noteq> [] \<and> hd (printString s) = CHR 0x22"
  by (simp add: printString_def)

interpretation strings_item: list_item printString
  "\<lambda>str res. bindE (parseString str) (\<lambda>(s, str). Inr (set_insert s res, str))" set_insert nul_free
  using printString_start by unfold_locales simp_all

interpretation paths_item: list_item printString
  "\<lambda>str res. bindE (parsePath str) (\<lambda>(s, str). Inr (set_insert s res, str))" set_insert abs_path
  using printString_start by unfold_locales simp_all

interpretation arg_item: list_item printString parse_arg "\<lambda>s drv. drv\<lparr>args := args drv @ [s]\<rparr>" nul_free
  using printString_start by unfold_locales (simp_all add: parse_arg_def)

interpretation env_item: list_item print_env parse_env
  "\<lambda>kv drv. drv\<lparr>env := map_put (fst kv) (snd kv) (env drv)\<rparr>" "\<lambda>kv. nul_free (fst kv) \<and> nul_free (snd kv)"
  by unfold_locales (simp_all add: parse_env_def print_env_def)

definition output_ok :: "string \<times> DerivationOutput \<Rightarrow> bool" where
  "output_ok i \<longleftrightarrow> nul_free (fst i) \<and> abs_path (outPath (snd i)) \<and> nul_free (outHashAlgo (snd i))
     \<and> nul_free (outHash (snd i))"

lemma output_eta:
  "\<lparr>outPath = outPath x, outHashAlgo = outHashAlgo x, outHash = outHash x\<rparr> = (x :: DerivationOutput)"
  by (cases x) simp

interpretation output_item: list_item print_output parse_output
  "\<lambda>i drv. drv\<lparr>outputs := map_put (fst i) (snd i) (outputs drv)\<rparr>" output_ok
  by unfold_locales
    (simp_all add: parse_output_def print_output_def output_ok_def output_eta)

lemma parseStrings_printStrings:
  assumes "is_set ss" and "list_all (if arePaths then abs_path else nul_free) ss"
  shows "parseStrings (print_items printString True ss @ CHR '']'' # r) arePaths = Inr (ss, r)"
  using assms strings_item.parse_print_list [of ss True r "[]"] paths_item.parse_print_list [of ss True r "[]"]
    set_of_list_id [of ss]
  by (cases arePaths) (simp_all add: parseStrings_def set_of_list_def set_insert_all_def)

definition input_ok :: "path \<times> string list \<Rightarrow> bool" where
  "input_ok i \<longleftrightarrow> abs_path (fst i) \<and> is_set (snd i) \<and> list_all nul_free (snd i)"

interpretation input_item: list_item print_input parse_input
  "\<lambda>i drv. drv\<lparr>inputDrvs := map_put (fst i) (snd i) (inputDrvs drv)\<rparr>" input_ok
  by unfold_locales
    (simp_all add: parse_input_def print_input_def printStrings_def input_ok_def
      parseStrings_printStrings [where arePaths = False, simplified])

lemma fold_outputs:
  "fold (\<lambda>i drv. drv\<lparr>outputs := map_put (fst i) (snd i) (outputs drv)\<rparr>) xs drv
   = drv\<lparr>outputs := fold (\<lambda>i. map_put (fst i) (snd i)) xs (outputs drv)\<rparr>"
  by (induction xs arbitrary: drv) simp_all

lemma fold_inputs:
  "fold (\<lambda>i drv. drv\<lparr>inputDrvs := map_put (fst i) (snd i) (inputDrvs drv)\<rparr>) xs drv
   = drv\<lparr>inputDrvs := fold (\<lambda>i. map_put (fst i) (snd i)) xs (inputDrvs drv)\<rparr>"
  by (induction xs arbitrary: drv) simp_all

lemma fold_env:
  "fold (\<lambda>i drv. drv\<lparr>env := map_put (fst i) (snd i) (env drv)\<rparr>) xs drv
   = drv\<lparr>env := fold (\<lambda>i. map_put (fst i) (snd i)) xs (env drv)\<rparr>"
  by (induction xs arbitrary: drv) simp_all

lemma fold_args: "fold (\<lambda>s drv. drv\<lparr>args := args drv @ [s]\<rparr>) xs drv = drv\<lparr>args := args drv @ xs\<rparr>"
  by (induction xs arbitrary: drv) simp_all

lemmas drv_folds = fold_outputs fold_inputs fold_env fold_args map_put_entries [of "[]", simplified]

definition wf_drv :: "Derivation \<Rightarrow> bool" where
  "wf_drv drv \<longleftrightarrow>
     is_map (outputs drv) \<and> list_all output_ok (outputs drv)
     \<and> is_map (inputDrvs drv) \<and> list_all input_ok (inputDrvs drv)
     \<and> is_set (inputSrcs drv) \<and> list_all abs_path (inputSrcs drv)
     \<and> nul_free (platform drv) \<and> nul_free (builder drv) \<and> list_all nul_free (args drv)
     \<and> is_map (env drv) \<and> list_all (\<lambda>kv. nul_free (fst kv) \<and> nul_free (snd kv)) (env drv)"

lemma parseDerivation_unparse:
  assumes "wf_drv drv"
  shows "parseDerivation (unparseDerivation drv) = Inr drv"
proof -
  have "expect ''Derive(['' (unparseDerivation drv) = Inr (drop 8 (unparseDerivation drv))"
    by (simp add: unparseDerivation_def expect_def)
  then show ?thesis
    using assms
    by (simp add: parseDerivation_def unparseDerivation_def printStrings_def wf_drv_def drv_folds
        output_item.parse_print_list input_item.parse_print_list arg_item.parse_print_list
        env_item.parse_print_list parseStrings_printStrings [where arePaths = True, simplified]
        Derivation_new_def)
qed


text \<open>
  C14: The text of a derivation determines it: every well-formed derivation (ordered containers,
  absolute paths, no null characters) is read back by \<^verbatim>\<open>parseDerivation\<close> from what
  \<^verbatim>\<open>unparseDerivation\<close> printed, and no other well-formed derivation prints the same.
\<close>

theorem parseDerivation_roundtrip:
  assumes "wf_drv drv"
  shows "parseDerivation (unparseDerivation drv) = Inr drv \<and>
    (\<forall>drv'. wf_drv drv' \<and> unparseDerivation drv' = unparseDerivation drv \<longrightarrow> drv' = drv)"
  using assms parseDerivation_unparse by (metis Inr_inject)

definition demo_drv :: Derivation where
  "demo_drv = \<lparr>outputs = [(''dev'', \<lparr>outPath = ''/s/d'', outHashAlgo = [], outHash = []\<rparr>),
       (''out'', \<lparr>outPath = ''/s/o'', outHashAlgo = [], outHash = []\<rparr>)],
     inputDrvs = [(''/s/gcc.drv'', [''lib'', ''out''])], inputSrcs = [''/s/src''],
     platform = ''x86_64-linux'', builder = ''/bin/sh'', args = [''-c'', [CHR 0x22, CHR 0x0A, CHR 0x5C]],
     env = [(''name'', ''demo''), (''out'', ''/s/o'')]\<rparr>"

theorem parseDerivation_roundtrip_witness:
  "wf_drv demo_drv \<and> parseDerivation (unparseDerivation demo_drv) = Inr demo_drv"
proof -
  have "wf_drv demo_drv" by code_simp
  from this parseDerivation_roundtrip [OF this] show ?thesis by blast
qed

text \<open>
  C28: A derivation path with a choice of outputs survives printing and parsing: for every path without
  an exclamation mark and every set of non-empty output names without commas,
  \<^verbatim>\<open>parseDrvPathWithOutputs\<close> undoes \<^verbatim>\<open>makeDrvPathWithOutputs\<close>.
\<close>

theorem drvPathWithOutputs_roundtrip:
  assumes "CHR ''!'' \<notin> set p" and "is_set outs" and "\<forall>x \<in> set outs. x \<noteq> [] \<and> CHR '','' \<notin> set x"
  shows "parseDrvPathWithOutputs (makeDrvPathWithOutputs p outs) = (p, outs)"
proof (cases "outs = []")
  case True
  then show ?thesis using assms(1) find_char_None [of "CHR ''!''" p]
    by (simp add: parseDrvPathWithOutputs_def makeDrvPathWithOutputs_def)
next
  case False
  have "tokenizeString '','' (concatStringsSep '','' outs) = outs"
    using assms(3) by (intro tokens_of_joined) auto
  then show ?thesis
    using False assms(1,2) find_char_append [of "CHR ''!''" p]
    by (simp add: parseDrvPathWithOutputs_def makeDrvPathWithOutputs_def tokenizeString_set_def)
qed

theorem drvPathWithOutputs_roundtrip_witness:
  "parseDrvPathWithOutputs (makeDrvPathWithOutputs ''/nix/store/x.drv'' [''dev'', ''out''])
    = (''/nix/store/x.drv'', [''dev'', ''out''])"
  by (rule drvPathWithOutputs_roundtrip) simp_all

subsection \<open>Hashes modulo fixed outputs\<close>

text \<open>
  The specification the comment above \<^verbatim>\<open>hashDerivationModulo\<close> gives, without memo table or recursion
  depth: a fixed-output derivation has the hash of its output; any other the hash of its text with
  every input path replaced by the hash of that input.
\<close>

definition fixed_text :: "Derivation \<Rightarrow> string" where
  "fixed_text drv = (let i = hd (outputs drv)
     in ''fixed:out:'' @ outHashAlgo (snd i) @ '':'' @ outHash (snd i) @ '':'' @ outPath (snd i))"

definition drv_at :: "(path \<Rightarrow> bool) \<Rightarrow> (path \<Rightarrow> string res) \<Rightarrow> path \<Rightarrow> Derivation option" where
  "drv_at valid readFile p =
     (if valid p then case bindE (readFile p) parseDerivation of Inr d \<Rightarrow> Some d | Inl _ \<Rightarrow> None else None)"

abbreviation put_all :: "('k::linorder \<times> 'v) list \<Rightarrow> ('k \<times> 'v) list \<Rightarrow> ('k \<times> 'v) list" where
  "put_all kvs m \<equiv> fold (\<lambda>kv. map_put (fst kv) (snd kv)) kvs m"

inductive drv_hash :: "'c digest \<Rightarrow> (path \<Rightarrow> Derivation option) \<Rightarrow> Derivation \<Rightarrow> Hash \<Rightarrow> bool"
  for dg input where
  fixed: "isFixedOutputDrv drv \<Longrightarrow> hashString dg htSHA256 (fixed_text drv) = Inr h \<Longrightarrow> drv_hash dg input drv h"
| inputs: "\<not> isFixedOutputDrv drv \<Longrightarrow>
    (\<forall>i \<in> set (inputDrvs drv). \<exists>d. input (fst i) = Some d \<and> drv_hash dg input d (H (fst i))) \<Longrightarrow>
    hashString dg htSHA256
      (unparseDerivation (drv\<lparr>inputDrvs := put_all (map (\<lambda>i. (printHash (H (fst i)), snd i)) (inputDrvs drv)) []\<rparr>))
      = Inr h \<Longrightarrow> drv_hash dg input drv h"

lemma hashString_type: "hashString dg ht s = Inr h \<Longrightarrow> hashType h = ht \<and> ht \<noteq> htUnknown"
  by (cases ht) (auto simp: hashString_def Hash_new_eq Let_def)

lemma drv_hash_type: "drv_hash dg input drv h \<Longrightarrow> hashType h = htSHA256"
  by (induction rule: drv_hash.cases) (auto dest: hashString_type)

lemma drv_hash_unique:
  assumes "drv_hash dg input drv h" and "drv_hash dg input drv h'"
  shows "h = h'"
  using assms
proof (induction arbitrary: h' rule: drv_hash.induct)
  case (fixed drv h)
  from fixed(3,1,2) show ?case by (cases rule: drv_hash.cases) auto
next
  case A: (inputs drv H h)
  from A.prems show ?case
  proof (cases rule: drv_hash.cases)
    case (inputs H')
    have "\<forall>i \<in> set (inputDrvs drv). H (fst i) = H' (fst i)"
      using A.IH inputs(2) by fastforce
    then have eq: "map (\<lambda>i. (printHash (H (fst i)), snd i)) (inputDrvs drv)
        = map (\<lambda>i. (printHash (H' (fst i)), snd i)) (inputDrvs drv)" by simp
    from A.hyps(2) inputs(3) show ?thesis unfolding eq by simp
  qed (use A.hyps(1) in simp)
qed

definition Hof :: "'c digest \<Rightarrow> (path \<Rightarrow> Derivation option) \<Rightarrow> path \<Rightarrow> Hash" where
  "Hof dg input p = (THE h. \<exists>d. input p = Some d \<and> drv_hash dg input d h)"

lemma Hof_eq: "input p = Some d \<Longrightarrow> drv_hash dg input d h \<Longrightarrow> Hof dg input p = h"
  unfolding Hof_def using drv_hash_unique by (intro the_equality) auto

text \<open>The memo table holds only hashes of derivations of the store.\<close>

definition memo_ok :: "'c digest \<Rightarrow> (path \<Rightarrow> Derivation option) \<Rightarrow> DrvHashes \<Rightarrow> bool" where
  "memo_ok dg input memo \<longleftrightarrow> is_map memo \<and>
     (\<forall>p h. map_of memo p = Some h \<and> hashType h \<noteq> htUnknown \<longrightarrow>
       (\<exists>d. input p = Some d \<and> drv_hash dg input d h))"

lemma memo_ok_Nil [simp]: "memo_ok dg input []"
  by (simp add: memo_ok_def)

lemma memo_ok_put:
  "memo_ok dg input memo \<Longrightarrow> (hashType h \<noteq> htUnknown \<longrightarrow> (\<exists>d. input p = Some d \<and> drv_hash dg input d h)) \<Longrightarrow>
     memo_ok dg input (map_put p h memo)"
  by (auto simp: memo_ok_def)

lemma drvHashes_at_ok:
  assumes "memo_ok dg input memo" and "drvHashes_at p memo = (h, memo')"
  shows "memo_ok dg input memo'"
    and "hashType h \<noteq> htUnknown \<Longrightarrow> \<exists>d. input p = Some d \<and> drv_hash dg input d h"
proof -
  show "memo_ok dg input memo'"
    using assms by (auto simp: drvHashes_at_def Hash_unusable_def split: option.splits intro: memo_ok_put)
  show "hashType h \<noteq> htUnknown \<Longrightarrow> \<exists>d. input p = Some d \<and> drv_hash dg input d h"
    using assms by (auto simp: drvHashes_at_def Hash_unusable_def memo_ok_def split: option.splits)
qed

lemma drv_at_eq:
  "drv_at valid readFile p = Some d \<longleftrightarrow> valid p \<and> (\<exists>s. readFile p = Inr s \<and> parseDerivation s = Inr d)"
  by (auto simp: drv_at_def bindE_def split: sum.splits)

definition rec_sound ::
  "'c digest \<Rightarrow> (path \<Rightarrow> Derivation option) \<Rightarrow> (Derivation \<Rightarrow> DrvHashes \<Rightarrow> (Hash \<times> DrvHashes) res) \<Rightarrow> bool" where
  "rec_sound dg input rec \<longleftrightarrow> (\<forall>d m h m'. memo_ok dg input m \<and> rec d m = Inr (h, m') \<longrightarrow>
     drv_hash dg input d h \<and> memo_ok dg input m')"

lemma modulo_input_sound:
  assumes "memo_ok dg (drv_at valid readFile) (snd st)"
    and rec: "rec_sound dg (drv_at valid readFile) rec"
    and ret: "modulo_input rec valid readFile i st = Inr st'"
  shows "memo_ok dg (drv_at valid readFile) (snd st') \<and>
    (\<exists>d h. drv_at valid readFile (fst i) = Some d \<and> drv_hash dg (drv_at valid readFile) d h \<and>
      fst st' = map_put (printHash h) (snd i) (fst st))"
proof -
  obtain h0 memo where at: "drvHashes_at (fst i) (snd st) = (h0, memo)" by force
  note ok = drvHashes_at_ok [OF assms(1) at]
  show ?thesis
  proof (cases "hashType h0 = htUnknown")
    case True
    then obtain s d h m where *: "valid (fst i)" "readFile (fst i) = Inr s" "parseDerivation s = Inr d"
        "rec d memo = Inr (h, m)" "st' = (map_put (printHash h) (snd i) (fst st), map_put (fst i) h m)"
      using ret at by (auto simp: modulo_input_def bindE_eq_Inr)
    then have "drv_at valid readFile (fst i) = Some d" by (auto simp: drv_at_eq)
    then show ?thesis using rec ok(1) *(4,5) unfolding rec_sound_def by (metis (no_types, lifting) fst_conv memo_ok_put snd_conv)
  next
    case False
    then show ?thesis using ret at ok by (auto simp: modulo_input_def)
  qed
qed

lemma modulo_inputs_sound:
  assumes "foldE (modulo_input rec valid readFile) is st = Inr st'"
    and "memo_ok dg (drv_at valid readFile) (snd st)"
    and rec: "rec_sound dg (drv_at valid readFile) rec"
  shows "memo_ok dg (drv_at valid readFile) (snd st') \<and>
    (\<forall>i \<in> set is. \<exists>d. drv_at valid readFile (fst i) = Some d \<and>
       drv_hash dg (drv_at valid readFile) d (Hof dg (drv_at valid readFile) (fst i))) \<and>
    fst st' = put_all (map (\<lambda>i. (printHash (Hof dg (drv_at valid readFile) (fst i)), snd i)) is) (fst st)"
  using assms(1,2)
proof (induction "is" arbitrary: st)
  case (Cons i "is")
  then obtain st1 where s1: "modulo_input rec valid readFile i st = Inr st1"
    and s2: "foldE (modulo_input rec valid readFile) is st1 = Inr st'"
    by (auto simp: bindE_eq_Inr)
  from modulo_input_sound [OF Cons.prems(2) rec s1] obtain d h
    where *: "memo_ok dg (drv_at valid readFile) (snd st1)" "drv_at valid readFile (fst i) = Some d"
      "drv_hash dg (drv_at valid readFile) d h" "fst st1 = map_put (printHash h) (snd i) (fst st)"
    by blast
  from Hof_eq [of "drv_at valid readFile", OF *(2,3)] Cons.IH [OF s2 *(1)] * show ?case by auto
qed simp

lemma hashDerivationModulo_sound:
  assumes "hashDerivationModulo n dg valid readFile drv memo = Inr (h, memo')"
    and "memo_ok dg (drv_at valid readFile) memo"
  shows "drv_hash dg (drv_at valid readFile) drv h \<and> memo_ok dg (drv_at valid readFile) memo'"
  using assms
proof (induction n arbitrary: drv memo h memo')
  case (Suc n)
  show ?case
  proof (cases "isFixedOutputDrv drv")
    case True
    then show ?thesis using Suc.prems
      by (auto simp: bindE_eq_Inr Let_def fixed_text_def intro!: drv_hash.fixed)
  next
    case False
    then obtain st where st: "foldE (modulo_input (hashDerivationModulo n dg valid readFile) valid readFile)
          (inputDrvs drv) ([], memo) = Inr st" "snd st = memo'"
        "hashString dg htSHA256 (unparseDerivation (drv\<lparr>inputDrvs := fst st\<rparr>)) = Inr h"
      using Suc.prems(1) by (auto simp: bindE_eq_Inr)
    have "rec_sound dg (drv_at valid readFile) (hashDerivationModulo n dg valid readFile)"
      using Suc.IH by (auto simp: rec_sound_def)
    from modulo_inputs_sound [OF st(1) _ this] Suc.prems(2) st(2,3) False show ?thesis
      by (auto intro!: drv_hash.inputs [where H = "Hof dg (drv_at valid readFile)"])
  qed
qed simp

lemma ex_common_bound:
  assumes "\<forall>x \<in> set xs. \<exists>n::nat. \<forall>m\<ge>n. P x m"
  shows "\<exists>n. \<forall>x \<in> set xs. \<forall>m\<ge>n. P x m"
  using assms
proof (induction xs)
  case (Cons x xs)
  then obtain n n' where "\<forall>m\<ge>n. P x m" "\<forall>x \<in> set xs. \<forall>m\<ge>n'. P x m" by auto
  then have "\<forall>y \<in> set (x # xs). \<forall>m\<ge>max n n'. P y m" by auto
  then show ?case by blast
qed simp

text \<open>A recursive call that answers for \<open>d\<close>, whatever is in the memo table.\<close>

definition rec_answers ::
  "'c digest \<Rightarrow> (path \<Rightarrow> Derivation option) \<Rightarrow> (Derivation \<Rightarrow> DrvHashes \<Rightarrow> (Hash \<times> DrvHashes) res) \<Rightarrow>
     Derivation \<Rightarrow> bool" where
  "rec_answers dg input rec d \<longleftrightarrow> (\<forall>m. memo_ok dg input m \<longrightarrow> (\<exists>r. rec d m = Inr r))"

lemma modulo_input_complete:
  assumes "memo_ok dg (drv_at valid readFile) (snd st)"
    and "rec_answers dg (drv_at valid readFile) rec d" and "drv_at valid readFile (fst i) = Some d"
  shows "\<exists>st'. modulo_input rec valid readFile i st = Inr st'"
proof -
  obtain h0 memo where at: "drvHashes_at (fst i) (snd st) = (h0, memo)" by force
  obtain r where "rec d memo = Inr r"
    using assms(2) drvHashes_at_ok(1) [OF assms(1) at] by (auto simp: rec_answers_def)
  then show ?thesis
    using assms(3) at by (auto simp: modulo_input_def drv_at_eq split: prod.split)
qed

lemma modulo_inputs_complete:
  assumes "memo_ok dg (drv_at valid readFile) (snd st)" and "rec_sound dg (drv_at valid readFile) rec"
    and "\<forall>i \<in> set is. \<exists>d. drv_at valid readFile (fst i) = Some d \<and> rec_answers dg (drv_at valid readFile) rec d"
  shows "\<exists>st'. foldE (modulo_input rec valid readFile) is st = Inr st'"
  using assms(1,3)
proof (induction "is" arbitrary: st)
  case (Cons i "is")
  then obtain st1 where s: "modulo_input rec valid readFile i st = Inr st1"
    using modulo_input_complete by (metis list.set_intros(1))
  from modulo_input_sound [OF Cons.prems(1) assms(2) s] Cons s show ?case by auto
qed simp

lemma hashDerivationModulo_complete:
  assumes "digest_ok dg" and "drv_hash dg (drv_at valid readFile) drv h"
  shows "\<exists>n. \<forall>m\<ge>n. rec_answers dg (drv_at valid readFile) (hashDerivationModulo m dg valid readFile) drv"
  using assms(2)
proof (induction rule: drv_hash.induct)
  case (fixed drv h)
  have "rec_answers dg (drv_at valid readFile) (hashDerivationModulo m dg valid readFile) drv" if "m \<ge> 1" for m
    using that fixed by (cases m) (auto simp: rec_answers_def fixed_text_def Let_def)
  then show ?case by blast
next
  case (inputs drv H h)
  then have "\<forall>i \<in> set (inputDrvs drv). \<exists>n. \<forall>m\<ge>n. \<exists>d. drv_at valid readFile (fst i) = Some d \<and>
      rec_answers dg (drv_at valid readFile) (hashDerivationModulo m dg valid readFile) d"
    by fastforce
  from ex_common_bound [OF this] obtain n where n: "\<forall>i \<in> set (inputDrvs drv). \<forall>m\<ge>n.
      \<exists>d. drv_at valid readFile (fst i) = Some d \<and>
        rec_answers dg (drv_at valid readFile) (hashDerivationModulo m dg valid readFile) d" by blast
  have "rec_answers dg (drv_at valid readFile) (hashDerivationModulo m dg valid readFile) drv" if m: "m \<ge> Suc n" for m
  proof -
    obtain k where k: "m = Suc k" "k \<ge> n" using m by (cases m) auto
    have sound: "rec_sound dg (drv_at valid readFile) (hashDerivationModulo k dg valid readFile)"
      using hashDerivationModulo_sound by (fastforce simp: rec_sound_def)
    show ?thesis unfolding rec_answers_def
    proof (intro allI impI)
      fix memo assume memo: "memo_ok dg (drv_at valid readFile) memo"
      obtain st where "foldE (modulo_input (hashDerivationModulo k dg valid readFile) valid readFile)
          (inputDrvs drv) ([], memo) = Inr st" and "\<exists>h. hashString dg htSHA256
          (unparseDerivation (drv\<lparr>inputDrvs := fst st\<rparr>)) = Inr h"
        using hashString_wf [OF assms(1), of htSHA256] modulo_inputs_complete [OF _ sound, of "([], memo)" "inputDrvs drv"] memo n k(2)
        by (metis HashType.distinct(5) snd_conv)
      then show "\<exists>r. hashDerivationModulo m dg valid readFile drv memo = Inr r"
        using k(1) inputs.hyps(1) by (auto split: prod.split)
    qed
  qed
  then show ?case by blast
qed


definition demo_fixed :: "string \<Rightarrow> Derivation" where
  "demo_fixed url = \<lparr>outputs = [(''out'', \<lparr>outPath = ''/s/src'', outHashAlgo = ''sha256'', outHash = ''00ff''\<rparr>)],
     inputDrvs = [], inputSrcs = [], platform = ''builtin'', builder = ''/bin/fetch'', args = [],
     env = [(''url'', url)]\<rparr>"

lemma demo_fixed_simps:
  "isFixedOutputDrv (demo_fixed url)" "hd (outputs (demo_fixed url)) = hd (outputs (demo_fixed url'))"
  by (simp_all add: demo_fixed_def isFixedOutputDrv_def)


subsection \<open>Fixed-output inputs\<close>

text \<open>Keys with one value each: the order of insertion does not matter.\<close>

lemma set_map_put_functional:
  assumes "is_map m" and "\<forall>v'. (k, v') \<in> set m \<longrightarrow> v' = v"
  shows "set (map_put k v m) = insert (k, v) (set m)"
  using assms by (induction k v m rule: map_put.induct) auto

lemma put_all_functional:
  assumes "is_map m" and "\<forall>x \<in> set m \<union> set kvs. \<forall>y \<in> set m \<union> set kvs. fst x = fst y \<longrightarrow> x = y"
  shows "is_map (put_all kvs m) \<and> set (put_all kvs m) = set m \<union> set kvs"
  using assms
proof (induction kvs arbitrary: m)
  case (Cons kv kvs)
  have s: "set (map_put (fst kv) (snd kv) m) = insert kv (set m)"
  proof -
    have "\<forall>v'. (fst kv, v') \<in> set m \<longrightarrow> v' = snd kv"
      using Cons.prems(2) by (metis UnCI fst_conv list.set_intros(1) snd_conv)
    then show ?thesis using set_map_put_functional [OF Cons.prems(1)] by simp
  qed
  have "is_map (map_put (fst kv) (snd kv) m)" using Cons.prems(1) by blast
  moreover have "\<forall>x \<in> set (map_put (fst kv) (snd kv) m) \<union> set kvs.
      \<forall>y \<in> set (map_put (fst kv) (snd kv) m) \<union> set kvs. fst x = fst y \<longrightarrow> x = y"
    unfolding s using Cons.prems(2) by (simp only: list.set Un_insert_left Un_insert_right)
  ultimately show ?case using Cons.IH [of "map_put (fst kv) (snd kv) m"] s by simp
qed simp

lemma put_all_cong:
  assumes "set kvs = set kvs'" and "\<forall>x \<in> set kvs. \<forall>y \<in> set kvs. fst x = fst y \<longrightarrow> x = y"
  shows "put_all kvs [] = put_all kvs' []"
  using put_all_functional [of "[]" kvs] put_all_functional [of "[]" kvs'] assms
  by (intro is_map_eqI) auto

lemma drv_hash_inputsD:
  assumes "drv_hash dg input drv h" and "\<not> isFixedOutputDrv drv"
  shows "\<forall>i \<in> set (inputDrvs drv). \<exists>d. input (fst i) = Some d \<and> drv_hash dg input d (Hof dg input (fst i))"
    and "hashString dg htSHA256 (unparseDerivation (drv\<lparr>inputDrvs :=
        put_all (map (\<lambda>i. (printHash (Hof dg input (fst i)), snd i)) (inputDrvs drv)) []\<rparr>)) = Inr h"
proof -
  from assms obtain H where
    H: "\<forall>i \<in> set (inputDrvs drv). \<exists>d. input (fst i) = Some d \<and> drv_hash dg input d (H (fst i))"
    "hashString dg htSHA256 (unparseDerivation (drv\<lparr>inputDrvs :=
        put_all (map (\<lambda>i. (printHash (H (fst i)), snd i)) (inputDrvs drv)) []\<rparr>)) = Inr h"
    by (cases rule: drv_hash.cases) auto
  then have eq: "\<forall>i \<in> set (inputDrvs drv). H (fst i) = Hof dg input (fst i)"
    by (metis Hof_eq)
  then have m: "map (\<lambda>i. (printHash (H (fst i)), snd i)) (inputDrvs drv)
      = map (\<lambda>i. (printHash (Hof dg input (fst i)), snd i)) (inputDrvs drv)" by simp
  show "\<forall>i \<in> set (inputDrvs drv). \<exists>d. input (fst i) = Some d \<and> drv_hash dg input d (Hof dg input (fst i))"
    using H(1) eq by metis
  show "hashString dg htSHA256 (unparseDerivation (drv\<lparr>inputDrvs :=
        put_all (map (\<lambda>i. (printHash (Hof dg input (fst i)), snd i)) (inputDrvs drv)) []\<rparr>)) = Inr h"
    using H(2) unfolding m .
qed

lemma Hof_fixed:
  assumes "digest_ok dg" and "input p = Some d" "isFixedOutputDrv d"
  shows "\<exists>h. hashString dg htSHA256 (fixed_text d) = Inr h \<and> Hof dg input p = h \<and> drv_hash dg input d h"
  using hashString_wf [OF assms(1), of htSHA256 "fixed_text d"] Hof_eq [of input, OF assms(2)] assms(3)
  by (metis HashType.distinct(5) drv_hash.fixed)

lemma drv_hash_replace_fixed:
  assumes dg: "digest_ok dg" and nf: "\<not> isFixedOutputDrv drv" and h: "drv_hash dg input drv h"
    and d: "input p = Some d" "isFixedOutputDrv d" and d': "input p' = Some d'" "isFixedOutputDrv d'"
    and same: "hd (outputs d) = hd (outputs d')"
    and mem: "(p, outs) \<in> set (inputDrvs drv)"
    and ins: "set ins = insert (p', outs) (set (inputDrvs drv) - {(p, outs)})"
    and inj: "inj_on (\<lambda>i. printHash (Hof dg input (fst i))) (set (inputDrvs drv))"
  shows "drv_hash dg input (drv\<lparr>inputDrvs := ins\<rparr>) h"
proof (rule drv_hash.inputs [where H = "Hof dg input"])
  let ?f = "\<lambda>i. (printHash (Hof dg input (fst i)), snd i)"
  show "\<not> isFixedOutputDrv (drv\<lparr>inputDrvs := ins\<rparr>)" using nf by (simp add: isFixedOutputDrv_def)
  have "fixed_text d = fixed_text d'" using same by (simp add: fixed_text_def)
  then have Heq: "Hof dg input p' = Hof dg input p" "drv_hash dg input d' (Hof dg input p')"
    using Hof_fixed [of _ input, OF dg d] Hof_fixed [of _ input, OF dg d'] by auto
  show "\<forall>i\<in>set (inputDrvs (drv\<lparr>inputDrvs := ins\<rparr>)). \<exists>d. input (fst i) = Some d \<and>
      drv_hash dg input d (Hof dg input (fst i))"
    using drv_hash_inputsD(1) [OF h nf] ins d'(1) Heq(2) by auto
  have img: "?f ` set ins = ?f ` set (inputDrvs drv)"
  proof -
    have "?f (p', outs) = ?f (p, outs)" using Heq(1) by simp
    then have "?f ` set ins = ?f ` insert (p, outs) (set (inputDrvs drv) - {(p, outs)})"
      by (simp only: ins image_insert)
    also have "insert (p, outs) (set (inputDrvs drv) - {(p, outs)}) = set (inputDrvs drv)"
      using mem by blast
    finally show ?thesis .
  qed
  have func: "\<forall>x \<in> ?f ` set (inputDrvs drv). \<forall>y \<in> ?f ` set (inputDrvs drv). fst x = fst y \<longrightarrow> x = y"
  proof (intro ballI impI)
    fix x y assume "x \<in> ?f ` set (inputDrvs drv)" "y \<in> ?f ` set (inputDrvs drv)" and eq: "fst x = fst y"
    then obtain i j where ij: "i \<in> set (inputDrvs drv)" "j \<in> set (inputDrvs drv)" "x = ?f i" "y = ?f j"
      by blast
    with eq have "i = j" by (intro inj_onD [OF inj]) simp_all
    with ij show "x = y" by simp
  qed
  have "put_all (map ?f (inputDrvs drv)) [] = put_all (map ?f ins) []"
    by (rule put_all_cong) (simp only: set_map img, unfold set_map, rule func)
  then show "hashString dg htSHA256 (unparseDerivation (drv\<lparr>inputDrvs := ins, inputDrvs :=
      put_all (map ?f (inputDrvs (drv\<lparr>inputDrvs := ins\<rparr>))) []\<rparr>)) = Inr h"
    using drv_hash_inputsD(2) [OF h nf] by simp
qed


definition demo_user :: "path \<Rightarrow> Derivation" where
  "demo_user p = \<lparr>outputs = [(''out'', \<lparr>outPath = ''/s/o'', outHashAlgo = [], outHash = []\<rparr>)],
     inputDrvs = [(p, [''out''])], inputSrcs = [], platform = ''x'', builder = ''/b'', args = [], env = []\<rparr>"

definition demo_read :: "path \<Rightarrow> string res" where
  "demo_read p = (if p = ''/s/a.drv'' then Inr (unparseDerivation (demo_fixed ''http''))
     else Inr (unparseDerivation (demo_fixed ''ftp'')))"


text \<open>
  Inputs with the same hash share one entry of \<^verbatim>\<open>inputs2\<close>, and the last one overwrites the outputs
  wanted of the others: they have no influence on the hash.
\<close>

lemma colliding_inputs:
  assumes "Hof dg input p = Hof dg input q"
  shows "put_all (map (\<lambda>i. (printHash (Hof dg input (fst i)), snd i)) [(p, wanted), (q, outs)]) []
    = put_all (map (\<lambda>i. (printHash (Hof dg input (fst i)), snd i)) [(q, outs)]) []"
  using assms by simp

lemma drv_hash_ignores_colliding_input:
  assumes "\<not> isFixedOutputDrv drv" and "drv_hash dg input (drv\<lparr>inputDrvs := [(q, outs)]\<rparr>) h"
    and "input p = Some d" and "drv_hash dg input d (Hof dg input q)"
  shows "drv_hash dg input (drv\<lparr>inputDrvs := [(p, wanted), (q, outs)]\<rparr>) h"
proof (rule drv_hash.inputs [where H = "Hof dg input"])
  have H: "Hof dg input p = Hof dg input q" using Hof_eq [of input, OF assms(3,4)] .
  have nf: "\<not> isFixedOutputDrv (drv\<lparr>inputDrvs := is\<rparr>)" for "is"
    using assms(1) by (simp add: isFixedOutputDrv_def)
  show "\<not> isFixedOutputDrv (drv\<lparr>inputDrvs := [(p, wanted), (q, outs)]\<rparr>)" by (rule nf)
  show "\<forall>i\<in>set (inputDrvs (drv\<lparr>inputDrvs := [(p, wanted), (q, outs)]\<rparr>)). \<exists>d. input (fst i) = Some d \<and>
      drv_hash dg input d (Hof dg input (fst i))"
    using drv_hash_inputsD(1) [OF assms(2) nf] assms(3,4) H by simp
  show "hashString dg htSHA256 (unparseDerivation (drv\<lparr>inputDrvs := [(p, wanted), (q, outs)], inputDrvs :=
      put_all (map (\<lambda>i. (printHash (Hof dg input (fst i)), snd i))
        (inputDrvs (drv\<lparr>inputDrvs := [(p, wanted), (q, outs)]\<rparr>))) []\<rparr>)) = Inr h"
    using drv_hash_inputsD(2) [OF assms(2) nf] colliding_inputs [OF H, of wanted outs] by simp
qed

end
