(* ===== verification/Closure.thy ===== *)
theory Closure
  imports Derivations
begin

text \<open>
  Closures, topological sorting and build plans: \<^verbatim>\<open>src/libstore/misc.cc\<close>.  The store is the record of
  the queries the code makes; they do not change while an operation runs.  The recursions follow the
  references of the store, whose graph is not known to be finite or acyclic: they carry a bound on
  their depth, and the lemmas say which bound is enough.
\<close>

record SubstitutablePathInfo =
  siDeriver :: path
  siReferences :: "path list"
  siDownloadSize :: u64
  siNarSize :: u64

record StoreAPI =
  isValidPath :: "path \<Rightarrow> bool"
  queryReferences :: "path \<Rightarrow> path list res"
  queryReferrers :: "path \<Rightarrow> path list res"
  queryDerivationOutputs :: "path \<Rightarrow> path list res"
  querySubstitutablePathInfos :: "path list \<Rightarrow> (path \<times> SubstitutablePathInfo) list res"
  ensurePath :: "path \<Rightarrow> unit res"
  storeFile :: "path \<Rightarrow> string res"

definition derivationFromPath :: "path \<Rightarrow> StoreAPI \<Rightarrow> path \<Rightarrow> Derivation res" where
  "derivationFromPath storeDir store drvPath =
     bindE (assertStorePath storeDir drvPath) (\<lambda>_.
     bindE (ensurePath store drvPath) (\<lambda>_.
     bindE (storeFile store drvPath) parseDerivation))"

subsection \<open>Closures\<close>

primrec computeFSClosure ::
  "nat \<Rightarrow> StoreAPI \<Rightarrow> bool \<Rightarrow> bool \<Rightarrow> path \<Rightarrow> path list \<Rightarrow> path list res" where
  "computeFSClosure 0 store flipDirection includeOutputs storePath paths = Inl Diverges"
| "computeFSClosure (Suc n) store flipDirection includeOutputs storePath paths =
     (if storePath \<in> set paths then Inr paths
      else
        let paths = set_insert storePath paths
        in bindE (if flipDirection then queryReferrers store storePath else queryReferences store storePath)
           (\<lambda>references.
           bindE (if includeOutputs \<and> isDerivation storePath then
                    bindE (queryDerivationOutputs store storePath) (\<lambda>outs.
                      foldE (\<lambda>i paths.
                        if isValidPath store i then computeFSClosure n store flipDirection True i paths
                        else Inr paths) outs paths)
                  else Inr paths) (\<lambda>paths.
             foldE (\<lambda>i paths. computeFSClosure n store flipDirection includeOutputs i paths)
               references paths)))"

definition findOutput :: "Derivation \<Rightarrow> string \<Rightarrow> path res" where
  "findOutput drv oid = (case filter (\<lambda>i. fst i = oid) (outputs drv) of
     i # _ \<Rightarrow> Inr (outPath (snd i))
   | [] \<Rightarrow> Inl (Error (''derivation has no output `'' @ oid @ [CHR 0x27])))"

subsection \<open>Build plans\<close>

record missing =
  qmWillBuild :: "path list"
  qmWillSubstitute :: "path list"
  qmUnknown :: "path list"
  qmDownloadSize :: u64
  qmNarSize :: u64
  qmDone :: "path list"

record missing_round =
  qrQuery :: "path list"
  qrTodoDrv :: "path list"
  qrTodoNonDrv :: "path list"

text \<open>The first loop of a round: what to do with one element of \<^verbatim>\<open>todo\<close>.\<close>

definition queryMissing_todo ::
  "path \<Rightarrow> StoreAPI \<Rightarrow> bool \<Rightarrow> path \<Rightarrow> missing \<times> missing_round \<Rightarrow> (missing \<times> missing_round) res" where
  "queryMissing_todo storeDir store useSubstitutes i st =
     (let (m, r) = st
      in if i \<in> set (qmDone m) then Inr (m, r)
         else
           let m = m\<lparr>qmDone := set_insert i (qmDone m)\<rparr>;
               (drvPath, wanted) = parseDrvPathWithOutputs i
           in if isDerivation drvPath then
                if \<not> isValidPath store drvPath then Inr (m\<lparr>qmUnknown := set_insert i (qmUnknown m)\<rparr>, r)
                else bindE (derivationFromPath storeDir store drvPath) (\<lambda>drv.
                  let invalid = set_of_list (map (\<lambda>j. outPath (snd j))
                        (filter (\<lambda>j. wantOutput (fst j) wanted \<and> \<not> isValidPath store (outPath (snd j))) (outputs drv)))
                  in if invalid = [] then Inr (m, r)
                     else Inr (m, r\<lparr>qrTodoDrv := set_insert i (qrTodoDrv r),
                            qrQuery := (if useSubstitutes then set_insert_all invalid (qrQuery r) else qrQuery r)\<rparr>))
              else if isValidPath store i then Inr (m, r)
              else Inr (m, r\<lparr>qrQuery := set_insert i (qrQuery r), qrTodoNonDrv := set_insert i (qrTodoNonDrv r)\<rparr>))"

text \<open>The second loop: build a derivation, or substitute its missing outputs.\<close>

definition queryMissing_drv ::
  "path \<Rightarrow> StoreAPI \<Rightarrow> bool \<Rightarrow> (path \<times> SubstitutablePathInfo) list \<Rightarrow> path \<Rightarrow>
     missing \<times> path list \<times> path list \<Rightarrow> (missing \<times> path list \<times> path list) res" where
  "queryMissing_drv storeDir store useSubstitutes infos i st =
     (let (m, todo, todoNonDrv) = st;
          (drvPath, wanted) = parseDrvPathWithOutputs i
      in bindE (derivationFromPath storeDir store drvPath) (\<lambda>drv.
           let missing = filter (\<lambda>j. wantOutput (fst j) wanted \<and> \<not> isValidPath store (outPath (snd j))) (outputs drv);
               mustBuild = (\<not> useSubstitutes \<or> list_ex (\<lambda>j. outPath (snd j) \<notin> fst ` set infos) missing);
               outs = set_of_list (map (\<lambda>j. outPath (snd j)) (filter (\<lambda>j. outPath (snd j) \<in> fst ` set infos) missing))
           in if mustBuild
              then Inr (m\<lparr>qmWillBuild := set_insert drvPath (qmWillBuild m)\<rparr>,
                     fold (\<lambda>j. set_insert (makeDrvPathWithOutputs (fst j) (snd j))) (inputDrvs drv)
                       (set_insert_all (inputSrcs drv) todo),
                     todoNonDrv)
              else Inr (m, todo, set_insert_all outs todoNonDrv)))"

text \<open>The third loop: one path that is not a derivation.\<close>

definition queryMissing_nonDrv ::
  "(path \<times> SubstitutablePathInfo) list \<Rightarrow> path \<Rightarrow> missing \<times> path list \<Rightarrow> missing \<times> path list" where
  "queryMissing_nonDrv infos i st =
     (let (m, todo) = st;
          m = m\<lparr>qmDone := set_insert i (qmDone m)\<rparr>
      in case map_of infos i of
           Some info \<Rightarrow>
             (m\<lparr>qmWillSubstitute := set_insert i (qmWillSubstitute m),
                qmDownloadSize := qmDownloadSize m + siDownloadSize info,
                qmNarSize := qmNarSize m + siNarSize info\<rparr>,
              set_insert_all (siReferences info) todo)
         | None \<Rightarrow> (m\<lparr>qmUnknown := set_insert i (qmUnknown m)\<rparr>, todo))"

definition queryMissing_round ::
  "path \<Rightarrow> StoreAPI \<Rightarrow> bool \<Rightarrow> path list \<Rightarrow> missing \<Rightarrow> (missing \<times> path list) res" where
  "queryMissing_round storeDir store useSubstitutes todo m =
     bindE (foldE (queryMissing_todo storeDir store useSubstitutes) todo
              (m, \<lparr>qrQuery = [], qrTodoDrv = [], qrTodoNonDrv = []\<rparr>)) (\<lambda>(m, r).
     bindE (querySubstitutablePathInfos store (qrQuery r)) (\<lambda>infos.
     bindE (foldE (queryMissing_drv storeDir store useSubstitutes infos) (qrTodoDrv r) (m, [], qrTodoNonDrv r))
       (\<lambda>(m, todo, todoNonDrv).
         Inr (fold (queryMissing_nonDrv infos) todoNonDrv (m, todo)))))"

primrec queryMissing_loop ::
  "nat \<Rightarrow> path \<Rightarrow> StoreAPI \<Rightarrow> bool \<Rightarrow> path list \<Rightarrow> missing \<Rightarrow> missing res" where
  "queryMissing_loop 0 storeDir store useSubstitutes todo m = Inl Diverges"
| "queryMissing_loop (Suc n) storeDir store useSubstitutes todo m =
     (if todo = [] then Inr m
      else bindE (queryMissing_round storeDir store useSubstitutes todo m) (\<lambda>(m, todo).
        queryMissing_loop n storeDir store useSubstitutes todo m))"

definition queryMissing ::
  "nat \<Rightarrow> path \<Rightarrow> StoreAPI \<Rightarrow> bool \<Rightarrow> path list \<Rightarrow> path list \<Rightarrow> path list \<Rightarrow> path list \<Rightarrow> missing res" where
  "queryMissing n storeDir store useSubstitutes targets willBuild willSubstitute unknown =
     queryMissing_loop n storeDir store useSubstitutes (set_of_list targets)
       \<lparr>qmWillBuild = willBuild, qmWillSubstitute = willSubstitute, qmUnknown = unknown,
        qmDownloadSize = 0, qmNarSize = 0, qmDone = []\<rparr>"

subsection \<open>Topological sorting\<close>

record topo =
  tsVisited :: "path list"
  tsSorted :: "path list"
  tsParents :: "path list"

primrec dfsVisit :: "nat \<Rightarrow> StoreAPI \<Rightarrow> path list \<Rightarrow> path \<Rightarrow> topo \<Rightarrow> topo res" where
  "dfsVisit 0 store paths path st = Inl Diverges"
| "dfsVisit (Suc n) store paths path st =
     (if path \<in> set (tsParents st)
      then Inl (BuildError (''cycle detected in the references of `'' @ path @ [CHR 0x27]))
      else if path \<in> set (tsVisited st) then Inr st
      else
        let st = st\<lparr>tsVisited := set_insert path (tsVisited st), tsParents := set_insert path (tsParents st)\<rparr>
        in bindE (if isValidPath store path then queryReferences store path else Inr []) (\<lambda>references.
           bindE (foldE (\<lambda>i st.
               if i \<noteq> path \<and> i \<in> set paths then dfsVisit n store paths i st else Inr st) references st) (\<lambda>st.
             Inr (st\<lparr>tsSorted := path # tsSorted st, tsParents := set_erase path (tsParents st)\<rparr>))))"

definition topoSortPaths :: "nat \<Rightarrow> StoreAPI \<Rightarrow> path list \<Rightarrow> path list res" where
  "topoSortPaths n store paths =
     bindE (foldE (\<lambda>i st. dfsVisit n store paths i st) paths \<lparr>tsVisited = [], tsSorted = [], tsParents = []\<rparr>)
       (\<lambda>st. Inr (tsSorted st))"


subsection \<open>What a closure is\<close>

text \<open>The edges the traversal follows.\<close>

definition closure_edges :: "StoreAPI \<Rightarrow> bool \<Rightarrow> bool \<Rightarrow> (path \<times> path) set" where
  "closure_edges store flipDirection includeOutputs = {(x, y).
     (\<exists>refs. (if flipDirection then queryReferrers store x else queryReferences store x) = Inr refs \<and> y \<in> set refs)
     \<or> includeOutputs \<and> isDerivation x \<and>
       (\<exists>outs. queryDerivationOutputs store x = Inr outs \<and> y \<in> set outs \<and> isValidPath store y)}"

text \<open>
  What a traversal that starts with the set \<open>P\<close> and returns \<open>R\<close> has done for the paths \<open>S\<close> it was
  asked to visit: it only adds, it adds no path that is not reachable from \<open>S\<close>, and every path it adds
  has all its successors in the result.
\<close>

definition traversed :: "(path \<times> path) set \<Rightarrow> path set \<Rightarrow> path list \<Rightarrow> path list \<Rightarrow> bool" where
  "traversed E S P R \<longleftrightarrow> (is_set P \<longrightarrow> is_set R) \<and> set P \<subseteq> set R \<and> S \<subseteq> set R \<and>
     set R \<subseteq> set P \<union> E\<^sup>* `` S \<and> E `` (set R - set P) \<subseteq> set R"

lemma traversed_refl: "S \<subseteq> set P \<Longrightarrow> traversed E S P P"
  by (auto simp: traversed_def)

lemma traversed_trans:
  assumes "traversed E S P Q" and "traversed E T Q R"
  shows "traversed E (S \<union> T) P R"
proof -
  have *: "set P \<subseteq> set Q" "set Q \<subseteq> set R" "S \<subseteq> set Q" "T \<subseteq> set R"
    and q: "set Q \<subseteq> set P \<union> E\<^sup>* `` S" and r: "set R \<subseteq> set Q \<union> E\<^sup>* `` T"
    and qc: "E `` (set Q - set P) \<subseteq> set Q" and rc: "E `` (set R - set Q) \<subseteq> set R"
    using assms by (simp_all add: traversed_def)
  have "set R - set P \<subseteq> (set Q - set P) \<union> (set R - set Q)" by blast
  then have "E `` (set R - set P) \<subseteq> E `` (set Q - set P) \<union> E `` (set R - set Q)" by blast
  then have "E `` (set R - set P) \<subseteq> set R" using qc rc * by blast
  moreover have "set R \<subseteq> set P \<union> E\<^sup>* `` (S \<union> T)" using q r by (auto simp: Image_Un)
  ultimately show ?thesis using * assms by (auto simp: traversed_def)
qed

lemma traversed_fold:
  assumes "\<And>x P R. x \<in> set xs \<Longrightarrow> f x P = Inr R \<Longrightarrow> traversed E (S x) P R"
    and "foldE f xs P = Inr R"
  shows "traversed E (\<Union>x \<in> set xs. S x) P R"
  using assms by (intro foldE_visits [where R = "traversed E"] traversed_refl traversed_trans) auto

lemma traversed_node:
  assumes "traversed E (E `` {x}) (set_insert x P) R"
  shows "traversed E {x} P R"
proof -
  have "set R \<subseteq> set P \<union> E\<^sup>* `` {x}"
  proof
    fix y assume "y \<in> set R"
    then consider "y = x" | "y \<in> set P" | z where "(x, z) \<in> E" "(z, y) \<in> E\<^sup>*"
      using assms by (auto simp: traversed_def)
    then show "y \<in> set P \<union> E\<^sup>* `` {x}"
      by cases (auto intro: converse_rtrancl_into_rtrancl)
  qed
  moreover have "E `` (set R - set P) \<subseteq> E `` {x} \<union> E `` (set R - set (set_insert x P))" by auto
  with assms have "E `` (set R - set P) \<subseteq> set R" unfolding traversed_def by blast
  ultimately show ?thesis using assms by (auto simp: traversed_def)
qed

lemma computeFSClosure_traverses:
  assumes "computeFSClosure n store flip inc p P = Inr R"
  shows "traversed (closure_edges store flip inc) {p} P R"
  using assms
proof (induction n arbitrary: p P R)
  case (Suc n)
  let ?E = "closure_edges store flip inc"
  show ?case
  proof (cases "p \<in> set P")
    case True
    then show ?thesis using Suc.prems by (simp add: traversed_refl)
  next
    case False
    define outs where "outs = (if inc \<and> isDerivation p then queryDerivationOutputs store p else Inr [])"
    let ?visit = "\<lambda>i paths. if isValidPath store i then computeFSClosure n store flip True i paths else Inr paths"
    from Suc.prems False obtain refs Q os where
      refs: "(if flip then queryReferrers store p else queryReferences store p) = Inr refs"
      and os: "outs = Inr os"
      and q: "foldE ?visit os (set_insert p P) = Inr Q"
      and r: "foldE (\<lambda>i paths. computeFSClosure n store flip inc i paths) refs Q = Inr R"
      by (auto simp: bindE_eq_Inr Let_def outs_def split: if_splits)
    have "os = [] \<or> inc" using os by (auto simp: outs_def split: if_splits)
    then have "traversed ?E (\<Union>i \<in> set os. if isValidPath store i then {i} else {}) (set_insert p P) Q"
      using Suc.IH by (intro traversed_fold [OF _ q]) (auto split: if_splits intro: traversed_refl)
    moreover have "traversed ?E (\<Union>i \<in> set refs. {i}) Q R"
      using Suc.IH by (intro traversed_fold [OF _ r])
    ultimately have t: "traversed ?E ((\<Union>i \<in> set os. if isValidPath store i then {i} else {}) \<union> (\<Union>i \<in> set refs. {i}))
        (set_insert p P) R"
      by (rule traversed_trans)
    have "(\<Union>i \<in> set os. if isValidPath store i then {i} else {}) \<union> (\<Union>i \<in> set refs. {i}) = ?E `` {p}"
      using refs os by (auto simp: closure_edges_def outs_def split: if_splits)
    with t show ?thesis by (intro traversed_node) simp
  qed
qed simp

text \<open>A bound on the depth that is enough: one more than the number of paths not yet in the closure.\<close>

definition queries_ok :: "StoreAPI \<Rightarrow> bool \<Rightarrow> bool \<Rightarrow> path set \<Rightarrow> bool" where
  "queries_ok store flip inc U \<longleftrightarrow> finite U \<and> closure_edges store flip inc `` U \<subseteq> U \<and>
     (\<forall>x \<in> U. (\<exists>refs. (if flip then queryReferrers store x else queryReferences store x) = Inr refs) \<and>
       (inc \<and> isDerivation x \<longrightarrow> (\<exists>outs. queryDerivationOutputs store x = Inr outs)))"

lemma computeFSClosure_returns:
  assumes "queries_ok store flip inc U" and "p \<in> U" and "card (U - set P) < n"
  shows "\<exists>R. computeFSClosure n store flip inc p P = Inr R"
  using assms(2,3)
proof (induction n arbitrary: p P)
  case (Suc n)
  show ?case
  proof (cases "p \<in> set P")
    case False
    have fin: "finite U" and edges: "closure_edges store flip inc `` U \<subseteq> U"
      using assms(1) by (auto simp: queries_ok_def)
    have less: "card (U - set Q) < n" if "set (set_insert p P) \<subseteq> set Q" for Q
    proof -
      have "U - set Q \<subset> U - set P" using that False Suc.prems(1) by auto
      then show ?thesis using psubset_card_mono [of "U - set P" "U - set Q"] fin Suc.prems(2) by simp
    qed
    have rec: "\<exists>R. computeFSClosure n store flip inc i Q = Inr R \<and> set (set_insert p P) \<subseteq> set R"
      if "i \<in> U" "set (set_insert p P) \<subseteq> set Q" for i Q
      using Suc.IH [OF that(1) less [OF that(2)]] computeFSClosure_traverses that(2)
      unfolding traversed_def by blast
    obtain refs where refs: "(if flip then queryReferrers store p else queryReferences store p) = Inr refs"
      using assms(1) Suc.prems(1) by (auto simp: queries_ok_def)
    have in_U: "set refs \<subseteq> U" "\<And>os i. inc \<Longrightarrow> isDerivation p \<Longrightarrow> queryDerivationOutputs store p = Inr os \<Longrightarrow>
        i \<in> set os \<Longrightarrow> isValidPath store i \<Longrightarrow> i \<in> U"
      using edges Suc.prems(1) refs unfolding closure_edges_def by blast+
    have "\<exists>Q. (if inc \<and> isDerivation p then
                bindE (queryDerivationOutputs store p) (\<lambda>outs.
                  foldE (\<lambda>i paths. if isValidPath store i then computeFSClosure n store flip True i paths
                    else Inr paths) outs (set_insert p P))
              else Inr (set_insert p P)) = Inr Q \<and> set (set_insert p P) \<subseteq> set Q"
    proof (cases "inc \<and> isDerivation p")
      case True
      then obtain os where os: "queryDerivationOutputs store p = Inr os"
        using assms(1) Suc.prems(1) by (auto simp: queries_ok_def)
      have "\<exists>Q. foldE (\<lambda>i paths. if isValidPath store i then computeFSClosure n store flip True i paths
          else Inr paths) os (set_insert p P) = Inr Q \<and> set (set_insert p P) \<subseteq> set Q"
        using rec in_U(2) os True by (intro foldE_returns) auto
      with True os show ?thesis by simp
    qed auto
    then obtain Q where Q: "(if inc \<and> isDerivation p then
                bindE (queryDerivationOutputs store p) (\<lambda>outs.
                  foldE (\<lambda>i paths. if isValidPath store i then computeFSClosure n store flip True i paths
                    else Inr paths) outs (set_insert p P))
              else Inr (set_insert p P)) = Inr Q" "set (set_insert p P) \<subseteq> set Q" by blast
    have "\<exists>R. foldE (\<lambda>i paths. computeFSClosure n store flip inc i paths) refs Q = Inr R
        \<and> set (set_insert p P) \<subseteq> set R"
      using rec in_U(1) Q(2) by (intro foldE_returns) auto
    with False refs Q(1) show ?thesis by (auto simp: Let_def)
  qed simp
qed simp

lemma rtrancl_closed: "E `` R \<subseteq> R \<Longrightarrow> S \<subseteq> R \<Longrightarrow> E\<^sup>* `` S \<subseteq> R"
proof (intro subsetI, elim ImageE)
  fix x y assume "E `` R \<subseteq> R" "S \<subseteq> R" "x \<in> S" "(x, y) \<in> E\<^sup>*"
  from this(4,1-3) show "y \<in> R" by (induction rule: rtrancl_induct) auto
qed

text \<open>
  C30: \<^verbatim>\<open>computeFSClosure\<close> adds exactly the paths reachable from the given one: started with a set that
  contains the successors of its elements (the empty set, or the result of earlier calls), on a
  finite store whose queries succeed, it returns, and the result is that set and every path reachable
  through references, referrers or valid outputs, again closed.
\<close>

theorem computeFSClosure_reachable:
  assumes "queries_ok store flipDirection includeOutputs U" and "p \<in> U" and "card U < n"
    and "is_set P" and "closure_edges store flipDirection includeOutputs `` set P \<subseteq> set P"
  shows "\<exists>R. computeFSClosure n store flipDirection includeOutputs p P = Inr R \<and> is_set R \<and>
    set R = set P \<union> (closure_edges store flipDirection includeOutputs)\<^sup>* `` {p} \<and>
    closure_edges store flipDirection includeOutputs `` set R \<subseteq> set R"
proof -
  let ?E = "closure_edges store flipDirection includeOutputs"
  have "card (U - set P) < n"
    using assms(1,3) card_mono [of U "U - set P"] by (auto simp: queries_ok_def)
  from computeFSClosure_returns [OF assms(1,2) this] obtain R
    where R: "computeFSClosure n store flipDirection includeOutputs p P = Inr R" ..
  note t = computeFSClosure_traverses [OF R, unfolded traversed_def]
  then have closed: "?E `` set R \<subseteq> set R" using assms(5) by blast
  from rtrancl_closed [OF this, of "{p}"] t have "set R = set P \<union> ?E\<^sup>* `` {p}" by blast
  with R t closed assms(4) show ?thesis by blast
qed

definition demo_store :: StoreAPI where
  "demo_store = \<lparr>isValidPath = (\<lambda>p. True),
     queryReferences = (\<lambda>p. Inr (if p = ''/s/a'' then [''/s/b'', ''/s/c''] else if p = ''/s/b'' then [''/s/b'', ''/s/c''] else [])),
     queryReferrers = (\<lambda>p. Inr []), queryDerivationOutputs = (\<lambda>p. Inr []),
     querySubstitutablePathInfos = (\<lambda>ps. Inr []), ensurePath = (\<lambda>p. Inr ()), storeFile = (\<lambda>p. Inr [])\<rparr>"

theorem computeFSClosure_reachable_witness:
  "\<exists>R. computeFSClosure 4 demo_store False False ''/s/a'' [] = Inr R \<and> is_set R \<and>
    set R = (closure_edges demo_store False False)\<^sup>* `` {''/s/a''}"
proof -
  have "queries_ok demo_store False False {''/s/a'', ''/s/b'', ''/s/c''}"
    by (auto simp: queries_ok_def closure_edges_def demo_store_def split: if_splits)
  from computeFSClosure_reachable [OF this, of "''/s/a''" 4 "[]"] show ?thesis by auto
qed

subsection \<open>What topological sorting returns\<close>

text \<open>The references the sort looks at: between different elements of the given set.\<close>

definition topo_edges :: "StoreAPI \<Rightarrow> path list \<Rightarrow> (path \<times> path) set" where
  "topo_edges store paths = {(x, y). x \<in> set paths \<and> y \<in> set paths \<and> y \<noteq> x \<and> isValidPath store x \<and>
     (\<exists>refs. queryReferences store x = Inr refs \<and> y \<in> set refs)}"

definition topo_ok :: "(path \<times> path) set \<Rightarrow> topo \<Rightarrow> bool" where
  "topo_ok E st \<longleftrightarrow> set (tsVisited st) = set (tsSorted st) \<union> set (tsParents st) \<and>
     set (tsSorted st) \<inter> set (tsParents st) = {} \<and> is_set (tsParents st) \<and> distinct (tsSorted st) \<and>
     E `` set (tsSorted st) \<subseteq> set (tsSorted st) \<and> sorted_wrt (\<lambda>a b. (b, a) \<notin> E) (tsSorted st)"

definition dfs_done :: "(path \<times> path) set \<Rightarrow> path set \<Rightarrow> path set \<Rightarrow> topo \<Rightarrow> topo \<Rightarrow> bool" where
  "dfs_done E U S st st' \<longleftrightarrow> (topo_ok E st \<longrightarrow> topo_ok E st' \<and> set (tsParents st') = set (tsParents st) \<and>
     set (tsSorted st) \<subseteq> set (tsSorted st') \<and> S \<subseteq> set (tsSorted st') \<and> set (tsSorted st') \<subseteq> set (tsSorted st) \<union> U)"

text \<open>The elements whose references could be queried.\<close>

definition queried :: "StoreAPI \<Rightarrow> path list \<Rightarrow> path set" where
  "queried store paths =
     {x \<in> set paths. isValidPath store x \<longrightarrow> (\<exists>refs. queryReferences store x = Inr refs)}"

lemma dfs_done_refl: "S \<subseteq> set (tsSorted st) \<or> S = {} \<Longrightarrow> dfs_done E U S st st"
  by (auto simp: dfs_done_def)

lemma dfs_done_trans: "dfs_done E U S s t \<Longrightarrow> dfs_done E U T t u \<Longrightarrow> dfs_done E U (S \<union> T) s u"
  by (auto simp: dfs_done_def)

lemma dfs_done_visited: "dfs_done E U S s t \<Longrightarrow> topo_ok E s \<Longrightarrow> set (tsVisited s) \<subseteq> set (tsVisited t)"
  by (auto simp: dfs_done_def topo_ok_def)

lemma dfsVisit_done:
  assumes "dfsVisit n store paths p st = Inr st'" and "p \<in> set paths"
  shows "dfs_done (topo_edges store paths) (queried store paths) {p} st st'"
  using assms
proof (induction n arbitrary: p st st')
  case (Suc n)
  let ?E = "topo_edges store paths"
  from Suc.prems(1) have np: "p \<notin> set (tsParents st)" by (auto split: if_splits)
  show ?case
  proof (cases "p \<in> set (tsVisited st)")
    case True
    then show ?thesis using Suc.prems(1) np by (auto simp: dfs_done_def topo_ok_def)
  next
    case False
    let ?st = "st\<lparr>tsVisited := set_insert p (tsVisited st), tsParents := set_insert p (tsParents st)\<rparr>"
    let ?refs = "if isValidPath store p then queryReferences store p else Inr []"
    from Suc.prems(1) np False obtain refs s where refs: "?refs = Inr refs"
      and s: "foldE (\<lambda>i st. if i \<noteq> p \<and> i \<in> set paths then dfsVisit n store paths i st else Inr st) refs ?st = Inr s"
      and st': "st' = s\<lparr>tsSorted := p # tsSorted s, tsParents := set_erase p (tsParents s)\<rparr>"
      by (auto simp: bindE_eq_Inr Let_def)
    have "dfs_done ?E (queried store paths) (\<Union>i \<in> set refs. if i \<noteq> p \<and> i \<in> set paths then {i} else {}) ?st s"
      using s Suc.IH
      by (intro foldE_visits [where R = "dfs_done ?E (queried store paths)"] dfs_done_refl dfs_done_trans) (auto split: if_splits intro: dfs_done_refl)
    moreover have "(\<Union>i \<in> set refs. if i \<noteq> p \<and> i \<in> set paths then {i} else {}) = ?E `` {p}"
      using refs Suc.prems(2) by (auto simp: topo_edges_def split: if_splits)
    moreover have p_queried: "p \<in> queried store paths"
      using refs Suc.prems(2) by (auto simp: queried_def split: if_splits)
    ultimately have fold: "dfs_done ?E (queried store paths) (?E `` {p}) ?st s" by simp
    show ?thesis unfolding dfs_done_def
    proof
      assume ok: "topo_ok ?E st"
      then have "topo_ok ?E ?st" using False np by (auto simp: topo_ok_def)
      with fold have s_ok: "topo_ok ?E s" and par: "set (tsParents s) = insert p (set (tsParents st))"
        and sub: "set (tsSorted st) \<subseteq> set (tsSorted s)" "?E `` {p} \<subseteq> set (tsSorted s)"
          "set (tsSorted s) \<subseteq> set (tsSorted st) \<union> queried store paths"
        by (auto simp: dfs_done_def)
      have new: "p \<notin> set (tsSorted s)" using s_ok par by (auto simp: topo_ok_def)
      have "topo_ok ?E st'"
        using s_ok new sub(2) par by (auto simp: topo_ok_def st')
      moreover have "set (tsParents st') = set (tsParents st)"
        using par np by (auto simp: st')
      ultimately show "topo_ok ?E st' \<and> set (tsParents st') = set (tsParents st) \<and>
          set (tsSorted st) \<subseteq> set (tsSorted st') \<and> {p} \<subseteq> set (tsSorted st') \<and>
          set (tsSorted st') \<subseteq> set (tsSorted st) \<union> queried store paths"
        using sub p_queried by (auto simp: st')
    qed
  qed
qed simp

text \<open>
  With a depth bound above the number of unvisited elements, a visit returns or reports a cycle, and
  it only reports a cycle of the references.  The parents are the paths on the recursion stack.
\<close>

definition topo_queries_ok :: "StoreAPI \<Rightarrow> path list \<Rightarrow> bool" where
  "topo_queries_ok store paths \<longleftrightarrow>
     (\<forall>x \<in> set paths. isValidPath store x \<longrightarrow> (\<exists>refs. queryReferences store x = Inr refs))"

definition cycle_reported :: "(path \<times> path) set \<Rightarrow> error \<Rightarrow> bool" where
  "cycle_reported E e \<longleftrightarrow> (\<exists>p. e = BuildError (''cycle detected in the references of `'' @ p @ [CHR 0x27]) \<and> (p, p) \<in> E\<^sup>+)"

lemma dfsVisit_outcome:
  assumes "topo_queries_ok store paths" and "p \<in> set paths" and "topo_ok (topo_edges store paths) st"
    and "\<forall>q \<in> set (tsParents st). (q, p) \<in> (topo_edges store paths)\<^sup>+"
    and "card (set paths - set (tsVisited st)) < n"
  shows "(\<exists>st'. dfsVisit n store paths p st = Inr st') \<or>
    (\<exists>e. dfsVisit n store paths p st = Inl e \<and> cycle_reported (topo_edges store paths) e)"
  using assms(2-)
proof (induction n arbitrary: p st)
  case (Suc n)
  let ?E = "topo_edges store paths"
  consider "p \<in> set (tsParents st)" | "p \<notin> set (tsParents st)" "p \<in> set (tsVisited st)"
    | (new) "p \<notin> set (tsParents st)" "p \<notin> set (tsVisited st)" by blast
  then show ?case
  proof cases
    case new
    let ?st = "st\<lparr>tsVisited := set_insert p (tsVisited st), tsParents := set_insert p (tsParents st)\<rparr>"
    let ?refs = "if isValidPath store p then queryReferences store p else Inr []"
    let ?f = "\<lambda>i st. if i \<noteq> p \<and> i \<in> set paths then dfsVisit n store paths i st else Inr st"
    let ?I = "\<lambda>s. topo_ok ?E s \<and> set (tsParents s) = insert p (set (tsParents st)) \<and>
      set (tsVisited ?st) \<subseteq> set (tsVisited s)"
    obtain refs where refs: "?refs = Inr refs"
      using assms(1) Suc.prems(1) by (cases "isValidPath store p") (auto simp: topo_queries_ok_def)
    have fuel: "card (set paths - set (tsVisited s)) < n" if "?I s" for s
    proof -
      have "set paths - set (tsVisited s) \<subset> set paths - set (tsVisited st)"
        using that new Suc.prems(1) by auto
      then have "card (set paths - set (tsVisited s)) < card (set paths - set (tsVisited st))"
        by (intro psubset_card_mono) simp_all
      then show ?thesis using Suc.prems(4) by simp
    qed
    have step: "(\<exists>t. ?f i s = Inr t \<and> ?I t) \<or> (\<exists>e. ?f i s = Inl e \<and> cycle_reported ?E e)"
      if i: "i \<in> set refs" and I: "?I s" for i s
    proof (cases "i \<noteq> p \<and> i \<in> set paths")
      case True
      then have edge: "(p, i) \<in> ?E"
        using refs i Suc.prems(1) by (auto simp: topo_edges_def split: if_splits)
      have par: "\<forall>q \<in> set (tsParents s). (q, i) \<in> ?E\<^sup>+"
        using I edge Suc.prems(3) by (auto intro: trancl_into_trancl)
      have keep: "?I t" if "dfsVisit n store paths i s = Inr t" for t
        using dfsVisit_done [OF that] dfs_done_visited [OF dfsVisit_done [OF that]] I True
        by (auto simp: dfs_done_def)
      from Suc.IH [OF _ _ par fuel [OF I]] True I keep show ?thesis by auto
    qed (use I in auto)
    have "?I ?st" using Suc.prems(2) new by (auto simp: topo_ok_def)
    from foldE_outcome [of refs ?I ?f "cycle_reported ?E", OF step this]
    show ?thesis using new refs by (auto simp: Let_def)
  qed (use Suc.prems in \<open>auto simp: cycle_reported_def\<close>)
qed simp

lemma sorted_edges_acyclic:
  assumes "sorted_wrt (\<lambda>a b. (b, a) \<notin> E) xs" and "E \<subseteq> set xs \<times> set xs" and "\<forall>x. (x, x) \<notin> E"
  shows "acyclic E"
proof -
  define idx where "idx x = length (takeWhile (\<lambda>y. y \<noteq> x) xs)" for x
  have idx: "idx x < length xs \<and> xs ! idx x = x" if "x \<in> set xs" for x
    using that unfolding idx_def by (induction xs) auto
  have "idx x < idx y" if xy: "(x, y) \<in> E" for x y
  proof -
    have x: "idx x < length xs \<and> xs ! idx x = x" and y: "idx y < length xs \<and> xs ! idx y = y"
      using xy assms(2) idx by blast+
    have "x \<noteq> y" using xy assms(3) by blast
    with x y have "idx x \<noteq> idx y" by metis
    moreover have "\<not> idx y < idx x" using sorted_wrt_nth_less [OF assms(1), of "idx y" "idx x"] x y xy by auto
    ultimately show ?thesis by simp
  qed
  then have "E \<subseteq> measure idx" by auto
  then show ?thesis by (meson acyclic_subset wf_acyclic wf_measure)
qed

lemma topo_edges_bounds: "topo_edges store paths \<subseteq> set paths \<times> set paths" "(x, x) \<notin> topo_edges store paths"
  by (auto simp: topo_edges_def)

lemma topoSortPaths_Inr:
  assumes "topoSortPaths n store paths = Inr s"
  shows "acyclic (topo_edges store paths) \<and> distinct s \<and> set s = set paths \<and> set paths = queried store paths \<and>
    sorted_wrt (\<lambda>a b. (b, a) \<notin> topo_edges store paths) s"
proof -
  let ?E = "topo_edges store paths" and ?Q = "queried store paths"
  let ?start = "\<lparr>tsVisited = [], tsSorted = [], tsParents = []\<rparr>"
  from assms obtain t where t: "foldE (\<lambda>i st. dfsVisit n store paths i st) paths ?start = Inr t" "s = tsSorted t"
    by (auto simp: topoSortPaths_def bindE_eq_Inr)
  have "dfs_done ?E ?Q (\<Union>i \<in> set paths. {i}) ?start t"
    using t(1) dfsVisit_done
    by (intro foldE_visits [where R = "dfs_done ?E ?Q"] dfs_done_refl dfs_done_trans) auto
  then have ok: "topo_ok ?E t" and "set paths \<subseteq> set s" "set s \<subseteq> ?Q"
    using t(2) by (auto simp: dfs_done_def topo_ok_def)
  moreover have "?Q \<subseteq> set paths" by (auto simp: queried_def)
  ultimately have sets: "set s = set paths" "set paths = ?Q" by auto
  have "sorted_wrt (\<lambda>a b. (b, a) \<notin> ?E) s" using ok by (simp add: topo_ok_def t(2))
  then have "acyclic ?E"
    by (rule sorted_edges_acyclic) (use sets(1) topo_edges_bounds in simp_all)
  with ok sets t(2) show ?thesis by (simp add: topo_ok_def)
qed

lemma topoSortPaths_outcome:
  assumes "topo_queries_ok store paths" and "length paths < n"
  shows "(\<exists>s. topoSortPaths n store paths = Inr s) \<or>
    (\<exists>e. topoSortPaths n store paths = Inl e \<and> cycle_reported (topo_edges store paths) e)"
proof -
  let ?E = "topo_edges store paths"
  let ?start = "\<lparr>tsVisited = [], tsSorted = [], tsParents = []\<rparr>"
  let ?visit = "\<lambda>i st. dfsVisit n store paths i st"
  let ?I = "\<lambda>st. topo_ok ?E st \<and> tsParents st = []"
  have start: "?I ?start" by (simp add: topo_ok_def)
  have "(\<exists>t. ?visit i st = Inr t \<and> ?I t) \<or> (\<exists>e. ?visit i st = Inl e \<and> cycle_reported ?E e)"
    if "i \<in> set paths" "?I st" for i st
  proof -
    have "card (set paths - set (tsVisited st)) \<le> card (set paths)" by (simp add: card_mono)
    then have "card (set paths - set (tsVisited st)) < n"
      using assms(2) card_length [of paths] by linarith
    from dfsVisit_outcome [OF assms(1) that(1) _ _ this] dfsVisit_done [of n store paths i st] that
    show ?thesis by (auto simp: dfs_done_def)
  qed
  from foldE_outcome [of paths ?I ?visit, OF this start] show ?thesis by (auto simp: topoSortPaths_def)
qed

text \<open>
  C29: \<^verbatim>\<open>topoSortPaths\<close> on a set of paths whose references can be queried returns, unless the references
  between its elements form a cycle, a permutation of the set in which no path comes after one of the
  paths it refers to; when they do form a cycle it throws, naming a path on a cycle.
\<close>

theorem topoSortPaths_sorts:
  assumes "topo_queries_ok store paths" and "length paths < n"
  shows "if acyclic (topo_edges store paths) then
      \<exists>s. topoSortPaths n store paths = Inr s \<and> distinct s \<and> set s = set paths \<and>
        sorted_wrt (\<lambda>a b. (b, a) \<notin> topo_edges store paths) s
    else \<exists>e. topoSortPaths n store paths = Inl e \<and> cycle_reported (topo_edges store paths) e"
  using topoSortPaths_outcome [OF assms] topoSortPaths_Inr [of n store paths]
  by (auto simp: cycle_reported_def acyclic_def)

theorem topoSortPaths_sorts_witness:
  "acyclic (topo_edges demo_store [''/s/a'', ''/s/b'', ''/s/c'']) \<and>
   (\<exists>s. topoSortPaths 4 demo_store [''/s/a'', ''/s/b'', ''/s/c''] = Inr s \<and> set s = {''/s/a'', ''/s/b'', ''/s/c''} \<and>
     sorted_wrt (\<lambda>a b. (b, a) \<notin> topo_edges demo_store [''/s/a'', ''/s/b'', ''/s/c'']) s)"
proof -
  let ?E = "topo_edges demo_store [''/s/a'', ''/s/b'', ''/s/c'']"
  have "?E \<subseteq> {(''/s/a'', ''/s/b''), (''/s/a'', ''/s/c''), (''/s/b'', ''/s/c'')}"
    by (auto simp: topo_edges_def demo_store_def split: if_splits)
  then have "acyclic ?E"
    by (intro sorted_edges_acyclic [of _ "[''/s/a'', ''/s/b'', ''/s/c'']"]) auto
  moreover have "topo_queries_ok demo_store [''/s/a'', ''/s/b'', ''/s/c'']"
    by (simp add: topo_queries_ok_def demo_store_def)
  ultimately show ?thesis
    using topoSortPaths_sorts [of demo_store "[''/s/a'', ''/s/b'', ''/s/c'']" 4] by auto
qed

end
