(* ===== verification/Local_Store.thy ===== *)
theory Local_Store
  imports Closure
begin

text \<open>
  The database of the local store: \<^verbatim>\<open>src/libstore/local-store.cc\<close> and \<^verbatim>\<open>schema.sql\<close>.  The tables are lists of
  rows; every prepared statement of \<^verbatim>\<open>openDB\<close> is a function on them that follows its SQL text, the
  keys, the foreign keys and the trigger of the schema.  A \<^verbatim>\<open>SQLiteStmt\<close> binds strings up to their first
  null character and integers as \<^verbatim>\<open>int\<close>, also the row numbers, which are 64 bits wide in the database.

  A transaction whose body throws is rolled back: an operation that returns \<open>Inl\<close> leaves the database
  as it was.  A transaction that finds the database locked by another process is rolled back and
  tried again, so that it has the effect of its last attempt.  The message of an \<open>SQLiteError\<close> is the
  one the code gives, without the text SQLite adds to it.
\<close>

subsection \<open>Tables\<close>

record ValidPathsRow =
  rowId :: int
  rowPath :: string
  rowHash :: string
  rowRegistrationTime :: int
  rowDeriver :: "string option"
  rowNarSize :: "int option"

record database =
  ValidPaths :: "ValidPathsRow list"
  sequence :: int
  Refs :: "(int \<times> int) list"
  DerivationOutputs :: "((int \<times> string) \<times> string) list"
  FailedPaths :: "(string \<times> int) list"

definition emptyDB :: database where
  "emptyDB = \<lparr>ValidPaths = [], sequence = 0, Refs = [], DerivationOutputs = [], FailedPaths = []\<rparr>"

text \<open>A conversion to \<^verbatim>\<open>int\<close>, and a string as \<^verbatim>\<open>sqlite3_bind_text\<close> sees it.\<close>

definition c_int :: "int \<Rightarrow> int" where
  "c_int x = (x + 2147483648) mod 4294967296 - 2147483648"

definition bind_text :: "string \<Rightarrow> string" where
  "bind_text s = takeWhile (\<lambda>c. c \<noteq> CHR 0x00) s"

definition stmtQueryPathInfo :: "database \<Rightarrow> path \<Rightarrow> ValidPathsRow option" where
  "stmtQueryPathInfo db p = List.find (\<lambda>r. rowPath r = bind_text p) (ValidPaths db)"

text \<open>The primary key is \<^verbatim>\<open>autoincrement\<close>: one more than any row number ever used.\<close>

definition stmtRegisterValidPath ::
  "database \<Rightarrow> path \<Rightarrow> string \<Rightarrow> int \<Rightarrow> string option \<Rightarrow> int option \<Rightarrow> (int \<times> database) option" where
  "stmtRegisterValidPath db p hashStr time deriver narSize =
     (let id = sequence db + 1
      in if stmtQueryPathInfo db p \<noteq> None \<or> id \<ge> 9223372036854775808 then None
         else Some (id, db\<lparr>ValidPaths := ValidPaths db @
                [\<lparr>rowId = id, rowPath = bind_text p, rowHash = bind_text hashStr, rowRegistrationTime = time,
                  rowDeriver = map_option bind_text deriver, rowNarSize = narSize\<rparr>],
              sequence := id\<rparr>))"

definition stmtUpdatePathInfo :: "database \<Rightarrow> int option \<Rightarrow> string \<Rightarrow> path \<Rightarrow> database" where
  "stmtUpdatePathInfo db narSize hashStr p = db\<lparr>ValidPaths := map (\<lambda>r.
     if rowPath r = bind_text p then r\<lparr>rowNarSize := narSize, rowHash := bind_text hashStr\<rparr> else r) (ValidPaths db)\<rparr>"

definition ids :: "database \<Rightarrow> int set" where
  "ids db = rowId ` set (ValidPaths db)"

definition stmtAddReference :: "database \<Rightarrow> int \<Rightarrow> int \<Rightarrow> database option" where
  "stmtAddReference db referrer reference =
     (if referrer \<in> ids db \<and> reference \<in> ids db
      then Some (db\<lparr>Refs := (referrer, reference) # filter (\<lambda>r. r \<noteq> (referrer, reference)) (Refs db)\<rparr>)
      else None)"

definition stmtQueryReferences :: "database \<Rightarrow> int \<Rightarrow> string list" where
  "stmtQueryReferences db referrer =
     concat (map (\<lambda>(a, b). if a = referrer then map rowPath (filter (\<lambda>r. rowId r = b) (ValidPaths db)) else []) (Refs db))"

definition stmtQueryReferrers :: "database \<Rightarrow> path \<Rightarrow> string list" where
  "stmtQueryReferrers db p = (case stmtQueryPathInfo db p of
     None \<Rightarrow> []
   | Some row \<Rightarrow> concat (map (\<lambda>(a, b). if b = rowId row then map rowPath (filter (\<lambda>r. rowId r = a) (ValidPaths db)) else []) (Refs db)))"

text \<open>
  Deleting a row of \<open>ValidPaths\<close>: the trigger removes the self-reference, a remaining reference to the
  row is an error (\<^verbatim>\<open>on delete restrict\<close>), and the row's own references and outputs go with it.
\<close>

definition stmtInvalidatePath :: "database \<Rightarrow> path \<Rightarrow> database option" where
  "stmtInvalidatePath db p = (case stmtQueryPathInfo db p of
     None \<Rightarrow> Some db
   | Some row \<Rightarrow>
       let refs = filter (\<lambda>r. r \<noteq> (rowId row, rowId row)) (Refs db)
       in if rowId row \<in> snd ` set refs then None
          else Some (db\<lparr>ValidPaths := filter (\<lambda>r. rowPath r \<noteq> bind_text p) (ValidPaths db),
                 Refs := filter (\<lambda>r. fst r \<noteq> rowId row) refs,
                 DerivationOutputs := filter (\<lambda>d. fst (fst d) \<noteq> rowId row) (DerivationOutputs db)\<rparr>))"

definition stmtAddDerivationOutput :: "database \<Rightarrow> int \<Rightarrow> string \<Rightarrow> path \<Rightarrow> database option" where
  "stmtAddDerivationOutput db drv oid p =
     (if drv \<in> ids db
      then Some (db\<lparr>DerivationOutputs := ((drv, bind_text oid), bind_text p) #
             filter (\<lambda>d. fst d \<noteq> (drv, bind_text oid)) (DerivationOutputs db)\<rparr>)
      else None)"

definition stmtQueryValidDerivers :: "database \<Rightarrow> path \<Rightarrow> string list" where
  "stmtQueryValidDerivers db p = concat (map (\<lambda>((drv, oid), q).
     if q = bind_text p then map rowPath (filter (\<lambda>r. rowId r = drv) (ValidPaths db)) else []) (DerivationOutputs db))"

definition stmtQueryDerivationOutputs :: "database \<Rightarrow> int \<Rightarrow> (string \<times> string) list" where
  "stmtQueryDerivationOutputs db drv =
     map (\<lambda>d. (snd (fst d), snd d)) (filter (\<lambda>d. fst (fst d) = drv) (DerivationOutputs db))"

definition stmtRegisterFailedPath :: "database \<Rightarrow> path \<Rightarrow> int \<Rightarrow> database option" where
  "stmtRegisterFailedPath db p time =
     (if bind_text p \<in> fst ` set (FailedPaths db) then None
      else Some (db\<lparr>FailedPaths := (bind_text p, time) # FailedPaths db\<rparr>))"

definition stmtHasPathFailed :: "database \<Rightarrow> path \<Rightarrow> bool" where
  "stmtHasPathFailed db p \<longleftrightarrow> bind_text p \<in> fst ` set (FailedPaths db)"

definition stmtClearFailedPath :: "database \<Rightarrow> path \<Rightarrow> database" where
  "stmtClearFailedPath db p = db\<lparr>FailedPaths := filter (\<lambda>f. \<not> (bind_text p = ''*'' \<or> fst f = bind_text p \<or>
     (\<exists>d \<in> set (DerivationOutputs db). snd d = fst f \<and>
       (\<exists>v \<in> set (ValidPaths db). fst (fst d) = rowId v \<and> rowPath v = bind_text p)))) (FailedPaths db)\<rparr>"

text \<open>
  The statement has no \<^verbatim>\<open>order by\<close>: which of the rows that qualify comes first is SQLite's choice, the
  function \<open>limit1\<close>.
\<close>

definition stmtQueryPathFromHashPart ::
  "(string list \<Rightarrow> string) \<Rightarrow> database \<Rightarrow> string \<Rightarrow> string option" where
  "stmtQueryPathFromHashPart limit1 db prefix =
     (let rows = filter (\<lambda>p. bind_text prefix \<le> p) (map rowPath (ValidPaths db))
      in if rows = [] then None else Some (limit1 rows))"

subsection \<open>Operations\<close>

text \<open>
  What the operations take from their surroundings: the digests, the settings they use, the files of
  the store, the clock, and the bound on the depth of derivations for \<^verbatim>\<open>hashDerivationModulo\<close>.
\<close>

record 'c Env =
  digest :: "'c digest"
  nixStore :: path
  readFile :: "path \<Rightarrow> string res"
  now :: int
  drvDepth :: nat

record LocalStore =
  lsDB :: database
  lsDrvHashes :: DrvHashes

definition LocalStore_isValidPath :: "database \<Rightarrow> path \<Rightarrow> bool" where
  "LocalStore_isValidPath db p \<longleftrightarrow> stmtQueryPathInfo db p \<noteq> None"

definition checkDerivationOutputs ::
  "'c Env \<Rightarrow> path \<Rightarrow> Derivation \<Rightarrow> LocalStore \<Rightarrow> LocalStore res" where
  "checkDerivationOutputs cfg drvPath drv st =
     bindE (storePathToName (nixStore cfg) drvPath) (\<lambda>drvName.
     bindE (guardE (isDerivation drvName) (AssertFail ''isDerivation(drvName)'')) (\<lambda>_.
     let drvName = take (length drvName - length drvExtension) drvName;
         incorrect = (\<lambda>p q. Error (''derivation `'' @ drvPath @ [CHR 0x27] @ '' has incorrect output `'' @ p
                       @ [CHR 0x27] @ '', should be `'' @ q @ [CHR 0x27]))
     in if isFixedOutputDrv drv then
          case map_of (outputs drv) ''out'' of
            None \<Rightarrow> Inl (Error (''derivation `'' @ drvPath @ [CHR 0x27] @ '' does not have an output named `out'' @ [CHR 0x27]))
          | Some out \<Rightarrow>
              bindE (parseHashInfo out) (\<lambda>(recursive, ht, h).
              bindE (makeFixedOutputPath (digest cfg) (nixStore cfg) recursive ht h drvName) (\<lambda>p.
                if outPath out \<noteq> p \<or> map_of (env drv) ''out'' \<noteq> Some p
                then Inl (incorrect (outPath out) p) else Inr st))
        else
          let drvCopy = fold (\<lambda>i d. d\<lparr>outputs := map_put (fst i) ((snd i)\<lparr>outPath := []\<rparr>) (outputs d),
                                      env := map_put (fst i) [] (env d)\<rparr>) (outputs drv) drv
          in bindE (hashDerivationModulo (drvDepth cfg) (digest cfg) (LocalStore_isValidPath (lsDB st))
                      (readFile cfg) drvCopy (lsDrvHashes st)) (\<lambda>(h, memo).
             foldE (\<lambda>i st.
               bindE (makeOutputPath (digest cfg) (nixStore cfg) (fst i) h drvName) (\<lambda>p.
                 if outPath (snd i) \<noteq> p \<or> map_of (env drv) (fst i) \<noteq> Some p
                 then Inl (incorrect (outPath (snd i)) p) else Inr st))
               (outputs drv) (st\<lparr>lsDrvHashes := memo\<rparr>))))"

definition addValidPath :: "'c Env \<Rightarrow> ValidPathInfo \<Rightarrow> bool \<Rightarrow> LocalStore \<Rightarrow> (u64 \<times> LocalStore) res" where
  "addValidPath cfg info checkOutputs st =
     (case stmtRegisterValidPath (lsDB st) (viPath info) (''sha256:'' @ printHash (viHash info))
             (c_int (if viRegistrationTime info = 0 then now cfg else viRegistrationTime info))
             (if viDeriver info \<noteq> [] then Some (viDeriver info) else None)
             (if viNarSize info \<noteq> 0 then Some (sint (viNarSize info)) else None) of
        None \<Rightarrow> Inl (SQLiteError (''registering valid path `'' @ viPath info @ [CHR 0x27] @ '' in database''))
      | Some (rid, db) \<Rightarrow>
          let st = st\<lparr>lsDB := db\<rparr>
          in if isDerivation (viPath info) then
               bindE (readFile cfg (viPath info)) (\<lambda>s.
               bindE (parseDerivation s) (\<lambda>drv.
               bindE (if checkOutputs then checkDerivationOutputs cfg (viPath info) drv st else Inr st) (\<lambda>st.
               bindE (foldE (\<lambda>i st.
                   case stmtAddDerivationOutput (lsDB st) (c_int rid) (fst i) (outPath (snd i)) of
                     None \<Rightarrow> Inl (SQLiteError (''adding derivation output for `'' @ viPath info @ [CHR 0x27] @ '' in database''))
                   | Some db \<Rightarrow> Inr (st\<lparr>lsDB := db\<rparr>)) (outputs drv) st)
                 (\<lambda>st. Inr (word_of_int rid, st)))))
             else Inr (word_of_int rid, st))"

definition addReference :: "database \<Rightarrow> u64 \<Rightarrow> u64 \<Rightarrow> database res" where
  "addReference db referrer reference =
     (case stmtAddReference db (c_int (uint referrer)) (c_int (uint reference)) of
        None \<Rightarrow> Inl (SQLiteError ''adding reference to database'')
      | Some db \<Rightarrow> Inr db)"

definition LocalStore_hasPathFailed :: "database \<Rightarrow> path \<Rightarrow> bool" where
  "LocalStore_hasPathFailed db p \<longleftrightarrow> stmtHasPathFailed db p"

definition LocalStore_registerFailedPath :: "'c Env \<Rightarrow> path \<Rightarrow> database \<Rightarrow> database res" where
  "LocalStore_registerFailedPath cfg p db =
     (if LocalStore_hasPathFailed db p then Inr db
      else case stmtRegisterFailedPath db p (c_int (now cfg)) of
             None \<Rightarrow> Inl (SQLiteError (''registering failed path `'' @ p @ [CHR 0x27]))
           | Some db \<Rightarrow> Inr db)"

definition LocalStore_queryFailedPaths :: "database \<Rightarrow> path list" where
  "LocalStore_queryFailedPaths db = set_of_list (map fst (FailedPaths db))"

definition LocalStore_clearFailedPaths :: "path list \<Rightarrow> database \<Rightarrow> database" where
  "LocalStore_clearFailedPaths paths db = fold (\<lambda>i db. stmtClearFailedPath db i) paths db"

definition parseHashField :: "path \<Rightarrow> string \<Rightarrow> Hash res" where
  "parseHashField p s = (case find_char (CHR '':'') s of
     None \<Rightarrow> Inl (Error (''corrupt hash `'' @ s @ [CHR 0x27] @ '' in valid-path entry for `'' @ p @ [CHR 0x27]))
   | Some colon \<Rightarrow>
       let ht = parseHashType (take colon s)
       in if ht = htUnknown then
            Inl (Error (''unknown hash type `'' @ take colon s @ [CHR 0x27] @ '' in valid-path entry for `'' @ p @ [CHR 0x27]))
          else parseHash ht (drop (colon + 1) s))"

abbreviation not_valid :: "path \<Rightarrow> error" where
  "not_valid p \<equiv> Error (''path `'' @ p @ [CHR 0x27] @ '' is not valid'')"

definition LocalStore_queryPathInfo :: "path \<Rightarrow> database \<Rightarrow> path \<Rightarrow> ValidPathInfo res" where
  "LocalStore_queryPathInfo storeDir db p =
     bindE (assertStorePath storeDir p) (\<lambda>_.
     case stmtQueryPathInfo db p of
       None \<Rightarrow> Inl (not_valid p)
     | Some row \<Rightarrow>
         let id = (word_of_int (c_int (rowId row)) :: u64)
         in bindE (parseHashField p (rowHash row)) (\<lambda>h.
            Inr \<lparr>viPath = p,
                 viDeriver = (case rowDeriver row of None \<Rightarrow> [] | Some s \<Rightarrow> s),
                 viHash = h,
                 viReferences = set_of_list (stmtQueryReferences db (c_int (uint id))),
                 viRegistrationTime = c_int (rowRegistrationTime row),
                 viNarSize = (case rowNarSize row of None \<Rightarrow> 0 | Some n \<Rightarrow> word_of_int n),
                 viId = id\<rparr>))"

definition LocalStore_updatePathInfo :: "ValidPathInfo \<Rightarrow> database \<Rightarrow> database" where
  "LocalStore_updatePathInfo info db =
     stmtUpdatePathInfo db (if viNarSize info \<noteq> 0 then Some (sint (viNarSize info)) else None)
       (''sha256:'' @ printHash (viHash info)) (viPath info)"

definition queryValidPathId :: "database \<Rightarrow> path \<Rightarrow> u64 res" where
  "queryValidPathId db p = (case stmtQueryPathInfo db p of
     Some row \<Rightarrow> Inr (word_of_int (c_int (rowId row)))
   | None \<Rightarrow> Inl (not_valid p))"

definition LocalStore_queryValidPaths :: "database \<Rightarrow> path list \<Rightarrow> path list" where
  "LocalStore_queryValidPaths db paths =
     fold (\<lambda>i res. if LocalStore_isValidPath db i then set_insert i res else res) paths []"

definition LocalStore_queryAllValidPaths :: "database \<Rightarrow> path list" where
  "LocalStore_queryAllValidPaths db = set_of_list (map rowPath (ValidPaths db))"

definition LocalStore_queryReferences :: "path \<Rightarrow> database \<Rightarrow> path \<Rightarrow> path list \<Rightarrow> path list res" where
  "LocalStore_queryReferences storeDir db p references =
     bindE (LocalStore_queryPathInfo storeDir db p) (\<lambda>info. Inr (set_insert_all (viReferences info) references))"

definition LocalStore_queryReferrers :: "path \<Rightarrow> database \<Rightarrow> path \<Rightarrow> path list \<Rightarrow> path list res" where
  "LocalStore_queryReferrers storeDir db p referrers =
     bindE (assertStorePath storeDir p) (\<lambda>_. Inr (set_insert_all (stmtQueryReferrers db p) referrers))"

definition LocalStore_queryDeriver :: "path \<Rightarrow> database \<Rightarrow> path \<Rightarrow> path res" where
  "LocalStore_queryDeriver storeDir db p =
     bindE (LocalStore_queryPathInfo storeDir db p) (\<lambda>info. Inr (viDeriver info))"

definition LocalStore_queryValidDerivers :: "path \<Rightarrow> database \<Rightarrow> path \<Rightarrow> path list res" where
  "LocalStore_queryValidDerivers storeDir db p =
     bindE (assertStorePath storeDir p) (\<lambda>_. Inr (set_of_list (stmtQueryValidDerivers db p)))"

definition LocalStore_queryDerivationOutputs :: "database \<Rightarrow> path \<Rightarrow> path list res" where
  "LocalStore_queryDerivationOutputs db p =
     bindE (queryValidPathId db p) (\<lambda>id.
       Inr (set_of_list (map snd (stmtQueryDerivationOutputs db (c_int (uint id))))))"

definition LocalStore_queryDerivationOutputNames :: "database \<Rightarrow> path \<Rightarrow> string list res" where
  "LocalStore_queryDerivationOutputNames db p =
     bindE (queryValidPathId db p) (\<lambda>id.
       Inr (set_of_list (map fst (stmtQueryDerivationOutputs db (c_int (uint id))))))"

definition LocalStore_queryPathFromHashPart ::
  "(string list \<Rightarrow> string) \<Rightarrow> path \<Rightarrow> database \<Rightarrow> string \<Rightarrow> path res" where
  "LocalStore_queryPathFromHashPart limit1 storeDir db hashPart =
     (if length hashPart \<noteq> 32 then Inl (Error ''invalid hash part'')
      else let pre = storeDir @ ''/'' @ hashPart
           in case stmtQueryPathFromHashPart limit1 db pre of
                None \<Rightarrow> Inr []
              | Some s \<Rightarrow> Inr (if take (length pre) s = pre then s else []))"

definition LocalStore_queryPathHash :: "path \<Rightarrow> database \<Rightarrow> path \<Rightarrow> Hash res" where
  "LocalStore_queryPathHash storeDir db p =
     bindE (LocalStore_queryPathInfo storeDir db p) (\<lambda>info. Inr (viHash info))"

text \<open>
  The local store as a \<open>StoreAPI\<close>.  Substitution is the business of other processes; \<^verbatim>\<open>ensurePath\<close> of a
  path that is not valid starts it.
\<close>

definition LocalStore_API ::
  "'c Env \<Rightarrow> (path list \<Rightarrow> (path \<times> SubstitutablePathInfo) list res) \<Rightarrow> (path \<Rightarrow> unit res) \<Rightarrow> database \<Rightarrow> StoreAPI" where
  "LocalStore_API cfg substInfos ensure db =
     \<lparr>isValidPath = LocalStore_isValidPath db,
      queryReferences = (\<lambda>p. LocalStore_queryReferences (nixStore cfg) db p []),
      queryReferrers = (\<lambda>p. LocalStore_queryReferrers (nixStore cfg) db p []),
      queryDerivationOutputs = LocalStore_queryDerivationOutputs db,
      querySubstitutablePathInfos = substInfos, ensurePath = ensure, storeFile = readFile cfg\<rparr>"

abbreviation queryAPI :: "'c Env \<Rightarrow> database \<Rightarrow> StoreAPI" where
  "queryAPI cfg db \<equiv> LocalStore_API cfg (\<lambda>_. Inr []) (\<lambda>_. Inr ()) db"

definition LocalStore_registerValidPaths :: "'c Env \<Rightarrow> ValidPathInfo list \<Rightarrow> LocalStore \<Rightarrow> LocalStore res" where
  "LocalStore_registerValidPaths cfg infos st =
     bindE (foldE (\<lambda>i (st, paths).
         bindE (guardE (hashType (viHash i) = htSHA256) (AssertFail ''i->hash.type == htSHA256'')) (\<lambda>_.
         bindE (if LocalStore_isValidPath (lsDB st) (viPath i) then Inr st
                else bindE (addValidPath cfg i True st) (\<lambda>(id, st). Inr st)) (\<lambda>st.
           Inr (st, set_insert (viPath i) paths)))) infos (st, [])) (\<lambda>(st, paths).
     bindE (foldE (\<lambda>i st.
         bindE (queryValidPathId (lsDB st) (viPath i)) (\<lambda>referrer.
           foldE (\<lambda>j st.
             bindE (queryValidPathId (lsDB st) j) (\<lambda>reference.
             bindE (addReference (lsDB st) referrer reference) (\<lambda>db. Inr (st\<lparr>lsDB := db\<rparr>))))
             (viReferences i) st)) infos st) (\<lambda>st.
     bindE (topoSortPaths (Suc (length paths)) (queryAPI cfg (lsDB st)) paths) (\<lambda>_.
       Inr st)))"

definition LocalStore_registerValidPath :: "'c Env \<Rightarrow> ValidPathInfo \<Rightarrow> LocalStore \<Rightarrow> LocalStore res" where
  "LocalStore_registerValidPath cfg info st = LocalStore_registerValidPaths cfg [info] st"

definition invalidatePath :: "path \<Rightarrow> LocalStore \<Rightarrow> LocalStore res" where
  "invalidatePath p st =
     (let st = st\<lparr>lsDrvHashes := filter (\<lambda>kv. fst kv \<noteq> p) (lsDrvHashes st)\<rparr>
      in case stmtInvalidatePath (lsDB st) p of
           None \<Rightarrow> Inl (SQLiteError (''invalidating path `'' @ p @ [CHR 0x27] @ '' in database''))
         | Some db \<Rightarrow> Inr (st\<lparr>lsDB := db\<rparr>))"

definition invalidatePathChecked :: "path \<Rightarrow> path \<Rightarrow> LocalStore \<Rightarrow> LocalStore res" where
  "invalidatePathChecked storeDir p st =
     bindE (assertStorePath storeDir p) (\<lambda>_.
     if LocalStore_isValidPath (lsDB st) p then
       bindE (LocalStore_queryReferrers storeDir (lsDB st) p []) (\<lambda>referrers.
       let referrers = set_erase p referrers
       in if referrers \<noteq> [] then
            Inl (PathInUse (''cannot delete path `'' @ p @ [CHR 0x27] @ '' because it is in use by '' @ showPaths referrers))
          else invalidatePath p st)
     else Inr st)"

subsection \<open>The invariant of the database\<close>

definition db_ok :: "database \<Rightarrow> bool" where
  "db_ok db \<longleftrightarrow> distinct (map rowId (ValidPaths db)) \<and> distinct (map rowPath (ValidPaths db)) \<and>
     (\<forall>r \<in> set (ValidPaths db). 0 < rowId r \<and> rowId r \<le> sequence db \<and> nul_free (rowPath r)) \<and>
     0 \<le> sequence db \<and> sequence db < 9223372036854775808 \<and>
     distinct (Refs db) \<and> set (Refs db) \<subseteq> ids db \<times> ids db \<and>
     distinct (map fst (DerivationOutputs db)) \<and> (\<forall>d \<in> set (DerivationOutputs db). fst (fst d) \<in> ids db \<and> nul_free (snd d)) \<and>
     distinct (map fst (FailedPaths db))"

lemma ids_update [simp]:
  "ids (db\<lparr>Refs := x\<rparr>) = ids db" "ids (db\<lparr>DerivationOutputs := y\<rparr>) = ids db" "ids (db\<lparr>FailedPaths := z\<rparr>) = ids db"
  by (simp_all add: ids_def)

text \<open>What the database says, without row numbers: the valid paths and who refers to whom.\<close>

definition valid_paths :: "database \<Rightarrow> path set" where
  "valid_paths db = rowPath ` set (ValidPaths db)"

definition refs_of :: "database \<Rightarrow> (path \<times> path) set" where
  "refs_of db = {(rowPath r, rowPath s) | r s. r \<in> set (ValidPaths db) \<and> s \<in> set (ValidPaths db) \<and>
     (rowId r, rowId s) \<in> set (Refs db)}"

definition drv_outputs_of :: "database \<Rightarrow> (path \<times> string \<times> path) set" where
  "drv_outputs_of db = {(rowPath r, oid, q) | r oid q. r \<in> set (ValidPaths db) \<and>
     ((rowId r, oid), q) \<in> set (DerivationOutputs db)}"

lemma bind_text_nul_free [simp]: "nul_free s \<Longrightarrow> bind_text s = s"
  by (simp add: bind_text_def takeWhile_nul_free)

lemma nul_free_bind_text [simp]: "nul_free (bind_text s)"
  unfolding nul_free_def bind_text_def by (metis (full_types) set_takeWhileD)

lemma c_int_id: "- 2147483648 \<le> x \<Longrightarrow> x < 2147483648 \<Longrightarrow> c_int x = x"
  by (simp add: c_int_def)

lemma c_int_u64 [simp]: "c_int (uint (word_of_int x :: u64)) = c_int x"
proof -
  have "(x mod 18446744073709551616 + 2147483648) mod 4294967296 = (x + 2147483648) mod 4294967296"
    by (intro mod_add_cong mod_mod_cancel) simp_all
  then show ?thesis by (simp add: c_int_def uint_word_of_int)
qed

lemma stmtQueryPathInfo_Some:
  "stmtQueryPathInfo db p = Some r \<Longrightarrow> r \<in> set (ValidPaths db) \<and> rowPath r = bind_text p"
  by (auto simp: stmtQueryPathInfo_def find_Some_iff)

lemma stmtQueryPathInfo_None: "stmtQueryPathInfo db p = None \<longleftrightarrow> bind_text p \<notin> valid_paths db"
  by (auto simp: stmtQueryPathInfo_def find_None_iff valid_paths_def image_iff)

lemma distinct_map_eq: "distinct (map f xs) \<Longrightarrow> x \<in> set xs \<Longrightarrow> y \<in> set xs \<Longrightarrow> f x = f y \<Longrightarrow> x = y"
  by (auto simp: distinct_map inj_on_def)

lemma row_path_eq: "db_ok db \<Longrightarrow> r \<in> set (ValidPaths db) \<Longrightarrow> s \<in> set (ValidPaths db) \<Longrightarrow> rowPath r = rowPath s \<Longrightarrow> r = s"
  by (auto simp: db_ok_def dest: distinct_map_eq)

lemma row_id_eq: "db_ok db \<Longrightarrow> r \<in> set (ValidPaths db) \<Longrightarrow> s \<in> set (ValidPaths db) \<Longrightarrow> rowId r = rowId s \<Longrightarrow> r = s"
  by (auto simp: db_ok_def dest: distinct_map_eq)

lemma stmtQueryPathInfo_row:
  assumes "db_ok db" and "r \<in> set (ValidPaths db)"
  shows "stmtQueryPathInfo db (rowPath r) = Some r"
proof -
  have nf: "nul_free (rowPath r)" using assms by (auto simp: db_ok_def)
  then have "stmtQueryPathInfo db (rowPath r) \<noteq> None"
    using assms(2) by (auto simp: stmtQueryPathInfo_None valid_paths_def)
  then obtain s where s: "stmtQueryPathInfo db (rowPath r) = Some s" by blast
  from stmtQueryPathInfo_Some [OF this] nf have "s = r" by (intro row_path_eq [OF assms(1) _ assms(2)]) auto
  with s show ?thesis by simp
qed

lemma isValidPath_iff: "LocalStore_isValidPath db p \<longleftrightarrow> bind_text p \<in> valid_paths db"
  unfolding LocalStore_isValidPath_def by (simp add: stmtQueryPathInfo_None)

lemma refs_of_valid: "refs_of db \<subseteq> valid_paths db \<times> valid_paths db"
  by (auto simp: refs_of_def valid_paths_def)

lemma refs_of_iff:
  assumes "db_ok db" and "r \<in> set (ValidPaths db)" and "s \<in> set (ValidPaths db)"
  shows "(rowPath r, rowPath s) \<in> refs_of db \<longleftrightarrow> (rowId r, rowId s) \<in> set (Refs db)"
  using row_path_eq [OF assms(1)] assms(2,3) unfolding refs_of_def by blast

lemma set_stmtQueryReferences:
  assumes "db_ok db" and "r \<in> set (ValidPaths db)"
  shows "set (stmtQueryReferences db (rowId r)) = refs_of db `` {rowPath r}"
proof -
  have "q \<in> set (stmtQueryReferences db (rowId r)) \<longleftrightarrow> (rowPath r, q) \<in> refs_of db" for q
  proof -
    have "q \<in> set (stmtQueryReferences db (rowId r)) \<longleftrightarrow>
        (\<exists>s \<in> set (ValidPaths db). rowPath s = q \<and> (rowId r, rowId s) \<in> set (Refs db))"
      by (force simp: stmtQueryReferences_def split: if_splits)
    also have "\<dots> \<longleftrightarrow> (rowPath r, q) \<in> refs_of db"
      using refs_of_iff [OF assms] refs_of_valid [of db] unfolding valid_paths_def by blast
    finally show ?thesis .
  qed
  then show ?thesis by blast
qed

lemma set_stmtQueryReferrers:
  assumes "db_ok db"
  shows "set (stmtQueryReferrers db p) = (refs_of db)\<inverse> `` {bind_text p}"
proof (cases "stmtQueryPathInfo db p")
  case None
  then have "bind_text p \<notin> valid_paths db" by (simp add: stmtQueryPathInfo_None)
  with refs_of_valid [of db] None show ?thesis by (auto simp: stmtQueryReferrers_def)
next
  case (Some r)
  note r = stmtQueryPathInfo_Some [OF Some]
  have "q \<in> set (stmtQueryReferrers db p) \<longleftrightarrow> (q, bind_text p) \<in> refs_of db" for q
  proof -
    have "q \<in> set (stmtQueryReferrers db p) \<longleftrightarrow>
        (\<exists>s \<in> set (ValidPaths db). rowPath s = q \<and> (rowId s, rowId r) \<in> set (Refs db))"
      using Some by (force simp: stmtQueryReferrers_def split: if_splits)
    also have "\<dots> \<longleftrightarrow> (q, rowPath r) \<in> refs_of db"
      using refs_of_iff [OF assms _ r [THEN conjunct1]] refs_of_valid [of db] unfolding valid_paths_def by blast
    finally show ?thesis using r by simp
  qed
  then show ?thesis by blast
qed

text \<open>Row numbers that a C \<^verbatim>\<open>int\<close> can hold.\<close>

definition small_ids :: "database \<Rightarrow> bool" where
  "small_ids db \<longleftrightarrow> sequence db < 2147483648"

lemma c_int_row: "db_ok db \<Longrightarrow> small_ids db \<Longrightarrow> r \<in> set (ValidPaths db) \<Longrightarrow> c_int (rowId r) = rowId r"
  unfolding db_ok_def small_ids_def by (intro c_int_id) fastforce+

lemma queryReferrers_spec:
  assumes "db_ok db" and "isStorePath storeDir p"
  shows "\<exists>R. LocalStore_queryReferrers storeDir db p [] = Inr R \<and> is_set R \<and> set R = (refs_of db)\<inverse> `` {bind_text p}"
  using assms by (simp add: LocalStore_queryReferrers_def assertStorePath_def set_stmtQueryReferrers)

subsection \<open>What the operations do to it\<close>

text \<open>
  \<open>extends db db' V R\<close>: the rows for the paths \<open>V\<close> and the references \<open>R\<close> have been added, and the
  invariant is kept.
\<close>

definition extends :: "database \<Rightarrow> path set \<Rightarrow> (path \<times> path) set \<Rightarrow> nat \<Rightarrow> database \<Rightarrow> bool" where
  "extends db V R n db' \<longleftrightarrow> (db_ok db \<longrightarrow> db_ok db' \<and> valid_paths db' = valid_paths db \<union> V \<and>
     refs_of db' = refs_of db \<union> R \<and> sequence db' \<le> sequence db + int n \<and> sequence db \<le> sequence db' \<and>
     FailedPaths db' = FailedPaths db)"

lemma extends_refl [simp]: "extends db {} {} n db"
  by (simp add: extends_def)

lemma extends_trans:
  "extends a V R m b \<Longrightarrow> extends b W S n c \<Longrightarrow> extends a (V \<union> W) (R \<union> S) (m + n) c"
  by (auto simp: extends_def)

lemma stmtRegisterValidPath_extends:
  assumes "stmtRegisterValidPath db p h t d n = Some (rid, db')"
  shows "extends db {bind_text p} {} 1 db'" and "db_ok db \<Longrightarrow> rid \<in> ids db'" and "rid = sequence db + 1"
proof -
  let ?row = "\<lparr>rowId = rid, rowPath = bind_text p, rowHash = bind_text h, rowRegistrationTime = t,
    rowDeriver = map_option bind_text d, rowNarSize = n\<rparr>"
  from assms have new: "bind_text p \<notin> valid_paths db" and rid: "rid = sequence db + 1" "rid < 9223372036854775808"
    and db': "db' = db\<lparr>ValidPaths := ValidPaths db @ [?row], sequence := rid\<rparr>"
    by (auto simp: stmtRegisterValidPath_def Let_def stmtQueryPathInfo_None split: if_splits)
  then show "rid = sequence db + 1" "db_ok db \<Longrightarrow> rid \<in> ids db'" by (auto simp: ids_def)
  show "extends db {bind_text p} {} 1 db'" unfolding extends_def
  proof
    assume ok: "db_ok db"
    have above: "rowId r \<le> sequence db" if "r \<in> set (ValidPaths db)" for r using ok that by (auto simp: db_ok_def)
    then have fresh: "rid \<notin> ids db" unfolding ids_def rid(1) by fastforce
    have "set (Refs db) \<subseteq> ids db \<times> ids db" using ok by (simp add: db_ok_def)
    with fresh have "refs_of db' = refs_of db" unfolding refs_of_def db' by (auto simp: ids_def)
    moreover have "db_ok db'"
      using ok new fresh above rid unfolding db_ok_def db' by (fastforce simp: ids_def valid_paths_def)
    ultimately show "db_ok db' \<and> valid_paths db' = valid_paths db \<union> {bind_text p} \<and> refs_of db' = refs_of db \<union> {} \<and>
        sequence db' \<le> sequence db + int 1 \<and> sequence db \<le> sequence db' \<and> FailedPaths db' = FailedPaths db"
      by (simp add: db' rid valid_paths_def insert_commute)
  qed
qed

lemma stmtAddDerivationOutput_extends:
  assumes "stmtAddDerivationOutput db drv oid p = Some db'"
  shows "extends db {} {} 0 db'"
proof -
  from assms have "drv \<in> ids db" and db': "db' = db\<lparr>DerivationOutputs := ((drv, bind_text oid), bind_text p) #
      filter (\<lambda>d. fst d \<noteq> (drv, bind_text oid)) (DerivationOutputs db)\<rparr>"
    by (auto simp: stmtAddDerivationOutput_def split: if_splits)
  then show ?thesis
    by (auto simp: extends_def db_ok_def refs_of_def valid_paths_def ids_def distinct_map_filter)
qed

lemma stmtAddReference_extends:
  assumes "stmtAddReference db (rowId r) (rowId s) = Some db'"
    and "r \<in> set (ValidPaths db)" and "s \<in> set (ValidPaths db)"
  shows "extends db {} {(rowPath r, rowPath s)} 0 db'"
proof -
  from assms have db': "db' = db\<lparr>Refs := (rowId r, rowId s) # filter (\<lambda>x. x \<noteq> (rowId r, rowId s)) (Refs db)\<rparr>"
    by (auto simp: stmtAddReference_def split: if_splits)
  show ?thesis unfolding extends_def
  proof
    assume ok: "db_ok db"
    then have "db_ok db'" using assms by (auto simp: db_ok_def db' ids_def)
    moreover have "refs_of db' = refs_of db \<union> {(rowPath r, rowPath s)}"
    proof -
      have refs: "set (Refs db') = insert (rowId r, rowId s) (set (Refs db))" by (auto simp: db')
      have "(rowPath a, rowPath b) \<in> refs_of db \<union> {(rowPath r, rowPath s)}"
        if "a \<in> set (ValidPaths db)" "b \<in> set (ValidPaths db)" "(rowId a, rowId b) \<in> set (Refs db')" for a b
        using that row_id_eq [OF ok that(1) assms(2)] row_id_eq [OF ok that(2) assms(3)]
        unfolding refs refs_of_def by blast
      moreover have "refs_of db \<union> {(rowPath r, rowPath s)} \<subseteq> refs_of db'"
        using assms(2,3) refs unfolding refs_of_def by (auto simp: db')
      ultimately show ?thesis unfolding refs_of_def [of db'] by (auto simp: db')
    qed
    ultimately show "db_ok db' \<and> valid_paths db' = valid_paths db \<union> {} \<and>
        refs_of db' = refs_of db \<union> {(rowPath r, rowPath s)} \<and> sequence db' \<le> sequence db + int 0 \<and>
        sequence db \<le> sequence db' \<and> FailedPaths db' = FailedPaths db"
      by (simp add: valid_paths_def db')
  qed
qed

lemma checkDerivationOutputs_db: "checkDerivationOutputs cfg p drv st = Inr st' \<Longrightarrow> lsDB st' = lsDB st"
proof -
  have keep: "lsDB t = lsDB s" if "foldE f xs s = Inr t" "\<And>x u v. f x u = Inr v \<Longrightarrow> v = u" for f :: "'x \<Rightarrow> LocalStore \<Rightarrow> LocalStore res" and xs s t
    using foldE_invariant [OF that(1), of "\<lambda>u. lsDB u = lsDB s"] that(2) by auto
  assume "checkDerivationOutputs cfg p drv st = Inr st'"
  then show ?thesis
    unfolding checkDerivationOutputs_def
    by (auto simp: bindE_eq_Inr Let_def split: if_splits option.splits dest!: keep)
qed

lemma extends_valid: "V \<subseteq> valid_paths db \<Longrightarrow> extends db V {} n db"
  by (auto simp: extends_def)

text \<open>The row a new path gets; the outputs of a derivation are added after it.\<close>

abbreviation registerRow :: "'c Env \<Rightarrow> ValidPathInfo \<Rightarrow> database \<Rightarrow> (int \<times> database) option" where
  "registerRow cfg info db \<equiv> stmtRegisterValidPath db (viPath info) (''sha256:'' @ printHash (viHash info))
    (c_int (if viRegistrationTime info = 0 then now cfg else viRegistrationTime info))
    (if viDeriver info \<noteq> [] then Some (viDeriver info) else None)
    (if viNarSize info \<noteq> 0 then Some (sint (viNarSize info)) else None)"

lemma addValidPath_adds:
  assumes "addValidPath cfg info c st = Inr (rid, st')"
  obtains n db where "registerRow cfg info (lsDB st) = Some (n, db)"
    and "extends db {} {} 0 (lsDB st')" and "ValidPaths (lsDB st') = ValidPaths db"
proof -
  from assms obtain n db where reg: "registerRow cfg info (lsDB st) = Some (n, db)"
    by (auto simp: addValidPath_def split: option.splits)
  have "extends db {} {} 0 (lsDB st') \<and> ValidPaths (lsDB st') = ValidPaths db"
  proof (cases "isDerivation (viPath info)")
    case False
    then show ?thesis using assms reg by (auto simp: addValidPath_def)
  next
    case True
    let ?add = "\<lambda>i st. case stmtAddDerivationOutput (lsDB st) (c_int n) (fst i) (outPath (snd i)) of
        None \<Rightarrow> Inl (SQLiteError (''adding derivation output for `'' @ viPath info @ [CHR 0x27] @ '' in database''))
      | Some db \<Rightarrow> Inr (st\<lparr>lsDB := db\<rparr>)"
    from True assms reg obtain drv st1 where
      chk: "(if c then checkDerivationOutputs cfg (viPath info) drv (st\<lparr>lsDB := db\<rparr>) else Inr (st\<lparr>lsDB := db\<rparr>)) = Inr st1"
      and out: "foldE ?add (outputs drv) st1 = Inr st'"
      by (auto simp: addValidPath_def Let_def bindE_eq_Inr)
    let ?P = "\<lambda>u. extends (lsDB st1) {} {} 0 (lsDB u) \<and> ValidPaths (lsDB u) = ValidPaths (lsDB st1)"
    have "?P st'"
    proof (rule foldE_invariant [OF out, of ?P])
      fix i u v assume u: "?P u" and "?add i u = Inr v"
      then obtain db' where db': "stmtAddDerivationOutput (lsDB u) (c_int n) (fst i) (outPath (snd i)) = Some db'" "lsDB v = db'"
        by (auto split: option.splits)
      moreover have "ValidPaths db' = ValidPaths (lsDB u)"
        using db'(1) by (auto simp: stmtAddDerivationOutput_def split: if_splits)
      ultimately show "?P v" using u extends_trans [OF _ stmtAddDerivationOutput_extends [OF db'(1)]] by fastforce
    qed simp
    moreover have "lsDB st1 = db" using chk by (auto split: if_splits dest: checkDerivationOutputs_db)
    ultimately show ?thesis by simp
  qed
  with reg that show thesis by blast
qed

lemma addValidPath_extends:
  assumes "addValidPath cfg info c st = Inr (rid, st')"
  shows "extends (lsDB st) {bind_text (viPath info)} {} 1 (lsDB st')"
  using addValidPath_adds [OF assms] extends_trans [OF stmtRegisterValidPath_extends(1), of "lsDB st"] by fastforce

abbreviation register_path ::
  "'c Env \<Rightarrow> ValidPathInfo \<Rightarrow> LocalStore \<times> path list \<Rightarrow> (LocalStore \<times> path list) res" where
  "register_path cfg \<equiv> \<lambda>i (st, paths).
     bindE (guardE (hashType (viHash i) = htSHA256) (AssertFail ''i->hash.type == htSHA256'')) (\<lambda>_.
     bindE (if LocalStore_isValidPath (lsDB st) (viPath i) then Inr st
            else bindE (addValidPath cfg i True st) (\<lambda>(id, st). Inr st)) (\<lambda>st.
       Inr (st, set_insert (viPath i) paths)))"

abbreviation register_reference :: "u64 \<Rightarrow> path \<Rightarrow> LocalStore \<Rightarrow> LocalStore res" where
  "register_reference referrer \<equiv> \<lambda>j st.
     bindE (queryValidPathId (lsDB st) j) (\<lambda>reference.
     bindE (addReference (lsDB st) referrer reference) (\<lambda>db. Inr (st\<lparr>lsDB := db\<rparr>)))"

abbreviation register_references :: "ValidPathInfo \<Rightarrow> LocalStore \<Rightarrow> LocalStore res" where
  "register_references \<equiv> \<lambda>i st.
     bindE (queryValidPathId (lsDB st) (viPath i)) (\<lambda>referrer.
       foldE (register_reference referrer) (viReferences i) st)"

lemma register_path_extends:
  assumes "register_path cfg i (st, ps) = Inr (st', ps')"
  shows "extends (lsDB st) {bind_text (viPath i)} {} 1 (lsDB st') \<and> ps' = set_insert (viPath i) ps"
  using assms addValidPath_extends [of cfg i True st]
  by (auto simp: bindE_eq_Inr isValidPath_iff extends_valid split: if_splits)

lemma register_paths_extend:
  assumes "foldE (register_path cfg) infos (st, ps) = Inr (st', ps')" and "is_set ps"
  shows "extends (lsDB st) ((\<lambda>i. bind_text (viPath i)) ` set infos) {} (length infos) (lsDB st') \<and>
    is_set ps' \<and> set ps' = set ps \<union> viPath ` set infos"
  using assms
proof (induction infos arbitrary: st ps)
  case (Cons i infos)
  from Cons.prems(1) obtain sp where "register_path cfg i (st, ps) = Inr sp" "foldE (register_path cfg) infos sp = Inr (st', ps')"
    by (auto simp only: foldE.simps bindE_eq_Inr)
  then obtain st1 ps1 where 1: "register_path cfg i (st, ps) = Inr (st1, ps1)"
    and 2: "foldE (register_path cfg) infos (st1, ps1) = Inr (st', ps')" by (cases sp) simp
  note 3 = register_path_extends [OF 1]
  have "is_set ps1" using 3 Cons.prems(2) by simp
  from Cons.IH [OF 2 this] 3 extends_trans [of "lsDB st" _ _ _ "lsDB st1"] show ?case by fastforce
qed simp

lemma queryValidPathId_row:
  assumes "queryValidPathId db p = Inr rid" and "db_ok db" and "small_ids db"
  obtains r where "r \<in> set (ValidPaths db)" "rowPath r = bind_text p" "c_int (uint rid) = rowId r"
proof -
  from assms(1) obtain r where r: "stmtQueryPathInfo db p = Some r" "rid = word_of_int (c_int (rowId r))"
    by (auto simp: queryValidPathId_def split: option.splits)
  have mem: "r \<in> set (ValidPaths db)" "rowPath r = bind_text p" using stmtQueryPathInfo_Some [OF r(1)] by auto
  have "c_int (uint rid) = rowId r" using r(2) c_int_row [OF assms(2,3) mem(1)] by simp
  with mem that show thesis by blast
qed

definition refers :: "LocalStore \<Rightarrow> (path \<times> path) set \<Rightarrow> LocalStore \<Rightarrow> bool" where
  "refers s R t \<longleftrightarrow> (db_ok (lsDB s) \<and> small_ids (lsDB s) \<longrightarrow> extends (lsDB s) {} R 0 (lsDB t) \<and> ValidPaths (lsDB t) = ValidPaths (lsDB s))"

lemma refers_refl: "refers s {} s"
  by (simp add: refers_def)

lemma refers_trans: "refers s R t \<Longrightarrow> refers t S u \<Longrightarrow> refers s (R \<union> S) u"
  by (auto simp: refers_def extends_def small_ids_def)

lemma register_reference_refers:
  assumes "register_reference referrer j s = Inr t"
    and "db_ok (lsDB s) \<Longrightarrow> small_ids (lsDB s) \<Longrightarrow> \<exists>r \<in> set (ValidPaths (lsDB s)). c_int (uint referrer) = rowId r \<and> rowPath r = p"
  shows "refers s {(p, bind_text j)} t"
  unfolding refers_def
proof
  assume ok: "db_ok (lsDB s) \<and> small_ids (lsDB s)"
  from assms(2) ok obtain r where r: "r \<in> set (ValidPaths (lsDB s))" "c_int (uint referrer) = rowId r" "rowPath r = p" by blast
  from assms(1) obtain rid db where rid: "queryValidPathId (lsDB s) j = Inr rid"
    and add: "addReference (lsDB s) referrer rid = Inr db" and t: "t = s\<lparr>lsDB := db\<rparr>"
    by (auto simp: bindE_eq_Inr)
  from queryValidPathId_row [OF rid] ok obtain q where q: "q \<in> set (ValidPaths (lsDB s))" "rowPath q = bind_text j"
    "c_int (uint rid) = rowId q" by blast
  from add r q have "stmtAddReference (lsDB s) (rowId r) (rowId q) = Some db"
    by (auto simp: addReference_def split: option.splits)
  from stmtAddReference_extends [OF this r(1) q(1)] this r q t
  show "extends (lsDB s) {} {(p, bind_text j)} 0 (lsDB t) \<and> ValidPaths (lsDB t) = ValidPaths (lsDB s)"
    by (auto simp: stmtAddReference_def split: if_splits)
qed

lemma register_reference_fold:
  assumes "foldE (register_reference referrer) js s = Inr t"
    and "r \<in> set (ValidPaths (lsDB s))" and "c_int (uint referrer) = rowId r"
    and "db_ok (lsDB s)" and "small_ids (lsDB s)"
  shows "refers s ((\<lambda>j. (rowPath r, bind_text j)) ` set js) t"
  using assms
proof (induction js arbitrary: s)
  case (Cons j js)
  from Cons.prems(1) obtain u where u: "register_reference referrer j s = Inr u"
    and t: "foldE (register_reference referrer) js u = Inr t" by (auto simp only: foldE.simps bindE_eq_Inr)
  have "refers s {(rowPath r, bind_text j)} u"
    using register_reference_refers [OF u] Cons.prems(2,3) by blast
  moreover from this have "refers u ((\<lambda>j. (rowPath r, bind_text j)) ` set js) t"
    using Cons.prems by (intro Cons.IH [OF t]) (auto simp: refers_def extends_def small_ids_def)
  ultimately have "refers s ({(rowPath r, bind_text j)} \<union> (\<lambda>j. (rowPath r, bind_text j)) ` set js) t"
    by (rule refers_trans)
  then show ?case by simp
qed (simp add: refers_refl)

lemma register_references_refers:
  assumes "register_references i s = Inr t"
  shows "refers s ((\<lambda>j. (bind_text (viPath i), bind_text j)) ` set (viReferences i)) t"
proof (cases "db_ok (lsDB s) \<and> small_ids (lsDB s)")
  case True
  from assms obtain referrer where id: "queryValidPathId (lsDB s) (viPath i) = Inr referrer"
    and fold: "foldE (register_reference referrer) (viReferences i) s = Inr t"
    by (auto simp: bindE_eq_Inr)
  from queryValidPathId_row [OF id] True obtain r where r: "r \<in> set (ValidPaths (lsDB s))"
    "rowPath r = bind_text (viPath i)" "c_int (uint referrer) = rowId r" by blast
  from register_reference_fold [OF fold r(1,3)] True r(2) show ?thesis by simp
qed (auto simp: refers_def)

definition info_refs :: "ValidPathInfo list \<Rightarrow> (path \<times> path) set" where
  "info_refs infos = (\<Union>i \<in> set infos. (\<lambda>j. (bind_text (viPath i), bind_text j)) ` set (viReferences i))"

lemma registerValidPaths_extends:
  assumes "LocalStore_registerValidPaths cfg infos st = Inr st'" and "db_ok (lsDB st)"
    and "sequence (lsDB st) + int (length infos) < 2147483648"
  shows "extends (lsDB st) ((\<lambda>i. bind_text (viPath i)) ` set infos) (info_refs infos) (length infos) (lsDB st')"
    and "small_ids (lsDB st')"
    and "\<exists>s. topoSortPaths (Suc (length (set_of_list (map viPath infos)))) (queryAPI cfg (lsDB st')) (set_of_list (map viPath infos)) = Inr s"
proof -
  from assms(1) obtain st1 ps s where 1: "foldE (register_path cfg) infos (st, []) = Inr (st1, ps)"
    and 2: "foldE register_references infos st1 = Inr st'"
    and 3: "topoSortPaths (Suc (length ps)) (queryAPI cfg (lsDB st')) ps = Inr s"
    by (auto simp: LocalStore_registerValidPaths_def bindE_eq_Inr)
  note ext = register_paths_extend [OF 1, simplified]
  then have ok: "db_ok (lsDB st1)" and small: "small_ids (lsDB st1)"
    using assms(2,3) by (auto simp: extends_def small_ids_def)
  have "refers st1 (info_refs infos) st'" unfolding info_refs_def
    by (rule foldE_visits [where R = "\<lambda>S s t. refers s S t", OF refers_refl refers_trans register_references_refers 2]) auto
  then have ext2: "extends (lsDB st1) {} (info_refs infos) 0 (lsDB st')" using ok small by (simp add: refers_def)
  then show "small_ids (lsDB st')" using small ok by (auto simp: extends_def small_ids_def)
  from ext extends_trans [OF _ ext2]
  show "extends (lsDB st) ((\<lambda>i. bind_text (viPath i)) ` set infos) (info_refs infos) (length infos) (lsDB st')" by fastforce
  have "ps = set_of_list (map viPath infos)" using ext by (intro is_set_eqI) auto
  with 3 show "\<exists>s. topoSortPaths (Suc (length (set_of_list (map viPath infos)))) (queryAPI cfg (lsDB st')) (set_of_list (map viPath infos)) = Inr s"
    by blast
qed

text \<open>Deleting a row: possible when no other path refers to it, and then everything about it is gone.\<close>

lemma stmtInvalidatePath_restrict:
  assumes "db_ok db" and "stmtQueryPathInfo db p = Some r"
  shows "rowId r \<in> snd ` {x \<in> set (Refs db). x \<noteq> (rowId r, rowId r)} \<longleftrightarrow> (\<exists>q. q \<noteq> bind_text p \<and> (q, bind_text p) \<in> refs_of db)"
proof -
  have r: "r \<in> set (ValidPaths db)" "rowPath r = bind_text p" using stmtQueryPathInfo_Some [OF assms(2)] by auto
  have "rowId r \<in> snd ` {x \<in> set (Refs db). x \<noteq> (rowId r, rowId r)} \<longleftrightarrow>
      (\<exists>s \<in> set (ValidPaths db). (rowId s, rowId r) \<in> set (Refs db) \<and> rowId s \<noteq> rowId r)"
    using assms(1) unfolding db_ok_def ids_def by (force simp: image_iff)
  also have "\<dots> \<longleftrightarrow> (\<exists>s \<in> set (ValidPaths db). (rowPath s, rowPath r) \<in> refs_of db \<and> rowPath s \<noteq> rowPath r)"
    using refs_of_iff [OF assms(1) _ r(1)] row_id_eq [OF assms(1) _ r(1)] row_path_eq [OF assms(1) _ r(1)] by blast
  also have "\<dots> \<longleftrightarrow> (\<exists>q. q \<noteq> bind_text p \<and> (q, bind_text p) \<in> refs_of db)"
    using refs_of_valid [of db] r(2) unfolding valid_paths_def by auto
  finally show ?thesis .
qed

definition invalidates :: "database \<Rightarrow> path \<Rightarrow> database \<Rightarrow> bool" where
  "invalidates db p db' \<longleftrightarrow> db_ok db' \<and> valid_paths db' = valid_paths db - {p} \<and>
     refs_of db' = refs_of db - {p} \<times> UNIV \<and> (\<forall>q. (q, p) \<in> refs_of db \<longrightarrow> q = p) \<and>
     drv_outputs_of db' = drv_outputs_of db - {p} \<times> UNIV \<and>
     sequence db' = sequence db \<and> FailedPaths db' = FailedPaths db"

lemma stmtInvalidatePath_row:
  assumes "db_ok db" and "stmtQueryPathInfo db p = Some r"
    and "stmtInvalidatePath db p = Some db'"
  shows "invalidates db (bind_text p) db'"
proof -
  have r: "r \<in> set (ValidPaths db)" "rowPath r = bind_text p" using stmtQueryPathInfo_Some [OF assms(2)] by auto
  from assms(2,3) have free: "rowId r \<notin> snd ` {x \<in> set (Refs db). x \<noteq> (rowId r, rowId r)}"
    and db': "db' = db\<lparr>ValidPaths := filter (\<lambda>r. rowPath r \<noteq> bind_text p) (ValidPaths db),
      Refs := filter (\<lambda>x. fst x \<noteq> rowId r) (filter (\<lambda>x. x \<noteq> (rowId r, rowId r)) (Refs db)),
      DerivationOutputs := filter (\<lambda>d. fst (fst d) \<noteq> rowId r) (DerivationOutputs db)\<rparr>"
    by (auto simp: stmtInvalidatePath_def Let_def split: if_splits)
  have sole: "\<forall>q. (q, bind_text p) \<in> refs_of db \<longrightarrow> q = bind_text p"
    using stmtInvalidatePath_restrict [OF assms(1,2)] free by blast
  have same: "rowPath s = bind_text p \<longleftrightarrow> rowId s = rowId r" if "s \<in> set (ValidPaths db)" for s
    using row_path_eq [OF assms(1) that r(1)] row_id_eq [OF assms(1) that r(1)] r(2) by auto
  have ids': "ids db' = ids db - {rowId r}" using same by (auto simp: ids_def db')
  have refs: "set (Refs db') = {x \<in> set (Refs db). fst x \<noteq> rowId r}" "\<forall>x \<in> set (Refs db'). snd x \<noteq> rowId r"
    using free by (force simp: db' image_iff)+
  have "set (Refs db) \<subseteq> ids db \<times> ids db" using assms(1) by (simp add: db_ok_def)
  with refs have "set (Refs db') \<subseteq> ids db' \<times> ids db'" unfolding ids' by (force simp: subset_iff)
  moreover have "\<forall>d \<in> set (DerivationOutputs db'). fst (fst d) \<in> ids db' \<and> nul_free (snd d)"
    using assms(1) unfolding ids' db_ok_def by (auto simp: db')
  ultimately have "db_ok db'"
    using assms(1) unfolding db_ok_def by (auto simp: db' distinct_map_filter)
  moreover have "valid_paths db' = valid_paths db - {bind_text p}" by (auto simp: valid_paths_def db')
  moreover have "refs_of db' = refs_of db - {bind_text p} \<times> UNIV"
  proof -
    have "x \<in> refs_of db' \<longleftrightarrow> x \<in> refs_of db - {bind_text p} \<times> UNIV" for x
    proof -
      have "x \<in> refs_of db' \<longleftrightarrow> (\<exists>a b. x = (rowPath a, rowPath b) \<and> a \<in> set (ValidPaths db) \<and> b \<in> set (ValidPaths db) \<and>
          rowPath a \<noteq> bind_text p \<and> rowPath b \<noteq> bind_text p \<and> (rowId a, rowId b) \<in> set (Refs db'))"
        unfolding refs_of_def by (auto simp: db')
      also have "\<dots> \<longleftrightarrow> (\<exists>a b. x = (rowPath a, rowPath b) \<and> a \<in> set (ValidPaths db) \<and> b \<in> set (ValidPaths db) \<and>
          rowPath a \<noteq> bind_text p \<and> rowPath b \<noteq> bind_text p \<and> (rowId a, rowId b) \<in> set (Refs db))"
        unfolding refs(1) using same by (metis (mono_tags, lifting) fst_conv mem_Collect_eq)
      also have "\<dots> \<longleftrightarrow> (\<exists>a b. x = (rowPath a, rowPath b) \<and> a \<in> set (ValidPaths db) \<and> b \<in> set (ValidPaths db) \<and>
          rowPath a \<noteq> bind_text p \<and> (rowId a, rowId b) \<in> set (Refs db))"
        using sole refs_of_iff [OF assms(1)] by metis
      also have "\<dots> \<longleftrightarrow> x \<in> refs_of db - {bind_text p} \<times> UNIV" unfolding refs_of_def by auto
      finally show ?thesis .
    qed
    then show ?thesis by blast
  qed
  moreover have "drv_outputs_of db' = drv_outputs_of db - {bind_text p} \<times> UNIV"
    using same unfolding drv_outputs_of_def by (auto simp: db')
  ultimately show ?thesis using sole by (simp add: invalidates_def db')
qed

lemma invalidatePath_cases:
  assumes "db_ok (lsDB st)"
  shows "if bind_text p \<notin> valid_paths (lsDB st) then \<exists>st'. invalidatePath p st = Inr st' \<and> lsDB st' = lsDB st
    else if \<exists>q. q \<noteq> bind_text p \<and> (q, bind_text p) \<in> refs_of (lsDB st) then \<exists>m. invalidatePath p st = Inl (SQLiteError m)
    else \<exists>st'. invalidatePath p st = Inr st' \<and> invalidates (lsDB st) (bind_text p) (lsDB st')"
proof (cases "stmtQueryPathInfo (lsDB st) p")
  case None
  moreover from this have "bind_text p \<notin> valid_paths (lsDB st)" by (simp add: stmtQueryPathInfo_None)
  ultimately show ?thesis by (simp add: invalidatePath_def stmtInvalidatePath_def)
next
  case (Some r)
  then have v: "bind_text p \<in> valid_paths (lsDB st)" by (metis option.distinct(1) stmtQueryPathInfo_None)
  have "(stmtInvalidatePath (lsDB st) p = None) = (\<exists>q. q \<noteq> bind_text p \<and> (q, bind_text p) \<in> refs_of (lsDB st))"
    using Some by (simp add: stmtInvalidatePath_def Let_def stmtInvalidatePath_restrict [OF assms Some, symmetric])
  then show ?thesis
    using v stmtInvalidatePath_row [OF assms Some]
    by (cases "stmtInvalidatePath (lsDB st) p") (auto simp: invalidatePath_def)
qed

lemma invalidatePathChecked_Inr:
  assumes "invalidatePathChecked storeDir p st = Inr st'" and "db_ok (lsDB st)"
  shows "if bind_text p \<in> valid_paths (lsDB st) then invalidates (lsDB st) (bind_text p) (lsDB st') else st' = st"
proof (cases "bind_text p \<in> valid_paths (lsDB st)")
  case True
  then have "invalidatePath p st = Inr st'"
    using assms(1) by (auto simp: invalidatePathChecked_def bindE_eq_Inr isValidPath_iff Let_def split: if_splits)
  with invalidatePath_cases [OF assms(2), of p] True show ?thesis by (auto split: if_splits)
qed (use assms in \<open>auto simp: invalidatePathChecked_def bindE_eq_Inr isValidPath_iff\<close>)

text \<open>
  C3: \<^verbatim>\<open>invalidatePathChecked\<close> removes a path exactly when no other valid path refers to it.  For a store
  path: one that is not valid is left alone; one that another valid path refers to is not removed, and
  the call throws \<^verbatim>\<open>PathInUse\<close>; otherwise the path, its references and its registered outputs are gone,
  everything else is as before, and the database keeps its invariant.
\<close>

theorem invalidatePathChecked_exact:
  assumes "db_ok (lsDB st)" and "isStorePath storeDir p" and "nul_free p"
  shows "if p \<notin> valid_paths (lsDB st) then invalidatePathChecked storeDir p st = Inr st
    else if \<exists>q. q \<noteq> p \<and> (q, p) \<in> refs_of (lsDB st) then \<exists>m. invalidatePathChecked storeDir p st = Inl (PathInUse m)
    else \<exists>st'. invalidatePathChecked storeDir p st = Inr st' \<and> invalidates (lsDB st) p (lsDB st')"
proof -
  obtain R where R: "LocalStore_queryReferrers storeDir (lsDB st) p [] = Inr R" "is_set R"
    "set R = (refs_of (lsDB st))\<inverse> `` {p}"
    using queryReferrers_spec [OF assms(1,2)] assms(3) by auto
  have "set_erase p R \<noteq> [] \<longleftrightarrow> (\<exists>q. q \<noteq> p \<and> (q, p) \<in> refs_of (lsDB st))"
    using R(3) by (metis (no_types, lifting) Diff_iff Image_singleton_iff converse_iff empty_iff empty_set
        insertI1 set_set_erase singletonD last_in_set)
  with R(1) invalidatePath_cases [OF assms(1), of p] assms(2,3) show ?thesis
    by (auto simp: invalidatePathChecked_def assertStorePath_def isValidPath_iff Let_def)
qed

subsection \<open>Stores that can be reached\<close>

text \<open>The operations that change the database, as steps; \<open>update\<close> is the repair of a hash or size.\<close>

inductive store_step :: "'c Env \<Rightarrow> LocalStore \<Rightarrow> LocalStore \<Rightarrow> bool" for cfg where
  register: "LocalStore_registerValidPaths cfg infos st = Inr st' \<Longrightarrow> store_step cfg st st'"
| invalidate: "invalidatePath p st = Inr st' \<Longrightarrow> store_step cfg st st'"
| invalidateChecked: "invalidatePathChecked (nixStore cfg) p st = Inr st' \<Longrightarrow> store_step cfg st st'"
| failed: "LocalStore_registerFailedPath cfg p (lsDB st) = Inr db \<Longrightarrow> store_step cfg st (st\<lparr>lsDB := db\<rparr>)"
| clear: "store_step cfg st (st\<lparr>lsDB := LocalStore_clearFailedPaths paths (lsDB st)\<rparr>)"
| update: "store_step cfg st (st\<lparr>lsDB := LocalStore_updatePathInfo info (lsDB st)\<rparr>)"

inductive_cases store_stepE: "store_step cfg st st'"

lemma stmtAddReference_ok: "stmtAddReference db a b = Some db' \<Longrightarrow> db_ok db \<Longrightarrow> db_ok db'"
proof -
  assume "stmtAddReference db a b = Some db'" and ok: "db_ok db"
  then have "db' = db\<lparr>Refs := (a, b) # filter (\<lambda>r. r \<noteq> (a, b)) (Refs db)\<rparr>" "a \<in> ids db" "b \<in> ids db"
    by (auto simp: stmtAddReference_def split: if_splits)
  with ok show ?thesis unfolding db_ok_def by simp blast
qed

lemma register_reference_ok: "register_reference referrer j st = Inr st' \<Longrightarrow> db_ok (lsDB st) \<Longrightarrow> db_ok (lsDB st')"
  by (auto simp: bindE_eq_Inr addReference_def split: option.splits) (blast intro: stmtAddReference_ok)

lemma registerValidPaths_ok:
  assumes "LocalStore_registerValidPaths cfg infos st = Inr st'" and "db_ok (lsDB st)"
  shows "db_ok (lsDB st')"
proof -
  from assms(1) obtain st1 ps where 1: "foldE (register_path cfg) infos (st, []) = Inr (st1, ps)"
    and 2: "foldE register_references infos st1 = Inr st'"
    by (auto simp: LocalStore_registerValidPaths_def bindE_eq_Inr)
  have "db_ok (lsDB st1)" using register_paths_extend [OF 1] assms(2) by (simp add: extends_def)
  then show ?thesis
  proof (rule foldE_invariant [OF 2, of "\<lambda>u. db_ok (lsDB u)"])
    fix i u v assume "db_ok (lsDB u)" and "register_references i u = Inr v"
    then obtain referrer where "foldE (register_reference referrer) (viReferences i) u = Inr v" "db_ok (lsDB u)"
      by (auto simp: bindE_eq_Inr)
    then show "db_ok (lsDB v)"
      using foldE_invariant [of "register_reference referrer" _ u v "\<lambda>u. db_ok (lsDB u)"] register_reference_ok by blast
  qed
qed

lemma registerFailedPath_ok: "LocalStore_registerFailedPath cfg p db = Inr db' \<Longrightarrow> db_ok db \<Longrightarrow> db_ok db'"
proof -
  assume "LocalStore_registerFailedPath cfg p db = Inr db'" and ok: "db_ok db"
  then consider "db' = db" | "db' = db\<lparr>FailedPaths := (bind_text p, c_int (now cfg)) # FailedPaths db\<rparr>"
      "bind_text p \<notin> fst ` set (FailedPaths db)"
    by (auto simp: LocalStore_registerFailedPath_def stmtRegisterFailedPath_def split: if_splits)
  then show ?thesis using ok by cases (simp_all add: db_ok_def)
qed

lemma stmtClearFailedPath_ok: "db_ok db \<Longrightarrow> db_ok (stmtClearFailedPath db p)"
  unfolding stmtClearFailedPath_def db_ok_def by (simp add: distinct_map_filter)

lemma clearFailedPaths_ok: "db_ok db \<Longrightarrow> db_ok (LocalStore_clearFailedPaths paths db)"
  unfolding LocalStore_clearFailedPaths_def by (induction paths arbitrary: db) (simp_all add: stmtClearFailedPath_ok)

lemma stmtUpdatePathInfo_rows:
  "map rowId (ValidPaths (stmtUpdatePathInfo db n h p)) = map rowId (ValidPaths db)"
  "map rowPath (ValidPaths (stmtUpdatePathInfo db n h p)) = map rowPath (ValidPaths db)"
  by (auto simp: stmtUpdatePathInfo_def)

lemma updatePathInfo_ok: "db_ok db \<Longrightarrow> db_ok (LocalStore_updatePathInfo info db)"
proof -
  let ?db = "LocalStore_updatePathInfo info db"
  assume ok: "db_ok db"
  have rows: "map rowId (ValidPaths ?db) = map rowId (ValidPaths db)" "map rowPath (ValidPaths ?db) = map rowPath (ValidPaths db)"
    by (simp_all add: LocalStore_updatePathInfo_def stmtUpdatePathInfo_rows)
  have "ids ?db = ids db" unfolding ids_def by (metis rows(1) set_map)
  moreover have "\<forall>r \<in> set (ValidPaths ?db). 0 < rowId r \<and> rowId r \<le> sequence ?db \<and> nul_free (rowPath r)"
    using ok by (auto simp: db_ok_def LocalStore_updatePathInfo_def stmtUpdatePathInfo_def)
  ultimately show ?thesis
    using ok unfolding db_ok_def rows by (simp add: LocalStore_updatePathInfo_def stmtUpdatePathInfo_def)
qed

lemma store_step_ok: "store_step cfg st st' \<Longrightarrow> db_ok (lsDB st) \<Longrightarrow> db_ok (lsDB st')"
proof (induction rule: store_step.induct)
  case (invalidate p st st')
  with invalidatePath_cases [of st p] show ?case by (auto simp: invalidates_def split: if_splits)
next
  case (invalidateChecked p st st')
  with invalidatePathChecked_Inr [of "nixStore cfg" p st st'] show ?case by (auto simp: invalidates_def split: if_splits)
qed (simp_all add: registerValidPaths_ok registerFailedPath_ok clearFailedPaths_ok updatePathInfo_ok)

lemma emptyDB_ok: "db_ok emptyDB"
  by (simp add: db_ok_def emptyDB_def ids_def)

lemma reachable_ok: "(store_step cfg)\<^sup>*\<^sup>* st st' \<Longrightarrow> db_ok (lsDB st) \<Longrightarrow> db_ok (lsDB st')"
  by (induction rule: rtranclp_induct) (auto dest: store_step_ok)

lemma queryReferences_valid:
  assumes "LocalStore_queryReferences storeDir db p [] = Inr refs" and "db_ok db" and "q \<in> set refs"
  shows "LocalStore_isValidPath db q"
proof -
  from assms(1,3) obtain i where "q \<in> set (stmtQueryReferences db i)"
    by (auto simp: LocalStore_queryReferences_def LocalStore_queryPathInfo_def bindE_eq_Inr Let_def split: option.splits)
  then obtain r where "r \<in> set (ValidPaths db)" "rowPath r = q"
    by (auto simp: stmtQueryReferences_def split: if_splits)
  then show ?thesis using stmtQueryPathInfo_row [OF assms(2)] by (auto simp: LocalStore_isValidPath_def)
qed


subsection \<open>Registered information can be queried\<close>

lemma nul_free_append [simp]: "nul_free (s @ t) \<longleftrightarrow> nul_free s \<and> nul_free t"
  by (auto simp: nul_free_def)

lemma nul_free_printHash: "nul_free (printHash h)"
proof -
  have "\<not> isxdigit (CHR 0x00)" by (simp add: isxdigit_def)
  then show ?thesis using printHash_digits [of h] unfolding list_all_iff nul_free_def by metis
qed

definition storable :: "ValidPathInfo \<Rightarrow> bool" where
  "storable info \<longleftrightarrow> nul_free (viPath info) \<and> nul_free (viDeriver info) \<and> wf_hash (viHash info) \<and>
     hashType (viHash info) = htSHA256 \<and> is_set (viReferences info) \<and> list_all nul_free (viReferences info)"

lemma parseHashField_printed:
  assumes "storable info"
  shows "parseHashField p (bind_text (''sha256:'' @ printHash (viHash info))) = Inr (viHash info)"
proof -
  have "nul_free ''sha256:''" by (simp add: nul_free_def)
  then have "bind_text (''sha256:'' @ printHash (viHash info)) = ''sha256:'' @ printHash (viHash info)"
    by (intro bind_text_nul_free) (simp only: nul_free_append nul_free_printHash)
  then show ?thesis
    using assms parseHash_printHash [of "viHash info"] by (simp add: parseHashField_def storable_def)
qed

lemma registerValidPath_new:
  assumes "LocalStore_registerValidPath cfg info st = Inr st'" and "db_ok (lsDB st)"
    and "sequence (lsDB st) + 1 < 2147483648" and "bind_text (viPath info) \<notin> valid_paths (lsDB st)"
  shows "\<lparr>rowId = sequence (lsDB st) + 1, rowPath = bind_text (viPath info),
      rowHash = bind_text (''sha256:'' @ printHash (viHash info)),
      rowRegistrationTime = c_int (if viRegistrationTime info = 0 then now cfg else viRegistrationTime info),
      rowDeriver = (if viDeriver info \<noteq> [] then Some (bind_text (viDeriver info)) else None),
      rowNarSize = (if viNarSize info \<noteq> 0 then Some (sint (viNarSize info)) else None)\<rparr> \<in> set (ValidPaths (lsDB st'))"
proof -
  from assms(1) obtain st1 ps where 1: "foldE (register_path cfg) [info] (st, []) = Inr (st1, ps)"
    and 2: "foldE register_references [info] st1 = Inr st'"
    by (auto simp: LocalStore_registerValidPath_def LocalStore_registerValidPaths_def bindE_eq_Inr)
  note ext = register_paths_extend [OF 1, simplified]
  then have ok: "db_ok (lsDB st1)" and small: "small_ids (lsDB st1)"
    using assms(2,3) by (auto simp: extends_def small_ids_def)
  from 2 obtain u where "register_references info st1 = Inr u" "st' = u" by (auto simp: bindE_eq_Inr)
  from register_references_refers [OF this(1)] this(2) ok small have rows: "ValidPaths (lsDB st') = ValidPaths (lsDB st1)"
    by (simp add: refers_def)
  from 1 assms(4) obtain rid where add: "addValidPath cfg info True st = Inr (rid, st1)"
    by (auto simp: bindE_eq_Inr isValidPath_iff split: if_splits)
  from addValidPath_adds [OF add] obtain n db where reg: "registerRow cfg info (lsDB st) = Some (n, db)"
    and "ValidPaths (lsDB st1) = ValidPaths db" by blast
  with rows show ?thesis
    by (auto simp: stmtRegisterValidPath_def Let_def split: if_splits)
qed

lemma c_int_c_int [simp]: "c_int (c_int x) = c_int x"
  by (simp add: c_int_def)

lemma info_refs_single: "info_refs [info] = (\<lambda>j. (bind_text (viPath info), bind_text j)) ` set (viReferences info)"
  by (simp add: info_refs_def)

text \<open>
  C33: what \<^verbatim>\<open>registerValidPath\<close> stores for a new path is what \<^verbatim>\<open>queryPathInfo\<close> returns: hash, size, deriver
  and references unchanged, the registration time (the current time when none was given) as an \<^verbatim>\<open>int\<close>,
  and the row number that was assigned.
\<close>

theorem registerValidPath_queryPathInfo:
  assumes "LocalStore_registerValidPath cfg info st = Inr st'" and "db_ok (lsDB st)"
    and "sequence (lsDB st) + 1 < 2147483648" and "viPath info \<notin> valid_paths (lsDB st)"
    and "storable info" and "isStorePath (nixStore cfg) (viPath info)"
  shows "LocalStore_queryPathInfo (nixStore cfg) (lsDB st') (viPath info) =
    Inr (info\<lparr>viRegistrationTime := c_int (if viRegistrationTime info = 0 then now cfg else viRegistrationTime info),
              viId := word_of_int (sequence (lsDB st) + 1)\<rparr>)"
proof -
  have nf: "bind_text (viPath info) = viPath info" "bind_text (viDeriver info) = viDeriver info"
    using assms(5) by (simp_all add: storable_def)
  define n where "n = sequence (lsDB st) + 1"
  obtain r where row: "r \<in> set (ValidPaths (lsDB st'))" and path: "rowPath r = viPath info" and rid: "rowId r = n"
    and h: "rowHash r = bind_text (''sha256:'' @ printHash (viHash info))"
    and f: "rowRegistrationTime r = c_int (if viRegistrationTime info = 0 then now cfg else viRegistrationTime info)"
      "rowDeriver r = (if viDeriver info \<noteq> [] then Some (viDeriver info) else None)"
      "rowNarSize r = (if viNarSize info \<noteq> 0 then Some (sint (viNarSize info)) else None)"
    by (rule that [OF registerValidPath_new [OF assms(1-3), unfolded nf, OF assms(4)]]) (simp_all add: n_def)
  note ext = registerValidPaths_extends [OF assms(1) [unfolded LocalStore_registerValidPath_def] assms(2)]
  have ok: "db_ok (lsDB st')" and small: "small_ids (lsDB st')"
    and refs: "refs_of (lsDB st') = refs_of (lsDB st) \<union> info_refs [info]"
    using ext assms(2,3) by (auto simp: extends_def)
  have "refs_of (lsDB st) `` {viPath info} = {}" using refs_of_valid [of "lsDB st"] assms(4) by auto
  moreover have "bind_text j = j" if "j \<in> set (viReferences info)" for j
    using assms(5) that by (auto simp: storable_def list_all_iff)
  ultimately have "refs_of (lsDB st') `` {viPath info} = set (viReferences info)"
    unfolding refs info_refs_single nf by force
  with set_stmtQueryReferences [OF ok row]
  have refs': "set_of_list (stmtQueryReferences (lsDB st') n) = viReferences info"
    using assms(5) path rid by (intro is_set_eqI) (auto simp: storable_def)
  have n: "c_int n = n" using c_int_row [OF ok small row] rid by simp
  have "stmtQueryPathInfo (lsDB st') (viPath info) = Some r" using stmtQueryPathInfo_row [OF ok row] path by simp
  then have "LocalStore_queryPathInfo (nixStore cfg) (lsDB st') (viPath info) =
      Inr \<lparr>viPath = viPath info, viDeriver = viDeriver info, viHash = viHash info, viReferences = viReferences info,
        viRegistrationTime = c_int (if viRegistrationTime info = 0 then now cfg else viRegistrationTime info),
        viNarSize = viNarSize info, viId = word_of_int n\<rparr>"
    using assms(6) parseHashField_printed [OF assms(5)] refs' n
    by (simp only: LocalStore_queryPathInfo_def assertStorePath_def guardE_simps bindE_Inr option.case h f rid Let_def c_int_u64)
      simp
  then show ?thesis by (simp only: n_def) simp
qed

subsection \<open>Acyclicity of references\<close>

lemma queryReferences_Inr:
  assumes "LocalStore_queryReferences storeDir db p [] = Inr refs" and "db_ok db" and "small_ids db"
  shows "set refs = refs_of db `` {bind_text p}"
proof -
  from assms(1) obtain r where r: "stmtQueryPathInfo db p = Some r"
    and refs: "set refs = set (stmtQueryReferences db (c_int (rowId r)))"
    by (auto simp: LocalStore_queryReferences_def LocalStore_queryPathInfo_def bindE_eq_Inr Let_def split: option.splits)
  note row = stmtQueryPathInfo_Some [OF r]
  then show ?thesis
    using refs set_stmtQueryReferences [OF assms(2)] c_int_row [OF assms(2,3)] by auto
qed

text \<open>Edges that leave a set of new nodes close no cycle through the old ones.\<close>

lemma acyclic_extend:
  assumes "acyclic A" and "A \<subseteq> V \<times> V" and "B \<subseteq> N \<times> UNIV" and "N \<inter> V = {}" and "acyclic (B \<inter> N \<times> N)"
  shows "acyclic (A \<union> B)"
proof -
  have old: "y \<in> V \<and> (x, y) \<in> A\<^sup>+" if "(x, y) \<in> (A \<union> B)\<^sup>+" "x \<in> V" for x y
    using that
  proof (induction rule: trancl_induct)
    case (step y z)
    then show ?case using assms(2-4) trancl_into_trancl [of x y A z] by blast
  qed (use assms(2-4) in blast)
  have new: "y \<in> V \<or> y \<notin> N \<or> (x, y) \<in> (B \<inter> N \<times> N)\<^sup>+" if "(x, y) \<in> (A \<union> B)\<^sup>+" "x \<notin> V" for x y
    using that
  proof (induction rule: trancl_induct)
    case (step y z)
    show ?case
    proof (cases "y \<in> V")
      case True
      then show ?thesis using step.hyps(2) assms(2-4) by blast
    next
      case False
      then have "(y, z) \<in> B" "y \<in> N" using step.hyps(2) assms(2,3) by blast+
      with step.IH [OF step.prems] False show ?thesis using trancl_into_trancl [of x y "B \<inter> N \<times> N" z] by blast
    qed
  qed (use assms(2,3) in blast)
  have "(x, x) \<notin> (A \<union> B)\<^sup>+" for x
  proof
    assume cyc: "(x, x) \<in> (A \<union> B)\<^sup>+"
    show False
    proof (cases "x \<in> V")
      case True
      with old [OF cyc] assms(1) show ?thesis by (auto simp: acyclic_def)
    next
      case False
      obtain y where "(x, y) \<in> A \<union> B" using cyc by (meson tranclD)
      with False assms(2,3) have "x \<in> N" by blast
      with new [OF cyc False] False assms(5) show ?thesis by (auto simp: acyclic_def)
    qed
  qed
  then show ?thesis by (simp add: acyclic_def)
qed

lemma registered_topo_edges:
  assumes "db_ok db" and "small_ids db" and "list_all nul_free paths"
    and "topoSortPaths n (queryAPI cfg db) paths = Inr s"
    and "(x, y) \<in> refs_of db" "x \<in> set paths" "y \<in> set paths" "x \<noteq> y"
  shows "(x, y) \<in> topo_edges (queryAPI cfg db) paths"
proof -
  have nf: "bind_text x = x" using assms(3,6) by (auto simp: list_all_iff)
  then have "LocalStore_isValidPath db x" using assms(5) refs_of_valid [of db] by (auto simp: isValidPath_iff)
  moreover from this have "\<exists>refs. LocalStore_queryReferences (nixStore cfg) db x [] = Inr refs"
    using topoSortPaths_Inr [OF assms(4)] assms(6) by (auto simp: queried_def LocalStore_API_def)
  then obtain refs where refs: "LocalStore_queryReferences (nixStore cfg) db x [] = Inr refs" ..
  moreover have "y \<in> set refs" using queryReferences_Inr [OF refs assms(1,2)] nf assms(5) by auto
  ultimately show ?thesis using assms(6-8) by (simp add: topo_edges_def LocalStore_API_def)
qed

text \<open>
  C4: the references between valid paths stay acyclic, apart from paths that refer to themselves: a call of
  \<^verbatim>\<open>registerValidPaths\<close> for paths that were not valid before returns only when the new references,
  together with those already there, contain no cycle.
\<close>

theorem registerValidPaths_acyclic:
  assumes "LocalStore_registerValidPaths cfg infos st = Inr st'" and "db_ok (lsDB st)"
    and "sequence (lsDB st) + int (length infos) < 2147483648"
    and "\<forall>i \<in> set infos. nul_free (viPath i) \<and> viPath i \<notin> valid_paths (lsDB st)"
    and "acyclic (refs_of (lsDB st) - Id)"
  shows "acyclic (refs_of (lsDB st') - Id)"
proof -
  let ?N = "viPath ` set infos" and ?ps = "set_of_list (map viPath infos)"
  note ext = registerValidPaths_extends [OF assms(1-3)]
  have ok: "db_ok (lsDB st')" and refs: "refs_of (lsDB st') = refs_of (lsDB st) \<union> info_refs infos"
    using ext(1) assms(2) by (auto simp: extends_def)
  have "info_refs infos \<subseteq> ?N \<times> UNIV" using assms(4) by (auto simp: info_refs_def)
  moreover have "refs_of (lsDB st) \<subseteq> valid_paths (lsDB st) \<times> valid_paths (lsDB st)" by (rule refs_of_valid)
  moreover have "?N \<inter> valid_paths (lsDB st) = {}" using assms(4) by auto
  moreover have "acyclic ((info_refs infos - Id) \<inter> ?N \<times> ?N)"
  proof -
    obtain s where s: "topoSortPaths (Suc (length ?ps)) (queryAPI cfg (lsDB st')) ?ps = Inr s" using ext(3) by blast
    have "list_all nul_free ?ps" using assms(4) by (auto simp: list_all_iff)
    from registered_topo_edges [OF ok ext(2) this s]
    have "(info_refs infos - Id) \<inter> ?N \<times> ?N \<subseteq> topo_edges (queryAPI cfg (lsDB st')) ?ps"
      unfolding refs by auto
    with topoSortPaths_Inr [OF s] show ?thesis by (meson acyclic_subset)
  qed
  ultimately have "acyclic ((refs_of (lsDB st) - Id) \<union> (info_refs infos - Id))"
    using assms(5) by (intro acyclic_extend [where V = "valid_paths (lsDB st)" and N = ?N]) auto
  then show ?thesis unfolding refs by (simp add: Un_Diff)
qed


subsection \<open>A small store\<close>

definition demo_cfg :: "bytes Env" where
  "demo_cfg = \<lparr>digest = demo_digest, nixStore = ''/nix/store'', readFile = (\<lambda>p. Inl (SysError p)),
     now = 1350000000, drvDepth = 1\<rparr>"

definition demo_valid :: "path \<Rightarrow> path list \<Rightarrow> ValidPathInfo" where
  "demo_valid p refs = \<lparr>viPath = p, viDeriver = [],
     viHash = \<lparr>hashSize = 32, hash = replicate 32 7, hashType = htSHA256\<rparr>, viReferences = refs,
     viRegistrationTime = 0, viNarSize = 112, viId = 0\<rparr>"

abbreviation demo_empty :: LocalStore where
  "demo_empty \<equiv> \<lparr>lsDB = emptyDB, lsDrvHashes = []\<rparr>"

abbreviation demo_register_a :: "LocalStore res" where
  "demo_register_a \<equiv> LocalStore_registerValidPath demo_cfg (demo_valid ''/nix/store/a'' []) demo_empty"

abbreviation demo_register_b :: "LocalStore \<Rightarrow> LocalStore res" where
  "demo_register_b \<equiv> LocalStore_registerValidPath demo_cfg (demo_valid ''/nix/store/b'' [''/nix/store/a'', ''/nix/store/b''])"

lemma demo_registers: "\<not> isl (bindE demo_register_a demo_register_b)"
  by code_simp

text \<open>A store with two valid paths, the second of which refers to the first and to itself.\<close>

lemma demo_two_paths:
  obtains st1 st2 where "demo_register_a = Inr st1" and "demo_register_b st1 = Inr st2"
    and "db_ok (lsDB st1)" and "db_ok (lsDB st2)" and "sequence (lsDB st1) \<le> 1"
    and "valid_paths (lsDB st1) = {''/nix/store/a''}" and "refs_of (lsDB st1) = {}"
    and "valid_paths (lsDB st2) = {''/nix/store/a'', ''/nix/store/b''}"
    and "refs_of (lsDB st2) = {(''/nix/store/b'', ''/nix/store/a''), (''/nix/store/b'', ''/nix/store/b'')}"
proof -
  obtain st1 st2 where st: "demo_register_a = Inr st1" "demo_register_b st1 = Inr st2"
    using demo_registers by (cases demo_register_a; cases "bindE demo_register_a demo_register_b") auto
  note 1 = registerValidPaths_extends(1) [OF st(1) [unfolded LocalStore_registerValidPath_def]]
  have e1: "db_ok (lsDB st1)" "valid_paths (lsDB st1) = {''/nix/store/a''}" "refs_of (lsDB st1) = {}" "sequence (lsDB st1) \<le> 1"
    using 1 emptyDB_ok
    by (simp_all add: extends_def info_refs_def demo_valid_def bind_text_def emptyDB_def valid_paths_def refs_of_def)
  note 2 = registerValidPaths_extends(1) [OF st(2) [unfolded LocalStore_registerValidPath_def] e1(1)]
  have e2: "db_ok (lsDB st2)" "valid_paths (lsDB st2) = {''/nix/store/a'', ''/nix/store/b''}"
    "refs_of (lsDB st2) = {(''/nix/store/b'', ''/nix/store/a''), (''/nix/store/b'', ''/nix/store/b'')}"
    using 2 e1 by (simp_all add: extends_def info_refs_def demo_valid_def bind_text_def insert_commute)
  show thesis by (rule that [OF st e1(1) e2(1) e1(4,2,3) e2(2,3)])
qed

lemma demo_storable: "storable (demo_valid p refs) \<longleftrightarrow> nul_free p \<and> is_set refs \<and> list_all nul_free refs"
  by (auto simp: storable_def demo_valid_def wf_hash_def hash_ok_def maxHashSize_def nul_free_def list_all_iff)

theorem invalidatePathChecked_exact_witness:
  "\<exists>st1 st2 st3. demo_register_a = Inr st1 \<and> demo_register_b st1 = Inr st2 \<and>
     (\<exists>m. invalidatePathChecked ''/nix/store'' ''/nix/store/a'' st2 = Inl (PathInUse m)) \<and>
     invalidatePathChecked ''/nix/store'' ''/nix/store/b'' st2 = Inr st3 \<and> valid_paths (lsDB st3) = {''/nix/store/a''}"
proof -
  obtain st1 st2 where st: "demo_register_a = Inr st1" "demo_register_b st1 = Inr st2" "db_ok (lsDB st2)"
    "valid_paths (lsDB st2) = {''/nix/store/a'', ''/nix/store/b''}"
    "refs_of (lsDB st2) = {(''/nix/store/b'', ''/nix/store/a''), (''/nix/store/b'', ''/nix/store/b'')}"
    by (rule demo_two_paths)
  have p: "isStorePath ''/nix/store'' ''/nix/store/a''" "nul_free ''/nix/store/a''"
    "isStorePath ''/nix/store'' ''/nix/store/b''" "nul_free ''/nix/store/b''"
    by code_simp+
  have "\<exists>q. q \<noteq> ''/nix/store/a'' \<and> (q, ''/nix/store/a'') \<in> refs_of (lsDB st2)"
    unfolding st(5) by (rule exI [of _ "''/nix/store/b''"]) simp
  moreover have "\<not> (\<exists>q. q \<noteq> ''/nix/store/b'' \<and> (q, ''/nix/store/b'') \<in> refs_of (lsDB st2))"
    unfolding st(5) by (simp only: insert_iff prod.inject empty_iff) fastforce
  ultimately have "\<exists>m. invalidatePathChecked ''/nix/store'' ''/nix/store/a'' st2 = Inl (PathInUse m)"
    "\<exists>st3. invalidatePathChecked ''/nix/store'' ''/nix/store/b'' st2 = Inr st3 \<and> invalidates (lsDB st2) ''/nix/store/b'' (lsDB st3)"
    using invalidatePathChecked_exact [OF st(3) p(1,2)] invalidatePathChecked_exact [OF st(3) p(3,4)]
    by (simp_all only: st(4) insert_iff if_True if_False not_True_eq_False simp_thms)
  then obtain m st3 where "invalidatePathChecked ''/nix/store'' ''/nix/store/a'' st2 = Inl (PathInUse m)"
    "invalidatePathChecked ''/nix/store'' ''/nix/store/b'' st2 = Inr st3" "invalidates (lsDB st2) ''/nix/store/b'' (lsDB st3)" by blast
  moreover from this(3) have "valid_paths (lsDB st3) = {''/nix/store/a''}" by (simp add: invalidates_def st(4) insert_Diff_if)
  ultimately show ?thesis using st by blast
qed


theorem registerValidPath_queryPathInfo_witness:
  "\<exists>st1 st2. demo_register_a = Inr st1 \<and> demo_register_b st1 = Inr st2 \<and>
     (\<exists>i. LocalStore_queryPathInfo ''/nix/store'' (lsDB st2) ''/nix/store/b'' = Inr i \<and>
        viReferences i = [''/nix/store/a'', ''/nix/store/b''] \<and> viNarSize i = 112 \<and> viRegistrationTime i = 1350000000)"
proof -
  obtain st1 st2 where st: "demo_register_a = Inr st1" "demo_register_b st1 = Inr st2" "db_ok (lsDB st1)"
    "valid_paths (lsDB st1) = {''/nix/store/a''}" "sequence (lsDB st1) \<le> 1"
    by (rule demo_two_paths)
  have "storable (demo_valid ''/nix/store/b'' [''/nix/store/a'', ''/nix/store/b''])"
    by (simp add: demo_storable nul_free_def)
  moreover have "isStorePath ''/nix/store'' ''/nix/store/b''" by code_simp
  ultimately show ?thesis
    using registerValidPath_queryPathInfo [OF st(2,3)] st by (simp add: demo_valid_def demo_cfg_def c_int_def)
qed

theorem registerValidPaths_acyclic_witness:
  "\<exists>st1 st2. demo_register_a = Inr st1 \<and> demo_register_b st1 = Inr st2 \<and> acyclic (refs_of (lsDB st2) - Id)"
proof -
  obtain st1 st2 where st: "demo_register_a = Inr st1" "demo_register_b st1 = Inr st2" "db_ok (lsDB st1)"
    "valid_paths (lsDB st1) = {''/nix/store/a''}" "sequence (lsDB st1) \<le> 1" "refs_of (lsDB st1) = {}"
    by (rule demo_two_paths)
  have "nul_free ''/nix/store/b''" by (simp add: nul_free_def)
  with registerValidPaths_acyclic [OF st(2) [unfolded LocalStore_registerValidPath_def] st(3)] st show ?thesis
    by (auto simp: demo_valid_def acyclic_def)
qed



subsection \<open>Looking up a hash part\<close>

lemma prefix_between:
  "pre \<le> m \<Longrightarrow> m \<le> pre @ t \<Longrightarrow> take (length pre) m = (pre :: string)"
proof (induction pre arbitrary: m)
  case (Cons c pre)
  then show ?case by (cases m) (auto simp: Cons_le_Cons)
qed simp

lemma prefix_le: "pre \<le> (pre @ t :: string)"
  by (induction pre) (simp_all add: Cons_le_Cons)



end
