(* ===== verification/GC_Roots.thy ===== *)
theory GC_Roots
  imports Local_Store
begin

text \<open>
  Garbage collector roots: the first part of \<^verbatim>\<open>src/libstore/gc.cc\<close>.  Permanent roots are symbolic links in
  the \<^verbatim>\<open>gcroots\<close> directory, or in places that links there lead to; temporary roots are the lines of a file
  that every process keeps while it runs.

  The file system outside the store is a list of paths with what \<^verbatim>\<open>lstat\<close> shows there; \<open>fsError\<close> says
  for which paths it fails although they exist.  Operations that go on after an exception return the
  state beside the result.
\<close>

subsection \<open>The file system\<close>

datatype node = Dir | Link path | File string

type_synonym files = "(path \<times> node) list"

definition lstat :: "(path \<Rightarrow> errno option) \<Rightarrow> files \<Rightarrow> path \<Rightarrow> node res" where
  "lstat fsError fs p = (case fsError p of
     Some e \<Rightarrow> Inl (SysErrorNo e (''getting status of '' @ p))
   | None \<Rightarrow> (case map_of fs p of
       None \<Rightarrow> Inl (SysErrorNo ENOENT (''getting status of '' @ p))
     | Some n \<Rightarrow> Inr n))"

definition pathExists :: "(path \<Rightarrow> errno option) \<Rightarrow> files \<Rightarrow> path \<Rightarrow> bool res" where
  "pathExists fsError fs p = (case lstat fsError fs p of
     Inr n \<Rightarrow> Inr True
   | Inl (SysErrorNo e m) \<Rightarrow> if e \<noteq> ENOENT \<and> e \<noteq> ENOTDIR then Inl (SysErrorNo e m) else Inr False
   | Inl e \<Rightarrow> Inl e)"

definition isLink :: "(path \<Rightarrow> errno option) \<Rightarrow> files \<Rightarrow> path \<Rightarrow> bool res" where
  "isLink fsError fs p = bindE (lstat fsError fs p) (\<lambda>n. Inr (case n of Link _ \<Rightarrow> True | _ \<Rightarrow> False))"

definition readLink :: "(path \<Rightarrow> errno option) \<Rightarrow> files \<Rightarrow> path \<Rightarrow> path res" where
  "readLink fsError fs p = bindE (lstat fsError fs p) (\<lambda>n. case n of
     Link target \<Rightarrow> Inr target
   | _ \<Rightarrow> Inl (Error (''`'' @ p @ [CHR 0x27] @ '' is not a symlink'')))"

text \<open>The names in a directory, in the order the file system keeps them.\<close>

definition readDirectory :: "files \<Rightarrow> path \<Rightarrow> string list" where
  "readDirectory fs p = map (drop (length p + 1))
     (filter (\<lambda>q. take (length p + 1) q = p @ ''/'' \<and> drop (length p + 1) q \<noteq> [] \<and>
        CHR ''/'' \<notin> set (drop (length p + 1) q)) (map fst fs))"

definition unlink :: "path \<Rightarrow> files \<Rightarrow> files" where
  "unlink p fs = filter (\<lambda>f. fst f \<noteq> p) fs"

text \<open>
  \<^verbatim>\<open>createDirs\<close>: \<^verbatim>\<open>mkdir\<close> for every missing parent, the outermost first.  The recursion ends at the root
  directory, which \<^verbatim>\<open>dirOf\<close> reaches because it shortens the path.
\<close>

primrec createDirs_loop :: "nat \<Rightarrow> (path \<Rightarrow> errno option) \<Rightarrow> path \<Rightarrow> files \<Rightarrow> (path list \<times> files) res" where
  "createDirs_loop 0 fsError p fs = Inl Diverges"
| "createDirs_loop (Suc n) fsError p fs =
     (if p = ''/'' then Inr ([], fs)
      else bindE (case lstat fsError fs p of
                    Inr node \<Rightarrow> Inr ([], fs, node)
                  | Inl _ \<Rightarrow>
                      bindE (dirOf p) (\<lambda>dir.
                      bindE (createDirs_loop n fsError dir fs) (\<lambda>(created, fs).
                      let fs = (if map_of fs p = None then fs @ [(p, Dir)] else fs)
                      in bindE (lstat fsError fs p) (\<lambda>node. Inr (created @ [p], fs, node)))))
             (\<lambda>(created, fs, node).
               if node = Dir then Inr (created, fs) else Inl (Error (''`'' @ p @ [CHR 0x27] @ '' is not a directory''))))"

definition createDirs :: "(path \<Rightarrow> errno option) \<Rightarrow> path \<Rightarrow> files \<Rightarrow> (path list \<times> files) res" where
  "createDirs fsError p fs = createDirs_loop (length p + 1) fsError p fs"

subsection \<open>Permanent roots\<close>

record gc_settings =
  nixStateDir :: path
  rootFsError :: "path \<Rightarrow> errno option"
  getcwd :: "path res"
  suffix :: string
  checkRootReachability :: bool

text \<open>
  \<^verbatim>\<open>canonPath\<close> of these operations does not resolve links.  \<open>suffix\<close> is what makes the name of the
  temporary link unique: the process number and a random number.
\<close>

abbreviation noLinks :: "path \<Rightarrow> string option res" where
  "noLinks \<equiv> \<lambda>_. Inr None"

definition createSymlink :: "gc_settings \<Rightarrow> path \<Rightarrow> path \<Rightarrow> files \<Rightarrow> files res" where
  "createSymlink g link target fs =
     bindE (dirOf link) (\<lambda>dir.
     bindE (createDirs (rootFsError g) dir fs) (\<lambda>(_, fs).
     let tempLink = link @ ''.tmp-'' @ suffix g
     in if map_of fs tempLink \<noteq> None then
          Inl (SysError (''symlinking `'' @ tempLink @ [CHR 0x27] @ '' to `'' @ target @ [CHR 0x27]))
        else if map_of fs link = Some Dir then
          Inl (SysError (''cannot rename `'' @ tempLink @ [CHR 0x27] @ '' to `'' @ link @ [CHR 0x27]))
        else Inr (unlink link fs @ [(link, Link target)])))"

definition LocalStore_addIndirectRoot :: "'c digest \<Rightarrow> gc_settings \<Rightarrow> path \<Rightarrow> files \<Rightarrow> files res" where
  "LocalStore_addIndirectRoot dg g p fs =
     bindE (hashString dg htSHA1 p) (\<lambda>h.
     bindE (printHash32 h) (\<lambda>s.
     bindE (canonPath noLinks (nixStateDir g @ ''/gcroots/auto/'' @ s) False) (\<lambda>realRoot.
       createSymlink g realRoot p fs)))"

type_synonym Roots = "(path \<times> path) list"

text \<open>One directory or link; \<open>valid\<close> is \<^verbatim>\<open>store.isValidPath\<close>.  The handler ignores permanent failures.\<close>

definition ignorePermanent :: "(files \<times> Roots, unit) op \<Rightarrow> (files \<times> Roots, unit) op" where
  "ignorePermanent body st = (case body st of
     (Inl (SysErrorNo e m), st) \<Rightarrow> if e \<in> {EACCES, ENOENT, ENOTDIR} then (Inr (), st) else (Inl (SysErrorNo e m), st)
   | r \<Rightarrow> r)"

primrec findRoots_rec ::
  "nat \<Rightarrow> gc_settings \<Rightarrow> path \<Rightarrow> (path \<Rightarrow> bool) \<Rightarrow> path \<Rightarrow> bool \<Rightarrow> bool \<Rightarrow> (files \<times> Roots, unit) op" where
  "findRoots_rec 0 g storeDir valid p recurseSymlinks deleteStale st = (Inl Diverges, st)"
| "findRoots_rec (Suc n) g storeDir valid p recurseSymlinks deleteStale st =
     ignorePermanent (\<lambda>(fs, roots).
       case lstat (rootFsError g) fs p of
         Inl e \<Rightarrow> (Inl e, fs, roots)
       | Inr Dir \<Rightarrow>
           foldS (\<lambda>i. findRoots_rec n g storeDir valid (p @ ''/'' @ i) recurseSymlinks deleteStale)
             (readDirectory fs p) (fs, roots)
       | Inr (File _) \<Rightarrow> (Inr (), fs, roots)
       | Inr (Link link) \<Rightarrow>
           (case bindE (dirOf p) (absPath noLinks (getcwd g) link) of
              Inl e \<Rightarrow> (Inl e, fs, roots)
            | Inr target \<Rightarrow>
                if isInStore storeDir target then
                  (case toStorePath storeDir target of
                     Inl e \<Rightarrow> (Inl e, fs, roots)
                   | Inr storePath \<Rightarrow>
                       if valid storePath then (Inr (), fs, map_put p storePath roots) else (Inr (), fs, roots))
                else if recurseSymlinks then
                  (case pathExists (rootFsError g) fs target of
                     Inl e \<Rightarrow> (Inl e, fs, roots)
                   | Inr True \<Rightarrow> findRoots_rec n g storeDir valid target False deleteStale (fs, roots)
                   | Inr False \<Rightarrow> if deleteStale then (Inr (), unlink p fs, roots) else (Inr (), fs, roots))
                else (Inr (), fs, roots))) st"

definition findRoots :: "nat \<Rightarrow> gc_settings \<Rightarrow> path \<Rightarrow> (path \<Rightarrow> bool) \<Rightarrow> bool \<Rightarrow> files \<Rightarrow> Roots res \<times> files" where
  "findRoots n g storeDir valid deleteStale fs =
     (case canonPath noLinks (nixStateDir g @ ''/gcroots'') False of
        Inl e \<Rightarrow> (Inl e, fs)
      | Inr rootsDir \<Rightarrow>
          (case findRoots_rec n g storeDir valid rootsDir True deleteStale (fs, []) of
             (Inl e, fs, _) \<Rightarrow> (Inl e, fs)
           | (Inr _, fs, roots) \<Rightarrow> (Inr roots, fs)))"

text \<open>
  \<^verbatim>\<open>addPermRoot\<close>.  The second component of the result is whether it warns that the collector does not
  find the root.  \<^verbatim>\<open>syncWithGC\<close> only waits for the lock of a running collector.
\<close>

definition addPermRoot ::
  "nat \<Rightarrow> 'c digest \<Rightarrow> gc_settings \<Rightarrow> path \<Rightarrow> (path \<Rightarrow> bool) \<Rightarrow> path \<Rightarrow> path \<Rightarrow> bool \<Rightarrow> bool \<Rightarrow> files \<Rightarrow>
     (path \<times> bool \<times> files) res" where
  "addPermRoot n dg g storeDir valid storePath0 gcRoot0 indirect allowOutsideRootsDir fs =
     bindE (canonPath noLinks storePath0 False) (\<lambda>storePath.
     bindE (canonPath noLinks gcRoot0 False) (\<lambda>gcRoot.
     bindE (assertStorePath storeDir storePath) (\<lambda>_.
     bindE (guardE (\<not> isInStore storeDir gcRoot)
              (Error (''creating a garbage collector root ('' @ gcRoot @ '') in the Nix store is forbidden ''
                @ ''(are you running nix-build inside the store?)''))) (\<lambda>_.
     bindE (if indirect then
              bindE (pathExists (rootFsError g) fs gcRoot) (\<lambda>there.
              bindE (if there then
                       bindE (isLink (rootFsError g) fs gcRoot) (\<lambda>l.
                         if \<not> l then Inr True
                         else bindE (readLink (rootFsError g) fs gcRoot) (\<lambda>t. Inr (\<not> isInStore storeDir t)))
                     else Inr False) (\<lambda>clobber.
              bindE (guardE (\<not> clobber) (Error (''cannot create symlink `'' @ gcRoot @ [CHR 0x27] @ ''; already exists''))) (\<lambda>_.
              bindE (createSymlink g gcRoot storePath fs) (LocalStore_addIndirectRoot dg g gcRoot))))
            else
              bindE (if allowOutsideRootsDir then Inr ()
                     else bindE (canonPath noLinks (nixStateDir g @ ''/gcroots'') False) (\<lambda>rootsDir.
                       guardE (take (length rootsDir + 1) gcRoot = rootsDir @ ''/'')
                         (Error (''path `'' @ gcRoot @ [CHR 0x27] @ '' is not a valid garbage collector root; ''
                           @ ''it'' @ [CHR 0x27] @ ''s not in the directory `'' @ rootsDir @ [CHR 0x27])))) (\<lambda>_.
              createSymlink g gcRoot storePath fs)) (\<lambda>fs.
     bindE (if checkRootReachability g then
              bindE (fst (findRoots n g storeDir valid False fs)) (\<lambda>roots. Inr (map_of roots gcRoot = None))
            else Inr False) (\<lambda>warn.
       Inr (gcRoot, warn, fs)))))))"

subsection \<open>Temporary roots\<close>

text \<open>
  The files of \<^verbatim>\<open>temproots\<close>: for every process number the contents, and whether the process lives, that is,
  holds a lock on its file.
\<close>

record temproot_file =
  trAlive :: bool
  trContents :: string

type_synonym temproots = "(string \<times> temproot_file) list"

text \<open>
  \<^verbatim>\<open>addTempRoot\<close> of process \<open>pid\<close>: a new file when the process has none open (\<open>isOpen\<close> is
  \<^verbatim>\<open>fdTempRoots != -1\<close>), replacing a stale one with the same number; then the path and a null character.
\<close>

definition addTempRoot :: "string \<Rightarrow> bool \<Rightarrow> path \<Rightarrow> temproots \<Rightarrow> temproots" where
  "addTempRoot pid isOpen p files =
     (let old = (if isOpen then (case map_of files pid of Some f \<Rightarrow> trContents f | None \<Rightarrow> []) else [])
      in filter (\<lambda>f. fst f \<noteq> pid) files @ [(pid, \<lparr>trAlive = True, trContents = old @ p @ [CHR 0x00]\<rparr>)])"

definition removeTempRoots :: "string \<Rightarrow> bool \<Rightarrow> temproots \<Rightarrow> temproots" where
  "removeTempRoots pid isOpen files = (if isOpen then filter (\<lambda>f. fst f \<noteq> pid) files else files)"

text \<open>The loop that extracts the roots of one file: every string that ends in a null character.\<close>

function temproot_paths :: "path \<Rightarrow> string \<Rightarrow> path list \<Rightarrow> path list res" where
  "temproot_paths storeDir contents roots = (case find_char (CHR 0x00) contents of
     None \<Rightarrow> Inr roots
   | Some end \<Rightarrow>
       bindE (assertStorePath storeDir (take end contents)) (\<lambda>_.
         temproot_paths storeDir (drop (end + 1) contents) (set_insert (take end contents) roots)))"
  by pat_completeness auto
termination
  by (relation "measure (\<lambda>(s, c, r). length c)") (auto simp: find_char_Some)

declare temproot_paths.simps [simp del]

text \<open>
  The files of processes that have died are removed, and stay removed when a file is corrupt.
\<close>

primrec readTempRoots_loop ::
  "path \<Rightarrow> temproots \<Rightarrow> path list \<Rightarrow> temproots \<Rightarrow> path list res \<times> temproots" where
  "readTempRoots_loop storeDir [] roots files = (Inr roots, files)"
| "readTempRoots_loop storeDir (i # is) roots files =
     (if \<not> trAlive (snd i) then readTempRoots_loop storeDir is roots (filter (\<lambda>f. fst f \<noteq> fst i) files)
      else case temproot_paths storeDir (trContents (snd i)) roots of
             Inl e \<Rightarrow> (Inl e, files)
           | Inr roots \<Rightarrow> readTempRoots_loop storeDir is roots files)"

definition readTempRoots :: "path \<Rightarrow> temproots \<Rightarrow> path list \<Rightarrow> path list res \<times> temproots" where
  "readTempRoots storeDir files tempRoots = readTempRoots_loop storeDir files tempRoots files"

subsection \<open>Roots of running programs\<close>

definition addAdditionalRoots :: "path \<Rightarrow> (path \<Rightarrow> bool) \<Rightarrow> string res option \<Rightarrow> path list \<Rightarrow> path list res" where
  "addAdditionalRoots storeDir valid rootFinder roots = (case rootFinder of
     None \<Rightarrow> Inr roots
   | Some run \<Rightarrow>
       bindE run (\<lambda>result.
         foldE (\<lambda>i roots.
           if isInStore storeDir i then
             bindE (toStorePath storeDir i) (\<lambda>p.
               Inr (if p \<notin> set roots \<and> valid p then set_insert p roots else roots))
           else Inr roots) (tokenizeString [CHR 0x0A] result) roots))"

subsection \<open>Temporary roots are found\<close>

definition tempfile_ok :: "path \<Rightarrow> path list \<Rightarrow> temproot_file \<Rightarrow> bool" where
  "tempfile_ok storeDir ps f \<longleftrightarrow> trContents f = concat (map (\<lambda>p. p @ [CHR 0x00]) ps) \<and>
     (\<forall>p \<in> set ps. isStorePath storeDir p \<and> nul_free p)"

text \<open>The paths a file of a living process protects.\<close>

definition temproots_ok :: "path \<Rightarrow> (string \<Rightarrow> path list) \<Rightarrow> temproots \<Rightarrow> bool" where
  "temproots_ok storeDir ps files \<longleftrightarrow> distinct (map fst files) \<and>
     (\<forall>f \<in> set files. trAlive (snd f) \<longrightarrow> tempfile_ok storeDir (ps (fst f)) (snd f))"

definition protected_paths :: "(string \<Rightarrow> path list) \<Rightarrow> temproots \<Rightarrow> path set" where
  "protected_paths ps files = (\<Union>f \<in> {f \<in> set files. trAlive (snd f)}. set (ps (fst f)))"

lemma protected_paths_append: "protected_paths ps (xs @ ys) = protected_paths ps xs \<union> protected_paths ps ys"
  by (auto simp: protected_paths_def)

lemma protected_paths_cong:
  "(\<And>f. f \<in> set fs \<Longrightarrow> ps (fst f) = qs (fst f)) \<Longrightarrow> protected_paths ps fs = protected_paths qs fs"
  by (auto simp: protected_paths_def)

lemma temproot_paths_concat:
  assumes "\<forall>p \<in> set ps. isStorePath storeDir p \<and> nul_free p"
  shows "temproot_paths storeDir (concat (map (\<lambda>p. p @ [CHR 0x00]) ps)) roots = Inr (fold set_insert ps roots)"
  using assms
proof (induction ps arbitrary: roots)
  case (Cons p ps)
  have "find_char (CHR 0x00) (p @ CHR 0x00 # concat (map (\<lambda>p. p @ [CHR 0x00]) ps)) = Some (length p)"
    using Cons.prems by (intro find_char_append) (simp add: nul_free_def)
  with Cons show ?case by (subst temproot_paths.simps) (simp add: assertStorePath_def)
qed (simp add: temproot_paths.simps)

lemma set_fold_set_insert: "set (fold set_insert ps roots) = set ps \<union> set roots"
  by (induction ps arbitrary: roots) auto

lemma readTempRoots_loop_ok:
  assumes "\<forall>f \<in> set is. trAlive (snd f) \<longrightarrow> tempfile_ok storeDir (ps (fst f)) (snd f)"
  shows "\<exists>R. readTempRoots_loop storeDir is roots files =
      (Inr R, filter (\<lambda>f. fst f \<notin> fst ` {i \<in> set is. \<not> trAlive (snd i)}) files) \<and>
    set R = set roots \<union> protected_paths ps is"
  using assms
proof (induction "is" arbitrary: roots files)
  case (Cons i "is")
  show ?case
  proof (cases "trAlive (snd i)")
    case True
    then have "temproot_paths storeDir (trContents (snd i)) roots = Inr (fold set_insert (ps (fst i)) roots)"
      using Cons.prems by (simp add: tempfile_ok_def temproot_paths_concat)
    moreover have "{x. (x = i \<or> x \<in> set is) \<and> \<not> trAlive (snd x)} = {x \<in> set is. \<not> trAlive (snd x)}" using True by auto
    ultimately show ?thesis
      using True Cons.IH [of "fold set_insert (ps (fst i)) roots" files] Cons.prems
      by (auto simp: set_fold_set_insert protected_paths_def)
  next
    case False
    have "{x. (x = i \<or> x \<in> set is) \<and> \<not> trAlive (snd x)} = insert i {x \<in> set is. \<not> trAlive (snd x)}" using False by auto
    then show ?thesis
      using False Cons.IH [of roots "filter (\<lambda>f. fst f \<noteq> fst i) files"] Cons.prems
      by (auto simp: protected_paths_def conj_commute)
  qed
qed (simp add: protected_paths_def)

lemma readTempRoots_protects:
  assumes "temproots_ok storeDir ps files"
  shows "\<exists>R. readTempRoots storeDir files roots = (Inr R, filter (\<lambda>f. trAlive (snd f)) files) \<and>
    set R = set roots \<union> protected_paths ps files"
proof -
  have "fst f \<notin> fst ` {i \<in> set files. \<not> trAlive (snd i)} \<longleftrightarrow> trAlive (snd f)" if "f \<in> set files" for f
    using assms that by (auto simp: temproots_ok_def distinct_map inj_on_def)
  then have "filter (\<lambda>f. fst f \<notin> fst ` {i \<in> set files. \<not> trAlive (snd i)}) files = filter (\<lambda>f. trAlive (snd f)) files"
    by (rule filter_cong [OF refl])
  with readTempRoots_loop_ok [of files storeDir ps roots files] assms show ?thesis
    by (auto simp: readTempRoots_def temproots_ok_def)
qed



subsection \<open>Permanent roots are found\<close>

lemma map_of_unlink: "map_of (unlink p fs) q = (if q = p then None else map_of fs q)"
  unfolding unlink_def by (induction fs) auto

text \<open>A link to (a file in) a valid store path, and a link that leads elsewhere.\<close>

definition link_target :: "gc_settings \<Rightarrow> files \<Rightarrow> path \<Rightarrow> path \<Rightarrow> bool" where
  "link_target g fs p target \<longleftrightarrow>
     (\<exists>l. map_of fs p = Some (Link l) \<and> bindE (dirOf p) (absPath noLinks (getcwd g) l) = Inr target)"

definition root_link :: "gc_settings \<Rightarrow> path \<Rightarrow> (path \<Rightarrow> bool) \<Rightarrow> files \<Rightarrow> path \<Rightarrow> path \<Rightarrow> bool" where
  "root_link g storeDir valid fs p q \<longleftrightarrow> (\<exists>target. link_target g fs p target \<and>
     isInStore storeDir target \<and> toStorePath storeDir target = Inr q \<and> valid q)"

definition below :: "path \<Rightarrow> path \<Rightarrow> bool" where
  "below d p \<longleftrightarrow> (\<exists>r. p = d @ r)"

definition prunable :: "gc_settings \<Rightarrow> path \<Rightarrow> path \<Rightarrow> files \<Rightarrow> path \<Rightarrow> bool" where
  "prunable g storeDir d fs p \<longleftrightarrow> below d p \<and> (\<exists>target. link_target g fs p target \<and> \<not> isInStore storeDir target)"

text \<open>
  What holds while the search runs on the file system \<open>fs0\<close>: only prunable links are gone, and every
  root recorded is a link to a valid path.
\<close>

definition search_ok ::
  "gc_settings \<Rightarrow> path \<Rightarrow> (path \<Rightarrow> bool) \<Rightarrow> path \<Rightarrow> files \<Rightarrow> files \<times> Roots \<Rightarrow> bool" where
  "search_ok g storeDir valid d fs0 st \<longleftrightarrow>
     (\<forall>p. map_of (fst st) p = map_of fs0 p \<or> map_of (fst st) p = None \<and> prunable g storeDir d fs0 p) \<and>
     is_map (snd st) \<and> (\<forall>p q. map_of (snd st) p = Some q \<longrightarrow> root_link g storeDir valid fs0 p q)"

lemma search_ok_link:
  "search_ok g storeDir valid d fs0 st \<Longrightarrow> link_target g (fst st) p target \<Longrightarrow> link_target g fs0 p target"
  unfolding search_ok_def link_target_def by (metis option.distinct(1))

lemma ignorePermanent_state: "snd (ignorePermanent body st) = snd (body st)"
  by (auto simp: ignorePermanent_def split: prod.splits sum.splits error.splits if_splits)

lemma findRoots_rec_ok:
  assumes "search_ok g storeDir valid d fs0 st" and "rs \<Longrightarrow> below d p"
  shows "search_ok g storeDir valid d fs0 (snd (findRoots_rec n g storeDir valid p rs ds st))"
  using assms
proof (induction n arbitrary: p rs st)
  case (Suc n)
  obtain fs roots where st: "st = (fs, roots)" by (cases st)
  show ?case
  proof (cases "lstat (rootFsError g) fs p")
    case (Inr nd)
    then have nd: "map_of fs p = Some nd" by (auto simp: lstat_def split: option.splits)
    show ?thesis
    proof (cases nd)
      case Dir
      have "search_ok g storeDir valid d fs0 (snd (foldS (\<lambda>i. findRoots_rec n g storeDir valid (p @ ''/'' @ i) rs ds)
          (readDirectory fs p) (fs, roots)))"
      proof (rule foldS_invariant [where P = "search_ok g storeDir valid d fs0"])
        show "search_ok g storeDir valid d fs0 (fs, roots)" using Suc.prems(1) st by simp
        fix i s assume "search_ok g storeDir valid d fs0 s"
        then show "search_ok g storeDir valid d fs0 (snd (findRoots_rec n g storeDir valid (p @ ''/'' @ i) rs ds s))"
          using Suc.prems(2) by (intro Suc.IH) (auto simp: below_def)
      qed
      with Inr Dir st show ?thesis by (simp add: ignorePermanent_state)
    next
      case (Link l)
      show ?thesis
      proof (cases "bindE (dirOf p) (absPath noLinks (getcwd g) l)")
        case (Inr target)
        then have "link_target g fs p target" using nd Link by (auto simp: link_target_def)
        with Suc.prems(1) st have t: "link_target g fs0 p target" using search_ok_link by force
        have 1: "search_ok g storeDir valid d fs0 (fs, map_put p q roots)"
          if "isInStore storeDir target" "toStorePath storeDir target = Inr q" "valid q" for q
          using Suc.prems(1) st that t by (auto simp: search_ok_def root_link_def)
        have 2: "search_ok g storeDir valid d fs0 (unlink p fs, roots)" if "rs" "\<not> isInStore storeDir target"
          using Suc.prems st that t by (auto simp: search_ok_def map_of_unlink prunable_def)
        have 3: "search_ok g storeDir valid d fs0 (snd (findRoots_rec n g storeDir valid target False ds (fs, roots)))"
          using Suc.prems(1) st by (intro Suc.IH) auto
        show ?thesis
          using \<open>lstat (rootFsError g) fs p = Inr nd\<close> Link Inr 1 2 3 st Suc.prems(1)
          by (auto simp: ignorePermanent_state split: sum.splits bool.splits)
      qed (use Inr Link st Suc.prems(1) in \<open>simp add: ignorePermanent_state\<close>)
    qed (use Inr st Suc.prems(1) in \<open>simp add: ignorePermanent_state\<close>)
  qed (use st Suc.prems(1) in \<open>simp add: ignorePermanent_state\<close>)
qed simp

text \<open>Roots are never forgotten, and a visit leaves no permanent failure to its caller.\<close>

lemma findRoots_rec_mono:
  assumes "search_ok g storeDir valid d fs0 st" and "rs \<Longrightarrow> below d p" and "map_of (snd st) x \<noteq> None"
  shows "map_of (snd (snd (findRoots_rec n g storeDir valid p rs ds st))) x \<noteq> None"
  using assms
proof (induction n arbitrary: p rs st)
  case (Suc n)
  obtain fs roots where st: "st = (fs, roots)" by (cases st)
  have m: "is_map roots" using Suc.prems(1) st by (simp add: search_ok_def)
  have there: "map_of roots x \<noteq> None" using Suc.prems(3) st by simp
  let ?P = "\<lambda>s. search_ok g storeDir valid d fs0 s \<and> map_of (snd s) x \<noteq> None"
  have "?P (snd (foldS (\<lambda>i. findRoots_rec n g storeDir valid (p @ ''/'' @ i) rs ds) (readDirectory fs p) (fs, roots)))"
  proof (rule foldS_invariant [where P = ?P])
    show "?P (fs, roots)" using Suc.prems(1,3) st by simp
    fix i s assume "?P s"
    moreover have "rs \<Longrightarrow> below d (p @ ''/'' @ i)" using Suc.prems(2) by (auto simp: below_def)
    ultimately show "?P (snd (findRoots_rec n g storeDir valid (p @ ''/'' @ i) rs ds s))"
      using Suc.IH [of s rs] findRoots_rec_ok [of g storeDir valid d fs0 s rs] by blast
  qed
  moreover have "map_of (snd (snd (findRoots_rec n g storeDir valid target False ds (fs, roots)))) x \<noteq> None" for target
    using Suc.prems(1,3) st by (intro Suc.IH) auto
  ultimately show ?case
    using m there
    by (auto simp: st ignorePermanent_state split: sum.splits node.splits bool.splits)
qed simp

definition permanent :: "error \<Rightarrow> bool" where
  "permanent e \<longleftrightarrow> (\<exists>n m. e = SysErrorNo n m \<and> n \<in> {EACCES, ENOENT, ENOTDIR})"

lemma ignorePermanent_eq:
  "ignorePermanent body st = (case body st of (Inl e, st) \<Rightarrow> if permanent e then (Inr (), st) else (Inl e, st) | r \<Rightarrow> r)"
  by (auto simp: ignorePermanent_def permanent_def split: prod.splits sum.splits error.splits)

lemma findRoots_rec_not_permanent: "fst (findRoots_rec n g storeDir valid p rs ds st) = Inl e \<Longrightarrow> \<not> permanent e"
  by (cases n) (auto simp: ignorePermanent_eq permanent_def split: prod.splits sum.splits if_splits)

lemma foldS_Inl: "fst (foldS f xs s) = Inl e \<Longrightarrow> \<exists>x \<in> set xs. \<exists>s. fst (f x s) = Inl e"
proof (induction xs arbitrary: s)
  case (Cons y xs)
  show ?case
  proof (cases "f y s")
    fix r u assume fy: "f y s = (r, u)"
    show ?thesis
    proof (cases r)
      case (Inl e')
      then have "fst (f y s) = Inl e" using Cons.prems fy by (simp add: bindS_def)
      then show ?thesis by (metis list.set_intros(1))
    next
      case (Inr v)
      then show ?thesis using Cons fy by (auto simp: bindS_def)
    qed
  qed
qed simp

text \<open>The paths the search passes through on its way from a directory down to \<open>x\<close>.\<close>

inductive in_tree :: "files \<Rightarrow> path \<Rightarrow> path \<Rightarrow> bool" for fs where
  here: "in_tree fs p p"
| down: "map_of fs d = Some Dir \<Longrightarrow> name \<noteq> [] \<Longrightarrow> CHR ''/'' \<notin> set name \<Longrightarrow> in_tree fs (d @ ''/'' @ name) x \<Longrightarrow>
    in_tree fs d x"

lemma in_readDirectory:
  assumes "map_of fs (d @ ''/'' @ name) \<noteq> None" and "name \<noteq> []" and "CHR ''/'' \<notin> set name"
  shows "name \<in> set (readDirectory fs d)"
proof -
  let ?q = "d @ ''/'' @ name"
  have "?q \<in> set (map fst fs)" using assms(1) by (simp add: map_of_eq_None_iff)
  moreover have "take (length d + 1) ?q = d @ ''/''" "drop (length d + 1) ?q = name" by simp_all
  ultimately have "?q \<in> set (filter (\<lambda>q. take (length d + 1) q = d @ ''/'' \<and> drop (length d + 1) q \<noteq> [] \<and>
      CHR ''/'' \<notin> set (drop (length d + 1) q)) (map fst fs))" using assms(2,3) by simp
  then have "drop (length d + 1) ?q \<in> set (readDirectory fs d)" unfolding readDirectory_def set_map by (rule imageI)
  then show ?thesis by simp
qed

lemma not_prunable:
  assumes "map_of fs p = Some Dir \<or> root_link g storeDir valid fs p q"
  shows "\<not> prunable g storeDir d fs p"
  using assms by (auto simp: prunable_def root_link_def link_target_def)

lemma foldS_reaches:
  assumes "fst (foldS f xs s) = Inr ()" and "x \<in> set xs" and "P s"
    and "\<And>y s. y \<in> set xs \<Longrightarrow> P s \<Longrightarrow> P (snd (f y s))"
    and "\<And>s. P s \<Longrightarrow> fst (f x s) = Inr () \<Longrightarrow> Q (snd (f x s))"
    and "\<And>y s. y \<in> set xs \<Longrightarrow> P s \<Longrightarrow> Q s \<Longrightarrow> Q (snd (f y s))"
  shows "Q (snd (foldS f xs s))"
proof -
  have keep: "Q (snd (foldS f ys t))" if "set ys \<subseteq> set xs" "P t" "Q t" for ys t
    using foldS_invariant [of "\<lambda>s. P s \<and> Q s" t ys f] that assms(4,6) by blast
  have "Q (snd (foldS f ys t))" if "fst (foldS f ys t) = Inr ()" "x \<in> set ys" "set ys \<subseteq> set xs" "P t" for ys t
    using that
  proof (induction ys arbitrary: t)
    case (Cons y ys)
    obtain u where u: "f y t = (Inr (), u)" "fst (foldS f ys u) = Inr ()"
      using Cons.prems(1) by (cases "f y t") (auto simp: bindS_def split: sum.splits)
    have pu: "P u" using assms(4) [of y t] Cons.prems(3,4) u(1) by auto
    show ?case
    proof (cases "y = x")
      case True
      then have "Q u" using assms(5) [OF Cons.prems(4)] u(1) by simp
      then show ?thesis using keep [of ys u] pu Cons.prems(3) u(1) by (simp add: bindS_def)
    next
      case False
      then show ?thesis using Cons.IH [OF u(2) _ _ pu] Cons.prems(2,3) u(1) by (simp add: bindS_def)
    qed
  qed simp
  with assms(1-3) show ?thesis by blast
qed

lemma findRoots_rec_complete:
  assumes "in_tree fs0 p x" and "root_link g storeDir valid fs0 x q"
    and "search_ok g storeDir valid d fs0 st" and "rs \<Longrightarrow> below d p" and "\<forall>y. rootFsError g y = None"
    and "fst (findRoots_rec n g storeDir valid p rs ds st) = Inr ()"
  shows "map_of (snd (snd (findRoots_rec n g storeDir valid p rs ds st))) x \<noteq> None"
  using assms(1,3,4,6)
proof (induction n arbitrary: p st)
  case (Suc n)
  obtain fs roots where st: "st = (fs, roots)" by (cases st)
  have same: "map_of fs y = map_of fs0 y" if "map_of fs0 y = Some Dir \<or> root_link g storeDir valid fs0 y q" for y
    using Suc.prems(2) not_prunable [OF that] st by (auto simp: search_ok_def)
  from Suc.prems(1) show ?case
  proof cases
    case here
    then obtain l target where l: "map_of fs p = Some (Link l)" "bindE (dirOf p) (absPath noLinks (getcwd g) l) = Inr target"
      "isInStore storeDir target" "toStorePath storeDir target = Inr q" "valid q"
      using assms(2) same [of x] by (auto simp: root_link_def link_target_def)
    moreover have "is_map roots" using Suc.prems(2) st by (simp add: search_ok_def)
    ultimately show ?thesis using assms(5) here st by (simp add: lstat_def ignorePermanent_state)
  next
    case (down name)
    let ?f = "\<lambda>i. findRoots_rec n g storeDir valid (p @ ''/'' @ i) rs ds"
    have dir: "lstat (rootFsError g) fs p = Inr Dir" using down same [of p] assms(5) by (simp add: lstat_def)
    have "map_of fs (p @ ''/'' @ name) \<noteq> None"
    proof -
      have "map_of fs0 (p @ ''/'' @ name) = Some Dir \<or> root_link g storeDir valid fs0 (p @ ''/'' @ name) q"
        using down(4) assms(2) by (cases rule: in_tree.cases) auto
      then show ?thesis using same by (auto simp: root_link_def link_target_def)
    qed
    then have name: "name \<in> set (readDirectory fs p)" using down by (intro in_readDirectory) auto
    have fold: "fst (foldS ?f (readDirectory fs p) (fs, roots)) = Inr ()"
    proof (rule ccontr)
      assume "fst (foldS ?f (readDirectory fs p) (fs, roots)) \<noteq> Inr ()"
      then obtain e where e: "fst (foldS ?f (readDirectory fs p) (fs, roots)) = Inl e"
        by (cases "fst (foldS ?f (readDirectory fs p) (fs, roots))") auto
      then have "\<not> permanent e" using foldS_Inl [OF e] findRoots_rec_not_permanent by blast
      then show False using Suc.prems(4) dir st e by (auto simp: ignorePermanent_eq split: prod.splits)
    qed
    have below: "rs \<Longrightarrow> below d (p @ ''/'' @ i)" for i using Suc.prems(3) by (auto simp: below_def)
    have "map_of (snd (snd (foldS ?f (readDirectory fs p) (fs, roots)))) x \<noteq> None"
    proof (rule foldS_reaches [where P = "search_ok g storeDir valid d fs0" and Q = "\<lambda>s. map_of (snd s) x \<noteq> None", OF fold name])
      show "search_ok g storeDir valid d fs0 (fs, roots)" using Suc.prems(2) st by simp
      show "search_ok g storeDir valid d fs0 (snd (?f y s))" if "search_ok g storeDir valid d fs0 s" for y s
        by (rule findRoots_rec_ok [OF that below])
      show "map_of (snd (snd (?f name s))) x \<noteq> None" if "search_ok g storeDir valid d fs0 s" "fst (?f name s) = Inr ()" for s
        by (rule Suc.IH [OF down(4) that(1) below that(2)])
      show "map_of (snd (snd (?f y s))) x \<noteq> None" if "search_ok g storeDir valid d fs0 s" "map_of (snd s) x \<noteq> None" for y s
        by (rule findRoots_rec_mono [OF that(1) below that(2)])
    qed
    then show ?thesis using dir st by (simp add: ignorePermanent_state)
  qed
qed simp


definition demo_gc :: gc_settings where
  "demo_gc = \<lparr>nixStateDir = ''/var'', rootFsError = (\<lambda>_. None), getcwd = Inr ''/'', suffix = ''1-2'',
     checkRootReachability = True\<rparr>"

definition demo_files :: files where
  "demo_files = [(''/var'', Dir), (''/var/gcroots'', Dir), (''/var/gcroots/a'', Link ''/nix/store/x/bin''),
     (''/var/gcroots/b'', Link ''../gone''), (''/var/gcroots/c'', Link ''/home/r''), (''/home/r'', Link ''/nix/store/y'')]"


end
