(* ===== verification/Archive.thy ===== *)
theory Archive
  imports Store_Paths
begin

text \<open>
  Nix archives (NAR): \<^verbatim>\<open>src/libutil/archive.cc\<close>, with \<^verbatim>\<open>hashPath\<close> of \<^verbatim>\<open>hash.cc\<close> and
  \<^verbatim>\<open>computeStorePathForPath\<close> of \<^verbatim>\<open>store-api.cc\<close>, which hash an archive.

  A file system object as \<^verbatim>\<open>lstat\<close>, \<^verbatim>\<open>readDirectory\<close>, \<^verbatim>\<open>readLink\<close> and \<^verbatim>\<open>readFull\<close> show it is a tree; it does not
  change while it is dumped.  A \<^verbatim>\<open>ParseSink\<close> is the record of its virtual functions over a state of
  its own; the kernel calls of \<^verbatim>\<open>RestoreSink\<close> are a record of operations too.
\<close>

subsection \<open>Dumping\<close>

datatype fs =
    Regular bool bytes
  | Directory "(string \<times> fs) list"
  | Symlink string
  | Special

definition archiveVersion1 :: string where
  "archiveVersion1 = ''nix-archive-1''"

function dumpContents_loop :: "(bytes \<Rightarrow> 's \<Rightarrow> 's res) \<Rightarrow> bytes \<Rightarrow> 's \<Rightarrow> 's res" where
  "dumpContents_loop snk left s =
     (if left = [] then Inr s
      else let n = (if length left > 65536 then 65536 else length left)
           in bindE (snk (take n left) s) (dumpContents_loop snk (drop n left)))"
  by pat_completeness auto
termination
  by (relation "measure (\<lambda>(snk, left, s). length left)") auto

declare dumpContents_loop.simps [simp del]

definition dumpContents :: "(bytes \<Rightarrow> 's \<Rightarrow> 's res) \<Rightarrow> bytes \<Rightarrow> 's \<Rightarrow> 's res" where
  "dumpContents snk contents s =
     bindE (writeString snk ''contents'' s) (\<lambda>s.
     bindE (writeLongLong snk (of_nat (length contents)) s) (\<lambda>s.
     bindE (dumpContents_loop snk contents s)
       (writePadding snk (length contents))))"

text \<open>\<^verbatim>\<open>dump\<close> and \<^verbatim>\<open>dumpEntries\<close>; the names of a directory are dumped in increasing order.\<close>

fun dump :: "(bytes \<Rightarrow> 's \<Rightarrow> 's res) \<Rightarrow> (path \<Rightarrow> bool) \<Rightarrow> path \<Rightarrow> fs \<Rightarrow> 's \<Rightarrow> 's res" where
  "dump snk filt path (Regular executable contents) s =
     bindE (writeString snk ''('' s) (\<lambda>s.
     bindE (writeString snk ''type'' s) (\<lambda>s.
     bindE (writeString snk ''regular'' s) (\<lambda>s.
     bindE (if executable then
              bindE (writeString snk ''executable'' s) (writeString snk [])
            else Inr s) (\<lambda>s.
     bindE (dumpContents snk contents s)
       (writeString snk '')'')))))"
| "dump snk filt path (Directory entries) s =
     bindE (writeString snk ''('' s) (\<lambda>s.
     bindE (writeString snk ''type'' s) (\<lambda>s.
     bindE (writeString snk ''directory'' s) (\<lambda>s.
     bindE (foldE (\<lambda>i s.
              let entry = path @ ''/'' @ fst i
              in if filt entry then
                   bindE (writeString snk ''entry'' s) (\<lambda>s.
                   bindE (writeString snk ''('' s) (\<lambda>s.
                   bindE (writeString snk ''name'' s) (\<lambda>s.
                   bindE (writeString snk (fst i) s) (\<lambda>s.
                   bindE (writeString snk ''node'' s) (\<lambda>s.
                   bindE (dump snk filt entry (snd i) s)
                     (writeString snk '')''))))))
                 else Inr s) (sort_key fst entries) s)
       (writeString snk '')''))))"
| "dump snk filt path (Symlink target) s =
     bindE (writeString snk ''('' s) (\<lambda>s.
     bindE (writeString snk ''type'' s) (\<lambda>s.
     bindE (writeString snk ''symlink'' s) (\<lambda>s.
     bindE (writeString snk ''target'' s) (\<lambda>s.
     bindE (writeString snk target s)
       (writeString snk '')'')))))"
| "dump snk filt path Special s =
     bindE (writeString snk ''('' s) (\<lambda>s.
       Inl (Error (''file `'' @ path @ [CHR 0x27] @ '' has an unknown type'')))"

definition dumpPath :: "(bytes \<Rightarrow> 's \<Rightarrow> 's res) \<Rightarrow> (path \<Rightarrow> bool) \<Rightarrow> path \<Rightarrow> fs \<Rightarrow> 's \<Rightarrow> 's res" where
  "dumpPath snk filt path t s =
     bindE (writeString snk archiveVersion1 s) (dump snk filt path t)"

subsection \<open>Parsing\<close>

record 'p ParseSink =
  createDirectory :: "path \<Rightarrow> 'p \<Rightarrow> 'p res"
  createRegularFile :: "path \<Rightarrow> 'p \<Rightarrow> 'p res"
  isExecutable :: "'p \<Rightarrow> 'p res"
  preallocateContents :: "u64 \<Rightarrow> 'p \<Rightarrow> 'p res"
  receiveContents :: "bytes \<Rightarrow> 'p \<Rightarrow> 'p res"
  createSymlink :: "path \<Rightarrow> string \<Rightarrow> 'p \<Rightarrow> 'p res"

definition badArchive :: "string \<Rightarrow> error" where
  "badArchive s = SerialisationError (''bad archive: '' @ s)"

function parseContents_loop ::
  "'p ParseSink \<Rightarrow> (nat \<Rightarrow> 's \<Rightarrow> (bytes \<times> 's) res) \<Rightarrow> nat \<Rightarrow> 'p \<Rightarrow> 's \<Rightarrow> ('p \<times> 's) res" where
  "parseContents_loop ps rd left p s =
     (if left = 0 then Inr (p, s)
      else let n = (if 65536 > left then left else 65536)
           in bindE (Source_call rd n s) (\<lambda>(buf, s).
              bindE (receiveContents ps buf p) (\<lambda>p.
                parseContents_loop ps rd (left - n) p s)))"
  by pat_completeness auto
termination
  by (relation "measure (\<lambda>(ps, rd, left, p, s). left)") auto

declare parseContents_loop.simps [simp del]

definition parseContents ::
  "'p ParseSink \<Rightarrow> (nat \<Rightarrow> 's \<Rightarrow> (bytes \<times> 's) res) \<Rightarrow> 'p \<Rightarrow> 's \<Rightarrow> ('p \<times> 's) res" where
  "parseContents ps rd p s =
     bindE (readLongLong rd s) (\<lambda>(size, s).
     bindE (preallocateContents ps size p) (\<lambda>p.
     bindE (parseContents_loop ps rd (unat size) p s) (\<lambda>(p, s).
     bindE (readPadding rd (unat size) s) (\<lambda>s. Inr (p, s)))))"

datatype file_type = tpUnknown | tpRegular | tpDirectory | tpSymlink

text \<open>
  \<^verbatim>\<open>parse\<close> and \<^verbatim>\<open>parseEntry\<close> call each other; \<open>rec\<close> is the recursive call of \<^verbatim>\<open>parse\<close> in a loop.  The
  number bounds the depth of the recursion and the rounds of each loop.  The check for a missing
  entry name compares \<^verbatim>\<open>s\<close>, which is \<^verbatim>\<open>"node"\<close> there.
\<close>

primrec parseEntry_loop ::
  "nat \<Rightarrow> (path \<Rightarrow> 'p \<Rightarrow> 's \<Rightarrow> ('p \<times> 's) res) \<Rightarrow> (nat \<Rightarrow> 's \<Rightarrow> (bytes \<times> 's) res) \<Rightarrow>
     path \<Rightarrow> string \<Rightarrow> 'p \<Rightarrow> 's \<Rightarrow> ('p \<times> 's) res" where
  "parseEntry_loop 0 rec rd path name p s = Inl Diverges"
| "parseEntry_loop (Suc n) rec rd path name p s =
     bindE (readString rd s) (\<lambda>(str, s).
       if str = '')'' then Inr (p, s)
       else if str = ''name'' then
         bindE (readString rd s) (\<lambda>(name, s). parseEntry_loop n rec rd path name p s)
       else if str = ''node'' then
         (if str = [] then Inl (badArchive ''entry name missing'')
          else bindE (rec (path @ ''/'' @ name) p s) (\<lambda>(p, s).
            parseEntry_loop n rec rd path name p s))
       else Inl (badArchive (''unknown field '' @ str)))"

definition parseEntry ::
  "nat \<Rightarrow> (path \<Rightarrow> 'p \<Rightarrow> 's \<Rightarrow> ('p \<times> 's) res) \<Rightarrow> (nat \<Rightarrow> 's \<Rightarrow> (bytes \<times> 's) res) \<Rightarrow>
     path \<Rightarrow> 'p \<Rightarrow> 's \<Rightarrow> ('p \<times> 's) res" where
  "parseEntry n rec rd path p s =
     bindE (readString rd s) (\<lambda>(str, s).
       if str \<noteq> ''('' then Inl (badArchive ''expected open tag'')
       else parseEntry_loop n rec rd path [] p s)"

primrec parse_loop ::
  "nat \<Rightarrow> (path \<Rightarrow> 'p \<Rightarrow> 's \<Rightarrow> ('p \<times> 's) res) \<Rightarrow> 'p ParseSink \<Rightarrow> (nat \<Rightarrow> 's \<Rightarrow> (bytes \<times> 's) res) \<Rightarrow>
     path \<Rightarrow> file_type \<Rightarrow> 'p \<Rightarrow> 's \<Rightarrow> ('p \<times> 's) res" where
  "parse_loop 0 rec ps rd path type p s = Inl Diverges"
| "parse_loop (Suc n) rec ps rd path type p s =
     bindE (readString rd s) (\<lambda>(str, s).
       if str = '')'' then Inr (p, s)
       else if str = ''type'' then
         (if type \<noteq> tpUnknown then Inl (badArchive ''multiple type fields'')
          else bindE (readString rd s) (\<lambda>(t, s).
            if t = ''regular'' then
              bindE (createRegularFile ps path p) (\<lambda>p. parse_loop n rec ps rd path tpRegular p s)
            else if t = ''directory'' then
              bindE (createDirectory ps path p) (\<lambda>p. parse_loop n rec ps rd path tpDirectory p s)
            else if t = ''symlink'' then parse_loop n rec ps rd path tpSymlink p s
            else Inl (badArchive (''unknown file type '' @ t))))
       else if str = ''contents'' \<and> type = tpRegular then
         bindE (parseContents ps rd p s) (\<lambda>(p, s). parse_loop n rec ps rd path type p s)
       else if str = ''executable'' \<and> type = tpRegular then
         bindE (readString rd s) (\<lambda>(_, s).
         bindE (isExecutable ps p) (\<lambda>p. parse_loop n rec ps rd path type p s))
       else if str = ''entry'' \<and> type = tpDirectory then
         bindE (parseEntry n rec rd path p s) (\<lambda>(p, s). parse_loop n rec ps rd path type p s)
       else if str = ''target'' \<and> type = tpSymlink then
         bindE (readString rd s) (\<lambda>(target, s).
         bindE (createSymlink ps path target p) (\<lambda>p. parse_loop n rec ps rd path type p s))
       else Inl (badArchive (''unknown field '' @ str)))"

primrec parse ::
  "nat \<Rightarrow> 'p ParseSink \<Rightarrow> (nat \<Rightarrow> 's \<Rightarrow> (bytes \<times> 's) res) \<Rightarrow> path \<Rightarrow> 'p \<Rightarrow> 's \<Rightarrow> ('p \<times> 's) res" where
  "parse 0 ps rd path p s = Inl Diverges"
| "parse (Suc n) ps rd path p s =
     bindE (readString rd s) (\<lambda>(str, s).
       if str \<noteq> ''('' then Inl (badArchive ''expected open tag'')
       else parse_loop n (parse n ps rd) ps rd path tpUnknown p s)"

definition parseDump ::
  "nat \<Rightarrow> 'p ParseSink \<Rightarrow> (nat \<Rightarrow> 's \<Rightarrow> (bytes \<times> 's) res) \<Rightarrow> 'p \<Rightarrow> 's \<Rightarrow> ('p \<times> 's) res" where
  "parseDump n ps rd p s =
     (case readString rd s of
        Inl (SerialisationError m) \<Rightarrow> Inl (badArchive (''input doesn'' @ [CHR 0x27] @ ''t look like a Nix archive''))
      | Inl e \<Rightarrow> Inl e
      | Inr (version, s) \<Rightarrow>
          if version \<noteq> archiveVersion1
          then Inl (badArchive (''input doesn'' @ [CHR 0x27] @ ''t look like a Nix archive''))
          else parse n ps rd [] p s)"

subsection \<open>Restoring\<close>

text \<open>The kernel calls, each returning the new state of the system or an error.\<close>

record 'f kernel =
  kMkdir :: "path \<Rightarrow> u32 \<Rightarrow> 'f \<Rightarrow> 'f res"
  kCreate :: "path \<Rightarrow> u32 \<Rightarrow> 'f \<Rightarrow> (nat \<times> 'f) res"
  kClose :: "nat \<Rightarrow> 'f \<Rightarrow> 'f res"
  kFstat :: "nat \<Rightarrow> 'f \<Rightarrow> u32 res"
  kFchmod :: "nat \<Rightarrow> u32 \<Rightarrow> 'f \<Rightarrow> 'f res"
  kFallocate :: "nat \<Rightarrow> u64 \<Rightarrow> 'f \<Rightarrow> 'f res"
  kWrite :: "nat \<Rightarrow> bytes \<Rightarrow> 'f \<Rightarrow> 'f res"
  kSymlink :: "string \<Rightarrow> path \<Rightarrow> 'f \<Rightarrow> 'f res"

record 'f RestoreSink =
  dstPath :: path
  fd :: "nat option"
  system :: 'f

definition with_fd :: "'f RestoreSink \<Rightarrow> (nat \<Rightarrow> 'f res) \<Rightarrow> 'f RestoreSink res" where
  "with_fd r f = (case fd r of
     None \<Rightarrow> Inl (SysError ''bad file descriptor'')
   | Some d \<Rightarrow> bindE (f d) (\<lambda>k. Inr (r\<lparr>system := k\<rparr>)))"

text \<open>Assigning to \<^verbatim>\<open>fd\<close> closes the descriptor it held.\<close>

definition RestoreSink_ops :: "'f kernel \<Rightarrow> 'f RestoreSink ParseSink" where
  "RestoreSink_ops k = \<lparr>
     createDirectory = (\<lambda>path r. bindE (kMkdir k (dstPath r @ path) 0x1FF (system r)) (\<lambda>f. Inr (r\<lparr>system := f\<rparr>))),
     createRegularFile = (\<lambda>path r.
       bindE (kCreate k (dstPath r @ path) 0x1B6 (system r)) (\<lambda>(d, f).
       bindE (case fd r of Some d' \<Rightarrow> kClose k d' f | None \<Rightarrow> Inr f) (\<lambda>f.
         Inr (r\<lparr>fd := Some d, system := f\<rparr>)))),
     isExecutable = (\<lambda>r. with_fd r (\<lambda>d.
       bindE (kFstat k d (system r)) (\<lambda>mode. kFchmod k d (mode OR 0x49) (system r)))),
     preallocateContents = (\<lambda>len r.
       if len \<noteq> 0 then with_fd r (\<lambda>d. kFallocate k d len (system r)) else Inr r),
     receiveContents = (\<lambda>data r. with_fd r (\<lambda>d. kWrite k d data (system r))),
     createSymlink = (\<lambda>path target r.
       bindE (kSymlink k target (dstPath r @ path) (system r)) (\<lambda>f. Inr (r\<lparr>system := f\<rparr>)))\<rparr>"

definition restorePath ::
  "nat \<Rightarrow> 'f kernel \<Rightarrow> (nat \<Rightarrow> 's \<Rightarrow> (bytes \<times> 's) res) \<Rightarrow> path \<Rightarrow> 'f \<Rightarrow> 's \<Rightarrow> ('f \<times> 's) res" where
  "restorePath n k rd path f s =
     bindE (parseDump n (RestoreSink_ops k) rd \<lparr>dstPath = path, fd = None, system = f\<rparr> s)
       (\<lambda>(r, s). Inr (system r, s))"

subsection \<open>Hashing paths\<close>

definition hashPath ::
  "'c digest \<Rightarrow> HashType \<Rightarrow> path \<Rightarrow> fs \<Rightarrow> (path \<Rightarrow> bool) \<Rightarrow> (Hash \<times> u64) res" where
  "hashPath dg ht path t filt =
     bindE (dumpPath (BufferedSink_call (HashSink_write dg)) filt path t (HashSink_new dg ht)) (\<lambda>snk.
     bindE (HashSink_finish dg snk) (\<lambda>(r, snk). Inr r))"

text \<open>
  \<^verbatim>\<open>hashFile\<close> hashes what successive reads of the file return; \<open>reads\<close> are the non-empty answers up to
  the end of the file.
\<close>

definition hashFile :: "'c digest \<Rightarrow> HashType \<Rightarrow> bytes list \<Rightarrow> Hash res" where
  "hashFile dg ht reads =
     bindE (Hash_new ht) (\<lambda>h.
       let ctx = fold (\<lambda>buf ctx. update dg ht ctx buf) reads (start dg ht)
       in Inr (h\<lparr>hash := finish dg ht ctx (hash h)\<rparr>))"

definition computeStorePathForPath ::
  "'c digest \<Rightarrow> path \<Rightarrow> path \<Rightarrow> fs \<Rightarrow> bytes list \<Rightarrow> bool \<Rightarrow> HashType \<Rightarrow> (path \<Rightarrow> bool) \<Rightarrow> (path \<times> Hash) res" where
  "computeStorePathForPath dg store srcPath t reads recursive hashAlgo filt =
     bindE (if recursive then bindE (hashPath dg hashAlgo srcPath t filt) (\<lambda>r. Inr (fst r))
            else hashFile dg hashAlgo reads) (\<lambda>h.
     bindE (baseNameOf srcPath) (\<lambda>name.
     bindE (makeFixedOutputPath dg store recursive hashAlgo h name) (\<lambda>dstPath.
       Inr (dstPath, h))))"

subsection \<open>The archive format\<close>

text \<open>What of a tree reaches the archive: the entries the filter accepts, in increasing order.\<close>

fun prune :: "(path \<Rightarrow> bool) \<Rightarrow> path \<Rightarrow> fs \<Rightarrow> fs" where
  "prune filt path (Directory entries) =
     Directory (map (\<lambda>i. (fst i, prune filt (path @ ''/'' @ fst i) (snd i)))
       (filter (\<lambda>i. filt (path @ ''/'' @ fst i)) (sort_key fst entries)))"
| "prune filt path t = t"

abbreviation ws :: "string \<Rightarrow> bytes" where
  "ws \<equiv> wire_string"

fun nar_node :: "fs \<Rightarrow> bytes" where
  "nar_node (Regular executable contents) =
     ws ''('' @ ws ''type'' @ ws ''regular''
     @ (if executable then ws ''executable'' @ ws [] else [])
     @ (ws ''contents'' @ wire_longlong (of_nat (length contents)) @ contents @ wire_padding (length contents))
     @ ws '')''"
| "nar_node (Directory entries) =
     ws ''('' @ ws ''type'' @ ws ''directory''
     @ concat (map (\<lambda>i. ws ''entry'' @ ws ''('' @ ws ''name'' @ ws (fst i) @ ws ''node'' @ nar_node (snd i) @ ws '')'')
         entries)
     @ ws '')''"
| "nar_node (Symlink target) =
     ws ''('' @ ws ''type'' @ ws ''symlink'' @ ws ''target'' @ ws target @ ws '')''"
| "nar_node Special = []"

definition nar :: "fs \<Rightarrow> bytes" where
  "nar t = ws archiveVersion1 @ nar_node t"

fun dumpable :: "fs \<Rightarrow> bool" where
  "dumpable (Directory entries) = (\<forall>i \<in> set entries. dumpable (snd i))"
| "dumpable (Regular executable contents) = True"
| "dumpable (Symlink target) = True"
| "dumpable Special = False"

subsection \<open>Dumping as a sequence of writes\<close>

text \<open>
  \<open>calls snk f ds\<close>: the function \<open>f\<close> does nothing but pass the fragments \<open>ds\<close> to the sink, in this order.
\<close>

definition calls :: "(bytes \<Rightarrow> 's \<Rightarrow> 's res) \<Rightarrow> ('s \<Rightarrow> 's res) \<Rightarrow> bytes list \<Rightarrow> bool" where
  "calls snk f ds \<longleftrightarrow> (\<forall>s. f s = foldE snk ds s)"

lemma bindE_Inr_right [simp]: "bindE m Inr = m"
  by (cases m) simp_all

lemma foldE_Nil_fun [simp]: "foldE f [] = Inr"
  by (rule ext) simp

lemma concat_concat: "concat (concat xss) = concat (map concat xss)"
  by (induction xss) simp_all

lemma concat_map_filter: "concat (map (\<lambda>x. if P x then f x else []) xs) = concat (map f (filter P xs))"
  by (induction xs) simp_all

lemma calls_sink: "calls snk (snk d) [d]"
  by (simp add: calls_def)

lemma calls_skip: "calls snk Inr []"
  by (simp add: calls_def)

lemma calls_bind: "calls snk f ds \<Longrightarrow> calls snk g es \<Longrightarrow> calls snk (\<lambda>s. bindE (f s) g) (ds @ es)"
  by (simp add: calls_def foldE_append) presburger

lemma calls_fold:
  "(\<And>x. x \<in> set xs \<Longrightarrow> calls snk (f x) (ds x)) \<Longrightarrow> calls snk (foldE f xs) (concat (map ds xs))"
proof (induction xs)
  case (Cons x xs)
  then have "calls snk (\<lambda>s. bindE (f x s) (foldE f xs)) (ds x @ concat (map ds xs))"
    by (intro calls_bind) simp_all
  then show ?case by (simp add: calls_def)
qed (simp add: calls_def)

definition padding_frags :: "nat \<Rightarrow> bytes list" where
  "padding_frags len = (if len mod 8 \<noteq> 0 then [replicate (8 - len mod 8) 0] else [])"

definition string_frags :: "string \<Rightarrow> bytes list" where
  "string_frags s = [wire_int (of_nat (length s))] @ [to_bytes s] @ padding_frags (length s)"

function content_frags :: "bytes \<Rightarrow> bytes list" where
  "content_frags c = (if c = [] then [] else take 65536 c # content_frags (drop 65536 c))"
  by pat_completeness auto
termination
  by (relation "measure length") auto

declare content_frags.simps [simp del]

abbreviation sf :: "string \<Rightarrow> bytes list" where
  "sf \<equiv> string_frags"

fun node_frags :: "fs \<Rightarrow> bytes list" where
  "node_frags (Regular executable contents) =
     sf ''('' @ sf ''type'' @ sf ''regular''
     @ (if executable then sf ''executable'' @ sf [] else [])
     @ (sf ''contents'' @ [wire_longlong (of_nat (length contents))] @ content_frags contents
        @ padding_frags (length contents))
     @ sf '')''"
| "node_frags (Directory entries) =
     sf ''('' @ sf ''type'' @ sf ''directory''
     @ concat (map (\<lambda>i. sf ''entry'' @ sf ''('' @ sf ''name'' @ sf (fst i) @ sf ''node'' @ node_frags (snd i) @ sf '')'')
         entries)
     @ sf '')''"
| "node_frags (Symlink target) =
     sf ''('' @ sf ''type'' @ sf ''symlink'' @ sf ''target'' @ sf target @ sf '')''"
| "node_frags Special = []"

lemma concat_string_frags [simp]: "concat (string_frags s) = ws s"
  by (simp add: string_frags_def padding_frags_def wire_string_def wire_padding_def)

lemma concat_padding_frags [simp]: "concat (padding_frags n) = wire_padding n"
  by (simp add: padding_frags_def wire_padding_def)

lemma concat_content_frags [simp]: "concat (content_frags c) = c"
  by (induction c rule: content_frags.induct) (subst content_frags.simps, simp)

lemma concat_node_frags: "concat (node_frags t) = nar_node t"
proof (induction t)
  case (Directory entries)
  have "map (concat \<circ> (\<lambda>i. sf ''entry'' @ sf ''('' @ sf ''name'' @ sf (fst i) @ sf ''node'' @ node_frags (snd i) @ sf '')''))
      entries = map (\<lambda>i. ws ''entry'' @ ws ''('' @ ws ''name'' @ ws (fst i) @ ws ''node'' @ nar_node (snd i) @ ws '')'') entries"
    using Directory by (intro map_cong) (auto simp: snds.simps)
  then show ?case by (simp add: concat_concat comp_def cong: map_cong)
qed simp_all

lemma calls_writePadding: "calls snk (writePadding snk n) (padding_frags n)"
  using calls_sink [of snk "replicate (8 - n mod 8) 0"]
  by (auto simp: calls_def writePadding_def padding_frags_def)

lemma calls_writeString: "calls snk (writeString snk s) (string_frags s)"
proof -
  have "calls snk (writeInt snk n) [wire_int n]" for n
    using calls_sink [of snk "wire_int n"] by (simp add: calls_def writeInt_def wire_int_def)
  then show ?thesis unfolding writeString_def writeBuf_def string_frags_def to_bytes_simps
    by (intro calls_bind calls_sink calls_writePadding)
qed

lemma calls_dumpContents_loop: "calls snk (dumpContents_loop snk left) (content_frags left)"
proof (induction left rule: length_induct)
  case (1 left)
  show ?case
  proof (cases "left = []")
    case True
    then show ?thesis by (simp add: calls_def dumpContents_loop.simps content_frags.simps)
  next
    case False
    let ?n = "if length left > 65536 then 65536 else length left"
    have tk: "take ?n left = take 65536 left" "drop ?n left = drop 65536 left" by simp_all
    have "calls snk (dumpContents_loop snk (drop 65536 left)) (content_frags (drop 65536 left))"
      using 1 False by simp
    from calls_bind [OF calls_sink [of snk "take 65536 left"] this] False show ?thesis
      by (simp only: calls_def dumpContents_loop.simps [of snk left] content_frags.simps [of left] Let_def if_False tk)
        simp
  qed
qed

lemma calls_dumpContents: "calls snk (dumpContents snk c)
    (sf ''contents'' @ [wire_longlong (of_nat (length c))] @ content_frags c @ padding_frags (length c))"
proof -
  have "calls snk (writeLongLong snk n) [wire_longlong n]" for n
    using calls_sink [of snk "wire_longlong n"] by (simp add: calls_def writeLongLong_def wire_longlong_def)
  then show ?thesis unfolding dumpContents_def
    by (intro calls_bind calls_writeString calls_dumpContents_loop calls_writePadding)
qed

lemma dumpable_prune: "dumpable t \<Longrightarrow> dumpable (prune filt path t)"
  by (induction filt path t rule: prune.induct) auto

lemma calls_dump: "dumpable t \<Longrightarrow> calls snk (dump snk filt path t) (node_frags (prune filt path t))"
proof (induction t arbitrary: path)
  case (Regular executable contents)
  have "calls snk (\<lambda>s. if executable then bindE (writeString snk ''executable'' s) (writeString snk []) else Inr s)
      (if executable then sf ''executable'' @ sf [] else [])"
    using calls_bind [OF calls_writeString calls_writeString, of snk "''executable''" "[]"]
    by (simp add: calls_def)
  then show ?case unfolding dump.simps prune.simps node_frags.simps
    by (intro calls_bind calls_writeString calls_dumpContents)
next
  case (Directory entries)
  let ?p = "\<lambda>i. path @ ''/'' @ fst i"
  let ?f = "\<lambda>i. sf ''entry'' @ sf ''('' @ sf ''name'' @ sf (fst i) @ sf ''node''
      @ node_frags (prune filt (?p i) (snd i)) @ sf '')''"
  have ih: "calls snk (dump snk filt (?p i) (snd i)) (node_frags (prune filt (?p i) (snd i)))"
    if "i \<in> set entries" for i
    using that Directory by (intro Directory.IH) (auto simp: snds.simps)
  have "calls snk (foldE (\<lambda>i s. let entry = ?p i in if filt entry then
                   bindE (writeString snk ''entry'' s) (\<lambda>s.
                   bindE (writeString snk ''('' s) (\<lambda>s.
                   bindE (writeString snk ''name'' s) (\<lambda>s.
                   bindE (writeString snk (fst i) s) (\<lambda>s.
                   bindE (writeString snk ''node'' s) (\<lambda>s.
                   bindE (dump snk filt entry (snd i) s)
                     (writeString snk '')''))))))
                 else Inr s) (sort_key fst entries))
      (concat (map (\<lambda>i. if filt (?p i) then ?f i else []) (sort_key fst entries)))"
  proof (rule calls_fold)
    fix i assume "i \<in> set (sort_key fst entries)"
    then have "calls snk (\<lambda>s. bindE (writeString snk ''entry'' s) (\<lambda>s.
                   bindE (writeString snk ''('' s) (\<lambda>s.
                   bindE (writeString snk ''name'' s) (\<lambda>s.
                   bindE (writeString snk (fst i) s) (\<lambda>s.
                   bindE (writeString snk ''node'' s) (\<lambda>s.
                   bindE (dump snk filt (?p i) (snd i) s)
                     (writeString snk '')''))))))) (?f i)"
      by (intro calls_bind calls_writeString ih) simp
    then show "calls snk (\<lambda>s. let entry = ?p i in if filt entry then
                   bindE (writeString snk ''entry'' s) (\<lambda>s.
                   bindE (writeString snk ''('' s) (\<lambda>s.
                   bindE (writeString snk ''name'' s) (\<lambda>s.
                   bindE (writeString snk (fst i) s) (\<lambda>s.
                   bindE (writeString snk ''node'' s) (\<lambda>s.
                   bindE (dump snk filt entry (snd i) s)
                     (writeString snk '')''))))))
                 else Inr s) (if filt (?p i) then ?f i else [])"
      by (simp add: calls_def)
  qed
  moreover have "concat (map (\<lambda>i. if filt (?p i) then ?f i else []) (sort_key fst entries)) =
      concat (map (\<lambda>i. sf ''entry'' @ sf ''('' @ sf ''name'' @ sf (fst i) @ sf ''node'' @ node_frags (snd i) @ sf '')'')
        (map (\<lambda>i. (fst i, prune filt (?p i) (snd i))) (filter (\<lambda>i. filt (?p i)) (sort_key fst entries))))"
    by (simp add: concat_map_filter comp_def)
  ultimately show ?case unfolding dump.simps prune.simps node_frags.simps
    by (intro calls_bind calls_writeString) simp
next
  case (Symlink target)
  then show ?case unfolding dump.simps prune.simps node_frags.simps
    by (intro calls_bind calls_writeString)
qed simp

lemma dumpPath_frags:
  assumes "dumpable t"
  shows "dumpPath snk filt path t s = foldE snk (sf archiveVersion1 @ node_frags (prune filt path t)) s"
    and "concat (sf archiveVersion1 @ node_frags (prune filt path t)) = nar (prune filt path t)"
proof -
  show "dumpPath snk filt path t s = foldE snk (sf archiveVersion1 @ node_frags (prune filt path t)) s"
    using calls_bind [OF calls_writeString calls_dump [OF assms], of snk archiveVersion1 filt path]
    by (simp add: calls_def dumpPath_def)
qed (simp add: nar_def concat_node_frags)

subsection \<open>Parsing what was dumped\<close>

text \<open>The calls a tree stands for, on any sink.\<close>

fun restore :: "'p ParseSink \<Rightarrow> path \<Rightarrow> fs \<Rightarrow> 'p \<Rightarrow> 'p res" where
  "restore ps path (Regular executable contents) p =
     bindE (createRegularFile ps path p) (\<lambda>p.
     bindE (if executable then isExecutable ps p else Inr p) (\<lambda>p.
     bindE (preallocateContents ps (of_nat (length contents)) p)
       (foldE (receiveContents ps) (content_frags contents))))"
| "restore ps path (Directory entries) p =
     bindE (createDirectory ps path p)
       (foldE (\<lambda>i. restore ps (path @ ''/'' @ fst i) (snd i)) entries)"
| "restore ps path (Symlink target) p = createSymlink ps path target p"
| "restore ps path Special p = Inl (Error [])"

text \<open>Lengths the format can hold.\<close>

fun encodable :: "fs \<Rightarrow> bool" where
  "encodable (Regular executable contents) \<longleftrightarrow> length contents < 2 ^ 64"
| "encodable (Directory entries) \<longleftrightarrow> (\<forall>i \<in> set entries. length (fst i) < 2 ^ 32 \<and> encodable (snd i))"
| "encodable (Symlink target) \<longleftrightarrow> length target < 2 ^ 32"
| "encodable Special \<longleftrightarrow> False"

lemma length_ws: "8 \<le> length (ws s)"
  by (simp add: wire_string_def)

declare parse_loop.simps [simp del] parseEntry_loop.simps [simp del] parse.simps [simp del]

context source
begin

text \<open>
  \<open>performs f bs g\<close>: on input that starts with \<open>bs\<close>, \<open>f\<close> has on the sink the effect \<open>g\<close>, errors
  included, and if there is none it has read exactly \<open>bs\<close>.
\<close>

definition performs :: "('p \<Rightarrow> 's \<Rightarrow> ('p \<times> 's) res) \<Rightarrow> bytes \<Rightarrow> ('p \<Rightarrow> 'p res) \<Rightarrow> bool" where
  "performs f bs g \<longleftrightarrow> (\<forall>p s r. ok s \<longrightarrow> rest s = bs @ r \<longrightarrow>
     (\<forall>e. g p = Inl e \<longrightarrow> f p s = Inl e) \<and>
     (\<forall>p'. g p = Inr p' \<longrightarrow> (\<exists>s'. f p s = Inr (p', s') \<and> ok s' \<and> rest s' = r)))"

lemma performsI:
  assumes "\<And>p s r e. ok s \<Longrightarrow> rest s = bs @ r \<Longrightarrow> g p = Inl e \<Longrightarrow> f p s = Inl e"
    and "\<And>p s r p'. ok s \<Longrightarrow> rest s = bs @ r \<Longrightarrow> g p = Inr p' \<Longrightarrow>
      \<exists>s'. f p s = Inr (p', s') \<and> ok s' \<and> rest s' = r"
  shows "performs f bs g"
  unfolding performs_def using assms by blast

lemma performs_Inl: "performs f bs g \<Longrightarrow> ok s \<Longrightarrow> rest s = bs @ r \<Longrightarrow> g p = Inl e \<Longrightarrow> f p s = Inl e"
  unfolding performs_def by blast

lemma performs_Inr:
  "performs f bs g \<Longrightarrow> ok s \<Longrightarrow> rest s = bs @ r \<Longrightarrow> g p = Inr p' \<Longrightarrow>
    \<exists>s'. f p s = Inr (p', s') \<and> ok s' \<and> rest s' = r"
  unfolding performs_def by blast

lemma performs_end: "performs (\<lambda>p s. Inr (p, s)) [] Inr"
  by (rule performsI) simp_all

lemma performs_op:
  assumes "performs f bs g"
  shows "performs (\<lambda>p s. bindE (op p) (\<lambda>p. f p s)) bs (\<lambda>p. bindE (op p) g)"
  using performs_Inl [OF assms] performs_Inr [OF assms]
  by (intro performsI) (auto simp: bindE_eq_Inl bindE_eq_Inr)

lemma performs_then:
  assumes "performs f bs g" and "performs f' bs' g'"
  shows "performs (\<lambda>p s. bindE (f p s) (\<lambda>(p, s). f' p s)) (bs @ bs') (\<lambda>p. bindE (g p) g')"
proof (rule performsI)
  fix p s r e
  assume ok: "ok s" and s: "rest s = (bs @ bs') @ r" and e: "bindE (g p) g' = Inl e"
  from e consider "g p = Inl e" | p' where "g p = Inr p'" "g' p' = Inl e" by (auto simp: bindE_eq_Inl)
  then show "bindE (f p s) (\<lambda>(p, s). f' p s) = Inl e"
  proof cases
    case 1
    then show ?thesis using performs_Inl [OF assms(1) ok, of "bs' @ r"] s by simp
  next
    case 2
    then obtain s' where "f p s = Inr (p', s')" "ok s'" "rest s' = bs' @ r"
      using performs_Inr [OF assms(1) ok, of "bs' @ r"] s by auto
    then show ?thesis using performs_Inl [OF assms(2)] 2 by simp
  qed
next
  fix p s r q
  assume ok: "ok s" and s: "rest s = (bs @ bs') @ r" and "bindE (g p) g' = Inr q"
  then obtain p' where "g p = Inr p'" "g' p' = Inr q" by (auto simp: bindE_eq_Inr)
  moreover from this obtain s' where "f p s = Inr (p', s')" "ok s'" "rest s' = bs' @ r"
    using performs_Inr [OF assms(1) ok, of "bs' @ r"] s by auto
  ultimately show "\<exists>s'. bindE (f p s) (\<lambda>(p, s). f' p s) = Inr (q, s') \<and> ok s' \<and> rest s' = r"
    using performs_Inr [OF assms(2)] by simp
qed

lemma performs_read:
  assumes "decodes h bs v" and "performs (k v) cs g"
  shows "performs (\<lambda>p s. bindE (h s) (\<lambda>(x, s). k x p s)) (bs @ cs) g"
proof -
  have h: "\<exists>s'. h s = Inr (v, s') \<and> ok s' \<and> rest s' = cs @ r" if "ok s" "rest s = (bs @ cs) @ r" for s r
    using assms(1) that unfolding decodes_def by simp
  show ?thesis
  proof (rule performsI)
    fix p s r e
    assume "ok s" "rest s = (bs @ cs) @ r" "g p = Inl e"
    then show "bindE (h s) (\<lambda>(x, s). k x p s) = Inl e"
      using h [of s r] performs_Inl [OF assms(2), of _ r p e] by auto
  next
    fix p s r p'
    assume "ok s" "rest s = (bs @ cs) @ r" "g p = Inr p'"
    then show "\<exists>s'. bindE (h s) (\<lambda>(x, s). k x p s) = Inr (p', s') \<and> ok s' \<and> rest s' = r"
      using h [of s r] performs_Inr [OF assms(2), of _ r p p'] by auto
  qed
qed

lemma performs_string:
  assumes "length str < 2 ^ 32" and "performs (k str) cs g"
  shows "performs (\<lambda>p s. bindE (readString rd s) (\<lambda>(x, s). k x p s)) (ws str @ cs) g"
  by (rule performs_read [of _ _ str], rule decodes_readString [OF assms(1)], rule assms(2))

lemma performs_string_end:
  assumes "length str < 2 ^ 32" and "performs (k str) [] g"
  shows "performs (\<lambda>p s. bindE (readString rd s) (\<lambda>(x, s). k x p s)) (ws str) g"
  using performs_string [of str k "[]" g] assms by simp

lemma performs_contents_loop:
  "performs (parseContents_loop ps rd (length c)) c (foldE (receiveContents ps) (content_frags c))"
proof (induction c rule: length_induct)
  case (1 c)
  show ?case
  proof (cases "c = []")
    case True
    then show ?thesis using performs_end
      by (simp add: performs_def parseContents_loop.simps content_frags.simps)
  next
    case False
    let ?n = "if 65536 > length c then length c else 65536"
    have tk: "take ?n c = take 65536 c" "drop ?n c = drop 65536 c" "length c - ?n = length (drop 65536 c)"
      "?n = length (take 65536 c)"
      by simp_all
    have "performs (parseContents_loop ps rd (length (drop 65536 c))) (drop 65536 c)
        (foldE (receiveContents ps) (content_frags (drop 65536 c)))"
      using 1 False by (metis diff_less length_drop length_greater_0_conv zero_less_numeral)
    from performs_read [where k = "\<lambda>buf p s. bindE (receiveContents ps buf p)
            (\<lambda>p. parseContents_loop ps rd (length (drop 65536 c)) p s)",
        OF decodes_call [OF refl, of "take 65536 c"]
          performs_op [OF this, where op = "receiveContents ps (take 65536 c)"]]
    moreover have "length c - min (length c) 65536 = length c - 65536" by simp
    ultimately show ?thesis using False
      unfolding parseContents_loop.simps [of ps rd "length c"] content_frags.simps [of c] Let_def tk
      by (simp add: performs_def)
  qed
qed

lemma performs_parseContents:
  assumes "length c < 2 ^ 64"
  shows "performs (parseContents ps rd) (wire_longlong (of_nat (length c)) @ c @ wire_padding (length c))
    (\<lambda>p. bindE (preallocateContents ps (of_nat (length c)) p) (foldE (receiveContents ps) (content_frags c)))"
proof -
  have len: "unat (of_nat (length c) :: u64) = length c"
    using assms by (simp add: unsigned_of_nat take_bit_nat_eq_self_iff)
  have pad: "performs (\<lambda>p s. bindE (readPadding rd (length c) s) (\<lambda>s. Inr (p, s))) (wire_padding (length c)) Inr"
    using readPadding_enough [of _ "length c"] by (intro performsI) fastforce+
  from performs_read [where k = "\<lambda>size p s. bindE (preallocateContents ps size p) (\<lambda>p.
        bindE (parseContents_loop ps rd (unat size) p s) (\<lambda>(p, s).
        bindE (readPadding rd (unat size) s) (\<lambda>s. Inr (p, s))))",
      OF decodes_readLongLong [of "of_nat (length c)"], unfolded len,
      OF performs_op [OF performs_then [OF performs_contents_loop pad],
        where op = "preallocateContents ps (of_nat (length c))"]]
  show ?thesis unfolding parseContents_def by (simp add: len)
qed

lemma performs_ext: "(\<And>p s. f p s = f' p s) \<Longrightarrow> performs f' bs g \<Longrightarrow> performs f bs g"
  by (simp add: performs_def)

lemma performs_cong: "performs f bs g \<Longrightarrow> (\<And>p. g p = g' p) \<Longrightarrow> performs f bs g'"
  by (simp add: performs_def)

text \<open>The rounds of the loop of \<^verbatim>\<open>parse\<close>, by the field they read.\<close>

lemma loop_close: "performs (parse_loop (Suc n) rec ps rd path ty) (ws '')'') Inr"
  by (rule performs_ext [OF parse_loop.simps(2)], rule performs_string_end) (simp_all add: performs_end)

lemma loop_type:
  assumes "performs (parse_loop n rec ps rd path ty) bs g"
    and "(t, ty, op) \<in> {(''regular'', tpRegular, createRegularFile ps path),
      (''directory'', tpDirectory, createDirectory ps path), (''symlink'', tpSymlink, Inr)}"
  shows "performs (parse_loop (Suc n) rec ps rd path tpUnknown) (ws ''type'' @ ws t @ bs) (\<lambda>p. bindE (op p) g)"
proof (rule performs_ext [OF parse_loop.simps(2)], rule performs_string, simp, simp, rule performs_string)
  show "length t < 2 ^ 32" using assms(2) by auto
qed (use assms performs_op [OF assms(1)] in auto)

lemma loop_executable:
  assumes "performs (parse_loop n rec ps rd path tpRegular) bs g"
  shows "performs (parse_loop (Suc n) rec ps rd path tpRegular) (ws ''executable'' @ ws [] @ bs)
    (\<lambda>p. bindE (isExecutable ps p) g)"
  by (rule performs_ext [OF parse_loop.simps(2)], rule performs_string, simp, simp, rule performs_string)
    (simp_all add: performs_op [OF assms])

lemma loop_target:
  assumes "performs (parse_loop n rec ps rd path tpSymlink) bs g" and "length t < 2 ^ 32"
  shows "performs (parse_loop (Suc n) rec ps rd path tpSymlink) (ws ''target'' @ ws t @ bs)
    (\<lambda>p. bindE (createSymlink ps path t p) g)"
  by (rule performs_ext [OF parse_loop.simps(2)], rule performs_string, simp, simp, rule performs_string [OF assms(2)])
    (rule performs_op [OF assms(1)])

lemma loop_contents:
  assumes "performs (parse_loop n rec ps rd path tpRegular) bs g" and "length c < 2 ^ 64"
  shows "performs (parse_loop (Suc n) rec ps rd path tpRegular)
    (ws ''contents'' @ (wire_longlong (of_nat (length c)) @ c @ wire_padding (length c)) @ bs)
    (\<lambda>p. bindE (bindE (preallocateContents ps (of_nat (length c)) p)
       (foldE (receiveContents ps) (content_frags c))) g)"
  by (rule performs_ext [OF parse_loop.simps(2)], rule performs_string, simp)
    (use performs_then [OF performs_parseContents [OF assms(2)] assms(1)] in simp)

lemma loop_entry:
  assumes "performs (parseEntry n rec rd path) es h" and "performs (parse_loop n rec ps rd path tpDirectory) bs g"
  shows "performs (parse_loop (Suc n) rec ps rd path tpDirectory) (ws ''entry'' @ es @ bs) (\<lambda>p. bindE (h p) g)"
  by (rule performs_ext [OF parse_loop.simps(2)], rule performs_string, simp)
    (use performs_then [OF assms] in simp)

lemma performs_parseEntry:
  assumes "performs (rec (path @ ''/'' @ name)) bs g" and "length name < 2 ^ 32" and "3 \<le> n"
  shows "performs (parseEntry n rec rd path) (ws ''('' @ ws ''name'' @ ws name @ ws ''node'' @ bs @ ws '')'') g"
proof -
  obtain m where m: "n = Suc (Suc (Suc m))"
    using assms(3) that [of "n - 3"] by simp
  have close: "performs (parseEntry_loop (Suc m) rec rd path name) (ws '')'') Inr"
    by (rule performs_ext [OF parseEntry_loop.simps(2)], rule performs_string_end) (simp_all add: performs_end)
  have node: "performs (parseEntry_loop (Suc (Suc m)) rec rd path name) (ws ''node'' @ bs @ ws '')'') (\<lambda>p. bindE (g p) Inr)"
    by (rule performs_ext [OF parseEntry_loop.simps(2)], rule performs_string, simp)
      (use performs_then [OF assms(1) close] in simp)
  have "performs (parseEntry_loop n rec rd path []) (ws ''name'' @ ws name @ ws ''node'' @ bs @ ws '')'') g"
    unfolding m
    by (rule performs_ext [OF parseEntry_loop.simps(2)], rule performs_string, simp, simp, rule performs_string [OF assms(2)])
      (use node in simp)
  then show ?thesis
    by (intro performs_ext [OF parseEntry_def] performs_string) simp_all
qed

lemma performs_entries:
  assumes "\<And>i. i \<in> set es \<Longrightarrow> length (fst i) < 2 ^ 32 \<and>
      performs (rec (path @ ''/'' @ fst i)) (nar_node (snd i)) (restore ps (path @ ''/'' @ fst i) (snd i))"
    and "length es + 4 \<le> n"
  shows "performs (parse_loop n rec ps rd path tpDirectory)
    (concat (map (\<lambda>i. ws ''entry'' @ ws ''('' @ ws ''name'' @ ws (fst i) @ ws ''node'' @ nar_node (snd i) @ ws '')'') es) @ ws '')'')
    (foldE (\<lambda>i. restore ps (path @ ''/'' @ fst i) (snd i)) es)"
  using assms
proof (induction es arbitrary: n)
  case Nil
  then obtain m where "n = Suc m" by (cases n) auto
  then show ?case using loop_close by simp
next
  case (Cons i es)
  then obtain m where m: "n = Suc m" "length es + 4 \<le> m" by (cases n) auto
  have "performs (parseEntry m rec rd path)
      (ws ''('' @ ws ''name'' @ ws (fst i) @ ws ''node'' @ nar_node (snd i) @ ws '')'')
      (restore ps (path @ ''/'' @ fst i) (snd i))"
    using Cons.prems m by (intro performs_parseEntry) auto
  from loop_entry [OF this Cons.IH [of m]] Cons.prems m show ?case by (simp add: performs_def)
qed

lemma performs_parse_Suc:
  assumes "performs (parse_loop n (parse n ps rd) ps rd path tpUnknown) bs g"
  shows "performs (parse (Suc n) ps rd path) (ws ''('' @ bs) g"
  by (rule performs_ext [OF parse.simps(2)], rule performs_string) (simp_all add: assms)

lemma performs_regular:
  assumes "length c < 2 ^ 64"
  shows "performs (parse_loop (Suc (Suc (Suc (Suc n)))) rec ps rd path tpUnknown)
    (ws ''type'' @ ws ''regular'' @ (if executable then ws ''executable'' @ ws [] else [])
      @ (ws ''contents'' @ wire_longlong (of_nat (length c)) @ c @ wire_padding (length c)) @ ws '')'')
    (restore ps path (Regular executable c))"
proof -
  note contents = loop_contents [OF loop_close assms]
  have "performs (parse_loop (Suc (Suc (Suc n))) rec ps rd path tpRegular)
      ((if executable then ws ''executable'' @ ws [] else [])
      @ (ws ''contents'' @ wire_longlong (of_nat (length c)) @ c @ wire_padding (length c)) @ ws '')'')
      (\<lambda>p. bindE (if executable then isExecutable ps p else Inr p) (\<lambda>p.
        bindE (preallocateContents ps (of_nat (length c)) p) (foldE (receiveContents ps) (content_frags c))))"
    using contents [of "Suc n"] loop_executable [OF contents [of n]] by (cases executable) simp_all
  from loop_type [OF this, of "''regular''" "createRegularFile ps path"] show ?thesis
    by (simp add: performs_def)
qed

lemma performs_symlink:
  assumes "length t < 2 ^ 32"
  shows "performs (parse_loop (Suc (Suc (Suc n))) rec ps rd path tpUnknown)
    (ws ''type'' @ ws ''symlink'' @ ws ''target'' @ ws t @ ws '')'') (restore ps path (Symlink t))"
  using loop_type [OF loop_target [OF loop_close assms], of "''symlink''" Inr]
  by (simp add: performs_def)

lemma performs_parse:
  assumes "encodable t" and "length (nar_node t) \<le> n"
  shows "performs (parse n ps rd path) (nar_node t) (restore ps path t)"
  using assms
proof (induction t arbitrary: n path)
  case (Regular executable c)
  have "5 \<le> length (nar_node (Regular executable c))"
    using length_ws [of "''(''"] by simp
  then have "n = Suc (Suc (Suc (Suc (Suc (n - 5)))))" using Regular.prems(2) by simp
  then show ?case
    using performs_parse_Suc [OF performs_regular, of c] Regular.prems(1) by (metis encodable.simps(1) nar_node.simps(1))
next
  case (Directory es)
  let ?f = "\<lambda>i. ws ''entry'' @ ws ''('' @ ws ''name'' @ ws (fst i) @ ws ''node'' @ nar_node (snd i) @ ws '')''"
  have len: "32 + length (concat (map ?f es)) \<le> n"
    using Directory.prems(2) length_ws [of "''(''"] length_ws [of "''type''"] length_ws [of "''directory''"]
      length_ws [of "'')''"] by simp
  have es: "length es \<le> length (concat (map ?f es))"
  proof (induction es)
    case (Cons i es)
    then show ?case using length_ws [of "''(''"] by simp
  qed simp
  have mem: "length (nar_node (snd i)) \<le> length (concat (map ?f es))" if "i \<in> set es" for i
    using that by (induction es) auto
  obtain m where m: "n = Suc (Suc m)" "length es + 4 \<le> m"
    using len es that [of "n - 2"] by simp
  have "performs (parse_loop m (parse (Suc m) ps rd) ps rd path tpDirectory) (concat (map ?f es) @ ws '')'')
      (foldE (\<lambda>i. restore ps (path @ ''/'' @ fst i) (snd i)) es)"
  proof (rule performs_entries [OF _ m(2)], intro conjI)
    fix i assume i: "i \<in> set es"
    then show "length (fst i) < 2 ^ 32" using Directory.prems(1) by simp
    show "performs (parse (Suc m) ps rd (path @ ''/'' @ fst i)) (nar_node (snd i)) (restore ps (path @ ''/'' @ fst i) (snd i))"
      using i Directory.prems(1) mem [OF i] len m(1) by (intro Directory.IH [of i]) (auto simp: snds.simps)
  qed
  from performs_parse_Suc [OF loop_type [OF this, of "''directory''" "createDirectory ps path"]] m(1)
  show ?case by (simp add: performs_def)
next
  case (Symlink t)
  have "5 \<le> length (nar_node (Symlink t))"
    using length_ws [of "''(''"] by simp
  then have "n = Suc (Suc (Suc (Suc (n - 4))))" using Symlink.prems(2) by simp
  then show ?case
    using performs_parse_Suc [OF performs_symlink, of t] Symlink.prems(1) by (metis encodable.simps(3) nar_node.simps(3))
qed simp

lemma performs_parseDump:
  assumes "encodable t" and "length (nar t) \<le> n"
  shows "performs (parseDump n ps rd) (nar t) (restore ps [] t)"
proof -
  have "performs (\<lambda>p s. bindE (readString rd s) (\<lambda>(version, s).
      if version \<noteq> archiveVersion1
      then Inl (badArchive (''input doesn'' @ [CHR 0x27] @ ''t look like a Nix archive''))
      else parse n ps rd [] p s)) (nar t) (restore ps [] t)"
    unfolding nar_def using performs_parse [OF assms(1), of n ps "[]"] assms(2)
    by (intro performs_string) (simp_all add: archiveVersion1_def nar_def)
  moreover have "\<exists>s'. readString rd s = Inr (archiveVersion1, s')" if "ok s" "rest s = nar t @ r" for s r
    using that decodes_readString [of archiveVersion1] unfolding decodes_def nar_def
    by (fastforce simp: archiveVersion1_def)
  ultimately show ?thesis
    unfolding performs_def parseDump_def by (fastforce simp: bindE_def)
qed

end

subsection \<open>Round trips\<close>

lemma encodable_prune: "encodable t \<Longrightarrow> encodable (prune filt path t)"
  by (induction filt path t rule: prune.induct) auto

lemma encodable_dumpable: "encodable t \<Longrightarrow> dumpable t"
  by (induction t) (auto simp: snds.simps)

lemma StringSink_calls: "foldE StringSink_call ds s = Inr (s @ concat ds)"
  by (induction ds arbitrary: s) (simp_all add: StringSink_call_def)

lemma dumpPath_string:
  "dumpable t \<Longrightarrow> dumpPath StringSink_call filt path t [] = Inr (nar (prune filt path t))"
  using dumpPath_frags(2) [of t filt path] by (simp only: dumpPath_frags(1) StringSink_calls append_Nil)

text \<open>
  C11: Dump and parse are inverse: the archive \<^verbatim>\<open>dumpPath\<close> makes of a tree, read by \<^verbatim>\<open>parseDump\<close> from a
  buffered file descriptor whatever the kernel's short reads, performs on any sink exactly the calls
  that rebuild the tree (its entries filtered and sorted) and reads nothing more; where a call of the
  sink fails, parsing fails with the same error.  The archive's length bounds the recursion and the
  rounds of the loops.
\<close>

theorem parseDump_dumpPath:
  assumes "encodable t" and "Fail \<notin> set answers" and "0 < bufSize"
  shows "\<exists>bs. dumpPath StringSink_call filt path t [] = Inr bs \<and>
    (\<forall>n\<ge>length bs. \<forall>p.
      let src = BufferedSource_new bufSize \<lparr>fdData = bs @ tail, fdAnswers = answers\<rparr>;
          r = parseDump n ps (BufferedSource_read FdSource_readUnbuffered) p src
      in case restore ps [] (prune filt path t) p of
           Inl e \<Rightarrow> r = Inl e
         | Inr p' \<Rightarrow> \<exists>src'. r = Inr (p', src') \<and> fd_source.brest src' = tail)"
proof (intro exI conjI allI impI)
  let ?bs = "nar (prune filt path t)"
  show "dumpPath StringSink_call filt path t [] = Inr ?bs"
    using assms(1) by (simp add: dumpPath_string encodable_dumpable)
  fix n p assume n: "length ?bs \<le> n"
  let ?src = "BufferedSource_new bufSize \<lparr>fdData = ?bs @ tail, fdAnswers = answers\<rparr>"
  note perf = buffered_fd_source.performs_parseDump [OF encodable_prune [OF assms(1)] n, of ps]
  have "fd_source.bok ?src" "fd_source.brest ?src = ?bs @ tail"
    using assms(2,3) by (simp_all add: BufferedSource_new_def)
  from buffered_fd_source.performs_Inl [OF perf this] buffered_fd_source.performs_Inr [OF perf this]
  show "let src = ?src; r = parseDump n ps (BufferedSource_read FdSource_readUnbuffered) p src
      in case restore ps [] (prune filt path t) p of
           Inl e \<Rightarrow> r = Inl e
         | Inr p' \<Rightarrow> \<exists>src'. r = Inr (p', src') \<and> fd_source.brest src' = tail"
    unfolding Let_def by (cases "restore ps [] (prune filt path t) p") (simp, simp only: sum.case, blast)
qed

text \<open>A sink that records the calls it gets.\<close>

definition log_sink :: "(string \<times> string) list ParseSink" where
  "log_sink = \<lparr>createDirectory = (\<lambda>p l. Inr (l @ [(''directory'', p)])),
     createRegularFile = (\<lambda>p l. Inr (l @ [(''file'', p)])), isExecutable = (\<lambda>l. Inr (l @ [(''executable'', [])])),
     preallocateContents = (\<lambda>n l. Inr l), receiveContents = (\<lambda>d l. Inr (l @ [(''contents'', of_bytes d)])),
     createSymlink = (\<lambda>p t l. Inr (l @ [(''symlink '' @ p, t)]))\<rparr>"

definition demo_tree :: fs where
  "demo_tree = Directory [(''b'', Symlink ''a''), (''a'', Regular True (to_bytes ''hi'')), (''.git'', Directory [])]"

theorem parseDump_dumpPath_witness:
  "\<exists>bs src'. dumpPath StringSink_call (\<lambda>p. p \<noteq> ''/x/.git'') ''/x'' demo_tree [] = Inr bs \<and>
    parseDump (length bs) log_sink (BufferedSource_read FdSource_readUnbuffered) []
      (BufferedSource_new 10 \<lparr>fdData = bs @ [1], fdAnswers = [Deliver 3, Interrupt]\<rparr>)
    = Inr ([(''directory'', []), (''file'', ''/a''), (''executable'', []), (''contents'', ''hi''), (''symlink /b'', ''a'')], src')
    \<and> fd_source.brest src' = [1]"
proof -
  have t: "encodable demo_tree" by (simp add: demo_tree_def)
  have "prune (\<lambda>p. p \<noteq> ''/x/.git'') ''/x'' demo_tree = Directory [(''a'', Regular True (to_bytes ''hi'')), (''b'', Symlink ''a'')]"
    by code_simp
  then have r: "restore log_sink [] (prune (\<lambda>p. p \<noteq> ''/x/.git'') ''/x'' demo_tree) []
    = Inr [(''directory'', []), (''file'', ''/a''), (''executable'', []), (''contents'', ''hi''), (''symlink /b'', ''a'')]"
    by (simp add: log_sink_def content_frags.simps)
  have "Fail \<notin> set [Deliver 3, Interrupt]" "0 < (10::nat)" by simp_all
  from parseDump_dumpPath [OF t this, of "\<lambda>p. p \<noteq> ''/x/.git''" "''/x''" "[1]" log_sink]
  obtain bs where bs: "dumpPath StringSink_call (\<lambda>p. p \<noteq> ''/x/.git'') ''/x'' demo_tree [] = Inr bs"
    and all: "\<forall>n\<ge>length bs. \<forall>p.
      let src = BufferedSource_new 10 \<lparr>fdData = bs @ [1], fdAnswers = [Deliver 3, Interrupt]\<rparr>;
          r = parseDump n log_sink (BufferedSource_read FdSource_readUnbuffered) p src
      in case restore log_sink [] (prune (\<lambda>p. p \<noteq> ''/x/.git'') ''/x'' demo_tree) p of
           Inl e \<Rightarrow> r = Inl e
         | Inr p' \<Rightarrow> \<exists>src'. r = Inr (p', src') \<and> fd_source.brest src' = [1]"
    by blast
  from all [THEN spec, of "length bs", THEN mp, OF order_refl, THEN spec, of "[]", unfolded r Let_def sum.case]
  show ?thesis using bs by blast
qed



lemma hashFile_hashString:
  assumes "digest_ok dg"
  shows "hashFile dg ht reads = hashString dg ht (of_bytes (concat reads))"
proof -
  have "fold (\<lambda>buf ctx. update dg ht ctx buf) reads ctx = update dg ht ctx (concat reads)" for ctx
    using digest_okD [OF assms] by (induction reads arbitrary: ctx) (simp_all add: update_def)
  then show ?thesis by (simp add: hashFile_def hashString_def)
qed

subsection \<open>What the parser lets through\<close>

text \<open>An entry without a name is not noticed: its node is restored at the path of the directory with a slash.\<close>

context source
begin

lemma nameless_entry:
  assumes "performs (rec (path @ ''/'')) bs g" and "2 \<le> n"
  shows "performs (parseEntry n rec rd path) (ws ''('' @ ws ''node'' @ bs @ ws '')'') g"
proof -
  obtain m where m: "n = Suc (Suc m)" using assms(2) that [of "n - 2"] by simp
  have close: "performs (parseEntry_loop (Suc m) rec rd path []) (ws '')'') Inr"
    by (rule performs_ext [OF parseEntry_loop.simps(2)], rule performs_string_end) (simp_all add: performs_end)
  have "performs (parseEntry_loop n rec rd path []) (ws ''node'' @ bs @ ws '')'') (\<lambda>p. bindE (g p) Inr)"
    unfolding m
    by (rule performs_ext [OF parseEntry_loop.simps(2)], rule performs_string, simp)
      (use performs_then [OF assms(1) close] in simp)
  then show ?thesis
    by (intro performs_ext [OF parseEntry_def] performs_string) simp_all
qed

end

lemma nameless_entry_restored:
  "bindE (parseDump 9 log_sink StringSource_read []
      \<lparr>srcStr = ws archiveVersion1 @ ws ''('' @ ws ''type'' @ ws ''directory'' @ ws ''entry'' @ ws ''('' @ ws ''node''
        @ nar_node (Symlink ''t'') @ ws '')'' @ ws '')'', srcPos = 0\<rparr>) (\<lambda>(l, src). Inr l)
    = Inr [(''directory'', []), (''symlink /'', ''t'')]"
  by code_simp

text \<open>
  Entry names are not checked: an archive with an entry named \<^verbatim>\<open>..\<close> makes \<^verbatim>\<open>RestoreSink\<close> create a file
  outside the directory it restores.
\<close>

lemma restore_escapes:
  assumes "kMkdir k dst 0x1FF f = Inr f1" and "kCreate k (dst @ ''/../x'') 0x1B6 f1 = Inr (d, f2)"
  shows "restore (RestoreSink_ops k) [] (Directory [(''../x'', Regular False [])]) \<lparr>dstPath = dst, fd = None, system = f\<rparr>
    = Inr \<lparr>dstPath = dst, fd = Some d, system = f2\<rparr>"
  using assms by (simp add: RestoreSink_ops_def content_frags.simps)

end
