(* ===== verification/GC.thy ===== *)
theory GC
  imports GC_Roots Archive
begin

text \<open>
  The garbage collector: the second part of \<^verbatim>\<open>src/libstore/gc.cc\<close>.  The state of a collection holds the
  sets the code keeps, the database, and what lies in the store directory.  Exceptions keep the state:
  \<^verbatim>\<open>GCLimitReached\<close> is caught by \<^verbatim>\<open>collectGarbage\<close>, which then deletes what has been invalidated so far.
  A file is taken to have the owner and permissions that make \<^verbatim>\<open>chmod\<close> and \<^verbatim>\<open>remove\<close> succeed when it exists.
\<close>

subsection \<open>State\<close>

datatype GCAction = gcReturnLive | gcReturnDead | gcDeleteDead | gcDeleteSpecific

record GCOptions =
  action :: GCAction
  ignoreLiveness :: bool
  pathsToDelete :: "path list"
  maxFreed :: u64

definition GCOptions_new :: GCOptions where
  "GCOptions_new = \<lparr>action = gcDeleteDead, ignoreLiveness = False, pathsToDelete = [], maxFreed = -1\<rparr>"

record GCState =
  gsPaths :: "path list"
  gsBytesFreed :: u64
  gsRoots :: "path list"
  gsTempRoots :: "path list"
  gsDeleted :: "path list"
  gsLive :: "path list"
  gsInvalidated :: "path list"
  gsKeepOutputs :: bool
  gsKeepDerivations :: bool
  gsBytesInvalidated :: u64
  gsStore :: LocalStore
  gsDisk :: "(path \<times> fs) list"

text \<open>
  What the collector takes from its surroundings: \<open>freedBy\<close> is the space \<^verbatim>\<open>deletePath\<close> reports for a file
  tree, \<open>rootFinder\<close> the output of the program that lists the paths in use, \<open>randomShuffle\<close> the
  permutation \<^verbatim>\<open>random_shuffle\<close> applies, and \<open>gcDepth\<close> bounds the recursion over referrers.
\<close>

record 'c GCEnv =
  gcCfg :: "'c Env"
  gcPid :: string
  freedBy :: "path \<Rightarrow> fs \<Rightarrow> u64"
  rootFinder :: "string res option"
  randomShuffle :: "path list \<Rightarrow> path list"
  gcKeepOutputs :: bool
  gcKeepDerivations :: bool
  gcDepth :: nat
  gcRootSettings :: gc_settings

definition linksDir :: "'c Env \<Rightarrow> path" where
  "linksDir cfg = nixStore cfg @ ''/.links''"

definition shouldDelete :: "GCAction \<Rightarrow> bool" where
  "shouldDelete a \<longleftrightarrow> a = gcDeleteDead \<or> a = gcDeleteSpecific"

definition isActiveTempFile :: "GCState \<Rightarrow> path \<Rightarrow> string \<Rightarrow> bool" where
  "isActiveTempFile state p suff \<longleftrightarrow>
     hasSuffix p suff \<and> take (length p - length suff) p \<in> set (gsTempRoots state)"

definition deleteGarbage :: "'c GCEnv \<Rightarrow> path \<Rightarrow> (GCState, unit) op" where
  "deleteGarbage g p state = (case map_of (gsDisk state) p of
     None \<Rightarrow> (Inl (SysErrorNo ENOENT (''getting status of `'' @ p @ [CHR 0x27])), state)
   | Some node \<Rightarrow> (Inr (), state\<lparr>gsDisk := filter (\<lambda>f. fst f \<noteq> p) (gsDisk state),
                              gsBytesFreed := gsBytesFreed state + freedBy g p node\<rparr>))"

subsection \<open>Deleting a path\<close>

text \<open>
  The loop over \<^verbatim>\<open>todo\<close> that collects the derivers and outputs that live and die together.  Every round
  takes a path off \<^verbatim>\<open>todo\<close>; those that are put there are paths the database mentions.
\<close>

definition mentioned :: "database \<Rightarrow> path set" where
  "mentioned db = rowPath ` set (ValidPaths db) \<union> snd ` set (DerivationOutputs db)"

lemma set_stmtQueryDerivationOutputs: "set (map snd (stmtQueryDerivationOutputs db i)) \<subseteq> mentioned db"
  by (auto simp: stmtQueryDerivationOutputs_def mentioned_def)

lemma set_stmtQueryValidDerivers: "set (stmtQueryValidDerivers db p) \<subseteq> valid_paths db"
  by (auto simp: stmtQueryValidDerivers_def valid_paths_def split: if_splits)

lemma valid_mentioned: "valid_paths db \<subseteq> mentioned db"
  by (auto simp: valid_paths_def mentioned_def)

definition gc_outputs :: "bool \<Rightarrow> database \<Rightarrow> path \<Rightarrow> path list \<Rightarrow> path list res" where
  "gc_outputs keepDerivations db p todo =
     (if keepDerivations \<and> isDerivation p then
        bindE (LocalStore_queryDerivationOutputs db p) (\<lambda>outs.
          Inr (fold (\<lambda>i todo. if LocalStore_isValidPath db i then set_insert i todo else todo) outs todo))
      else Inr todo)"

definition gc_derivers :: "path \<Rightarrow> bool \<Rightarrow> database \<Rightarrow> path \<Rightarrow> path list \<Rightarrow> path list res" where
  "gc_derivers storeDir keepOutputs db p todo =
     (if keepOutputs then
        bindE (LocalStore_queryValidDerivers storeDir db p) (\<lambda>derivers. Inr (set_insert_all derivers todo))
      else Inr todo)"

lemma set_fold_insert_if: "set (fold (\<lambda>i todo. if P i then set_insert i todo else todo) xs todo) = {i \<in> set xs. P i} \<union> set todo"
  by (induction xs arbitrary: todo) auto

lemma gc_outputs_set:
  "gc_outputs kd db p todo = Inr todo' \<Longrightarrow> set todo \<subseteq> set todo' \<and> set todo' \<subseteq> set todo \<union> mentioned db"
  using set_stmtQueryDerivationOutputs [of db]
  by (force simp: gc_outputs_def LocalStore_queryDerivationOutputs_def bindE_eq_Inr set_fold_insert_if
      split: if_splits)

lemma gc_derivers_set:
  "gc_derivers storeDir ko db p todo = Inr todo' \<Longrightarrow> set todo \<subseteq> set todo' \<and> set todo' \<subseteq> set todo \<union> mentioned db"
  using set_stmtQueryValidDerivers [of db p] valid_mentioned [of db]
  by (force simp: gc_derivers_def LocalStore_queryValidDerivers_def bindE_eq_Inr split: if_splits)

function gc_component_loop ::
  "path \<Rightarrow> bool \<Rightarrow> bool \<Rightarrow> database \<Rightarrow> path list \<Rightarrow> path list \<Rightarrow> path list res" where
  "gc_component_loop storeDir keepOutputs keepDerivations db todo paths =
     (if todo = [] then Inr paths
      else
        let p = hd todo
        in bindE (assertStorePath storeDir p) (\<lambda>_.
             let todo = set_erase p todo
             in if p \<in> set paths then gc_component_loop storeDir keepOutputs keepDerivations db todo paths
                else
                  bindE (gc_outputs keepDerivations db p todo) (\<lambda>todo.
                  bindE (gc_derivers storeDir keepOutputs db p todo) (\<lambda>todo.
                    gc_component_loop storeDir keepOutputs keepDerivations db todo (set_insert p paths)))))"
  by pat_completeness auto
termination
proof (relation "measures [\<lambda>(s, ko, kd, db, todo, paths). card ((set todo \<union> mentioned db) - set paths),
    \<lambda>(s, ko, kd, db, todo, paths). length todo]", goal_cases)
  case 1
  then show ?case by simp
next
  case (2 storeDir ko kd db todo paths x xa xb)
  have "set xb = set todo - {x}" using 2 by simp
  moreover have "length xb < length todo"
    using 2 by (cases todo) (auto simp: set_erase_def intro: le_imp_less_Suc length_filter_le)
  ultimately show ?case
    using 2 by (auto simp: mentioned_def intro!: card_mono le_neq_implies_less)
next
  case (3 storeDir ko kd db todo paths x xa xb xc xd)
  from 3 gc_outputs_set [of kd db x xb xc] gc_derivers_set [of storeDir ko db x xc xd]
  have "set xd \<subseteq> set todo \<union> mentioned db" by auto
  moreover have "x \<in> set todo" using 3 by simp
  ultimately have "set xd \<union> mentioned db - set (set_insert x paths) \<subset> set todo \<union> mentioned db - set paths"
    using 3 by auto
  then have "card (set xd \<union> mentioned db - set (set_insert x paths)) < card (set todo \<union> mentioned db - set paths)"
    by (intro psubset_card_mono) (simp_all add: mentioned_def)
  then show ?case using 3 by simp
qed

declare gc_component_loop.simps [simp del]

text \<open>
  The set \<^verbatim>\<open>paths\<close> that \<^verbatim>\<open>tryToDelete\<close> treats as a unit; \<open>None\<close> for a lock file or a chroot directory of a
  path that is being built.
\<close>

definition gc_component :: "path \<Rightarrow> GCState \<Rightarrow> path \<Rightarrow> path list option res" where
  "gc_component storeDir state p =
     (let db = lsDB (gsStore state)
      in if LocalStore_isValidPath db p then
           bindE (gc_component_loop storeDir (gsKeepOutputs state) (gsKeepDerivations state) db [p] []) (\<lambda>paths.
             Inr (Some paths))
         else if isActiveTempFile state p ''.lock'' then Inr None
         else if isActiveTempFile state p ''.chroot'' then Inr None
         else Inr (Some [p]))"

definition gc_referrers :: "path \<Rightarrow> database \<Rightarrow> path list \<Rightarrow> path list res" where
  "gc_referrers storeDir db paths =
     foldE (\<lambda>i referrers.
       if LocalStore_isValidPath db i then LocalStore_queryReferrers storeDir db i referrers else Inr referrers) paths []"

definition gc_isLive :: "GCAction \<Rightarrow> path list \<Rightarrow> GCState \<Rightarrow> GCState" where
  "gc_isLive a paths state = fold (\<lambda>i state.
     let state = state\<lparr>gsLive := set_insert i (gsLive state)\<rparr>
     in if a = gcReturnLive then state\<lparr>gsPaths := set_insert i (gsPaths state)\<rparr> else state) paths state"

text \<open>
  \<^verbatim>\<open>rename\<close> of an entry of the store: a file replaces a file, a directory an empty directory.
\<close>

definition rename_ok :: "fs \<Rightarrow> fs option \<Rightarrow> bool" where
  "rename_ok from to = (case to of
     None \<Rightarrow> True
   | Some (Directory entries) \<Rightarrow> entries = [] \<and> (case from of Directory _ \<Rightarrow> True | _ \<Rightarrow> False)
   | Some _ \<Rightarrow> (case from of Directory _ \<Rightarrow> False | _ \<Rightarrow> True))"

text \<open>
  Invalidate a valid path and move it out of the way, so that it can be deleted after the lock has
  been released.
\<close>

definition gc_invalidate :: "'c GCEnv \<Rightarrow> path \<Rightarrow> (GCState, unit) op" where
  "gc_invalidate g i state =
     (let storeDir = nixStore (gcCfg g)
      in case LocalStore_queryPathInfo storeDir (lsDB (gsStore state)) i of
           Inl e \<Rightarrow> (Inl e, state)
         | Inr info \<Rightarrow>
             let state = state\<lparr>gsBytesInvalidated := gsBytesInvalidated state + viNarSize info\<rparr>
             in (case invalidatePathChecked storeDir i (gsStore state) of
                   Inl e \<Rightarrow> (Inl e, state)
                 | Inr st \<Rightarrow>
                     let state = state\<lparr>gsStore := st\<rparr>;
                         tmp = i @ ''-gc-'' @ gcPid g
                     in (case map_of (gsDisk state) i of
                           None \<Rightarrow> (Inl (SysErrorNo ENOENT (''making `'' @ i @ [CHR 0x27] @ '' writable'')), state)
                         | Some node \<Rightarrow>
                             if \<not> rename_ok node (map_of (gsDisk state) tmp) then
                               (Inl (SysErrorNo EOTHER (''unable to rename `'' @ i @ [CHR 0x27] @ '' to `'' @ tmp @ [CHR 0x27])), state)
                             else (Inr (), state\<lparr>gsDisk := (tmp, node) # filter (\<lambda>f. fst f \<noteq> i \<and> fst f \<noteq> tmp) (gsDisk state),
                                              gsInvalidated := set_insert tmp (gsInvalidated state)\<rparr>))))"

text \<open>
  One element of the sorted component.  \<open>isDir\<close> is whether the path \<^verbatim>\<open>tryToDelete\<close> was called for is a
  directory.
\<close>

definition gc_delete :: "'c GCEnv \<Rightarrow> GCOptions \<Rightarrow> bool \<Rightarrow> path \<Rightarrow> (GCState, unit) op" where
  "gc_delete g options isDir i =
     bindS (if shouldDelete (action options) then
              bindS (\<lambda>state.
                if LocalStore_isValidPath (lsDB (gsStore state)) i then
                  if isDir then gc_invalidate g i state
                  else (case invalidatePathChecked (nixStore (gcCfg g)) i (gsStore state) of
                          Inl e \<Rightarrow> (Inl e, state)
                        | Inr st \<Rightarrow> deleteGarbage g i (state\<lparr>gsStore := st\<rparr>))
                else deleteGarbage g i state) (\<lambda>_ state.
                if gsBytesFreed state + gsBytesInvalidated state > maxFreed options then (Inl GCLimitReached, state)
                else (Inr (), state))
            else (\<lambda>state. (Inr (), state))) (\<lambda>_ state.
       let state = state\<lparr>gsDeleted := set_insert i (gsDeleted state)\<rparr>
       in (Inr (), if action options \<noteq> gcReturnLive then state\<lparr>gsPaths := set_insert i (gsPaths state)\<rparr> else state))"

text \<open>The loop over the referrers: \<open>False\<close> at the first one that cannot be deleted.\<close>

primrec gc_try_referrers :: "(path \<Rightarrow> (GCState, bool) op) \<Rightarrow> path list \<Rightarrow> path list \<Rightarrow> (GCState, bool) op" where
  "gc_try_referrers try paths [] state = (Inr True, state)"
| "gc_try_referrers try paths (i # is) state =
     (if i \<in> set paths then gc_try_referrers try paths is state
      else bindS (try i) (\<lambda>b state.
        if b then gc_try_referrers try paths is state else (Inr False, state)) state)"

primrec tryToDelete :: "nat \<Rightarrow> 'c GCEnv \<Rightarrow> GCOptions \<Rightarrow> path \<Rightarrow> (GCState, bool) op" where
  "tryToDelete 0 g options p state = (Inl Diverges, state)"
| "tryToDelete (Suc n) g options p state =
     (let storeDir = nixStore (gcCfg g)
      in if p = linksDir (gcCfg g) then (Inr True, state)
         else case map_of (gsDisk state) p of
           None \<Rightarrow> (Inr True, state)
         | Some st \<Rightarrow>
             if p \<in> set (gsDeleted state) then (Inr True, state)
             else if p \<in> set (gsLive state) then (Inr False, state)
             else case gc_component storeDir state p of
               Inl e \<Rightarrow> (Inl e, state)
             | Inr None \<Rightarrow> (Inr False, state)
             | Inr (Some paths) \<Rightarrow>
                 if set paths \<inter> set (gsRoots state) \<noteq> {} then (Inr False, gc_isLive (action options) paths state)
                 else case gc_referrers storeDir (lsDB (gsStore state)) paths of
                   Inl e \<Rightarrow> (Inl e, state)
                 | Inr referrers \<Rightarrow>
                     bindS (gc_try_referrers (tryToDelete n g options) paths referrers) (\<lambda>garbage state.
                       if \<not> garbage then (Inr False, gc_isLive (action options) paths state)
                       else case topoSortPaths (Suc (length paths)) (queryAPI (gcCfg g) (lsDB (gsStore state))) paths of
                         Inl e \<Rightarrow> (Inl e, state)
                       | Inr pathsSorted \<Rightarrow>
                           bindS (foldS (gc_delete g options (case st of Directory _ \<Rightarrow> True | _ \<Rightarrow> False)) pathsSorted)
                             (\<lambda>_ state. (Inr True, state)) state) state)"

subsection \<open>A collection\<close>

text \<open>
  The directory of shared files, with the link count and the number of blocks of every file.  Counters
  only feed a message; what is left is that the files with a single link are removed.
\<close>

definition removeUnusedLinks :: "(string \<times> nat \<times> u64) list \<Rightarrow> u64 \<Rightarrow> (string \<times> nat \<times> u64) list \<times> u64" where
  "removeUnusedLinks links bytesFreed =
     (filter (\<lambda>(name, nlink, blocks). nlink \<noteq> 1) links,
      fold (\<lambda>(name, nlink, blocks) freed. if nlink \<noteq> 1 then freed else freed + blocks * 512) links bytesFreed)"

text \<open>The names in the store directory are read before anything in it is deleted.\<close>

definition gc_scan :: "'c GCEnv \<Rightarrow> GCOptions \<Rightarrow> (path list \<times> GCState, unit) op" where
  "gc_scan g options = (\<lambda>(entries, state).
     foldS (\<lambda>p (entries, state).
       if LocalStore_isValidPath (lsDB (gsStore state)) p then (Inr (), entries @ [p], state)
       else (case tryToDelete (gcDepth g) g options p state of
               (Inl e, state) \<Rightarrow> (Inl e, entries, state)
             | (Inr _, state) \<Rightarrow> (Inr (), entries, state))) (map fst (gsDisk state)) (entries, state))"

definition gc_delete_dead :: "'c GCEnv \<Rightarrow> GCOptions \<Rightarrow> (GCState, unit) op" where
  "gc_delete_dead g options state = (case gc_scan g options ([], state) of
     (Inl e, _, state) \<Rightarrow> (Inl e, state)
   | (Inr _, entries, state) \<Rightarrow>
       foldS (\<lambda>p. bindS (tryToDelete (gcDepth g) g options p) (\<lambda>_ state. (Inr (), state)))
         (randomShuffle g entries) state)"

definition gc_delete_specific :: "'c GCEnv \<Rightarrow> GCOptions \<Rightarrow> (GCState, unit) op" where
  "gc_delete_specific g options =
     foldS (\<lambda>p state. case assertStorePath (nixStore (gcCfg g)) p of
         Inl e \<Rightarrow> (Inl e, state)
       | Inr _ \<Rightarrow> bindS (tryToDelete (gcDepth g) g options p) (\<lambda>b state.
           if b then (Inr (), state)
           else (Inl (Error (''cannot delete path `'' @ p @ [CHR 0x27] @ '' since it is still alive'')), state)) state)
       (pathsToDelete options)"

text \<open>Everything a collection reads and changes.\<close>

record GCWorld =
  gwStore :: LocalStore
  gwDisk :: "(path \<times> fs) list"
  gwFiles :: files
  gwTempRoots :: temproots
  gwLinks :: "(string \<times> nat \<times> u64) list"

definition gc_roots :: "'c GCEnv \<Rightarrow> GCOptions \<Rightarrow> (GCWorld, path list \<times> path list) op" where
  "gc_roots g options w =
     (let storeDir = nixStore (gcCfg g); valid = LocalStore_isValidPath (lsDB (gwStore w));
          (rootMap, fs) = (if ignoreLiveness options then (Inr [], gwFiles w)
                           else findRoots (gcDepth g) (gcRootSettings g) storeDir valid True (gwFiles w));
          w = w\<lparr>gwFiles := fs\<rparr>
      in case bindE rootMap (\<lambda>rootMap.
                let roots = set_of_list (map snd rootMap)
                in if ignoreLiveness options then Inr roots
                   else addAdditionalRoots storeDir valid (rootFinder g) roots) of
           Inl e \<Rightarrow> (Inl e, w)
         | Inr roots \<Rightarrow>
             (case readTempRoots storeDir (gwTempRoots w) [] of
                (Inl e, files) \<Rightarrow> (Inl e, w\<lparr>gwTempRoots := files\<rparr>)
              | (Inr tempRoots, files) \<Rightarrow> (Inr (set_insert_all tempRoots roots, tempRoots), w\<lparr>gwTempRoots := files\<rparr>)))"

definition gc_start :: "'c GCEnv \<Rightarrow> GCOptions \<Rightarrow> path list \<Rightarrow> path list \<Rightarrow> GCWorld \<Rightarrow> GCState" where
  "gc_start g options roots tempRoots w =
     (let specific = (action options = gcDeleteSpecific \<and> ignoreLiveness options)
      in \<lparr>gsPaths = [], gsBytesFreed = 0, gsRoots = roots, gsTempRoots = tempRoots, gsDeleted = [], gsLive = [],
          gsInvalidated = [], gsKeepOutputs = (gcKeepOutputs g \<and> \<not> specific),
          gsKeepDerivations = (gcKeepDerivations g \<and> \<not> specific), gsBytesInvalidated = 0,
          gsStore = gwStore w, gsDisk = gwDisk w\<rparr>)"

definition gc_finish :: "GCOptions \<Rightarrow> GCWorld \<Rightarrow> (GCState, unit) op \<Rightarrow> GCState \<Rightarrow> (path list \<times> u64) res \<times> GCWorld" where
  "gc_finish options w body state =
     (case body state of
        (Inl e, state) \<Rightarrow> (Inl e, w\<lparr>gwStore := gsStore state, gwDisk := gsDisk state\<rparr>)
      | (Inr _, state) \<Rightarrow>
          let w = w\<lparr>gwStore := gsStore state, gwDisk := gsDisk state\<rparr>;
              (links, freed) = (if shouldDelete (action options) then removeUnusedLinks (gwLinks w) (gsBytesFreed state)
                                else (gwLinks w, gsBytesFreed state))
          in (Inr (gsPaths state, freed), w\<lparr>gwLinks := links\<rparr>))"

definition catchLimit :: "(GCState, unit) op \<Rightarrow> (GCState, unit) op" where
  "catchLimit m state = (case m state of
     (Inl e, state) \<Rightarrow> (if e = GCLimitReached then Inr () else Inl e, state)
   | (Inr u, state) \<Rightarrow> (Inr u, state))"

text \<open>
  The work of a collection: delete, then remove what was invalidated.  The limit stops the deletion
  of dead paths; for specific paths it is not caught.
\<close>

definition gc_collect :: "'c GCEnv \<Rightarrow> GCOptions \<Rightarrow> (GCState, unit) op" where
  "gc_collect g options =
     bindS (\<lambda>state.
        if action options = gcDeleteSpecific then gc_delete_specific g options state
        else if maxFreed options > 0 then catchLimit (gc_delete_dead g options) state
        else (Inr (), state))
      (\<lambda>_ state. foldS (deleteGarbage g) (gsInvalidated state) state)"

text \<open>\<^verbatim>\<open>vacuumDB\<close> at the end does not change the tables.\<close>

definition collectGarbage :: "'c GCEnv \<Rightarrow> GCOptions \<Rightarrow> GCWorld \<Rightarrow> (path list \<times> u64) res \<times> GCWorld" where
  "collectGarbage g options w =
     (case gc_roots g options w of
        (Inl e, w) \<Rightarrow> (Inl e, w)
      | (Inr (roots, tempRoots), w) \<Rightarrow>
          gc_finish options w (gc_collect g options) (gc_start g options roots tempRoots w))"

subsection \<open>Live paths survive\<close>

text \<open>
  The paths that are reachable from the roots through the references of the initial database, and
  what a collection must keep of them.
\<close>

definition reachable_valid :: "database \<Rightarrow> path set \<Rightarrow> path set" where
  "reachable_valid db roots = (refs_of db)\<^sup>* `` roots \<inter> valid_paths db"

definition keeps :: "database \<Rightarrow> path set \<Rightarrow> database \<Rightarrow> bool" where
  "keeps db0 L db \<longleftrightarrow> db_ok db \<and> L \<subseteq> valid_paths db \<and> (\<forall>x \<in> L. refs_of db `` {x} = refs_of db0 `` {x})"

lemma rtrancl_last_step:
  assumes "(r, p) \<in> E\<^sup>*" and "r \<noteq> p"
  shows "\<exists>q. q \<noteq> p \<and> (r, q) \<in> E\<^sup>* \<and> (q, p) \<in> E"
proof -
  have "p = r \<or> (\<exists>q. q \<noteq> p \<and> (r, q) \<in> E\<^sup>* \<and> (q, p) \<in> E)"
    using assms(1)
  proof (induction rule: rtrancl_induct)
    case (step y z)
    then show ?case by (cases "y = z") blast+
  qed simp
  with assms(2) show ?thesis by blast
qed

text \<open>A path that can be invalidated and is not a root is not live.\<close>

lemma invalidated_not_live:
  assumes "keeps db0 (reachable_valid db0 roots) db" and "invalidates db p db'" and "p \<notin> roots"
  shows "p \<notin> reachable_valid db0 roots" and "keeps db0 (reachable_valid db0 roots) db'"
proof -
  let ?L = "reachable_valid db0 roots"
  show notin: "p \<notin> ?L"
  proof
    assume "p \<in> ?L"
    then obtain r where r: "r \<in> roots" "(r, p) \<in> (refs_of db0)\<^sup>*" by (auto simp: reachable_valid_def)
    with assms(3) obtain q where q: "q \<noteq> p" "(r, q) \<in> (refs_of db0)\<^sup>*" "(q, p) \<in> refs_of db0"
      using rtrancl_last_step [OF r(2)] by blast
    then have "q \<in> ?L" using r(1) refs_of_valid [of db0] by (auto simp: reachable_valid_def)
    with q(3) assms(1) have "(q, p) \<in> refs_of db" by (auto simp: keeps_def)
    with q(1) assms(2) show False by (auto simp: invalidates_def)
  qed
  show "keeps db0 ?L db'" using assms(1,2) notin by (auto simp: keeps_def invalidates_def)
qed

text \<open>
  The invariant of a collection.  Names of the form \<open>...-gc-<pid>\<close> are the collector's own.
\<close>

definition gc_inv :: "'c GCEnv \<Rightarrow> GCState \<Rightarrow> GCState \<Rightarrow> bool" where
  "gc_inv g s0 s \<longleftrightarrow>
     (let L = reachable_valid (lsDB (gsStore s0)) (set (gsRoots s0))
      in gsRoots s = gsRoots s0 \<and> keeps (lsDB (gsStore s0)) L (lsDB (gsStore s)) \<and>
         (\<forall>p \<in> L. map_of (gsDisk s) p = map_of (gsDisk s0) p) \<and>
         (\<forall>t \<in> set (gsInvalidated s). hasSuffix t (''-gc-'' @ gcPid g)))"

abbreviation live_at_start :: "GCState \<Rightarrow> path set" where
  "live_at_start s0 \<equiv> reachable_valid (lsDB (gsStore s0)) (set (gsRoots s0))"

definition no_gc_names :: "'c GCEnv \<Rightarrow> database \<Rightarrow> bool" where
  "no_gc_names g db \<longleftrightarrow> (\<forall>p \<in> valid_paths db. \<not> hasSuffix p (''-gc-'' @ gcPid g))"

lemma hasSuffix_append [simp]: "hasSuffix (p @ t) t"
  by (simp add: hasSuffix_def)

lemma map_of_filter_neq: "q \<noteq> p \<Longrightarrow> map_of (filter (\<lambda>f. fst f \<noteq> p) d) q = map_of d q"
  by (induction d) auto

lemma map_of_filter_neq2: "q \<noteq> p \<Longrightarrow> q \<noteq> r \<Longrightarrow> map_of (filter (\<lambda>f. fst f \<noteq> p \<and> fst f \<noteq> r) d) q = map_of d q"
  by (induction d) auto

lemma deleteGarbage_inv:
  assumes "gc_inv g s0 s" and "p \<notin> live_at_start s0"
  shows "gc_inv g s0 (snd (deleteGarbage g p s))"
proof -
  have "map_of (filter (\<lambda>f. fst f \<noteq> p) (gsDisk s)) q = map_of (gsDisk s) q" if "q \<in> live_at_start s0" for q
    using assms(2) that by (intro map_of_filter_neq) auto
  then show ?thesis using assms(1) by (auto simp: gc_inv_def deleteGarbage_def Let_def split: option.splits)
qed

text \<open>Invalidating a path that is not a root: the live paths stay, and the path was not one of them.\<close>

lemma invalidatePathChecked_inv:
  assumes "gc_inv g s0 s" and "invalidatePathChecked storeDir i (gsStore s) = Inr st" and "nul_free i"
    and "i \<notin> set (gsRoots s0)" and "LocalStore_isValidPath (lsDB (gsStore s)) i"
  shows "gc_inv g s0 (s\<lparr>gsStore := st\<rparr>)" and "i \<notin> live_at_start s0"
proof -
  let ?L = "live_at_start s0"
  have keeps: "keeps (lsDB (gsStore s0)) ?L (lsDB (gsStore s))" using assms(1) by (simp add: gc_inv_def Let_def)
  then have "db_ok (lsDB (gsStore s))" by (simp add: keeps_def)
  from invalidatePathChecked_Inr [OF assms(2) this] assms(3,5)
  have inv: "invalidates (lsDB (gsStore s)) i (lsDB st)" by (simp add: isValidPath_iff)
  note k = invalidated_not_live [OF keeps inv assms(4)]
  show "i \<notin> ?L" by (rule k(1))
  show "gc_inv g s0 (s\<lparr>gsStore := st\<rparr>)" using k(2) assms(1) by (simp add: gc_inv_def Let_def)
qed

lemma gc_invalidate_inv:
  assumes "gc_inv g s0 s" and "nul_free i" and "i \<notin> set (gsRoots s0)"
    and "LocalStore_isValidPath (lsDB (gsStore s)) i" and "no_gc_names g (lsDB (gsStore s0))"
  shows "gc_inv g s0 (snd (gc_invalidate g i s))"
proof (cases "LocalStore_queryPathInfo (nixStore (gcCfg g)) (lsDB (gsStore s)) i")
  case (Inr info)
  let ?s = "s\<lparr>gsBytesInvalidated := gsBytesInvalidated s + viNarSize info\<rparr>"
  have s: "gc_inv g s0 ?s" using assms(1) by (simp add: gc_inv_def Let_def)
  show ?thesis
  proof (cases "invalidatePathChecked (nixStore (gcCfg g)) i (gsStore ?s)")
    case inl: (Inl e)
    then show ?thesis using Inr s by (simp add: gc_invalidate_def Let_def)
  next
    case inr: (Inr st)
    note k = invalidatePathChecked_inv [OF s inr assms(2,3)]
    define tmp where "tmp = i @ ''-gc-'' @ gcPid g"
    have suff: "hasSuffix tmp (''-gc-'' @ gcPid g)" unfolding tmp_def by (rule hasSuffix_append)
    then have "tmp \<notin> live_at_start s0"
      using assms(5) unfolding no_gc_names_def reachable_valid_def by blast
    then have disk: "map_of ((tmp, nd) # filter (\<lambda>f. fst f \<noteq> i \<and> fst f \<noteq> tmp) d) q = map_of d q"
      if "q \<in> live_at_start s0" for q d and nd :: fs
      using k(2) assms(4) that map_of_filter_neq2 [of q i tmp d] by auto
    have k1: "gc_inv g s0 (?s\<lparr>gsStore := st\<rparr>)" using k(1) assms(4) by simp
    then have "gc_inv g s0 (?s\<lparr>gsStore := st, gsDisk := (tmp, nd) # filter (\<lambda>f. fst f \<noteq> i \<and> fst f \<noteq> tmp) (gsDisk s),
        gsInvalidated := set_insert tmp (gsInvalidated s)\<rparr>)" for nd
      unfolding gc_inv_def Let_def using disk suff by (auto simp del: map_of.simps append.simps)
    with k1 Inr inr show ?thesis
      unfolding gc_invalidate_def Let_def tmp_def [symmetric] by (simp split: option.splits)
  qed
qed (use assms in \<open>simp add: gc_invalidate_def Let_def\<close>)

lemma gc_delete_inv:
  assumes "gc_inv g s0 s" and "nul_free i" and "i \<notin> set (gsRoots s0)" and "no_gc_names g (lsDB (gsStore s0))"
  shows "gc_inv g s0 (snd (gc_delete g options isDir i s))"
proof -
  have dead: "i \<notin> live_at_start s0" if "\<not> LocalStore_isValidPath (lsDB (gsStore s)) i"
    using that assms(1,2) by (auto simp: gc_inv_def keeps_def isValidPath_iff Let_def)
  let ?step = "\<lambda>state. if LocalStore_isValidPath (lsDB (gsStore state)) i then
      if isDir then gc_invalidate g i state
      else (case invalidatePathChecked (nixStore (gcCfg g)) i (gsStore state) of
              Inl e \<Rightarrow> (Inl e, state)
            | Inr st \<Rightarrow> deleteGarbage g i (state\<lparr>gsStore := st\<rparr>))
    else deleteGarbage g i state"
  have step: "gc_inv g s0 (snd (?step s))"
    using assms dead gc_invalidate_inv [OF assms(1-3) _ assms(4)] invalidatePathChecked_inv [OF assms(1) _ assms(2,3)]
    by (auto simp: deleteGarbage_inv split: sum.splits)
  have upd: "gc_inv g s0 (t\<lparr>gsDeleted := x\<rparr>)" "gc_inv g s0 (t\<lparr>gsDeleted := x, gsPaths := y\<rparr>)" if "gc_inv g s0 t" for t x y
    using that by (simp_all add: gc_inv_def Let_def)
  obtain r t where rt: "?step s = (r, t)" by (cases "?step s")
  then have "gc_inv g s0 t" using step by simp
  with rt assms(1) upd show ?thesis
    by (auto simp: gc_delete_def bindS_def Let_def split: sum.splits prod.splits if_splits)
qed

lemma valid_nul_free: "db_ok db \<Longrightarrow> p \<in> valid_paths db \<Longrightarrow> nul_free p"
  by (auto simp: db_ok_def valid_paths_def)

lemma mentioned_nul_free: "db_ok db \<Longrightarrow> p \<in> mentioned db \<Longrightarrow> nul_free p"
  by (auto simp: db_ok_def mentioned_def)

lemma gc_component_loop_nul_free:
  assumes "gc_component_loop storeDir ko kd db todo paths = Inr R" and "db_ok db"
    and "\<forall>p \<in> set todo \<union> set paths. nul_free p"
  shows "\<forall>p \<in> set R. nul_free p"
  using assms
proof (induction storeDir ko kd db todo paths rule: gc_component_loop.induct)
  case (1 storeDir ko kd db todo paths)
  show ?case
  proof (cases "todo = []")
    case True
    with 1 show ?thesis by (simp add: gc_component_loop.simps)
  next
    case False
    let ?p = "hd todo"
    from 1(3) False have sp: "assertStorePath storeDir ?p = Inr ()"
      by (auto simp: gc_component_loop.simps [of _ _ _ _ todo] bindE_eq_Inr Let_def)
    have p: "?p \<in> set todo" using False by simp
    show ?thesis
    proof (cases "?p \<in> set paths")
      case True
      with 1(3) False sp have "gc_component_loop storeDir ko kd db (set_erase ?p todo) paths = Inr R"
        by (simp add: gc_component_loop.simps [of _ _ _ _ todo] Let_def)
      from 1(1) [OF False refl sp refl True this 1(4)] 1(5) show ?thesis by auto
    next
      case new: False
      with 1(3) False sp obtain t1 t2 where t: "gc_outputs kd db ?p (set_erase ?p todo) = Inr t1"
          "gc_derivers storeDir ko db ?p t1 = Inr t2"
        and rec: "gc_component_loop storeDir ko kd db t2 (set_insert ?p paths) = Inr R"
        by (auto simp: gc_component_loop.simps [of _ _ _ _ todo] Let_def bindE_eq_Inr)
      have "set t2 \<subseteq> set todo \<union> mentioned db" using gc_outputs_set [OF t(1)] gc_derivers_set [OF t(2)] by auto
      then have "\<forall>p \<in> set t2 \<union> set (set_insert ?p paths). nul_free p"
        using 1(5) p mentioned_nul_free [OF 1(4)] by auto
      from 1(2) [OF False refl sp refl new t rec 1(4) this] show ?thesis .
    qed
  qed
qed

lemma gc_component_nul_free:
  assumes "gc_component storeDir s p = Inr (Some paths)" and "db_ok (lsDB (gsStore s))" and "nul_free p"
  shows "\<forall>i \<in> set paths. nul_free i"
  using assms gc_component_loop_nul_free [of storeDir "gsKeepOutputs s" "gsKeepDerivations s" "lsDB (gsStore s)" "[p]" "[]"]
  by (auto simp: gc_component_def Let_def bindE_eq_Inr split: if_splits)

lemma gc_referrers_set:
  assumes "gc_referrers storeDir db paths = Inr R" and "db_ok db"
  shows "set R = (refs_of db)\<inverse> `` bind_text ` set paths"
proof -
  let ?f = "\<lambda>i referrers. if LocalStore_isValidPath db i then LocalStore_queryReferrers storeDir db i referrers else Inr referrers"
  have step: "set S = set P \<union> (refs_of db)\<inverse> `` {bind_text i}" if "?f i P = Inr S" for i P S
    using that assms(2) refs_of_valid [of db]
    by (auto simp: LocalStore_queryReferrers_def bindE_eq_Inr set_stmtQueryReferrers isValidPath_iff split: if_splits)
  have "set R = set [] \<union> (\<Union>i \<in> set paths. (refs_of db)\<inverse> `` {bind_text i})"
    using assms(1) unfolding gc_referrers_def
    by (rule foldE_visits [where R = "\<lambda>S P Q. set Q = set P \<union> S", rotated 3]) (auto simp: step simp del: converse_iff)
  then show ?thesis by auto
qed

lemma gc_isLive_fields [simp]:
  "gsRoots (gc_isLive a paths s) = gsRoots s" "gsStore (gc_isLive a paths s) = gsStore s"
  "gsDisk (gc_isLive a paths s) = gsDisk s" "gsInvalidated (gc_isLive a paths s) = gsInvalidated s"
  "gsDeleted (gc_isLive a paths s) = gsDeleted s"
  unfolding gc_isLive_def by (induction paths arbitrary: s) (simp_all add: Let_def)

lemma gc_try_referrers_inv:
  assumes "P s" and "\<And>i s. i \<in> set is \<Longrightarrow> P s \<Longrightarrow> P (snd (try i s))"
  shows "P (snd (gc_try_referrers try paths is s))"
  using assms
proof (induction "is" arbitrary: s)
  case (Cons i "is")
  have "P (snd (try i s))" using Cons.prems by simp
  with Cons show ?case by (cases "try i s") (auto simp: bindS_def split: sum.splits)
qed simp

lemma gc_inv_live: "gc_inv g s0 s \<Longrightarrow> gc_inv g s0 (gc_isLive a paths s)"
  by (simp add: gc_inv_def)

lemma tryToDelete_inv:
  assumes "no_gc_names g (lsDB (gsStore s0))" and "gc_inv g s0 s" and "nul_free p"
  shows "gc_inv g s0 (snd (tryToDelete n g options p s))"
  using assms(2,3)
proof (induction n arbitrary: p s)
  case (Suc n)
  have ok: "db_ok (lsDB (gsStore s))" using Suc.prems(1) by (simp add: gc_inv_def keeps_def Let_def)
  have main: "gc_inv g s0 (snd (bindS (gc_try_referrers (tryToDelete n g options) paths referrers) (\<lambda>garbage state.
      if \<not> garbage then (Inr False, gc_isLive (action options) paths state)
      else case topoSortPaths (Suc (length paths)) (queryAPI (gcCfg g) (lsDB (gsStore state))) paths of
        Inl e \<Rightarrow> (Inl e, state)
      | Inr pathsSorted \<Rightarrow> bindS (foldS (gc_delete g options isDir) pathsSorted) (\<lambda>_ state. (Inr True, state)) state) s))"
    if c: "gc_component (nixStore (gcCfg g)) s p = Inr (Some paths)" "set paths \<inter> set (gsRoots s) = {}"
      "gc_referrers (nixStore (gcCfg g)) (lsDB (gsStore s)) paths = Inr referrers" for paths referrers isDir
  proof -
    have nf: "\<forall>i \<in> set paths. nul_free i" by (rule gc_component_nul_free [OF c(1) ok Suc.prems(2)])
    have disj: "set paths \<inter> set (gsRoots s0) = {}" using c(2) Suc.prems(1) by (simp add: gc_inv_def Let_def)
    have refs: "nul_free i" if "i \<in> set referrers" for i
      using that gc_referrers_set [OF c(3) ok] refs_of_valid [of "lsDB (gsStore s)"] valid_nul_free [OF ok] by auto
    obtain r t where rt: "gc_try_referrers (tryToDelete n g options) paths referrers s = (r, t)"
      by (cases "gc_try_referrers (tryToDelete n g options) paths referrers s")
    have t: "gc_inv g s0 t"
      using gc_try_referrers_inv [of "gc_inv g s0" s referrers "tryToDelete n g options" paths] Suc.IH refs Suc.prems(1) rt by simp
    have fold: "gc_inv g s0 (snd (foldS (gc_delete g options isDir) sorted t))" if "set sorted = set paths" for sorted
      using t nf disj assms(1) that
      by (intro foldS_invariant [where P = "gc_inv g s0"] gc_delete_inv) auto
    show ?thesis
    proof (cases r)
      case (Inr b)
      show ?thesis
      proof (cases b)
        case True
        show ?thesis
        proof (cases "topoSortPaths (Suc (length paths)) (queryAPI (gcCfg g) (lsDB (gsStore t))) paths")
          case sort: (Inr sorted)
          then have "set sorted = set paths" using topoSortPaths_Inr [OF sort] by simp
          from fold [OF this] Inr True rt sort show ?thesis
            by (auto simp: bindS_def split: prod.splits sum.splits)
        qed (use Inr True rt t in \<open>simp add: bindS_def\<close>)
      qed (use Inr rt t gc_inv_live in \<open>simp add: bindS_def\<close>)
    qed (use rt t in \<open>simp add: bindS_def\<close>)
  qed
  show ?case
    using Suc.prems(1) main gc_inv_live [OF Suc.prems(1)]
    by (simp add: Let_def split: option.splits sum.splits)
qed simp

lemma gc_scan_inv:
  assumes "no_gc_names g (lsDB (gsStore s0))" and "gc_inv g s0 s" and "\<forall>f \<in> set (gsDisk s). nul_free (fst f)"
  shows "gc_inv g s0 (snd (snd (gc_scan g options ([], s)))) \<and>
    (\<forall>p \<in> set (fst (snd (gc_scan g options ([], s)))). nul_free p)"
proof -
  let ?P = "\<lambda>es. gc_inv g s0 (snd es) \<and> (\<forall>p \<in> set (fst es). nul_free p)"
  have "?P (snd (gc_scan g options ([], s)))" unfolding gc_scan_def prod.case
  proof (rule foldS_invariant [where P = ?P])
    show "?P ([], s)" using assms(2) by simp
    fix p es assume p: "p \<in> set (map fst (gsDisk s))" and es: "?P es"
    obtain entries t where t: "es = (entries, t)" by (cases es)
    have "gc_inv g s0 (snd (tryToDelete (gcDepth g) g options p t))"
      using tryToDelete_inv [OF assms(1)] es t p assms(3) by auto
    then show "?P (snd (case es of (entries, state) \<Rightarrow>
        if LocalStore_isValidPath (lsDB (gsStore state)) p then (Inr (), entries @ [p], state)
        else (case tryToDelete (gcDepth g) g options p state of
                (Inl e, state) \<Rightarrow> (Inl e, entries, state)
              | (Inr _, state) \<Rightarrow> (Inr (), entries, state))))"
      using es t p assms(3) by (auto split: prod.splits sum.splits)
  qed
  then show ?thesis by simp
qed

lemma bindS_state: "P (snd (m s)) \<Longrightarrow> (\<And>x t. m s = (Inr x, t) \<Longrightarrow> P t \<Longrightarrow> P (snd (f x t))) \<Longrightarrow> P (snd (bindS m f s))"
  by (auto simp: bindS_def split: prod.splits sum.splits)

lemma gc_delete_dead_inv:
  assumes "no_gc_names g (lsDB (gsStore s0))" and "gc_inv g s0 s" and "\<forall>f \<in> set (gsDisk s). nul_free (fst f)"
    and "\<And>xs. set (randomShuffle g xs) \<subseteq> set xs"
  shows "gc_inv g s0 (snd (gc_delete_dead g options s))"
proof -
  obtain r entries t where scan: "gc_scan g options ([], s) = (r, entries, t)" by (metis prod_cases3)
  with gc_scan_inv [OF assms(1-3), of options] have t: "gc_inv g s0 t" "\<forall>p \<in> set entries. nul_free p" by auto
  have "gc_inv g s0 (snd (foldS (\<lambda>p. bindS (tryToDelete (gcDepth g) g options p) (\<lambda>_ state. (Inr (), state)))
      (randomShuffle g entries) t))"
  proof (rule foldS_invariant [where P = "gc_inv g s0"])
    fix p u assume "p \<in> set (randomShuffle g entries)" "gc_inv g s0 u"
    then show "gc_inv g s0 (snd (bindS (tryToDelete (gcDepth g) g options p) (\<lambda>_ state. (Inr (), state)) u))"
      using assms(4) [of entries] t(2)
      by (intro bindS_state [where P = "gc_inv g s0"] tryToDelete_inv [OF assms(1)]) auto
  qed (rule t(1))
  then show ?thesis using scan t(1) by (simp add: gc_delete_dead_def split: sum.splits)
qed

lemma gc_delete_specific_inv:
  assumes "no_gc_names g (lsDB (gsStore s0))" and "gc_inv g s0 s" and "\<forall>p \<in> set (pathsToDelete options). nul_free p"
  shows "gc_inv g s0 (snd (gc_delete_specific g options s))"
  unfolding gc_delete_specific_def
proof (rule foldS_invariant [where P = "gc_inv g s0"])
  fix p u assume p: "p \<in> set (pathsToDelete options)" and u: "gc_inv g s0 u"
  let ?rest = "\<lambda>b state. if b then (Inr (), state)
    else (Inl (Error (''cannot delete path `'' @ p @ [CHR 0x27] @ '' since it is still alive'')), state)"
  have "gc_inv g s0 (snd (bindS (tryToDelete (gcDepth g) g options p) ?rest u))"
    using p u assms(3)
    by (intro bindS_state [where P = "gc_inv g s0"] tryToDelete_inv [OF assms(1)]) auto
  with u show "gc_inv g s0 (snd (case assertStorePath (nixStore (gcCfg g)) p of Inl e \<Rightarrow> (Inl e, u)
      | Inr _ \<Rightarrow> bindS (tryToDelete (gcDepth g) g options p) ?rest u))"
    by (simp split: sum.splits)
qed (rule assms(2))

lemma gc_inv_start: "db_ok (lsDB (gsStore s)) \<Longrightarrow> gsInvalidated s = [] \<Longrightarrow> gc_inv g s s"
  by (auto simp: gc_inv_def keeps_def reachable_valid_def Let_def)

lemma invalidated_dead:
  assumes "gc_inv g s0 s" and "no_gc_names g (lsDB (gsStore s0))" and "t \<in> set (gsInvalidated s)"
  shows "t \<notin> live_at_start s0"
  using assms unfolding gc_inv_def no_gc_names_def reachable_valid_def Let_def by blast

lemma foldS_deleteGarbage_inv:
  assumes "gc_inv g s0 s" and "\<forall>t \<in> set ts. t \<notin> live_at_start s0"
  shows "gc_inv g s0 (snd (foldS (deleteGarbage g) ts s))"
  using assms by (intro foldS_invariant [where P = "gc_inv g s0"] deleteGarbage_inv) auto

lemma catchLimit_state [simp]: "snd (catchLimit m s) = snd (m s)"
  by (simp add: catchLimit_def split: prod.splits sum.splits)

lemma gc_collect_inv:
  assumes "no_gc_names g (lsDB (gsStore s0))" and "gc_inv g s0 s" and "\<forall>f \<in> set (gsDisk s). nul_free (fst f)"
    and "\<forall>p \<in> set (pathsToDelete options). nul_free p" and "\<And>xs. set (randomShuffle g xs) \<subseteq> set xs"
  shows "gc_inv g s0 (snd (gc_collect g options s))"
  unfolding gc_collect_def
proof (rule bindS_state [where P = "gc_inv g s0"])
  show "gc_inv g s0 (snd (if action options = gcDeleteSpecific then gc_delete_specific g options s
      else if maxFreed options > 0 then catchLimit (gc_delete_dead g options) s else (Inr (), s)))"
    using gc_delete_specific_inv [OF assms(1,2,4)] gc_delete_dead_inv [OF assms(1-3,5)] assms(2) by simp
  fix t assume "gc_inv g s0 t"
  then show "gc_inv g s0 (snd (foldS (deleteGarbage g) (gsInvalidated t) t))"
    using invalidated_dead [OF _ assms(1)] by (intro foldS_deleteGarbage_inv) auto
qed

text \<open>What a caller may rely on after a collection.\<close>

definition survives :: "GCWorld \<Rightarrow> path set \<Rightarrow> GCWorld \<Rightarrow> bool" where
  "survives w L w' \<longleftrightarrow> db_ok (lsDB (gwStore w')) \<and> L \<subseteq> valid_paths (lsDB (gwStore w')) \<and>
     (\<forall>p \<in> L. refs_of (lsDB (gwStore w')) `` {p} = refs_of (lsDB (gwStore w)) `` {p} \<and>
        map_of (gwDisk w') p = map_of (gwDisk w) p)"

lemma gc_finish_survives:
  assumes "gc_inv g s0 (snd (body s0))" and "gsStore s0 = gwStore w" and "gsDisk s0 = gwDisk w"
  shows "survives w (live_at_start s0) (snd (gc_finish options w body s0))"
proof -
  obtain r s where run: "body s0 = (r, s)" by (cases "body s0")
  have "gwStore (snd (gc_finish options w body s0)) = gsStore s" "gwDisk (snd (gc_finish options w body s0)) = gsDisk s"
    using run by (auto simp: gc_finish_def Let_def split: sum.splits prod.splits)
  with assms run show ?thesis by (simp add: survives_def gc_inv_def keeps_def Let_def)
qed

text \<open>
  C1: the collector never deletes a live path.  Whatever \<^verbatim>\<open>collectGarbage\<close> is asked to do and however it
  ends, normally, at the space limit or with an exception: every valid path that is reachable through
  references from the roots it found is still valid, with the same references and the same contents on
  disk, and the database keeps its invariant.  File names contain no null characters, \<^verbatim>\<open>random_shuffle\<close>
  returns elements of its argument, and no valid path has the name of a path the collector is deleting.
\<close>

theorem collectGarbage_keeps_live:
  assumes "db_ok (lsDB (gwStore w))" and "no_gc_names g (lsDB (gwStore w))"
    and "\<forall>f \<in> set (gwDisk w). nul_free (fst f)" and "\<forall>p \<in> set (pathsToDelete options). nul_free p"
    and "\<And>xs. set (randomShuffle g xs) \<subseteq> set xs"
    and "gc_roots g options w = (Inr (roots, tempRoots), w1)"
  shows "survives w (reachable_valid (lsDB (gwStore w)) (set roots)) (snd (collectGarbage g options w))"
proof -
  let ?s = "gc_start g options roots tempRoots w1"
  have w1: "gwStore w1 = gwStore w" "gwDisk w1 = gwDisk w"
    using assms(6) by (auto simp: gc_roots_def Let_def split: prod.splits sum.splits if_splits)
  have s: "gsStore ?s = gwStore w" "gsDisk ?s = gwDisk w" "gsRoots ?s = roots" "gsInvalidated ?s = []"
    using w1 by (simp_all add: gc_start_def Let_def)
  have inv: "gc_inv g ?s ?s" using assms(1) s by (intro gc_inv_start) simp_all
  have names: "no_gc_names g (lsDB (gsStore ?s))" using assms(2) s by simp
  have "gc_inv g ?s (snd (gc_collect g options ?s))"
    using assms(3-5) s(2) by (intro gc_collect_inv [OF names inv]) simp_all
  then have "survives w1 (live_at_start ?s) (snd (gc_finish options w1 (gc_collect g options) ?s))"
    using s w1 by (intro gc_finish_survives) simp_all
  with s w1 assms(6) show ?thesis by (simp add: collectGarbage_def survives_def)
qed

definition demo_row :: "int \<Rightarrow> path \<Rightarrow> ValidPathsRow" where
  "demo_row i p = \<lparr>rowId = i, rowPath = p, rowHash = ''sha256:'' @ replicate 64 (CHR ''0''), rowRegistrationTime = 1,
     rowDeriver = None, rowNarSize = None\<rparr>"

text \<open>A store with a root, the path it refers to, and a path that is garbage.\<close>

definition demo_world :: GCWorld where
  "demo_world = \<lparr>gwStore = \<lparr>lsDB = emptyDB\<lparr>ValidPaths := [demo_row 1 ''/nix/store/a'', demo_row 2 ''/nix/store/b'',
       demo_row 3 ''/nix/store/c''], sequence := 3, Refs := [(2, 1), (3, 1)]\<rparr>, lsDrvHashes = []\<rparr>,
     gwDisk = [(''/nix/store/a'', Regular False []), (''/nix/store/b'', Directory []), (''/nix/store/c'', Directory [])],
     gwFiles = [(''/var'', Dir), (''/var/gcroots'', Dir), (''/var/gcroots/r'', Link ''/nix/store/b'')],
     gwTempRoots = [], gwLinks = []\<rparr>"

definition demo_gcenv :: "bytes GCEnv" where
  "demo_gcenv = \<lparr>gcCfg = demo_cfg, gcPid = ''77'', freedBy = (\<lambda>_ _. 1), rootFinder = None, randomShuffle = rev,
     gcKeepOutputs = False, gcKeepDerivations = False, gcDepth = 4, gcRootSettings = demo_gc\<rparr>"

lemma demo_collection:
  "case collectGarbage demo_gcenv GCOptions_new demo_world of (r, w) \<Rightarrow>
     r = Inr ([''/nix/store/c''], 1) \<and> map rowPath (ValidPaths (lsDB (gwStore w))) = [''/nix/store/a'', ''/nix/store/b''] \<and>
     map fst (gwDisk w) = [''/nix/store/a'', ''/nix/store/b'']"
  by code_simp

theorem collectGarbage_keeps_live_witness:
  "survives demo_world (reachable_valid (lsDB (gwStore demo_world)) {''/nix/store/b''})
     (snd (collectGarbage demo_gcenv GCOptions_new demo_world)) \<and>
   {''/nix/store/a'', ''/nix/store/b''} \<subseteq> reachable_valid (lsDB (gwStore demo_world)) {''/nix/store/b''}"
proof -
  have roots: "gc_roots demo_gcenv GCOptions_new demo_world = (Inr ([''/nix/store/b''], []), demo_world)"
    by code_simp
  have ok: "db_ok (lsDB (gwStore demo_world))"
    by (simp add: db_ok_def demo_world_def demo_row_def emptyDB_def ids_def nul_free_def)
  have "no_gc_names demo_gcenv (lsDB (gwStore demo_world))"
    by (simp add: no_gc_names_def demo_world_def demo_row_def demo_gcenv_def valid_paths_def hasSuffix_def)
  moreover have "\<forall>f \<in> set (gwDisk demo_world). nul_free (fst f)" by (simp add: demo_world_def nul_free_def)
  moreover have "(''/nix/store/b'', ''/nix/store/a'') \<in> refs_of (lsDB (gwStore demo_world))"
    using refs_of_iff [OF ok, of "demo_row 2 ''/nix/store/b''" "demo_row 1 ''/nix/store/a''"]
    by (simp add: demo_world_def) (simp add: demo_row_def)
  ultimately show ?thesis
    using ok collectGarbage_keeps_live [OF _ _ _ _ _ roots]
    by (auto simp: GCOptions_new_def demo_gcenv_def reachable_valid_def valid_paths_def demo_world_def demo_row_def)
qed

end
