(* ===== verification/References.thy ===== *)
theory References
  imports Archive "HOL-Library.Sublist"
begin

text \<open>
  Finding the references of a path: \<^verbatim>\<open>src/libstore/references.cc\<close>.  The sink scans a dump that
  arrives in fragments; the hash parts it looks for may span several of them.  Lengths are below
  4 GiB (the dump's fragments are at most 64 KiB), so the \<^verbatim>\<open>unsigned int\<close> indices do not wrap.
\<close>

subsection \<open>The scanner\<close>

definition refLength :: nat where
  "refLength = 32"

definition isBase32 :: "byte \<Rightarrow> bool" where
  "isBase32 b \<longleftrightarrow> char_of_byte b \<in> set base32Chars"

text \<open>The inner loop, downwards from \<open>j - 1\<close>: the first offset that is not a base-32 character.\<close>

fun search_mismatch :: "bytes \<Rightarrow> nat \<Rightarrow> nat \<Rightarrow> nat option" where
  "search_mismatch s i 0 = None"
| "search_mismatch s i (Suc j) =
     (if \<not> isBase32 (s ! (i + j)) then Some j else search_mismatch s i j)"

lemma refLength_pos: "0 < refLength"
  by (simp add: refLength_def)

function search_loop :: "bytes \<Rightarrow> nat \<Rightarrow> string list \<times> string list \<Rightarrow> string list \<times> string list" where
  "search_loop s i (hashes, seen) =
     (if i + refLength \<le> length s then
        (case search_mismatch s i refLength of
           Some j \<Rightarrow> search_loop s (i + j + 1) (hashes, seen)
         | None \<Rightarrow>
             let ref = of_bytes (take refLength (drop i s))
             in if ref \<in> set hashes
                then search_loop s (i + 1) (set_erase ref hashes, set_insert ref seen)
                else search_loop s (i + 1) (hashes, seen))
      else (hashes, seen))"
  by pat_completeness auto
termination
  by (relation "measure (\<lambda>(s, i, st). length s + 1 - i)") (use refLength_pos in auto)

declare search_loop.simps [simp del]

definition search :: "bytes \<Rightarrow> string list \<Rightarrow> string list \<Rightarrow> string list \<times> string list" where
  "search s hashes seen = search_loop s 0 (hashes, seen)"

record 'c RefScanSink =
  rsHashSink :: "'c HashSink BufferedSink"
  rsHashes :: "string list"
  rsSeen :: "string list"
  rsTail :: bytes

definition RefScanSink_new :: "'c digest \<Rightarrow> 'c RefScanSink" where
  "RefScanSink_new dg = \<lparr>rsHashSink = HashSink_new dg htSHA256, rsHashes = [], rsSeen = [], rsTail = []\<rparr>"

definition RefScanSink_call :: "'c digest \<Rightarrow> bytes \<Rightarrow> 'c RefScanSink \<Rightarrow> 'c RefScanSink res" where
  "RefScanSink_call dg data snk =
     bindE (BufferedSink_call (HashSink_write dg) data (rsHashSink snk)) (\<lambda>hs.
       let len = length data;
           s = rsTail snk @ take (if len > refLength then refLength else len) data;
           (hashes, seen) = search s (rsHashes snk) (rsSeen snk);
           (hashes, seen) = search data hashes seen;
           tailLen = (if len \<le> refLength then len else refLength);
           tail = drop (if length (rsTail snk) < refLength - tailLen then 0
                        else length (rsTail snk) - (refLength - tailLen)) (rsTail snk)
                  @ take tailLen (drop (len - tailLen) data)
       in Inr \<lparr>rsHashSink = hs, rsHashes = hashes, rsSeen = seen, rsTail = tail\<rparr>)"

definition add_reference ::
  "path \<Rightarrow> string list \<times> (string \<times> path) list \<Rightarrow> (string list \<times> (string \<times> path) list) res" where
  "add_reference r st =
     bindE (baseNameOf r) (\<lambda>baseName.
       case find_char (CHR ''-'') baseName of
         None \<Rightarrow> Inl (Error (''bad reference `'' @ r @ [CHR 0x27]))
       | Some pos \<Rightarrow>
           let s = take pos baseName
           in bindE (guardE (length s = refLength) (AssertFail ''s.size() == refLength'')) (\<lambda>_.
              bindE (guardE (s \<notin> fst ` set (snd st)) (AssertFail ''backMap.find(s) == backMap.end()'')) (\<lambda>_.
                Inr (set_insert s (fst st), map_put s r (snd st)))))"

definition scanForReferences ::
  "'c digest \<Rightarrow> path \<Rightarrow> fs \<Rightarrow> path list \<Rightarrow> (path list \<times> (Hash \<times> u64)) res" where
  "scanForReferences dg path t refs =
     bindE (foldE add_reference refs ([], [])) (\<lambda>(hashes, backMap).
     bindE (dumpPath (RefScanSink_call dg) (\<lambda>p. True) path t ((RefScanSink_new dg)\<lparr>rsHashes := hashes\<rparr>)) (\<lambda>snk.
     bindE (foldE (\<lambda>i found. case map_of backMap i of
                None \<Rightarrow> Inl (AssertFail ''abort'')
              | Some j \<Rightarrow> Inr (set_insert j found)) (rsSeen snk) []) (\<lambda>found.
     bindE (HashSink_finish dg (rsHashSink snk)) (\<lambda>(h, _). Inr (found, h)))))"

subsection \<open>What a scan finds\<close>

text \<open>The windows of \<^verbatim>\<open>refLength\<close> base-32 characters in a sequence of bytes, from an offset on.\<close>

definition windows :: "bytes \<Rightarrow> nat \<Rightarrow> string set" where
  "windows s i = {of_bytes (take refLength (drop k s)) |k.
     i \<le> k \<and> k + refLength \<le> length s \<and> (\<forall>b \<in> set (take refLength (drop k s)). isBase32 b)}"

lemma search_mismatch_Some:
  "search_mismatch s i n = Some j \<Longrightarrow> j < n \<and> \<not> isBase32 (s ! (i + j))"
  by (induction n) (auto split: if_splits)

lemma search_mismatch_None: "search_mismatch s i n = None \<longleftrightarrow> (\<forall>j<n. isBase32 (s ! (i + j)))"
  by (induction n) (auto simp: less_Suc_eq)

lemma window_nth:
  "k + n \<le> length s \<Longrightarrow> (\<forall>b \<in> set (take n (drop k s)). P b) \<longleftrightarrow> (\<forall>j<n. P (s ! (k + j)))"
  by (simp add: all_set_conv_all_nth)

lemma windows_skip:
  assumes "j < refLength" and "\<not> isBase32 (s ! (i + j))"
  shows "windows s i = windows s (i + j + 1)"
proof -
  have "i + j + 1 \<le> k" if k: "i \<le> k" "k + refLength \<le> length s"
      "\<forall>b \<in> set (take refLength (drop k s)). isBase32 b" for k
  proof (rule ccontr)
    assume "\<not> i + j + 1 \<le> k"
    then have "i + j - k < refLength" "k + (i + j - k) = i + j" using assms(1) k(1) by auto
    then have "isBase32 (s ! (i + j))" using k window_nth [of k refLength s isBase32] by metis
    then show False using assms(2) by simp
  qed
  then show ?thesis unfolding windows_def by (auto intro: add_leD1)
qed

lemma windows_hit:
  assumes "search_mismatch s i refLength = None" and "i + refLength \<le> length s"
  shows "windows s i = insert (of_bytes (take refLength (drop i s))) (windows s (i + 1))"
proof -
  have "\<forall>b \<in> set (take refLength (drop i s)). isBase32 b"
    using assms by (simp add: search_mismatch_None window_nth)
  then show ?thesis unfolding windows_def using assms(2)
    by (auto simp: Suc_le_eq) (metis le_eq_less_or_eq)+
qed

lemma windows_end: "\<not> i + refLength \<le> length s \<Longrightarrow> windows s i = {}"
  by (auto simp: windows_def)

lemma search_loop_finds:
  assumes "search_loop s i (hashes, seen) = (hashes', seen')" and "is_set hashes" and "is_set seen"
  shows "is_set hashes' \<and> is_set seen' \<and> set hashes' = set hashes - windows s i \<and>
    set seen' = set seen \<union> (set hashes \<inter> windows s i)"
  using assms
proof (induction s i "(hashes, seen)" arbitrary: hashes seen rule: search_loop.induct)
  case (1 s i hashes seen)
  show ?case
  proof (cases "i + refLength \<le> length s")
    case False
    then show ?thesis using "1.prems" by (simp add: search_loop.simps [of s i] windows_end)
  next
    case le: True
    show ?thesis
    proof (cases "search_mismatch s i refLength")
      case (Some j)
      then have "windows s i = windows s (i + j + 1)"
        using search_mismatch_Some windows_skip by blast
      then show ?thesis using 1 le Some by (simp add: search_loop.simps [of s i])
    next
      case None
      let ?ref = "of_bytes (take refLength (drop i s))"
      note hit = windows_hit [OF None le]
      show ?thesis
      proof (cases "?ref \<in> set hashes")
        case True
        have "search_loop s (i + 1) (set_erase ?ref hashes, set_insert ?ref seen) = (hashes', seen')"
          using "1.prems"(1) le None True by (simp add: search_loop.simps [of s i] Let_def)
        from "1.hyps"(1) [OF le None refl True this] "1.prems"(2,3) hit True show ?thesis by auto
      next
        case False
        have "search_loop s (i + 1) (hashes, seen) = (hashes', seen')"
          using "1.prems"(1) le None False by (simp add: search_loop.simps [of s i] Let_def)
        from "1.hyps"(2) [OF le None refl False this] "1.prems"(2,3) hit False show ?thesis by auto
      qed
    qed
  qed
qed

lemma search_finds:
  assumes "search s hashes seen = (hashes', seen')" and "is_set hashes" and "is_set seen"
  shows "is_set hashes' \<and> is_set seen' \<and> set hashes' = set hashes - windows s 0 \<and>
    set seen' = set seen \<union> (set hashes \<inter> windows s 0)"
  using assms search_loop_finds unfolding search_def by blast

subsection \<open>Scanning in fragments\<close>

lemma windows_mono: "windows s 0 \<subseteq> windows (a @ s @ b) 0"
proof
  fix w assume "w \<in> windows s 0"
  then obtain k where k: "w = of_bytes (take refLength (drop k s))" "k + refLength \<le> length s"
      "\<forall>b \<in> set (take refLength (drop k s)). isBase32 b"
    by (auto simp: windows_def)
  have "take refLength (drop (length a + k) (a @ s @ b)) = take refLength (drop k s)"
    using k(2) by simp
  then show "w \<in> windows (a @ s @ b) 0"
    using k unfolding windows_def by (intro CollectI exI [of _ "length a + k"]) simp
qed

definition tail_of :: "bytes \<Rightarrow> bytes" where
  "tail_of s = drop (length s - refLength) s"

lemma windows_append:
  "windows (s @ d) 0 = windows s 0 \<union> windows (tail_of s @ take refLength d) 0 \<union> windows d 0"
proof
  show "windows s 0 \<union> windows (tail_of s @ take refLength d) 0 \<union> windows d 0 \<subseteq> windows (s @ d) 0"
    using windows_mono [of s "[]" d] windows_mono [of d s "[]"]
      windows_mono [of "tail_of s @ take refLength d" "take (length s - refLength) s" "drop refLength d"]
    by (simp add: tail_of_def) (metis append.assoc append_take_drop_id)
next
  show "windows (s @ d) 0 \<subseteq> windows s 0 \<union> windows (tail_of s @ take refLength d) 0 \<union> windows d 0"
  proof
    fix w assume "w \<in> windows (s @ d) 0"
    then obtain k where w: "w = of_bytes (take refLength (drop k (s @ d)))" and k: "k + refLength \<le> length (s @ d)"
      and b: "\<forall>b \<in> set (take refLength (drop k (s @ d))). isBase32 b"
      by (auto simp: windows_def)
    consider "k + refLength \<le> length s" | "length s \<le> k" | "length s < k + refLength" "k < length s" by linarith
    then show "w \<in> windows s 0 \<union> windows (tail_of s @ take refLength d) 0 \<union> windows d 0"
    proof cases
      case 1
      then have "w \<in> windows s 0" using w b unfolding windows_def by (intro CollectI exI [of _ k]) simp
      then show ?thesis by simp
    next
      case 2
      then have "w \<in> windows d 0" using w b k unfolding windows_def
        by (intro CollectI exI [of _ "k - length s"]) auto
      then show ?thesis by simp
    next
      case 3
      let ?o = "length s - refLength" and ?y = "take (length s + refLength) (s @ d)"
      have y: "tail_of s @ take refLength d = drop ?o ?y" by (simp add: tail_of_def)
      have m: "min refLength (length s + refLength - k) = refLength" using 3 by simp
      have "drop (k - ?o) (drop ?o ?y) = drop k ?y" using 3 by simp
      then have "take refLength (drop (k - ?o) (tail_of s @ take refLength d)) = take refLength (drop k ?y)"
        unfolding y by (rule arg_cong)
      also have "\<dots> = take refLength (drop k (s @ d))"
        by (simp only: drop_take take_take m)
      finally have "take refLength (drop (k - ?o) (tail_of s @ take refLength d)) = take refLength (drop k (s @ d))" .
      moreover have "k - ?o + refLength \<le> length (tail_of s @ take refLength d)"
        using 3 k unfolding y by simp
      ultimately have "w \<in> windows (tail_of s @ take refLength d) 0"
        using w b unfolding windows_def by (intro CollectI exI [of _ "k - ?o"]) simp
      then show ?thesis by simp
    qed
  qed
qed

lemma tail_of_append:
  "tail_of (s @ d) = (let tailLen = (if length d \<le> refLength then length d else refLength)
    in drop (if length (tail_of s) < refLength - tailLen then 0 else length (tail_of s) - (refLength - tailLen)) (tail_of s)
       @ take tailLen (drop (length d - tailLen) d))"
proof (cases "length d \<le> refLength")
  case True
  have "length (tail_of s) - (refLength - length d) + (length s - refLength) = length s + length d - refLength"
    using True by (simp add: tail_of_def)
  then have "drop (length (tail_of s) - (refLength - length d)) (tail_of s) = drop (length s + length d - refLength) s"
    by (subst (2) tail_of_def) (simp only: drop_drop)
  moreover have "(if length (tail_of s) < refLength - length d then 0 else length (tail_of s) - (refLength - length d))
      = length (tail_of s) - (refLength - length d)" by simp
  ultimately show ?thesis using True by (simp add: tail_of_def)
qed (simp add: tail_of_def)

definition scan_state :: "string set \<Rightarrow> bytes \<Rightarrow> 'c RefScanSink \<Rightarrow> bool" where
  "scan_state H s snk \<longleftrightarrow>
     is_set (rsHashes snk) \<and> is_set (rsSeen snk) \<and> rsTail snk = tail_of s
     \<and> set (rsHashes snk) = H - windows s 0 \<and> set (rsSeen snk) = H \<inter> windows s 0"

lemma RefScanSink_call_scans:
  assumes "scan_state H s snk" and "RefScanSink_call dg d snk = Inr snk'"
  shows "scan_state H (s @ d) snk' \<and> BufferedSink_call (HashSink_write dg) d (rsHashSink snk) = Inr (rsHashSink snk')"
proof -
  let ?w = "tail_of s @ take refLength d"
  have t: "tail_of s @ take (if length d > refLength then refLength else length d) d = ?w"
    by simp
  have tl: "rsTail snk = tail_of s" using assms(1) by (simp add: scan_state_def)
  obtain h1 s1 where 1: "search ?w (rsHashes snk) (rsSeen snk) = (h1, s1)" by force
  obtain h2 s2 where 2: "search d h1 s1 = (h2, s2)" by force
  have f1: "is_set h1 \<and> is_set s1 \<and> set h1 = set (rsHashes snk) - windows ?w 0 \<and>
      set s1 = set (rsSeen snk) \<union> (set (rsHashes snk) \<inter> windows ?w 0)"
    using search_finds [OF 1] assms(1) by (simp add: scan_state_def)
  then have f2: "is_set h2 \<and> is_set s2 \<and> set h2 = set h1 - windows d 0 \<and> set s2 = set s1 \<union> (set h1 \<inter> windows d 0)"
    using search_finds [OF 2] by simp
  obtain hs where hs: "BufferedSink_call (HashSink_write dg) d (rsHashSink snk) = Inr hs"
    using assms(2) by (auto simp: RefScanSink_call_def bindE_eq_Inr)
  have "snk' = \<lparr>rsHashSink = hs, rsHashes = h2, rsSeen = s2, rsTail = tail_of (s @ d)\<rparr>"
    using assms(2) unfolding RefScanSink_call_def hs bindE_Inr Let_def
      tl tail_of_append [of s d, unfolded Let_def, symmetric] by (simp add: t 1 2)
  then show ?thesis
    using f1 f2 hs assms(1) windows_append [of s d] by (auto simp: scan_state_def)
qed

lemma RefScanSink_calls_scan:
  assumes "scan_state H s snk" and "foldE (RefScanSink_call dg) ds snk = Inr snk'"
  shows "scan_state H (s @ concat ds) snk' \<and>
    foldE (BufferedSink_call (HashSink_write dg)) ds (rsHashSink snk) = Inr (rsHashSink snk')"
  using assms
proof (induction ds arbitrary: s snk)
  case (Cons d ds)
  then obtain snk1 where 1: "RefScanSink_call dg d snk = Inr snk1" and 2: "foldE (RefScanSink_call dg) ds snk1 = Inr snk'"
    by (auto simp: bindE_eq_Inr)
  from RefScanSink_call_scans [OF Cons.prems(1) 1] Cons.IH [OF _ 2, of "s @ d"] show ?case by auto
qed simp

lemma scan_state_new: "is_set H \<Longrightarrow> scan_state (set H) [] ((RefScanSink_new dg)\<lparr>rsHashes := H\<rparr>)"
  using refLength_pos by (simp add: scan_state_def RefScanSink_new_def tail_of_def windows_def)

subsection \<open>References of a path\<close>

definition hash_part :: "path \<Rightarrow> string" where
  "hash_part r = (case baseNameOf r of Inr b \<Rightarrow> takeWhile (\<lambda>c. c \<noteq> CHR ''-'') b | Inl _ \<Rightarrow> [])"

definition store_ref :: "path \<Rightarrow> bool" where
  "store_ref r \<longleftrightarrow> (case baseNameOf r of Inr b \<Rightarrow> CHR ''-'' \<in> set b | Inl _ \<Rightarrow> False)
     \<and> length (hash_part r) = refLength \<and> set (hash_part r) \<subseteq> set base32Chars"

lemma takeWhile_find: "CHR ''-'' \<in> set b \<Longrightarrow>
  \<exists>n. find_char (CHR ''-'') b = Some n \<and> take n b = takeWhile (\<lambda>c. c \<noteq> CHR ''-'') b"
  by (induction b) auto

lemma add_reference_ok:
  assumes "store_ref r" and "hash_part r \<notin> fst ` set m"
  shows "add_reference r (hs, m) = Inr (set_insert (hash_part r) hs, map_put (hash_part r) r m)"
proof -
  obtain b where b: "baseNameOf r = Inr b" "CHR ''-'' \<in> set b"
    using assms(1) by (auto simp: store_ref_def split: sum.splits)
  from takeWhile_find [OF b(2)] obtain n where "find_char (CHR ''-'') b = Some n" "take n b = hash_part r"
    using b(1) by (auto simp: hash_part_def)
  then show ?thesis using assms b(1) by (simp add: add_reference_def store_ref_def Let_def)
qed

lemma add_references_ok:
  assumes "list_all store_ref rs" and "distinct (map hash_part rs)" and "hash_part ` set rs \<inter> fst ` set m = {}"
    and "is_set hs" and "is_map m"
  shows "\<exists>hs' m'. foldE add_reference rs (hs, m) = Inr (hs', m') \<and> is_set hs' \<and> is_map m' \<and>
    set hs' = set hs \<union> hash_part ` set rs \<and> map_of m' = map_of m ++ map_of (map (\<lambda>r. (hash_part r, r)) rs)"
  using assms
proof (induction rs arbitrary: hs m)
  case (Cons r rs)
  let ?hs = "set_insert (hash_part r) hs" and ?m = "map_put (hash_part r) r m"
  have step: "add_reference r (hs, m) = Inr (?hs, ?m)"
    using Cons.prems by (intro add_reference_ok) auto
  have "hash_part ` set rs \<inter> fst ` set ?m = {}"
    using Cons.prems by auto
  then have "\<exists>hs' m'. foldE add_reference rs (?hs, ?m) = Inr (hs', m') \<and> is_set hs' \<and> is_map m' \<and>
      set hs' = set ?hs \<union> hash_part ` set rs \<and> map_of m' = map_of ?m ++ map_of (map (\<lambda>r. (hash_part r, r)) rs)"
    using Cons.prems by (intro Cons.IH) auto
  then obtain hs' m' where
    *: "foldE add_reference rs (?hs, ?m) = Inr (hs', m')" "is_set hs'" "is_map m'"
      "set hs' = set ?hs \<union> hash_part ` set rs" "map_of m' = map_of ?m ++ map_of (map (\<lambda>r. (hash_part r, r)) rs)"
    by blast
  have "hash_part r \<notin> dom (map_of (map (\<lambda>r. (hash_part r, r)) rs))"
    using Cons.prems(2) by (auto simp: dom_map_of_conv_image_fst)
  then have eq: "map_of m' = map_of m ++ map_of (map (\<lambda>r. (hash_part r, r)) (r # rs))"
    using *(5) Cons.prems(5) by (simp add: map_add_upd_left)
  from step *(1) have "foldE add_reference (r # rs) (hs, m) = Inr (hs', m')" by simp
  moreover have "set hs' = set hs \<union> hash_part ` set (r # rs)" using *(4) by auto
  ultimately show ?case using *(2,3) eq by blast
qed simp

lemma window_sublist:
  assumes "length h = refLength" and "set h \<subseteq> set base32Chars"
  shows "h \<in> windows s 0 \<longleftrightarrow> sublist (to_bytes h) s"
proof
  assume "h \<in> windows s 0"
  then obtain k where "h = of_bytes (take refLength (drop k s))" by (auto simp: windows_def)
  then have "to_bytes h = take refLength (drop k s)" by simp
  then show "sublist (to_bytes h) s" by (metis append_take_drop_id sublist_def)
next
  assume "sublist (to_bytes h) s"
  then obtain a b where s: "s = a @ to_bytes h @ b" by (auto simp: sublist_def)
  have "take refLength (drop (length a) s) = to_bytes h" using s assms(1) by simp
  moreover have "\<forall>x \<in> set (to_bytes h). isBase32 x"
    using assms(2) by (auto simp: isBase32_def to_bytes_def)
  ultimately show "h \<in> windows s 0"
    using s assms(1) unfolding windows_def by (intro CollectI exI [of _ "length a"]) simp
qed

lemma RefScanSink_call_returns:
  "BufferedSink_call (HashSink_write dg) d (rsHashSink snk) = Inr hs \<Longrightarrow>
    \<exists>snk'. RefScanSink_call dg d snk = Inr snk' \<and> rsHashSink snk' = hs"
  by (auto simp: RefScanSink_call_def Let_def split: prod.split)

lemma RefScanSink_calls_return:
  "foldE (BufferedSink_call (HashSink_write dg)) ds (rsHashSink snk) = Inr hs \<Longrightarrow>
    \<exists>snk'. foldE (RefScanSink_call dg) ds snk = Inr snk'"
proof (induction ds arbitrary: snk)
  case (Cons d ds)
  then obtain h1 where h1: "BufferedSink_call (HashSink_write dg) d (rsHashSink snk) = Inr h1"
    and h2: "foldE (BufferedSink_call (HashSink_write dg)) ds h1 = Inr hs"
    by (auto simp: bindE_eq_Inr)
  from RefScanSink_call_returns [OF h1] h2 Cons.IH show ?case by auto
qed simp

lemma map_back:
  assumes "\<forall>i \<in> set seen. m i = Some (f i)"
  shows "foldE (\<lambda>i found. case m i of None \<Rightarrow> Inl (AssertFail ''abort'') | Some j \<Rightarrow> Inr (set_insert j found)) seen acc
    = Inr (set_insert_all (map f seen) acc)"
  using assms by (induction seen arbitrary: acc) (simp_all add: set_insert_all_def)

lemma image_left_inverse: "(\<And>r. r \<in> R \<Longrightarrow> g (f r) = r) \<Longrightarrow> g ` (f ` R \<inter> W) = {r \<in> R. f r \<in> W}"
  by force

lemma map_of_hash_parts:
  "distinct (map hash_part rs) \<Longrightarrow> map_of (map (\<lambda>r. (hash_part r, r)) rs) h = Some r \<longleftrightarrow> r \<in> set rs \<and> hash_part r = h"
  by (auto simp: map_of_eq_Some_iff comp_def)

text \<open>The references whose hashes have been seen.\<close>

lemma found_references:
  assumes "is_set refs" and "list_all store_ref refs" and "distinct (map hash_part refs)"
    and seen: "set seen = hash_part ` set refs \<inter> windows bs 0"
  shows "set_of_list (map (\<lambda>h. the (map_of (map (\<lambda>r. (hash_part r, r)) refs) h)) seen) =
    filter (\<lambda>r. sublist (to_bytes (hash_part r)) bs) refs" (is "set_of_list (map ?path seen) = ?rhs")
proof -
  have inv: "?path (hash_part r) = r" if "r \<in> set refs" for r
    using that map_of_hash_parts [OF assms(3), of "hash_part r" r] by simp
  have "set (set_of_list (map ?path seen)) = ?path ` (hash_part ` set refs \<inter> windows bs 0)"
    using seen by (simp only: set_of_list_set set_map)
  also have "\<dots> = {r \<in> set refs. hash_part r \<in> windows bs 0}"
    by (rule image_left_inverse) (rule inv)
  also have "\<dots> = set ?rhs"
  proof -
    have "hash_part r \<in> windows bs 0 \<longleftrightarrow> sublist (to_bytes (hash_part r)) bs" if "r \<in> set refs" for r
      using that assms(2) by (intro window_sublist) (auto simp: list_all_iff store_ref_def)
    then show ?thesis unfolding set_filter by blast
  qed
  finally show ?thesis using assms(1) by (intro is_set_eqI) (simp_all add: sorted_wrt_filter)
qed

text \<open>
  C10: \<^verbatim>\<open>scanForReferences\<close> is exact: it returns precisely those of the candidate store paths whose
  hash part occurs somewhere in the archive of the path, however the dump is cut into fragments and
  wherever an occurrence spans them, together with the hash of the archive; no assertion fails.  The
  candidates are store paths with distinct hash parts.
\<close>

theorem scanForReferences_exact:
  assumes "digest_ok dg" and "dumpable t" and "is_set refs" and "list_all store_ref refs"
    and "distinct (map hash_part refs)"
  shows "\<exists>bs. dumpPath StringSink_call (\<lambda>p. True) path t [] = Inr bs \<and>
    scanForReferences dg path t refs
      = bindE (hashPath dg htSHA256 path t (\<lambda>p. True)) (\<lambda>h.
          Inr (filter (\<lambda>r. sublist (to_bytes (hash_part r)) bs) refs, h))"
proof -
  let ?ds = "sf archiveVersion1 @ node_frags (prune (\<lambda>p. True) path t)"
  let ?bs = "concat ?ds"
  obtain hs m where add: "foldE add_reference refs ([], []) = Inr (hs, m)" "is_set hs" "set hs = hash_part ` set refs"
      "map_of m = map_of (map (\<lambda>r. (hash_part r, r)) refs)"
    using add_references_ok [OF assms(4,5), of "[]" "[]"] by auto
  let ?new = "(RefScanSink_new dg)\<lparr>rsHashes := hs\<rparr>"
  obtain b where b: "foldE (BufferedSink_call (HashSink_write dg)) ?ds (HashSink_new dg htSHA256) = Inr b"
    using HashSink_calls_finish [OF assms(1), of ?ds htSHA256] hashString_wf [OF assms(1), of htSHA256 "of_bytes ?bs"]
    by (auto simp: bindE_eq_Inr)
  then obtain snk where snk: "foldE (RefScanSink_call dg) ?ds ?new = Inr snk"
    using RefScanSink_calls_return [of dg ?ds ?new] by (auto simp: RefScanSink_new_def)
  from RefScanSink_calls_scan [OF scan_state_new [OF add(2)] snk] b
  have scan: "scan_state (set hs) ?bs snk" and rs: "rsHashSink snk = b"
    by (simp_all add: RefScanSink_new_def)
  let ?path = "\<lambda>h. the (map_of (map (\<lambda>r. (hash_part r, r)) refs) h)"
  have bk: "\<forall>i \<in> set (rsSeen snk). map_of m i = Some (?path i)"
  proof
    fix i assume "i \<in> set (rsSeen snk)"
    then have "i \<in> hash_part ` set refs" using scan add(3) by (simp add: scan_state_def)
    then obtain r where "map_of (map (\<lambda>r. (hash_part r, r)) refs) i = Some r"
      using map_of_hash_parts [OF assms(5)] by blast
    then show "map_of m i = Some (?path i)" using add(4) by simp
  qed
  let ?found = "set_of_list (map ?path (rsSeen snk))"
  have found: "?found = filter (\<lambda>r. sublist (to_bytes (hash_part r)) ?bs) refs"
    using found_references [OF assms(3,4,5)] scan add(3) by (simp only: scan_state_def)
  have "scanForReferences dg path t refs = bindE (HashSink_finish dg b) (\<lambda>(h, _). Inr (?found, h))"
    using add(1) snk map_back [OF bk, of "[]"] rs
    by (simp add: scanForReferences_def dumpPath_frags(1) [OF assms(2)] set_of_list_def)
  also have "\<dots> = bindE (hashPath dg htSHA256 path t (\<lambda>p. True)) (\<lambda>h. Inr (?found, h))"
    using b by (cases "HashSink_finish dg b")
      (simp_all add: hashPath_def dumpPath_frags(1) [OF assms(2)] bindE_assoc case_prod_beta)
  finally show ?thesis
    using found dumpPath_string [OF assms(2)] dumpPath_frags(2) [OF assms(2), of "\<lambda>p. True" path] by auto
qed

theorem scanForReferences_exact_witness:
  "let r1 = ''/nix/store/00000000000000000000000000000abc-x''; r2 = ''/nix/store/zzzzzzzzzzzzzzzzzzzzzzzzzzzzzzzz-y'';
       t = Symlink (''see '' @ r1)
   in \<exists>bs. dumpPath StringSink_call (\<lambda>p. True) ''/p'' t [] = Inr bs \<and>
      scanForReferences demo_digest ''/p'' t [r1, r2]
        = bindE (hashPath demo_digest htSHA256 ''/p'' t (\<lambda>p. True)) (\<lambda>h.
            Inr (filter (\<lambda>r. sublist (to_bytes (hash_part r)) bs) [r1, r2], h))"
  unfolding Let_def
proof (rule scanForReferences_exact [OF demo_digest_ok])
  show "is_set [''/nix/store/00000000000000000000000000000abc-x'', ''/nix/store/zzzzzzzzzzzzzzzzzzzzzzzzzzzzzzzz-y'']"
    by code_simp
  show "list_all store_ref [''/nix/store/00000000000000000000000000000abc-x'', ''/nix/store/zzzzzzzzzzzzzzzzzzzzzzzzzzzzzzzz-y'']"
    by code_simp
  show "distinct (map hash_part [''/nix/store/00000000000000000000000000000abc-x'', ''/nix/store/zzzzzzzzzzzzzzzzzzzzzzzzzzzzzzzz-y''])"
    by code_simp
qed simp

end
