(* ===== verification/Nixexpr.thy ===== *)
theory Nixexpr
  imports Util_Strings Containers
begin

text \<open>
  \<^verbatim>\<open>src/libexpr/nixexpr.cc\<close>, \<^verbatim>\<open>nixexpr.hh\<close> and \<^verbatim>\<open>symbol-table.hh\<close>: the abstract syntax of the expression language,
  printing it, and \<^verbatim>\<open>bindVars\<close>, which replaces the names of variables by positions in the environments
  the evaluator will build.  The theory shows that the positions are those of lexical scoping with
  \<^verbatim>\<open>with\<close> as a fallback, and that binding leaves an expression whose positions fit its static
  environment.
\<close>

subsection \<open>Symbols\<close>

text \<open>
  A symbol is the address of a string in the symbol table, here its index; symbols are compared and
  ordered by address.
\<close>

type_synonym Symbol = nat

fun index_of :: "'a \<Rightarrow> 'a list \<Rightarrow> nat option" where
  "index_of x [] = None"
| "index_of x (y # ys) = (if x = y then Some 0 else map_option Suc (index_of x ys))"

definition SymbolTable_create :: "string list \<Rightarrow> string \<Rightarrow> string list \<times> Symbol" where
  "SymbolTable_create symbols s = (case index_of s symbols of
     Some i \<Rightarrow> (symbols, i)
   | None \<Rightarrow> (symbols @ [s], length symbols))"

text \<open>The string of a symbol.\<close>

definition symbol_string :: "string list \<Rightarrow> Symbol \<Rightarrow> string" where
  "symbol_string symbols i = (if i < length symbols then symbols ! i else [])"

lemma index_of_Some: "index_of x xs = Some i \<Longrightarrow> i < length xs \<and> xs ! i = x"
  by (induction xs arbitrary: i) (auto split: if_splits)

lemma index_of_None: "index_of x xs = None \<longleftrightarrow> x \<notin> set xs"
  by (induction xs) auto

lemma index_of_nth: "distinct xs \<Longrightarrow> i < length xs \<Longrightarrow> index_of (xs ! i) xs = Some i"
  by (induction xs arbitrary: i) (auto simp: nth_Cons split: nat.splits)

text \<open>Creating a symbol twice gives the same address, and different strings different ones.\<close>

lemma SymbolTable_create_ok:
  assumes "distinct symbols" and "SymbolTable_create symbols s = (symbols', i)"
  shows "distinct symbols' \<and> symbol_string symbols' i = s \<and> i < length symbols' \<and>
    (\<forall>j < length symbols. symbol_string symbols' j = symbol_string symbols j) \<and>
    SymbolTable_create symbols' s = (symbols', i)"
proof (cases "index_of s symbols")
  case None
  then have "s \<notin> set symbols" by (simp add: index_of_None)
  then have "index_of s (symbols @ [s]) = Some (length symbols)" by (induction symbols) auto
  moreover have "symbols' = symbols @ [s]" "i = length symbols" using None assms(2) by (simp_all add: SymbolTable_create_def)
  ultimately show ?thesis using \<open>s \<notin> set symbols\<close> assms(1)
    by (auto simp: SymbolTable_create_def symbol_string_def nth_append)
next
  case (Some j)
  with assms index_of_Some [OF Some] show ?thesis by (auto simp: SymbolTable_create_def symbol_string_def)
qed

subsection \<open>Expressions\<close>

record Pos =
  posFile :: string
  posLine :: nat
  posColumn :: nat

definition noPos :: Pos where
  "noPos = \<lparr>posFile = [], posLine = 0, posColumn = 0\<rparr>"

definition show_Pos :: "Pos \<Rightarrow> string" where
  "show_Pos p = (if posLine p = 0 then ''undefined position''
     else ''`'' @ posFile p @ '':'' @ show_nat (posLine p) @ '':'' @ show_nat (posColumn p) @ [CHR 0x27])"

definition Pos_less :: "Pos \<Rightarrow> Pos \<Rightarrow> bool" where
  "Pos_less p q \<longleftrightarrow>
     (if posFile p < posFile q then True else if posFile p > posFile q then False
      else if posLine p < posLine q then True else if posLine p > posLine q then False
      else posColumn p < posColumn q)"

record VarRef =
  vrName :: Symbol
  vrFromWith :: bool
  vrLevel :: nat
  vrDispl :: nat

type_synonym AttrPath = "Symbol list"

datatype binop = App | OpEq | OpNEq | OpAnd | OpOr | OpImpl | OpUpdate | OpConcatLists

text \<open>
  The argument of a function is \<open>None\<close> when it is the empty symbol, its formals when \<^verbatim>\<open>matchAttrs\<close> is
  false.  A definition of an attribute is inherited or not, and has a displacement.  \<^verbatim>\<open>AttrDefs\<close> is a map
  ordered by symbol.
\<close>

datatype Expr =
    ExprInt int
  | ExprString string
  | ExprPath string
  | ExprVar VarRef
  | ExprSelect Expr AttrPath "Expr option"
  | ExprOpHasAttr Expr AttrPath
  | ExprAttrs bool "(Symbol \<times> AttrDef) list"
  | ExprList "Expr list"
  | ExprLambda Pos "Symbol option" "((Symbol \<times> Expr option) list \<times> bool) option" Expr
  | ExprLet "(Symbol \<times> AttrDef) list" Expr
  | ExprWith Pos Expr Expr nat
  | ExprIf Expr Expr Expr
  | ExprAssert Pos Expr Expr
  | ExprOpNot Expr
  | ExprBin binop Expr Expr
  | ExprConcatStrings "Expr list"
and AttrDef = Inherited VarRef nat | Defined Expr nat

type_synonym AttrDefs = "(Symbol \<times> AttrDef) list"

type_synonym Formals = "(Symbol \<times> Expr option) list \<times> bool"

subsection \<open>Printing\<close>

definition showAttrPath :: "string list \<Rightarrow> AttrPath \<Rightarrow> string" where
  "showAttrPath symbols p = fold (\<lambda>i s. (if s \<noteq> [] then s @ ''.'' else s) @ symbol_string symbols i) p []"

definition show_binop :: "binop \<Rightarrow> string" where
  "show_binop b = (case b of App \<Rightarrow> [] | OpEq \<Rightarrow> ''=='' | OpNEq \<Rightarrow> ''!='' | OpAnd \<Rightarrow> ''&&'' | OpOr \<Rightarrow> ''||''
     | OpImpl \<Rightarrow> ''->'' | OpUpdate \<Rightarrow> ''//'' | OpConcatLists \<Rightarrow> ''++'')"

fun show_sep :: "string \<Rightarrow> string list \<Rightarrow> string" where
  "show_sep sep [] = []"
| "show_sep sep [s] = s"
| "show_sep sep (s # ss) = s @ sep @ show_sep sep ss"

fun show_Expr :: "string list \<Rightarrow> Expr \<Rightarrow> string"
  and show_AttrDef :: "string list \<Rightarrow> string \<Rightarrow> Symbol \<Rightarrow> AttrDef \<Rightarrow> string" where
  "show_Expr sy (ExprInt n) = int2String n"
| "show_Expr sy (ExprString s) = [CHR 0x22] @ s @ [CHR 0x22]"
| "show_Expr sy (ExprPath s) = s"
| "show_Expr sy (ExprVar v) = symbol_string sy (vrName v)"
| "show_Expr sy (ExprSelect e p None) = ''('' @ show_Expr sy e @ '').'' @ showAttrPath sy p"
| "show_Expr sy (ExprSelect e p (Some d)) = ''('' @ show_Expr sy e @ '').'' @ showAttrPath sy p @ '' or '' @ show_Expr sy d"
| "show_Expr sy (ExprOpHasAttr e p) = ''('' @ show_Expr sy e @ '') ? '' @ showAttrPath sy p"
| "show_Expr sy (ExprAttrs r as) = (if r then ''rec '' else []) @ ''{ '' @
     concat (map (\<lambda>(i, d). show_AttrDef sy '' ; '' i d) as) @ ''}''"
| "show_Expr sy (ExprList es) = ''[ '' @ concat (map (\<lambda>e. ''('' @ show_Expr sy e @ '') '') es) @ '']''"
| "show_Expr sy (ExprLambda pos arg None body) = ''('' @
     (case arg of None \<Rightarrow> [] | Some a \<Rightarrow> symbol_string sy a) @ '': '' @ show_Expr sy body @ '')''"
| "show_Expr sy (ExprLambda pos arg (Some (formals, ellipsis)) body) = ''('' @ ''{ '' @
     show_sep '', '' (map (\<lambda>(n, d). symbol_string sy n @
       (case d of None \<Rightarrow> [] | Some e \<Rightarrow> '' ? '' @ show_Expr sy e)) formals) @ '' }'' @
     (case arg of None \<Rightarrow> [] | Some a \<Rightarrow> '' @ '' @ symbol_string sy a) @ '': '' @ show_Expr sy body @ '')''"
| "show_Expr sy (ExprLet as body) = ''let '' @ concat (map (\<lambda>(i, d). show_AttrDef sy ''; '' i d) as) @ ''in '' @ show_Expr sy body"
| "show_Expr sy (ExprWith pos a b prev) = ''with '' @ show_Expr sy a @ ''; '' @ show_Expr sy b"
| "show_Expr sy (ExprIf c t e) = ''if '' @ show_Expr sy c @ '' then '' @ show_Expr sy t @ '' else '' @ show_Expr sy e"
| "show_Expr sy (ExprAssert pos c b) = ''assert '' @ show_Expr sy c @ ''; '' @ show_Expr sy b"
| "show_Expr sy (ExprOpNot e) = ''! '' @ show_Expr sy e"
| "show_Expr sy (ExprBin b e1 e2) = show_Expr sy e1 @ '' '' @ show_binop b @ '' '' @ show_Expr sy e2"
| "show_Expr sy (ExprConcatStrings es) = show_sep '' + '' (map (show_Expr sy) es)"
| "show_AttrDef sy sep i (Inherited v n) = ''inherit '' @ symbol_string sy i @ sep"
| "show_AttrDef sy sep i (Defined e n) = symbol_string sy i @ '' = '' @ show_Expr sy e @ ''; ''"

subsection \<open>Static environments\<close>

text \<open>A static environment with those it is nested in, the innermost first.\<close>

record StaticFrame =
  isWith :: bool
  vars :: "(Symbol \<times> nat) list"

type_synonym StaticEnv = "StaticFrame list"

abbreviation with_frame :: StaticFrame where
  "with_frame \<equiv> \<lparr>isWith = True, vars = []\<rparr>"

text \<open>\<^verbatim>\<open>newEnv.vars[name] = displ++\<close> for a list of names.\<close>

definition number_vars :: "Symbol list \<Rightarrow> (Symbol \<times> nat) list" where
  "number_vars names = fst (fold (\<lambda>x (vs, displ). (map_put x displ vs, displ + 1)) names ([], 0))"

definition names_frame :: "Symbol list \<Rightarrow> StaticFrame" where
  "names_frame names = \<lparr>isWith = False, vars = number_vars names\<rparr>"

definition lambda_names :: "Symbol option \<Rightarrow> Formals option \<Rightarrow> Symbol list" where
  "lambda_names arg formals = (case arg of None \<Rightarrow> [] | Some a \<Rightarrow> [a]) @
     (case formals of None \<Rightarrow> [] | Some (fs, ellipsis) \<Rightarrow> map fst fs)"

fun bind_loop :: "StaticEnv \<Rightarrow> nat \<Rightarrow> nat option \<Rightarrow> VarRef \<Rightarrow> VarRef + nat option" where
  "bind_loop [] level withLevel v = Inr withLevel"
| "bind_loop (f # env) level withLevel v =
     (if isWith f then bind_loop env (level + 1) (if withLevel = None then Some level else withLevel) v
      else case map_of (vars f) (vrName v) of
             Some d \<Rightarrow> Inl (v\<lparr>vrFromWith := False, vrLevel := level, vrDispl := d\<rparr>)
           | None \<Rightarrow> bind_loop env (level + 1) withLevel v)"

definition VarRef_bind :: "string list \<Rightarrow> StaticEnv \<Rightarrow> VarRef \<Rightarrow> VarRef res" where
  "VarRef_bind sy env v = (case bind_loop env 0 None v of
     Inl v' \<Rightarrow> Inr v'
   | Inr None \<Rightarrow> Inl (EvalError (''undefined variable `'' @ symbol_string sy (vrName v) @ [CHR 0x27]))
   | Inr (Some l) \<Rightarrow> Inr (v\<lparr>vrFromWith := True, vrLevel := l\<rparr>))"

text \<open>How many levels up the next \<^verbatim>\<open>with\<close> is, counted from inside a new one; \<open>0\<close> when there is none.\<close>

fun prev_with_loop :: "StaticEnv \<Rightarrow> nat \<Rightarrow> nat" where
  "prev_with_loop [] level = 0"
| "prev_with_loop (f # env) level = (if isWith f then level else prev_with_loop env (level + 1))"

subsection \<open>Binding variables\<close>

lemma mapE_cong [fundef_cong]:
  "xs = ys \<Longrightarrow> (\<And>x. x \<in> set ys \<Longrightarrow> f x = g x) \<Longrightarrow> mapE f xs = mapE g ys"
  by (induction ys arbitrary: xs) auto

definition renumber :: "bool \<Rightarrow> nat \<Rightarrow> AttrDef \<Rightarrow> AttrDef" where
  "renumber r n d = (if r then (case d of Inherited v m \<Rightarrow> Inherited v n | Defined e m \<Rightarrow> Defined e n) else d)"

definition number_attrs :: "bool \<Rightarrow> AttrDefs \<Rightarrow> AttrDefs" where
  "number_attrs r as = map (\<lambda>(n, x, d). (x, renumber r n d)) (enumerate 0 as)"

text \<open>
  \<^verbatim>\<open>bindVars\<close> of every class.  It changes the expression in place; here it returns the expression it leaves.
  The inherited attributes of a \<^verbatim>\<open>rec\<close> or \<^verbatim>\<open>let\<close> are bound outside, the others inside.
\<close>

fun bindVars :: "string list \<Rightarrow> StaticEnv \<Rightarrow> Expr \<Rightarrow> Expr res"
  and bindAttr :: "string list \<Rightarrow> StaticEnv \<Rightarrow> StaticEnv \<Rightarrow> AttrDef \<Rightarrow> AttrDef res" where
  "bindVars sy env (ExprInt n) = Inr (ExprInt n)"
| "bindVars sy env (ExprString s) = Inr (ExprString s)"
| "bindVars sy env (ExprPath s) = Inr (ExprPath s)"
| "bindVars sy env (ExprVar v) = bindE (VarRef_bind sy env v) (\<lambda>v. Inr (ExprVar v))"
| "bindVars sy env (ExprSelect e p None) = bindE (bindVars sy env e) (\<lambda>e. Inr (ExprSelect e p None))"
| "bindVars sy env (ExprSelect e p (Some d)) =
     bindE (bindVars sy env e) (\<lambda>e. bindE (bindVars sy env d) (\<lambda>d. Inr (ExprSelect e p (Some d))))"
| "bindVars sy env (ExprOpHasAttr e p) = bindE (bindVars sy env e) (\<lambda>e. Inr (ExprOpHasAttr e p))"
| "bindVars sy env (ExprAttrs r as) =
     (let newEnv = (if r then names_frame (map fst as) # env else env)
      in bindE (mapE (\<lambda>(x, d). bindE (bindAttr sy env newEnv d) (\<lambda>d. Inr (x, d))) as)
           (\<lambda>as. Inr (ExprAttrs r (number_attrs r as))))"
| "bindVars sy env (ExprList es) = bindE (mapE (bindVars sy env) es) (\<lambda>es. Inr (ExprList es))"
| "bindVars sy env (ExprLambda pos arg None body) =
     (let newEnv = names_frame (lambda_names arg None) # env
      in bindE (bindVars sy newEnv body) (\<lambda>body. Inr (ExprLambda pos arg None body)))"
| "bindVars sy env (ExprLambda pos arg (Some (formals, ellipsis)) body) =
     (let newEnv = names_frame (lambda_names arg (Some (formals, ellipsis))) # env
      in bindE (mapE (\<lambda>(x, d). case d of None \<Rightarrow> Inr (x, None) | Some e \<Rightarrow>
                  bindE (bindVars sy newEnv e) (\<lambda>e. Inr (x, Some e))) formals) (\<lambda>formals.
         bindE (bindVars sy newEnv body) (\<lambda>body. Inr (ExprLambda pos arg (Some (formals, ellipsis)) body))))"
| "bindVars sy env (ExprLet as body) =
     (let newEnv = names_frame (map fst as) # env
      in bindE (mapE (\<lambda>(x, d). bindE (bindAttr sy env newEnv d) (\<lambda>d. Inr (x, d))) as) (\<lambda>as.
         bindE (bindVars sy newEnv body) (\<lambda>body. Inr (ExprLet (number_attrs True as) body))))"
| "bindVars sy env (ExprWith pos a b prev) =
     bindE (bindVars sy env a) (\<lambda>a. bindE (bindVars sy (with_frame # env) b) (\<lambda>b.
       Inr (ExprWith pos a b (prev_with_loop env 1))))"
| "bindVars sy env (ExprIf c t e) =
     bindE (bindVars sy env c) (\<lambda>c. bindE (bindVars sy env t) (\<lambda>t. bindE (bindVars sy env e) (\<lambda>e. Inr (ExprIf c t e))))"
| "bindVars sy env (ExprAssert pos c b) =
     bindE (bindVars sy env c) (\<lambda>c. bindE (bindVars sy env b) (\<lambda>b. Inr (ExprAssert pos c b)))"
| "bindVars sy env (ExprOpNot e) = bindE (bindVars sy env e) (\<lambda>e. Inr (ExprOpNot e))"
| "bindVars sy env (ExprBin b e1 e2) =
     bindE (bindVars sy env e1) (\<lambda>e1. bindE (bindVars sy env e2) (\<lambda>e2. Inr (ExprBin b e1 e2)))"
| "bindVars sy env (ExprConcatStrings es) = bindE (mapE (bindVars sy env) es) (\<lambda>es. Inr (ExprConcatStrings es))"
| "bindAttr sy env newEnv (Inherited v n) = bindE (VarRef_bind sy env v) (\<lambda>v. Inr (Inherited v n))"
| "bindAttr sy env newEnv (Defined e n) = bindE (bindVars sy newEnv e) (\<lambda>e. Inr (Defined e n))"

text \<open>
  What the parser makes: attributes are in order, a function without formals has an argument, and no two
  formals have the same name.
\<close>

fun parsed :: "Expr \<Rightarrow> bool" and parsed_attr :: "AttrDef \<Rightarrow> bool" where
  "parsed (ExprSelect e p None) \<longleftrightarrow> parsed e"
| "parsed (ExprSelect e p (Some d)) \<longleftrightarrow> parsed e \<and> parsed d"
| "parsed (ExprOpHasAttr e p) \<longleftrightarrow> parsed e"
| "parsed (ExprAttrs r as) \<longleftrightarrow> is_set (map fst as) \<and> (\<forall>a \<in> set as. parsed_attr (snd a))"
| "parsed (ExprList es) \<longleftrightarrow> (\<forall>e \<in> set es. parsed e)"
| "parsed (ExprLambda pos arg None body) \<longleftrightarrow> arg \<noteq> None \<and> parsed body"
| "parsed (ExprLambda pos arg (Some (formals, ellipsis)) body) \<longleftrightarrow> distinct (map fst formals) \<and>
     (\<forall>f \<in> set formals. case snd f of None \<Rightarrow> True | Some e \<Rightarrow> parsed e) \<and> parsed body"
| "parsed (ExprLet as body) \<longleftrightarrow> is_set (map fst as) \<and> (\<forall>a \<in> set as. parsed_attr (snd a)) \<and> parsed body"
| "parsed (ExprWith pos a b prev) \<longleftrightarrow> parsed a \<and> parsed b"
| "parsed (ExprIf c t e) \<longleftrightarrow> parsed c \<and> parsed t \<and> parsed e"
| "parsed (ExprAssert pos c b) \<longleftrightarrow> parsed c \<and> parsed b"
| "parsed (ExprOpNot e) \<longleftrightarrow> parsed e"
| "parsed (ExprBin b e1 e2) \<longleftrightarrow> parsed e1 \<and> parsed e2"
| "parsed (ExprConcatStrings es) \<longleftrightarrow> (\<forall>e \<in> set es. parsed e)"
| "parsed (ExprInt n) \<longleftrightarrow> True"
| "parsed (ExprString s) \<longleftrightarrow> True"
| "parsed (ExprPath s) \<longleftrightarrow> True"
| "parsed (ExprVar v) \<longleftrightarrow> True"
| "parsed_attr (Inherited v n) \<longleftrightarrow> True"
| "parsed_attr (Defined e n) \<longleftrightarrow> parsed e"

text \<open>Positions that fit a static environment.\<close>

definition var_fits :: "StaticEnv \<Rightarrow> VarRef \<Rightarrow> bool" where
  "var_fits env v \<longleftrightarrow> vrLevel v < length env \<and>
     (if vrFromWith v then isWith (env ! vrLevel v)
      else \<not> isWith (env ! vrLevel v) \<and> map_of (vars (env ! vrLevel v)) (vrName v) = Some (vrDispl v))"

fun fits :: "StaticEnv \<Rightarrow> Expr \<Rightarrow> bool" and fits_attr :: "StaticEnv \<Rightarrow> StaticEnv \<Rightarrow> AttrDef \<Rightarrow> bool" where
  "fits env (ExprVar v) \<longleftrightarrow> var_fits env v"
| "fits env (ExprSelect e p None) \<longleftrightarrow> fits env e"
| "fits env (ExprSelect e p (Some d)) \<longleftrightarrow> fits env e \<and> fits env d"
| "fits env (ExprOpHasAttr e p) \<longleftrightarrow> fits env e"
| "fits env (ExprAttrs r as) \<longleftrightarrow> is_set (map fst as) \<and>
     (\<forall>a \<in> set as. fits_attr env (if r then names_frame (map fst as) # env else env) (snd a)) \<and>
     (r \<longrightarrow> number_attrs True as = as)"
| "fits env (ExprList es) \<longleftrightarrow> (\<forall>e \<in> set es. fits env e)"
| "fits env (ExprLambda pos arg None body) \<longleftrightarrow> arg \<noteq> None \<and> fits (names_frame (lambda_names arg None) # env) body"
| "fits env (ExprLambda pos arg (Some (formals, ellipsis)) body) \<longleftrightarrow> distinct (map fst formals) \<and>
     (\<forall>f \<in> set formals. case snd f of None \<Rightarrow> True
        | Some e \<Rightarrow> fits (names_frame (lambda_names arg (Some (formals, ellipsis))) # env) e) \<and>
     fits (names_frame (lambda_names arg (Some (formals, ellipsis))) # env) body"
| "fits env (ExprLet as body) \<longleftrightarrow> is_set (map fst as) \<and>
     (\<forall>a \<in> set as. fits_attr env (names_frame (map fst as) # env) (snd a)) \<and>
     fits (names_frame (map fst as) # env) body"
| "fits env (ExprWith pos a b prev) \<longleftrightarrow> prev = prev_with_loop env 1 \<and> fits env a \<and> fits (with_frame # env) b"
| "fits env (ExprIf c t e) \<longleftrightarrow> fits env c \<and> fits env t \<and> fits env e"
| "fits env (ExprAssert pos c b) \<longleftrightarrow> fits env c \<and> fits env b"
| "fits env (ExprOpNot e) \<longleftrightarrow> fits env e"
| "fits env (ExprBin b e1 e2) \<longleftrightarrow> fits env e1 \<and> fits env e2"
| "fits env (ExprConcatStrings es) \<longleftrightarrow> (\<forall>e \<in> set es. fits env e)"
| "fits env (ExprInt n) \<longleftrightarrow> True"
| "fits env (ExprString s) \<longleftrightarrow> True"
| "fits env (ExprPath s) \<longleftrightarrow> True"
| "fits_attr env newEnv (Inherited v n) \<longleftrightarrow> var_fits env v"
| "fits_attr env newEnv (Defined e n) \<longleftrightarrow> fits newEnv e"

subsection \<open>Bound expressions fit their environment\<close>

lemma mapE_Inr: "mapE f xs = Inr ys \<longleftrightarrow> list_all2 (\<lambda>x y. f x = Inr y) xs ys"
  by (induction xs arbitrary: ys) (auto simp: bindE_eq_Inr list_all2_Cons1)

text \<open>The search stops at the innermost scope that has the name; scopes of \<^verbatim>\<open>with\<close> do not have any.\<close>

definition binds_name :: "Symbol \<Rightarrow> StaticFrame \<Rightarrow> bool" where
  "binds_name x f \<longleftrightarrow> \<not> isWith f \<and> map_of (vars f) x \<noteq> None"

lemma bind_loop_Inl:
  assumes "bind_loop env l w v = Inl v'"
  shows "\<exists>k < length env. binds_name (vrName v) (env ! k) \<and> (\<forall>j < k. \<not> binds_name (vrName v) (env ! j)) \<and>
    v' = v\<lparr>vrFromWith := False, vrLevel := l + k, vrDispl := the (map_of (vars (env ! k)) (vrName v))\<rparr>"
  using assms
proof (induction env arbitrary: l w)
  case (Cons f env)
  show ?case
  proof (cases "binds_name (vrName v) f")
    case True
    with Cons.prems show ?thesis by (intro exI [of _ 0]) (auto simp: binds_name_def)
  next
    case False
    with Cons.prems obtain w' where "bind_loop env (l + 1) w' v = Inl v'"
      by (auto simp: binds_name_def split: if_splits)
    from Cons.IH [OF this] obtain k where "k < length env" "binds_name (vrName v) (env ! k)" "\<forall>j < k. \<not> binds_name (vrName v) (env ! j)"
      "v' = v\<lparr>vrFromWith := False, vrLevel := l + 1 + k, vrDispl := the (map_of (vars (env ! k)) (vrName v))\<rparr>" by blast
    with False show ?thesis by (intro exI [of _ "Suc k"]) (auto simp: less_Suc_eq_0_disj)
  qed
qed simp

text \<open>The first \<^verbatim>\<open>with\<close>, counted from \<open>l\<close>.\<close>

fun first_with :: "StaticEnv \<Rightarrow> nat \<Rightarrow> nat option" where
  "first_with [] l = None"
| "first_with (f # env) l = (if isWith f then Some l else first_with env (l + 1))"

lemma bind_loop_Inr:
  assumes "bind_loop env l w v = Inr w'"
  shows "(\<forall>f \<in> set env. \<not> binds_name (vrName v) f) \<and> w' = (if w = None then first_with env l else w)"
  using assms
proof (induction env arbitrary: l w)
  case (Cons f env)
  from Cons.prems have "bind_loop env (l + 1) (if isWith f \<and> w = None then Some l else w) v = Inr w'"
    and "\<not> binds_name (vrName v) f"
    by (auto simp: binds_name_def split: if_splits option.splits)
  with Cons.IH [OF this(1)] show ?case by simp
qed simp

lemma first_with_Some:
  "first_with env l = Some k \<Longrightarrow> \<exists>j < length env. k = l + j \<and> isWith (env ! j) \<and> (\<forall>i < j. \<not> isWith (env ! i))"
proof (induction env arbitrary: l)
  case (Cons f env)
  show ?case
  proof (cases "isWith f")
    case True
    with Cons.prems show ?thesis by (intro exI [of _ 0]) simp
  next
    case False
    with Cons.prems have "first_with env (l + 1) = Some k" by simp
    from Cons.IH [OF this] obtain j where "j < length env" "k = l + 1 + j" "isWith (env ! j)" "\<forall>i < j. \<not> isWith (env ! i)" by blast
    with False show ?thesis by (intro exI [of _ "Suc j"]) (auto simp: less_Suc_eq_0_disj)
  qed
qed simp

lemma first_with_None: "first_with env l = None \<longleftrightarrow> (\<forall>f \<in> set env. \<not> isWith f)"
  by (induction env arbitrary: l) auto

lemma VarRef_bind_fits:
  assumes "VarRef_bind sy env v = Inr v'"
  shows "var_fits env v'"
proof (cases "bind_loop env 0 None v")
  case (Inl u)
  from bind_loop_Inl [OF Inl] assms Inl show ?thesis
    by (auto simp: VarRef_bind_def var_fits_def binds_name_def)
next
  case (Inr w)
  from bind_loop_Inr [OF Inr] assms Inr show ?thesis
    by (auto simp: VarRef_bind_def var_fits_def dest: first_with_Some split: option.splits)
qed

lemma number_attrs_simps:
  "map fst (number_attrs r as) = map fst as"
  "number_attrs r (number_attrs r as) = number_attrs r as"
proof -
  show "map fst (number_attrs r as) = map fst as"
    by (auto simp: list_eq_iff_nth_eq number_attrs_def nth_enumerate_eq split: prod.splits)
  have "length (number_attrs r as) = length as" by (simp add: number_attrs_def)
  then show "number_attrs r (number_attrs r as) = number_attrs r as"
    by (auto simp: list_eq_iff_nth_eq number_attrs_def nth_enumerate_eq renumber_def split: AttrDef.splits prod.splits)
qed

lemma fits_attr_renumber [simp]: "fits_attr env newEnv (renumber r n d) = fits_attr env newEnv d"
  by (cases d) (simp_all add: renumber_def)

lemma set_number_attrs: "a \<in> set (number_attrs r as) \<Longrightarrow> \<exists>n d. a = (fst a, renumber r n d) \<and> (fst a, d) \<in> set as"
  by (auto simp: number_attrs_def in_set_enumerate_eq) (metis nth_mem prod.collapse)

lemma fits_attrs_bound:
  assumes as: "mapE (\<lambda>(x, d). bindE (bindAttr sy env newEnv d) (\<lambda>d. Inr (x, d))) as = Inr as'"
    and each: "\<And>x d d'. (x, d) \<in> set as \<Longrightarrow> bindAttr sy env newEnv d = Inr d' \<Longrightarrow> fits_attr env newEnv d'"
  shows "map fst as' = map fst as" and "a \<in> set (number_attrs r as') \<Longrightarrow> fits_attr env newEnv (snd a)"
proof -
  from as have l: "list_all2 (\<lambda>a a'. fst a' = fst a \<and> bindAttr sy env newEnv (snd a) = Inr (snd a')) as as'"
    unfolding mapE_Inr by (rule list.rel_mono_strong) (auto simp: bindE_eq_Inr)
  then show "map fst as' = map fst as" by (induction rule: list_all2_induct) auto
  assume "a \<in> set (number_attrs r as')"
  then obtain n d where d: "snd a = renumber r n d" "(fst a, d) \<in> set as'" using set_number_attrs [of a r as'] by (metis snd_conv)
  then obtain i where i: "i < length as'" "as' ! i = (fst a, d)" by (auto simp: in_set_conv_nth)
  then have "bindAttr sy env newEnv (snd (as ! i)) = Inr d" using list_all2_nthD2 [OF l i(1)] by simp
  moreover have "as ! i \<in> set as" using i(1) list_all2_lengthD [OF l] by simp
  ultimately have "fits_attr env newEnv d" using each [of "fst (as ! i)" "snd (as ! i)"] by simp
  then show "fits_attr env newEnv (snd a)" by (simp add: d)
qed

lemma fits_list_bound:
  assumes "mapE (bindVars sy env) es = Inr es'" and "\<And>e e'. e \<in> set es \<Longrightarrow> bindVars sy env e = Inr e' \<Longrightarrow> fits env e'"
  shows "\<forall>e \<in> set es'. fits env e"
  using assms unfolding mapE_Inr by (induction es es' rule: list_all2_induct) auto

lemma fits_formals_bound:
  assumes "mapE (\<lambda>(x, d). case d of None \<Rightarrow> Inr (x, None) | Some e \<Rightarrow> bindE (bindVars sy env e) (\<lambda>e. Inr (x, Some e))) fs = Inr fs'"
    and "\<And>x e e'. (x, Some e) \<in> set fs \<Longrightarrow> bindVars sy env e = Inr e' \<Longrightarrow> fits env e'"
  shows "map fst fs' = map fst fs" and "\<forall>f \<in> set fs'. case snd f of None \<Rightarrow> True | Some e \<Rightarrow> fits env e"
  using assms unfolding mapE_Inr
  by (induction fs fs' rule: list_all2_induct) (fastforce simp: bindE_eq_Inr split: option.splits)+

lemma bind_fits:
  "bindVars sy env e = Inr e' \<Longrightarrow> parsed e \<Longrightarrow> fits env e'"
  "bindAttr sy env newEnv d = Inr d' \<Longrightarrow> parsed_attr d \<Longrightarrow> fits_attr env newEnv d'"
proof (induction sy env e and sy env newEnv d arbitrary: e' and d' rule: bindVars_bindAttr.induct)
  case (8 sy env r as)
  define newEnv where "newEnv = (if r then names_frame (map fst as) # env else env)"
  from "8.prems"(1) obtain as' where as': "mapE (\<lambda>(x, d). bindE (bindAttr sy env newEnv d) (\<lambda>d. Inr (x, d))) as = Inr as'"
    "e' = ExprAttrs r (number_attrs r as')"
    by (auto simp: bindE_eq_Inr newEnv_def Let_def)
  have "fits_attr env newEnv d'" if "(x, d) \<in> set as" "bindAttr sy env newEnv d = Inr d'" for x d d'
    using "8.IH" [OF newEnv_def that(1) refl that(2)] "8.prems"(2) that(1) by auto
  from fits_attrs_bound [OF as'(1) this] as'(2) "8.prems"(2) show ?case
    by (cases r) (simp_all add: number_attrs_simps newEnv_def)
next
  case (12 sy env as body)
  define newEnv where "newEnv = names_frame (map fst as) # env"
  from "12.prems"(1) obtain as' body' where as': "mapE (\<lambda>(x, d). bindE (bindAttr sy env newEnv d) (\<lambda>d. Inr (x, d))) as = Inr as'"
    and body: "bindVars sy newEnv body = Inr body'" and e': "e' = ExprLet (number_attrs True as') body'"
    by (auto simp: bindE_eq_Inr newEnv_def Let_def)
  have "fits_attr env newEnv d'" if "(x, d) \<in> set as" "bindAttr sy env newEnv d = Inr d'" for x d d'
    using "12.IH"(1) [OF newEnv_def that(1) refl that(2)] "12.prems"(2) that(1) by auto
  from fits_attrs_bound [OF as' this] e' "12.prems"(2) "12.IH"(2) [OF newEnv_def as' body] show ?case
    by (simp add: number_attrs_simps newEnv_def)
next
  case (11 sy env pos arg formals ellipsis body)
  define newEnv where "newEnv = names_frame (lambda_names arg (Some (formals, ellipsis))) # env"
  from "11.prems"(1) [unfolded bindVars.simps Let_def, folded newEnv_def] obtain fs body' where fs: "mapE (\<lambda>(x, d). case d of None \<Rightarrow> Inr (x, None)
      | Some e \<Rightarrow> bindE (bindVars sy newEnv e) (\<lambda>e. Inr (x, Some e))) formals = Inr fs"
    and body: "bindVars sy newEnv body = Inr body'" and e': "e' = ExprLambda pos arg (Some (fs, ellipsis)) body'"
    by (simp only: bindE_eq_Inr sum.inject) blast
  have each: "fits newEnv d'" if "(x, Some d) \<in> set formals" "bindVars sy newEnv d = Inr d'" for x d d'
    using "11.IH"(1) [OF newEnv_def that(1) refl refl that(2)] "11.prems"(2) that(1) by auto
  have fb: "map fst fs = map fst formals" "\<forall>f \<in> set fs. case snd f of None \<Rightarrow> True | Some e \<Rightarrow> fits newEnv e"
    by (rule fits_formals_bound [OF fs], rule each, assumption+)+
  have "lambda_names arg (Some (fs, ellipsis)) = lambda_names arg (Some (formals, ellipsis))"
    using fb(1) by (simp add: lambda_names_def)
  with fb e' "11.prems"(2) "11.IH"(2) [OF newEnv_def fs body] show ?case
    by (auto simp: newEnv_def split: option.splits)
next
  case (9 sy env es)
  then show ?case using fits_list_bound [of sy env es] by (auto simp: bindE_eq_Inr)
next
  case (18 sy env es)
  then show ?case using fits_list_bound [of sy env es] by (auto simp: bindE_eq_Inr)
qed (auto simp: bindE_eq_Inr Let_def intro: VarRef_bind_fits)

end
