(* ===== verification/Eval.thy ===== *)
theory Eval
  imports Nixexpr Derivations
begin

text \<open>
  \<^verbatim>\<open>src/libexpr/eval.cc\<close>, \<^verbatim>\<open>eval-inline.hh\<close>, \<^verbatim>\<open>eval.hh\<close> and \<^verbatim>\<open>value.hh\<close>: the evaluator.  Values, environments and the
  vectors of attributes are objects in a heap that refer to each other by address; evaluation writes
  its result into a value, thunks are overwritten by their values, and environments are filled while
  they are in use.  Reading through a null pointer, beyond the end of an environment, or the wrong
  field of a value is the error \<open>Undefined\<close>.

  Positions of attributes, the prefixes that errors collect on their way out and the statistics are
  left out.  A variable of C++ type \<^verbatim>\<open>Value\<close> on the stack is an object of its own in the heap.
\<close>

subsection \<open>The heap\<close>

record Env =
  envUp :: "nat option"
  envPrevWith :: nat
  envValues :: "nat option list"

text \<open>
  A context is \<open>[]\<close> where the code has a null pointer.  A black hole keeps the fields of the thunk it
  was, and \<open>vClobbered\<close> is a value whose type says thunk but whose fields belong to something else.
\<close>

datatype Value =
    vUninit
  | vInt int
  | vBool bool
  | vString string "string list"
  | vPath string
  | vNull
  | vAttrs nat
  | vList "nat list"
  | vThunk nat Expr
  | vApp nat nat
  | vLambda nat Pos "Symbol option" "Formals option" Expr
  | vBlackhole nat Expr
  | vPrimOp Symbol nat
  | vPrimOpApp nat nat
  | vClobbered

type_synonym Bindings = "(Symbol \<times> nat) list"

record EvalState =
  stValues :: "Value list"
  stEnvs :: "Env list"
  stBindings :: "Bindings list"
  stSymbols :: "string list"
  stSrcToStore :: "(path \<times> path) list"
  stDrvHashes :: DrvHashes

type_synonym 'a ev = "(EvalState, 'a) op"

definition retS :: "'a \<Rightarrow> 'a ev" where
  "retS x s = (Inr x, s)"

definition throwS :: "error \<Rightarrow> 'a ev" where
  "throwS e s = (Inl e, s)"

definition nullPointer :: "'a ev" where
  "nullPointer = throwS (Undefined ''null pointer'')"

definition getValue :: "nat \<Rightarrow> Value ev" where
  "getValue a s = (if a < length (stValues s) then (Inr (stValues s ! a), s) else nullPointer s)"

definition setValue :: "nat \<Rightarrow> Value \<Rightarrow> unit ev" where
  "setValue a v s = (if a < length (stValues s) then (Inr (), s\<lparr>stValues := (stValues s)[a := v]\<rparr>) else nullPointer s)"

definition allocWith :: "Value \<Rightarrow> nat ev" where
  "allocWith v s = (Inr (length (stValues s)), s\<lparr>stValues := stValues s @ [v]\<rparr>)"

definition allocValue :: "nat ev" where
  "allocValue = allocWith vUninit"

definition getEnv :: "nat \<Rightarrow> Env ev" where
  "getEnv a s = (if a < length (stEnvs s) then (Inr (stEnvs s ! a), s) else nullPointer s)"

text \<open>\<^verbatim>\<open>allocEnv\<close>, and the assignment to \<^verbatim>\<open>up\<close> that follows it everywhere.\<close>

definition allocEnv :: "nat \<Rightarrow> nat \<Rightarrow> nat ev" where
  "allocEnv n up s = (Inr (length (stEnvs s)),
     s\<lparr>stEnvs := stEnvs s @ [\<lparr>envUp = Some up, envPrevWith = 0, envValues = replicate n None\<rparr>]\<rparr>)"

definition setEnvValue :: "nat \<Rightarrow> nat \<Rightarrow> nat \<Rightarrow> unit ev" where
  "setEnvValue en i a s =
     (if en < length (stEnvs s) \<and> i < length (envValues (stEnvs s ! en))
      then (Inr (), s\<lparr>stEnvs := (stEnvs s)[en := (stEnvs s ! en)\<lparr>envValues := (envValues (stEnvs s ! en))[i := Some a]\<rparr>]\<rparr>)
      else (Inl (Undefined ''write outside of an environment''), s))"

definition setPrevWith :: "nat \<Rightarrow> nat \<Rightarrow> unit ev" where
  "setPrevWith en n s =
     (if en < length (stEnvs s) then (Inr (), s\<lparr>stEnvs := (stEnvs s)[en := (stEnvs s ! en)\<lparr>envPrevWith := n\<rparr>]\<rparr>)
      else nullPointer s)"

definition getBindings :: "nat \<Rightarrow> Bindings ev" where
  "getBindings b s = (if b < length (stBindings s) then (Inr (stBindings s ! b), s) else nullPointer s)"

definition setBindings :: "nat \<Rightarrow> Bindings \<Rightarrow> unit ev" where
  "setBindings b bs s = (if b < length (stBindings s) then (Inr (), s\<lparr>stBindings := (stBindings s)[b := bs]\<rparr>) else nullPointer s)"

definition pushAttr :: "nat \<Rightarrow> Symbol \<Rightarrow> nat \<Rightarrow> unit ev" where
  "pushAttr b x a = bindS (getBindings b) (\<lambda>bs. setBindings b (bs @ [(x, a)]))"

text \<open>\<^verbatim>\<open>lower_bound\<close> on a sorted vector, and the test that follows.\<close>

definition Bindings_find :: "Bindings \<Rightarrow> Symbol \<Rightarrow> nat option" where
  "Bindings_find bs x = (case dropWhile (\<lambda>b. fst b < x) bs of
     [] \<Rightarrow> None | b # _ \<Rightarrow> if fst b = x then Some (snd b) else None)"

definition Bindings_sort :: "Bindings \<Rightarrow> Bindings" where
  "Bindings_sort bs = sort_key fst bs"

definition mkAttrs :: "nat \<Rightarrow> Bindings \<Rightarrow> nat ev" where
  "mkAttrs a bs s = (let b = length (stBindings s)
     in bindS (setValue a (vAttrs b)) (\<lambda>_. retS b) (s\<lparr>stBindings := stBindings s @ [bs]\<rparr>))"

definition c_str :: "string \<Rightarrow> string" where
  "c_str s = takeWhile (\<lambda>c. c \<noteq> CHR 0x00) s"

definition mkString :: "string \<Rightarrow> string list \<Rightarrow> Value" where
  "mkString s context = vString (c_str s) context"

fun showType :: "Value \<Rightarrow> string" where
  "showType (vInt _) = ''an integer''"
| "showType (vBool _) = ''a boolean''"
| "showType (vString _ _) = ''a string''"
| "showType (vPath _) = ''a path''"
| "showType vNull = ''null''"
| "showType (vAttrs _) = ''an attribute set''"
| "showType (vList _) = ''a list''"
| "showType (vThunk _ _) = ''a thunk''"
| "showType (vApp _ _) = ''a function application''"
| "showType (vLambda _ _ _ _ _) = ''a function''"
| "showType (vBlackhole _ _) = ''a black hole''"
| "showType (vPrimOp _ _) = ''a built-in function''"
| "showType (vPrimOpApp _ _) = ''a partially applied built-in function''"
| "showType _ = []"

definition expected :: "string \<Rightarrow> Value \<Rightarrow> 'a ev" where
  "expected what v = throwS (TypeError (''value is '' @ showType v @ '' while '' @ what @ '' was expected''))"

subsection \<open>Variables\<close>

primrec env_up :: "nat \<Rightarrow> nat \<Rightarrow> nat ev" where
  "env_up 0 en = retS en"
| "env_up (Suc l) en = bindS (getEnv en) (\<lambda>e. case envUp e of None \<Rightarrow> nullPointer | Some u \<Rightarrow> env_up l u)"

text \<open>
  The loop over the enclosing \<^verbatim>\<open>with\<close>s.  It moves outwards, so it makes fewer turns than there are
  environments.
\<close>

primrec lookup_with :: "nat \<Rightarrow> nat \<Rightarrow> Symbol \<Rightarrow> nat ev" where
  "lookup_with 0 en x = throwS Diverges"
| "lookup_with (Suc n) en x =
     bindS (getEnv en) (\<lambda>e.
       case envValues e of
         Some w # _ \<Rightarrow>
           bindS (getValue w) (\<lambda>v. case v of
             vAttrs b \<Rightarrow> bindS (getBindings b) (\<lambda>bs. case Bindings_find bs x of
               Some a \<Rightarrow> retS a
             | None \<Rightarrow>
                 if envPrevWith e = 0 then (\<lambda>s. throwS (EvalError (''undefined variable `'' @ symbol_string (stSymbols s) x @ [CHR 0x27])) s)
                 else bindS (env_up (envPrevWith e) en) (\<lambda>en. lookup_with n en x))
           | _ \<Rightarrow> throwS (Undefined ''attributes of a value that has none''))
       | _ \<Rightarrow> nullPointer)"

text \<open>\<open>None\<close> is a value that has not been put into its environment yet.\<close>

definition lookupVar :: "nat \<Rightarrow> VarRef \<Rightarrow> nat option ev" where
  "lookupVar en var =
     bindS (env_up (vrLevel var) en) (\<lambda>en.
       if vrFromWith var then (\<lambda>s. bindS (lookup_with (Suc (length (stEnvs s))) en (vrName var)) (\<lambda>a. retS (Some a)) s)
       else bindS (getEnv en) (\<lambda>e.
         if vrDispl var < length (envValues e) then retS (envValues e ! vrDispl var)
         else throwS (Undefined ''read outside of an environment'')))"

definition deref :: "nat option \<Rightarrow> nat ev" where
  "deref p = (case p of None \<Rightarrow> nullPointer | Some a \<Rightarrow> retS a)"

text \<open>
  \<^verbatim>\<open>maybeThunk\<close>.  The constants are values inside of the expression in the code; a copy of them here.
\<close>

definition maybeThunk :: "nat \<Rightarrow> Expr \<Rightarrow> nat ev" where
  "maybeThunk en e = (case e of
     ExprVar var \<Rightarrow> bindS (lookupVar en var) (\<lambda>p. case p of Some a \<Rightarrow> retS a | None \<Rightarrow> allocWith (vThunk en e))
   | ExprString s \<Rightarrow> allocWith (mkString s [])
   | ExprInt n \<Rightarrow> allocWith (vInt n)
   | ExprPath p \<Rightarrow> allocWith (vPath (c_str p))
   | _ \<Rightarrow> allocWith (vThunk en e))"

subsection \<open>The evaluator's functions call each other\<close>

text \<open>
  One record of the functions that are mutually recursive.  Every function is defined on the record it
  calls, and \<open>evaluator_at\<close> ties the knot to a depth.
\<close>

record evaluator =
  evEval :: "Expr \<Rightarrow> nat \<Rightarrow> nat \<Rightarrow> unit ev"
  evForce :: "nat \<Rightarrow> unit ev"
  evCall :: "nat \<Rightarrow> nat \<Rightarrow> nat \<Rightarrow> unit ev"
  evEq :: "nat \<Rightarrow> nat \<Rightarrow> bool ev"
  evCoerce :: "nat \<Rightarrow> string list \<Rightarrow> bool \<Rightarrow> bool \<Rightarrow> (string \<times> string list) ev"
  evStrict :: "nat \<Rightarrow> unit ev"

text \<open>
  What the evaluator uses of the rest of the program: the primitive operations, copying a file into the
  store, and the symbols it knows.
\<close>

record eval_config =
  primOpFun :: "evaluator \<Rightarrow> Symbol \<Rightarrow> nat list \<Rightarrow> nat \<Rightarrow> unit ev"
  copyToStore :: "path \<Rightarrow> path res"
  sOverrides :: Symbol
  sOutPath :: Symbol
  sType :: Symbol

definition evalBool :: "evaluator \<Rightarrow> nat \<Rightarrow> Expr \<Rightarrow> bool ev" where
  "evalBool r en e =
     bindS allocValue (\<lambda>t. bindS (evEval r e en t) (\<lambda>_. bindS (getValue t) (\<lambda>v. case v of
       vBool b \<Rightarrow> retS b
     | _ \<Rightarrow> expected ''a Boolean'' v)))"

text \<open>\<^verbatim>\<open>evalAttrs\<close> and \<^verbatim>\<open>forceAttrs\<close> return the address of the attributes that the caller goes on with.\<close>

definition evalAttrs :: "evaluator \<Rightarrow> nat \<Rightarrow> Expr \<Rightarrow> nat \<Rightarrow> nat ev" where
  "evalAttrs r en e dst =
     bindS (evEval r e en dst) (\<lambda>_. bindS (getValue dst) (\<lambda>v. case v of
       vAttrs b \<Rightarrow> retS b
     | _ \<Rightarrow> expected ''an attribute set'' v))"

definition forceAttrs :: "evaluator \<Rightarrow> nat \<Rightarrow> nat ev" where
  "forceAttrs r a =
     bindS (evForce r a) (\<lambda>_. bindS (getValue a) (\<lambda>v. case v of
       vAttrs b \<Rightarrow> retS b
     | _ \<Rightarrow> expected ''an attribute set'' v))"

definition forceList :: "evaluator \<Rightarrow> nat \<Rightarrow> nat list ev" where
  "forceList r a =
     bindS (evForce r a) (\<lambda>_. bindS (getValue a) (\<lambda>v. case v of
       vList as \<Rightarrow> retS as
     | _ \<Rightarrow> expected ''a list'' v))"

definition forceInt :: "evaluator \<Rightarrow> nat \<Rightarrow> int ev" where
  "forceInt r a =
     bindS (evForce r a) (\<lambda>_. bindS (getValue a) (\<lambda>v. case v of
       vInt n \<Rightarrow> retS n
     | _ \<Rightarrow> expected ''an integer'' v))"

definition forceBool :: "evaluator \<Rightarrow> nat \<Rightarrow> bool ev" where
  "forceBool r a =
     bindS (evForce r a) (\<lambda>_. bindS (getValue a) (\<lambda>v. case v of
       vBool b \<Rightarrow> retS b
     | _ \<Rightarrow> expected ''a Boolean'' v))"

fun is_function :: "Value \<Rightarrow> bool" where
  "is_function (vLambda _ _ _ _ _) \<longleftrightarrow> True"
| "is_function (vPrimOp _ _) \<longleftrightarrow> True"
| "is_function (vPrimOpApp _ _) \<longleftrightarrow> True"
| "is_function _ \<longleftrightarrow> False"

definition forceFunction :: "evaluator \<Rightarrow> nat \<Rightarrow> unit ev" where
  "forceFunction r a =
     bindS (evForce r a) (\<lambda>_. bindS (getValue a) (\<lambda>v. if is_function v then retS () else expected ''a function'' v))"

text \<open>\<^verbatim>\<open>forceString\<close> with the context, which the variants copy, ignore or refuse.\<close>

definition forceString :: "evaluator \<Rightarrow> nat \<Rightarrow> (string \<times> string list) ev" where
  "forceString r a =
     bindS (evForce r a) (\<lambda>_. bindS (getValue a) (\<lambda>v. case v of
       vString s context \<Rightarrow> retS (s, context)
     | _ \<Rightarrow> expected ''a string'' v))"

definition forceStringNoCtx :: "evaluator \<Rightarrow> nat \<Rightarrow> string ev" where
  "forceStringNoCtx r a =
     bindS (forceString r a) (\<lambda>(s, context). case context of
       [] \<Rightarrow> retS s
     | c # _ \<Rightarrow> throwS (EvalError (''the string `'' @ s @ [CHR 0x27] @ '' is not allowed to refer to a store path (such as `'' @
         c @ [CHR 0x27] @ '')'')))"

definition copyContext :: "string list \<Rightarrow> string list \<Rightarrow> string list" where
  "copyContext ctx context = set_insert_all ctx context"

subsection \<open>Evaluation of every kind of expression\<close>

text \<open>Attribute sets: one attribute after the other, into the new environment and the new set.\<close>

definition rec_attr :: "bool \<Rightarrow> nat \<Rightarrow> nat \<Rightarrow> nat \<Rightarrow> nat \<times> Symbol \<times> AttrDef \<Rightarrow> unit ev" where
  "rec_attr hasOverrides en env2 b i = (case i of (displ, x, def) \<Rightarrow>
     bindS (case def of
              Inherited var _ \<Rightarrow> bindS (lookupVar en var) deref
            | Defined e _ \<Rightarrow> if hasOverrides then allocWith (vThunk env2 e) else maybeThunk env2 e) (\<lambda>vAttr.
     bindS (setEnvValue env2 displ vAttr) (\<lambda>_.
       pushAttr b x vAttr)))"

definition plain_attr :: "nat \<Rightarrow> nat \<Rightarrow> Symbol \<times> AttrDef \<Rightarrow> unit ev" where
  "plain_attr en b i = (case i of (x, def) \<Rightarrow>
     bindS (case def of
              Inherited var _ \<Rightarrow> bindS (lookupVar en var) deref
            | Defined e _ \<Rightarrow> maybeThunk en e) (\<lambda>vAttr.
       pushAttr b x vAttr))"

fun attr_displ :: "AttrDef \<Rightarrow> nat" where
  "attr_displ (Inherited _ n) = n"
| "attr_displ (Defined _ n) = n"

definition override_attr :: "AttrDefs \<Rightarrow> nat \<Rightarrow> nat \<Rightarrow> Symbol \<times> nat \<Rightarrow> unit ev" where
  "override_attr attrs env2 b i = (case map_of attrs (fst i) of
     Some def \<Rightarrow>
       bindS (getBindings b) (\<lambda>bs.
         if attr_displ def < length bs
         then bindS (setBindings b (bs[attr_displ def := i])) (\<lambda>_. setEnvValue env2 (attr_displ def) (snd i))
         else throwS (Undefined ''index out of range''))
   | None \<Rightarrow> pushAttr b (fst i) (snd i))"

definition overrides :: "eval_config \<Rightarrow> evaluator \<Rightarrow> AttrDefs \<Rightarrow> nat \<Rightarrow> nat \<Rightarrow> nat \<Rightarrow> unit ev" where
  "overrides c r attrs displ env2 b =
     bindS (getBindings b) (\<lambda>bs.
       if displ < length bs then
         bindS (forceAttrs r (snd (bs ! displ))) (\<lambda>ov.
         bindS (getBindings ov) (\<lambda>os.
         bindS (foldS (override_attr attrs env2 b) os) (\<lambda>_.
         bindS (getBindings b) (\<lambda>bs. setBindings b (Bindings_sort bs)))))
       else throwS (Undefined ''index out of range''))"

definition ExprAttrs_eval :: "eval_config \<Rightarrow> evaluator \<Rightarrow> bool \<Rightarrow> AttrDefs \<Rightarrow> nat \<Rightarrow> nat \<Rightarrow> unit ev" where
  "ExprAttrs_eval c r recursive attrs en v =
     bindS (mkAttrs v []) (\<lambda>b.
       if recursive then
         bindS (allocEnv (length attrs) en) (\<lambda>env2.
         bindS (foldS (rec_attr (map_of attrs (sOverrides c) \<noteq> None) en env2 b) (enumerate 0 attrs)) (\<lambda>_.
           case map_of attrs (sOverrides c) of
             None \<Rightarrow> retS ()
           | Some def \<Rightarrow> overrides c r attrs (attr_displ def) env2 b))
       else foldS (plain_attr en b) attrs)"

definition let_attr :: "nat \<Rightarrow> nat \<Rightarrow> nat \<times> Symbol \<times> AttrDef \<Rightarrow> unit ev" where
  "let_attr en env2 i = (case i of (displ, x, def) \<Rightarrow>
     bindS (case def of
              Inherited var _ \<Rightarrow> bindS (lookupVar en var) deref
            | Defined e _ \<Rightarrow> maybeThunk env2 e) (\<lambda>a.
       setEnvValue env2 displ a))"

definition ExprLet_eval :: "evaluator \<Rightarrow> AttrDefs \<Rightarrow> Expr \<Rightarrow> nat \<Rightarrow> nat \<Rightarrow> unit ev" where
  "ExprLet_eval r attrs body en v =
     bindS (allocEnv (length attrs) en) (\<lambda>env2.
     bindS (foldS (let_attr en env2) (enumerate 0 attrs)) (\<lambda>_.
       evEval r body env2 v))"

primrec list_elems :: "nat \<Rightarrow> Expr list \<Rightarrow> nat list ev" where
  "list_elems en [] = retS []"
| "list_elems en (e # es) = bindS (maybeThunk en e) (\<lambda>a. bindS (list_elems en es) (\<lambda>as. retS (a # as)))"

text \<open>\<^verbatim>\<open>mkList\<close> makes \<open>v\<close> a list before its elements are there; nothing reads it in between.\<close>

definition ExprList_eval :: "Expr list \<Rightarrow> nat \<Rightarrow> nat \<Rightarrow> unit ev" where
  "ExprList_eval es en v =
     bindS (setValue v (vList [])) (\<lambda>_.
     bindS (list_elems en es) (\<lambda>as. setValue v (vList as)))"

definition ExprVar_eval :: "evaluator \<Rightarrow> VarRef \<Rightarrow> nat \<Rightarrow> nat \<Rightarrow> unit ev" where
  "ExprVar_eval r var en v =
     bindS (bindS (lookupVar en var) deref) (\<lambda>v2.
     bindS (evForce r v2) (\<lambda>_.
     bindS (getValue v2) (\<lambda>x. setValue v x)))"

primrec select_loop :: "evaluator \<Rightarrow> AttrPath \<Rightarrow> Expr option \<Rightarrow> nat \<Rightarrow> nat \<Rightarrow> AttrPath \<Rightarrow> nat \<Rightarrow> unit ev" where
  "select_loop r path def en v [] a = bindS (evForce r a) (\<lambda>_. bindS (getValue a) (\<lambda>x. setValue v x))"
| "select_loop r path def en v (i # is) a = (case def of
     Some d \<Rightarrow>
       bindS (evForce r a) (\<lambda>_. bindS (getValue a) (\<lambda>x. case x of
         vAttrs b \<Rightarrow> bindS (getBindings b) (\<lambda>bs. case Bindings_find bs i of
           None \<Rightarrow> evEval r d en v
         | Some j \<Rightarrow> select_loop r path def en v is j)
       | _ \<Rightarrow> evEval r d en v))
   | None \<Rightarrow>
       bindS (forceAttrs r a) (\<lambda>b. bindS (getBindings b) (\<lambda>bs. case Bindings_find bs i of
         None \<Rightarrow> (\<lambda>s. throwS (EvalError (''attribute `'' @ showAttrPath (stSymbols s) path @ [CHR 0x27] @ '' missing'')) s)
       | Some j \<Rightarrow> select_loop r path def en v is j)))"

definition ExprSelect_eval :: "evaluator \<Rightarrow> Expr \<Rightarrow> AttrPath \<Rightarrow> Expr option \<Rightarrow> nat \<Rightarrow> nat \<Rightarrow> unit ev" where
  "ExprSelect_eval r e path def en v =
     bindS allocValue (\<lambda>t. bindS (evEval r e en t) (\<lambda>_. select_loop r path def en v path t))"

primrec has_attr_loop :: "evaluator \<Rightarrow> AttrPath \<Rightarrow> nat \<Rightarrow> bool ev" where
  "has_attr_loop r [] a = retS True"
| "has_attr_loop r (i # is) a =
     bindS (evForce r a) (\<lambda>_. bindS (getValue a) (\<lambda>x. case x of
       vAttrs b \<Rightarrow> bindS (getBindings b) (\<lambda>bs. case Bindings_find bs i of
         None \<Rightarrow> retS False
       | Some j \<Rightarrow> has_attr_loop r is j)
     | _ \<Rightarrow> retS False))"

definition ExprOpHasAttr_eval :: "evaluator \<Rightarrow> Expr \<Rightarrow> AttrPath \<Rightarrow> nat \<Rightarrow> nat \<Rightarrow> unit ev" where
  "ExprOpHasAttr_eval r e path en v =
     bindS allocValue (\<lambda>t. bindS (evEval r e en t) (\<lambda>_.
     bindS (has_attr_loop r path t) (\<lambda>b. setValue v (vBool b))))"

definition ExprApp_eval :: "evaluator \<Rightarrow> Expr \<Rightarrow> Expr \<Rightarrow> nat \<Rightarrow> nat \<Rightarrow> unit ev" where
  "ExprApp_eval r e1 e2 en v =
     bindS allocValue (\<lambda>vFun. bindS (evEval r e1 en vFun) (\<lambda>_.
     bindS (maybeThunk en e2) (\<lambda>arg. evCall r vFun arg v)))"

subsection \<open>Calling functions\<close>

text \<open>
  The primitive operation at the end of a chain of partial applications, with the arguments it has got
  so far.  A chain visits every value at most once.
\<close>

primrec primop_chain :: "nat \<Rightarrow> nat \<Rightarrow> (nat list \<times> Symbol \<times> nat) ev" where
  "primop_chain 0 a = throwS Diverges"
| "primop_chain (Suc n) a = bindS (getValue a) (\<lambda>v. case v of
     vPrimOpApp left right \<Rightarrow> bindS (primop_chain n left) (\<lambda>(args, name, arity). retS (args @ [right], name, arity))
   | vPrimOp name arity \<Rightarrow> retS ([], name, arity)
   | _ \<Rightarrow> throwS (AssertFail ''primOp->type == tPrimOp''))"

definition call_primop :: "eval_config \<Rightarrow> evaluator \<Rightarrow> nat \<Rightarrow> nat \<Rightarrow> nat \<Rightarrow> unit ev" where
  "call_primop c r f arg v =
     bindS (\<lambda>s. primop_chain (Suc (length (stValues s))) f s) (\<lambda>(args, name, arity).
       if arity - length args = 1 then primOpFun c r name (args @ [arg]) v
       else bindS (getValue f) (\<lambda>fv. bindS (allocWith fv) (\<lambda>left. setValue v (vPrimOpApp left arg))))"

primrec call_formals :: "nat \<Rightarrow> nat \<Rightarrow> Pos \<Rightarrow> (Symbol \<times> Expr option) list \<Rightarrow> nat \<Rightarrow> nat \<Rightarrow> nat ev" where
  "call_formals env2 b pos [] displ attrsUsed = retS attrsUsed"
| "call_formals env2 b pos (i # is) displ attrsUsed =
     bindS (getBindings b) (\<lambda>bs. case Bindings_find bs (fst i) of
       None \<Rightarrow> (case snd i of
           None \<Rightarrow> (\<lambda>s. throwS (TypeError (''function at '' @ show_Pos pos @ '' called without required argument `'' @
             symbol_string (stSymbols s) (fst i) @ [CHR 0x27])) s)
         | Some def \<Rightarrow> bindS (maybeThunk env2 def) (\<lambda>a. bindS (setEnvValue env2 displ a) (\<lambda>_.
             call_formals env2 b pos is (displ + 1) attrsUsed)))
     | Some a \<Rightarrow> bindS (setEnvValue env2 displ a) (\<lambda>_.
         call_formals env2 b pos is (displ + 1) (attrsUsed + 1)))"

definition call_lambda ::
  "evaluator \<Rightarrow> nat \<Rightarrow> Pos \<Rightarrow> Symbol option \<Rightarrow> Formals option \<Rightarrow> Expr \<Rightarrow> nat \<Rightarrow> nat \<Rightarrow> unit ev" where
  "call_lambda r en pos param formals body arg v =
     bindS (allocEnv (length (lambda_names param formals)) en) (\<lambda>env2.
     bindS (case formals of
              None \<Rightarrow> setEnvValue env2 0 arg
            | Some (fs, ellipsis) \<Rightarrow>
                bindS (forceAttrs r arg) (\<lambda>b.
                bindS (if param \<noteq> None then setEnvValue env2 0 arg else retS ()) (\<lambda>_.
                bindS (call_formals env2 b pos fs (if param \<noteq> None then 1 else 0) 0) (\<lambda>attrsUsed.
                bindS (getBindings b) (\<lambda>bs.
                  if \<not> ellipsis \<and> attrsUsed \<noteq> length bs
                  then throwS (TypeError (''function at '' @ show_Pos pos @ '' called with unexpected argument''))
                  else retS ()))))) (\<lambda>_.
       evEval r body env2 v))"

definition callFunction :: "eval_config \<Rightarrow> evaluator \<Rightarrow> nat \<Rightarrow> nat \<Rightarrow> nat \<Rightarrow> unit ev" where
  "callFunction c r f arg v =
     bindS (getValue f) (\<lambda>fv. case fv of
       vPrimOp _ _ \<Rightarrow> call_primop c r f arg v
     | vPrimOpApp _ _ \<Rightarrow> call_primop c r f arg v
     | vLambda en pos param formals body \<Rightarrow> call_lambda r en pos param formals body arg v
     | _ \<Rightarrow> throwS (TypeError (''attempt to call something which is not a function but '' @ showType fv)))"

text \<open>
  Forcing a thunk leaves a black hole while it is evaluated, and makes it a thunk again when that
  throws.  Only the type is put back: when the evaluation had begun to write its result, the fields
  are not those of a thunk any more.
\<close>

definition restore_thunk :: "Value \<Rightarrow> Value" where
  "restore_thunk v = (case v of vBlackhole en e \<Rightarrow> vThunk en e | _ \<Rightarrow> vClobbered)"

definition forceValue :: "evaluator \<Rightarrow> nat \<Rightarrow> unit ev" where
  "forceValue r a =
     bindS (getValue a) (\<lambda>v. case v of
       vThunk en e \<Rightarrow>
         bindS (setValue a (vBlackhole en e)) (\<lambda>_ s. case evEval r e en a s of
           (Inr x, s) \<Rightarrow> (Inr x, s)
         | (Inl err, s) \<Rightarrow> if isError err
             then (Inl err, s\<lparr>stValues := (stValues s)[a := restore_thunk (stValues s ! a)]\<rparr>)
             else (Inl err, s))
     | vApp left right \<Rightarrow> evCall r left right a
     | vBlackhole _ _ \<Rightarrow> throwS (EvalError ''infinite recursion encountered'')
     | vClobbered \<Rightarrow> throwS (Undefined ''thunk whose fields have been overwritten'')
     | _ \<Rightarrow> retS ())"

definition autoCallFunction :: "eval_config \<Rightarrow> evaluator \<Rightarrow> Bindings \<Rightarrow> nat \<Rightarrow> nat \<Rightarrow> unit ev" where
  "autoCallFunction c r autoArgs f res =
     bindS (evForce r f) (\<lambda>_. bindS (getValue f) (\<lambda>fv. case fv of
       vLambda en pos param (Some (fs, ellipsis)) body \<Rightarrow>
         (case filter (\<lambda>i. Bindings_find autoArgs (fst i) = None \<and> snd i = None) fs of
            i # _ \<Rightarrow> (\<lambda>s. throwS (TypeError (''cannot auto-call a function that has an argument without a default value (`'' @
               symbol_string (stSymbols s) (fst i) @ [CHR 0x27] @ '')'')) s)
          | [] \<Rightarrow>
              bindS allocValue (\<lambda>actualArgs.
              bindS (mkAttrs actualArgs (Bindings_sort (concat (map (\<lambda>i. case Bindings_find autoArgs (fst i) of
                 None \<Rightarrow> [] | Some a \<Rightarrow> [(fst i, a)]) fs)))) (\<lambda>_.
                evCall r f actualArgs res)))
     | _ \<Rightarrow> setValue res fv))"

subsection \<open>Operators and conditions\<close>

definition ExprWith_eval :: "evaluator \<Rightarrow> Expr \<Rightarrow> Expr \<Rightarrow> nat \<Rightarrow> nat \<Rightarrow> nat \<Rightarrow> unit ev" where
  "ExprWith_eval r attrs body prevWith en v =
     bindS (allocEnv 1 en) (\<lambda>env2.
     bindS (setPrevWith env2 prevWith) (\<lambda>_.
     bindS allocValue (\<lambda>w.
     bindS (setEnvValue env2 0 w) (\<lambda>_.
     bindS (evalAttrs r en attrs w) (\<lambda>_.
       evEval r body env2 v)))))"

definition ExprIf_eval :: "evaluator \<Rightarrow> Expr \<Rightarrow> Expr \<Rightarrow> Expr \<Rightarrow> nat \<Rightarrow> nat \<Rightarrow> unit ev" where
  "ExprIf_eval r c t e en v = bindS (evalBool r en c) (\<lambda>b. evEval r (if b then t else e) en v)"

definition ExprAssert_eval :: "evaluator \<Rightarrow> Pos \<Rightarrow> Expr \<Rightarrow> Expr \<Rightarrow> nat \<Rightarrow> nat \<Rightarrow> unit ev" where
  "ExprAssert_eval r pos c body en v =
     bindS (evalBool r en c) (\<lambda>b.
       if b then evEval r body en v else throwS (AssertionError (''assertion failed at '' @ show_Pos pos)))"

definition ExprOpNot_eval :: "evaluator \<Rightarrow> Expr \<Rightarrow> nat \<Rightarrow> nat \<Rightarrow> unit ev" where
  "ExprOpNot_eval r e en v = bindS (evalBool r en e) (\<lambda>b. setValue v (vBool (\<not> b)))"

definition eval_two :: "evaluator \<Rightarrow> Expr \<Rightarrow> Expr \<Rightarrow> nat \<Rightarrow> (nat \<times> nat) ev" where
  "eval_two r e1 e2 en =
     bindS allocValue (\<lambda>v1. bindS (evEval r e1 en v1) (\<lambda>_.
     bindS allocValue (\<lambda>v2. bindS (evEval r e2 en v2) (\<lambda>_. retS (v1, v2)))))"

definition ExprOpEq_eval :: "evaluator \<Rightarrow> bool \<Rightarrow> Expr \<Rightarrow> Expr \<Rightarrow> nat \<Rightarrow> nat \<Rightarrow> unit ev" where
  "ExprOpEq_eval r negate e1 e2 en v =
     bindS (eval_two r e1 e2 en) (\<lambda>(v1, v2). bindS (evEq r v1 v2) (\<lambda>b. setValue v (vBool (b \<noteq> negate))))"

text \<open>\<^verbatim>\<open>&&\<close>, \<^verbatim>\<open>||\<close> and \<^verbatim>\<open>->\<close>: the second operand is evaluated unless the first one decides.\<close>

definition ExprOpAnd_eval :: "evaluator \<Rightarrow> Expr \<Rightarrow> Expr \<Rightarrow> nat \<Rightarrow> nat \<Rightarrow> unit ev" where
  "ExprOpAnd_eval r e1 e2 en v =
     bindS (bindS (evalBool r en e1) (\<lambda>b. if b then evalBool r en e2 else retS False)) (\<lambda>b. setValue v (vBool b))"

definition ExprOpOr_eval :: "evaluator \<Rightarrow> Expr \<Rightarrow> Expr \<Rightarrow> nat \<Rightarrow> nat \<Rightarrow> unit ev" where
  "ExprOpOr_eval r e1 e2 en v =
     bindS (bindS (evalBool r en e1) (\<lambda>b. if b then retS True else evalBool r en e2)) (\<lambda>b. setValue v (vBool b))"

definition ExprOpImpl_eval :: "evaluator \<Rightarrow> Expr \<Rightarrow> Expr \<Rightarrow> nat \<Rightarrow> nat \<Rightarrow> unit ev" where
  "ExprOpImpl_eval r e1 e2 en v =
     bindS (bindS (evalBool r en e1) (\<lambda>b. if \<not> b then retS True else evalBool r en e2)) (\<lambda>b. setValue v (vBool b))"

fun merge_attrs :: "Bindings \<Rightarrow> Bindings \<Rightarrow> Bindings" where
  "merge_attrs [] js = js"
| "merge_attrs is [] = is"
| "merge_attrs (i # is) (j # js) =
     (if fst i = fst j then j # merge_attrs is js
      else if fst i < fst j then i # merge_attrs is (j # js)
      else j # merge_attrs (i # is) js)"

definition ExprOpUpdate_eval :: "evaluator \<Rightarrow> Expr \<Rightarrow> Expr \<Rightarrow> nat \<Rightarrow> nat \<Rightarrow> unit ev" where
  "ExprOpUpdate_eval r e1 e2 en v =
     bindS allocValue (\<lambda>v1. bindS allocValue (\<lambda>v2.
     bindS (evalAttrs r en e1 v1) (\<lambda>b1.
     bindS (evalAttrs r en e2 v2) (\<lambda>b2.
     bindS (getBindings b1) (\<lambda>bs1. bindS (getBindings b2) (\<lambda>bs2.
       if bs1 = [] then setValue v (vAttrs b2)
       else if bs2 = [] then setValue v (vAttrs b1)
       else bindS (mkAttrs v (merge_attrs bs1 bs2)) (\<lambda>_. retS ())))))))"

text \<open>The result shares the only list that is not empty.\<close>

definition concatLists :: "evaluator \<Rightarrow> nat \<Rightarrow> nat list \<Rightarrow> unit ev" where
  "concatLists r v ls =
     bindS (foldr (\<lambda>l m. bindS (forceList r l) (\<lambda>as. bindS m (\<lambda>ass. retS (as # ass)))) ls (retS [])) (\<lambda>ass.
       setValue v (vList (concat ass)))"

definition ExprOpConcatLists_eval :: "evaluator \<Rightarrow> Expr \<Rightarrow> Expr \<Rightarrow> nat \<Rightarrow> nat \<Rightarrow> unit ev" where
  "ExprOpConcatLists_eval r e1 e2 en v = bindS (eval_two r e1 e2 en) (\<lambda>(v1, v2). concatLists r v [v1, v2])"

text \<open>\<open>isPath\<close> is \<open>None\<close> before the first element.\<close>

primrec concat_strings ::
  "evaluator \<Rightarrow> nat \<Rightarrow> nat \<Rightarrow> Expr list \<Rightarrow> bool option \<Rightarrow> string \<Rightarrow> string list \<Rightarrow> (bool \<times> string \<times> string list) ev" where
  "concat_strings r en vStr [] isPath str context = retS (isPath = Some True, str, context)"
| "concat_strings r en vStr (e # es) isPath str context =
     bindS (evEval r e en vStr) (\<lambda>_. bindS (getValue vStr) (\<lambda>x.
       let isPath = (case isPath of None \<Rightarrow> (case x of vPath _ \<Rightarrow> True | _ \<Rightarrow> False) | Some p \<Rightarrow> p)
       in bindS (evCoerce r vStr context False (\<not> isPath)) (\<lambda>(s, context).
            concat_strings r en vStr es (Some isPath) (str @ s) context)))"

definition ExprConcatStrings_eval :: "evaluator \<Rightarrow> Expr list \<Rightarrow> nat \<Rightarrow> nat \<Rightarrow> unit ev" where
  "ExprConcatStrings_eval r es en v =
     bindS allocValue (\<lambda>vStr.
     bindS (concat_strings r en vStr es None [] []) (\<lambda>(isPath, s, context).
       if isPath \<and> context \<noteq> [] then
         throwS (EvalError (''a string that refers to a store path cannot be appended to a path, in `'' @ s @ [CHR 0x27]))
       else if isPath then setValue v (vPath (c_str s))
       else setValue v (mkString s context)))"

definition Expr_eval :: "eval_config \<Rightarrow> evaluator \<Rightarrow> Expr \<Rightarrow> nat \<Rightarrow> nat \<Rightarrow> unit ev" where
  "Expr_eval c r expr en v = (case expr of
     ExprInt n \<Rightarrow> setValue v (vInt n)
   | ExprString s \<Rightarrow> setValue v (mkString s [])
   | ExprPath s \<Rightarrow> setValue v (vPath (c_str s))
   | ExprVar var \<Rightarrow> ExprVar_eval r var en v
   | ExprSelect e path def \<Rightarrow> ExprSelect_eval r e path def en v
   | ExprOpHasAttr e path \<Rightarrow> ExprOpHasAttr_eval r e path en v
   | ExprAttrs recursive attrs \<Rightarrow> ExprAttrs_eval c r recursive attrs en v
   | ExprList es \<Rightarrow> ExprList_eval es en v
   | ExprLambda pos arg formals body \<Rightarrow> setValue v (vLambda en pos arg formals body)
   | ExprLet attrs body \<Rightarrow> ExprLet_eval r attrs body en v
   | ExprWith pos attrs body prevWith \<Rightarrow> ExprWith_eval r attrs body prevWith en v
   | ExprIf cond t e \<Rightarrow> ExprIf_eval r cond t e en v
   | ExprAssert pos cond body \<Rightarrow> ExprAssert_eval r pos cond body en v
   | ExprOpNot e \<Rightarrow> ExprOpNot_eval r e en v
   | ExprConcatStrings es \<Rightarrow> ExprConcatStrings_eval r es en v
   | ExprBin b e1 e2 \<Rightarrow> (case b of
       App \<Rightarrow> ExprApp_eval r e1 e2 en v
     | OpEq \<Rightarrow> ExprOpEq_eval r False e1 e2 en v
     | OpNEq \<Rightarrow> ExprOpEq_eval r True e1 e2 en v
     | OpAnd \<Rightarrow> ExprOpAnd_eval r e1 e2 en v
     | OpOr \<Rightarrow> ExprOpOr_eval r e1 e2 en v
     | OpImpl \<Rightarrow> ExprOpImpl_eval r e1 e2 en v
     | OpUpdate \<Rightarrow> ExprOpUpdate_eval r e1 e2 en v
     | OpConcatLists \<Rightarrow> ExprOpConcatLists_eval r e1 e2 en v))"

subsection \<open>Forcing deeply, strings, comparison\<close>

definition strictForceValue :: "evaluator \<Rightarrow> nat \<Rightarrow> unit ev" where
  "strictForceValue r a =
     bindS (evForce r a) (\<lambda>_. bindS (getValue a) (\<lambda>v. case v of
       vAttrs b \<Rightarrow> bindS (getBindings b) (\<lambda>bs. foldS (\<lambda>i. evStrict r (snd i)) bs)
     | vList as \<Rightarrow> foldS (evStrict r) as
     | _ \<Rightarrow> retS ()))"

definition isDerivationValue :: "eval_config \<Rightarrow> evaluator \<Rightarrow> nat \<Rightarrow> bool ev" where
  "isDerivationValue c r a =
     bindS (getValue a) (\<lambda>v. case v of
       vAttrs b \<Rightarrow> bindS (getBindings b) (\<lambda>bs. case Bindings_find bs (sType c) of
         None \<Rightarrow> retS False
       | Some i \<Rightarrow> bindS (evForce r i) (\<lambda>_. bindS (getValue i) (\<lambda>t. case t of
           vString _ _ \<Rightarrow> bindS (forceStringNoCtx r i) (\<lambda>s. retS (s = ''derivation''))
         | _ \<Rightarrow> retS False)))
     | _ \<Rightarrow> retS False)"

text \<open>Copying a path into the store, once for every path.  Looking the path up adds an empty entry for it.\<close>

definition copyPathToStore :: "eval_config \<Rightarrow> path \<Rightarrow> path ev" where
  "copyPathToStore c p s =
     (if isDerivation p then throwS (EvalError (''file names are not allowed to end in `.drv'' @ [CHR 0x27])) s
      else let dst = (case map_of (stSrcToStore s) p of Some dst \<Rightarrow> dst | None \<Rightarrow> []);
               s = s\<lparr>stSrcToStore := map_put p dst (stSrcToStore s)\<rparr>
           in if dst \<noteq> [] then (Inr dst, s)
              else case copyToStore c p of
                Inl e \<Rightarrow> (Inl e, s)
              | Inr dst \<Rightarrow> (Inr dst, s\<lparr>stSrcToStore := map_put p dst (stSrcToStore s)\<rparr>))"

primrec coerce_list :: "evaluator \<Rightarrow> bool \<Rightarrow> bool \<Rightarrow> nat list \<Rightarrow> string list \<Rightarrow> (string \<times> string list) ev" where
  "coerce_list r coerceMore copy [] context = retS ([], context)"
| "coerce_list r coerceMore copy (a # as) context =
     bindS (evCoerce r a context coerceMore copy) (\<lambda>(s, context).
     bindS (getValue a) (\<lambda>v.
     bindS (coerce_list r coerceMore copy as context) (\<lambda>(s', context).
       retS (s @ (if as \<noteq> [] \<and> v \<noteq> vList [] then '' '' else []) @ s', context))))"

definition coerceToString :: "eval_config \<Rightarrow> evaluator \<Rightarrow> nat \<Rightarrow> string list \<Rightarrow> bool \<Rightarrow> bool \<Rightarrow> (string \<times> string list) ev" where
  "coerceToString c r a context coerceMore copy =
     bindS (evForce r a) (\<lambda>_. bindS (getValue a) (\<lambda>v. case v of
       vString s ctx \<Rightarrow> retS (s, copyContext ctx context)
     | vPath p \<Rightarrow> (\<lambda>st. case canonPath (\<lambda>_. Inr None) p False of
         Inl e \<Rightarrow> (Inl e, st)
       | Inr p \<Rightarrow> (if \<not> copy then retS (p, context)
                  else bindS (copyPathToStore c p) (\<lambda>dst. retS (dst, set_insert dst context))) st)
     | vAttrs b \<Rightarrow> bindS (getBindings b) (\<lambda>bs. case Bindings_find bs (sOutPath c) of
         None \<Rightarrow> throwS (TypeError ''cannot coerce an attribute set (except a derivation) to a string'')
       | Some i \<Rightarrow> evCoerce r i context coerceMore copy)
     | _ \<Rightarrow>
       if coerceMore then (case v of
           vBool b \<Rightarrow> retS (if b then ''1'' else [], context)
         | vInt n \<Rightarrow> retS (int2String n, context)
         | vNull \<Rightarrow> retS ([], context)
         | vList as \<Rightarrow> coerce_list r coerceMore copy as context
         | _ \<Rightarrow> throwS (TypeError (''cannot coerce '' @ showType v @ '' to a string'')))
       else throwS (TypeError (''cannot coerce '' @ showType v @ '' to a string''))))"

definition coerceToPath :: "eval_config \<Rightarrow> evaluator \<Rightarrow> nat \<Rightarrow> string list \<Rightarrow> (path \<times> string list) ev" where
  "coerceToPath c r a context =
     bindS (evCoerce r a context False False) (\<lambda>(p, context).
       if p = [] \<or> hd p \<noteq> CHR ''/'' then throwS (EvalError (''string `'' @ p @ [CHR 0x27] @ '' doesn'' @ [CHR 0x27] @ ''t represent an absolute path''))
       else retS (p, context))"

primrec eq_all :: "evaluator \<Rightarrow> (nat \<times> nat) list \<Rightarrow> bool ev" where
  "eq_all r [] = retS True"
| "eq_all r (p # ps) = bindS (evEq r (fst p) (snd p)) (\<lambda>b. if b then eq_all r ps else retS False)"

primrec eq_attrs :: "evaluator \<Rightarrow> Bindings \<Rightarrow> Bindings \<Rightarrow> bool ev" where
  "eq_attrs r [] js = retS True"
| "eq_attrs r (i # is) js = (case js of
     [] \<Rightarrow> nullPointer
   | j # js \<Rightarrow> if fst i \<noteq> fst j then retS False
       else bindS (evEq r (snd i) (snd j)) (\<lambda>b. if b then eq_attrs r is js else retS False))"

definition eqAttrs :: "eval_config \<Rightarrow> evaluator \<Rightarrow> nat \<Rightarrow> nat \<Rightarrow> nat \<Rightarrow> nat \<Rightarrow> bool ev" where
  "eqAttrs c r a1 a2 b1 b2 =
     bindS (bindS (isDerivationValue c r a1) (\<lambda>d. if d then isDerivationValue c r a2 else retS False)) (\<lambda>both.
     bindS (getBindings b1) (\<lambda>is. bindS (getBindings b2) (\<lambda>js.
       case (if both then (Bindings_find is (sOutPath c), Bindings_find js (sOutPath c)) else (None, None)) of
         (Some i, Some j) \<Rightarrow> evEq r i j
       | _ \<Rightarrow> if length is \<noteq> length js then retS False else eq_attrs r is js)))"

definition eqValues :: "eval_config \<Rightarrow> evaluator \<Rightarrow> nat \<Rightarrow> nat \<Rightarrow> bool ev" where
  "eqValues c r a1 a2 =
     bindS (evForce r a1) (\<lambda>_. bindS (evForce r a2) (\<lambda>_.
     if a1 = a2 then retS True
     else bindS (getValue a1) (\<lambda>v1. bindS (getValue a2) (\<lambda>v2. case (v1, v2) of
       (vInt m, vInt n) \<Rightarrow> retS (m = n)
     | (vBool p, vBool q) \<Rightarrow> retS (p = q)
     | (vString s c1, vString t c2) \<Rightarrow> retS (s = t \<and> c1 = c2)
     | (vPath p, vPath q) \<Rightarrow> retS (p = q)
     | (vNull, vNull) \<Rightarrow> retS True
     | (vList as, vList bs) \<Rightarrow> if length as \<noteq> length bs then retS False else eq_all r (zip as bs)
     | (vAttrs b1, vAttrs b2) \<Rightarrow> eqAttrs c r a1 a2 b1 b2
     | (vThunk _ _, vThunk _ _) \<Rightarrow> throwS (EvalError ''cannot compare a thunk with a thunk'')
     | (vApp _ _, vApp _ _) \<Rightarrow> throwS (EvalError ''cannot compare a function application with a function application'')
     | (vBlackhole _ _, vBlackhole _ _) \<Rightarrow> throwS (EvalError ''cannot compare a black hole with a black hole'')
     | _ \<Rightarrow> retS False))))"

subsection \<open>Tying the knot\<close>

primrec evaluator_at :: "eval_config \<Rightarrow> nat \<Rightarrow> evaluator" where
  "evaluator_at c 0 = \<lparr>evEval = (\<lambda>_ _ _. throwS Diverges), evForce = (\<lambda>_. throwS Diverges),
     evCall = (\<lambda>_ _ _. throwS Diverges), evEq = (\<lambda>_ _. throwS Diverges),
     evCoerce = (\<lambda>_ _ _ _. throwS Diverges), evStrict = (\<lambda>_. throwS Diverges)\<rparr>"
| "evaluator_at c (Suc n) =
     (let r = evaluator_at c n
      in \<lparr>evEval = Expr_eval c r, evForce = forceValue r, evCall = callFunction c r, evEq = eqValues c r,
          evCoerce = coerceToString c r, evStrict = strictForceValue r\<rparr>)"

end
