(* ===== verification/Eval_Heap.thy ===== *)
theory Eval_Heap
  imports Eval
begin

text \<open>
  The heap of the evaluator.  Every environment in it is given the static environment it was built for.
  A heap is well-formed when thunks and functions have expressions that fit their environments, named
  slots of complete environments are filled, and attributes are in order.  The theory shows how the
  elementary changes of the heap keep it so, and that in such a heap variables are found where scoping
  says.
\<close>

subsection \<open>Well-formed heaps\<close>

type_synonym heap_type = "StaticEnv option list"

definition typed :: "heap_type \<Rightarrow> nat \<Rightarrow> StaticEnv \<Rightarrow> bool" where
  "typed T en G \<longleftrightarrow> en < length T \<and> T ! en = Some G"

definition ref_ok :: "EvalState \<Rightarrow> nat \<Rightarrow> bool" where
  "ref_ok s a \<longleftrightarrow> a < length (stValues s) \<and> stValues s ! a \<noteq> vUninit"

fun is_prim :: "Value \<Rightarrow> bool" where
  "is_prim (vPrimOp _ _) \<longleftrightarrow> True"
| "is_prim (vPrimOpApp _ _) \<longleftrightarrow> True"
| "is_prim _ \<longleftrightarrow> False"

text \<open>\<open>A\<close> says which primitive operations there are, with their arities.\<close>

fun value_ok :: "(Symbol \<Rightarrow> nat \<Rightarrow> bool) \<Rightarrow> EvalState \<Rightarrow> heap_type \<Rightarrow> Value \<Rightarrow> bool" where
  "value_ok A s T (vAttrs b) \<longleftrightarrow> b < length (stBindings s)"
| "value_ok A s T (vList as) \<longleftrightarrow> (\<forall>a \<in> set as. ref_ok s a)"
| "value_ok A s T (vThunk en e) \<longleftrightarrow> (\<exists>G. typed T en G \<and> fits G e)"
| "value_ok A s T (vBlackhole en e) \<longleftrightarrow> (\<exists>G. typed T en G \<and> fits G e)"
| "value_ok A s T (vApp l r) \<longleftrightarrow> ref_ok s l \<and> ref_ok s r"
| "value_ok A s T (vLambda en pos arg formals body) \<longleftrightarrow> (\<exists>G. typed T en G \<and> fits G (ExprLambda pos arg formals body))"
| "value_ok A s T (vPrimOp name arity) \<longleftrightarrow> A name arity"
| "value_ok A s T (vPrimOpApp l r) \<longleftrightarrow> l < length (stValues s) \<and> is_prim (stValues s ! l) \<and> ref_ok s r"
| "value_ok A s T vClobbered \<longleftrightarrow> False"
| "value_ok A s T _ \<longleftrightarrow> True"

text \<open>An environment has the shape of its static environment; its named slots are filled when it is complete.\<close>

definition slot_ok :: "bool \<Rightarrow> EvalState \<Rightarrow> nat option \<Rightarrow> bool" where
  "slot_ok complete s p = (case p of Some v \<Rightarrow> ref_ok s v | None \<Rightarrow> \<not> complete)"

definition env_ok :: "bool \<Rightarrow> EvalState \<Rightarrow> heap_type \<Rightarrow> nat \<Rightarrow> bool" where
  "env_ok complete s T a = (case T ! a of
     None \<Rightarrow> True
   | Some G \<Rightarrow> (case G of [] \<Rightarrow> False | f # G' \<Rightarrow>
       (case envUp (stEnvs s ! a) of None \<Rightarrow> G' = [] | Some u \<Rightarrow> u < a \<and> typed T u G') \<and>
       (if isWith f then envPrevWith (stEnvs s ! a) = prev_with_loop G' 1 \<and>
          (\<exists>w b. envValues (stEnvs s ! a) = [Some w] \<and> w < length (stValues s) \<and> stValues s ! w = vAttrs b)
        else \<forall>x d. map_of (vars f) x = Some d \<longrightarrow> d < length (envValues (stEnvs s ! a)) \<and>
          slot_ok complete s (envValues (stEnvs s ! a) ! d))))"

definition heap_ok :: "(Symbol \<Rightarrow> nat \<Rightarrow> bool) \<Rightarrow> nat set \<Rightarrow> EvalState \<Rightarrow> heap_type \<Rightarrow> bool" where
  "heap_ok A X s T \<longleftrightarrow> length T = length (stEnvs s) \<and>
     (\<forall>a < length (stValues s). value_ok A s T (stValues s ! a)) \<and>
     (\<forall>a < length (stEnvs s). env_ok (a \<notin> X) s T a) \<and>
     (\<forall>b < length (stBindings s). is_set (map fst (stBindings s ! b)) \<and> (\<forall>i \<in> set (stBindings s ! b). ref_ok s (snd i)))"

text \<open>
  Values that must not be overwritten: the attributes of a \<^verbatim>\<open>with\<close>, and the function of a partial
  application.
\<close>

definition protected :: "EvalState \<Rightarrow> heap_type \<Rightarrow> nat \<Rightarrow> bool" where
  "protected s T a \<longleftrightarrow>
     (\<exists>k < length (stEnvs s). \<exists>f G. T ! k = Some (f # G) \<and> isWith f \<and> envValues (stEnvs s ! k) = [Some a]) \<or>
     (\<exists>k < length (stValues s). \<exists>r. stValues s ! k = vPrimOpApp a r)"

definition dst_ok :: "EvalState \<Rightarrow> heap_type \<Rightarrow> nat \<Rightarrow> bool" where
  "dst_ok s T a \<longleftrightarrow> a < length (stValues s) \<and> \<not> protected s T a"

text \<open>What stays true of a heap while the program runs.\<close>

definition grows :: "EvalState \<Rightarrow> heap_type \<Rightarrow> EvalState \<Rightarrow> heap_type \<Rightarrow> bool" where
  "grows s T s' T' \<longleftrightarrow> length (stValues s) \<le> length (stValues s') \<and> length (stBindings s) \<le> length (stBindings s') \<and>
     length T \<le> length T' \<and> length (stEnvs s) \<le> length (stEnvs s') \<and>
     (\<forall>a < length T. if T ! a = None then T' ! a = None \<and> stEnvs s' ! a = stEnvs s ! a else T' ! a = T ! a) \<and>
     (\<forall>b < length (stBindings s). stBindings s' ! b = stBindings s ! b) \<and>
     (\<forall>a < length (stValues s). stValues s ! a \<noteq> vUninit \<longrightarrow> stValues s' ! a \<noteq> vUninit) \<and>
     (\<forall>a < length (stValues s). protected s' T' a \<longrightarrow> protected s T a)"

lemma grows_refl [simp]: "grows s T s T"
  by (simp add: grows_def)

lemma grows_trans: "grows s T s1 T1 \<Longrightarrow> grows s1 T1 s2 T2 \<Longrightarrow> grows s T s2 T2"
  unfolding grows_def by (intro conjI) (auto split: if_splits)

lemma ref_ok_grows: "grows s T s' T' \<Longrightarrow> ref_ok s a \<Longrightarrow> ref_ok s' a"
  by (auto simp: grows_def ref_ok_def)

lemma typed_grows: "grows s T s' T' \<Longrightarrow> typed T en G \<Longrightarrow> typed T' en G"
  by (auto simp: grows_def typed_def)

lemma dst_ok_grows: "grows s T s' T' \<Longrightarrow> dst_ok s T a \<Longrightarrow> dst_ok s' T' a"
  by (auto simp: grows_def dst_ok_def)

lemma bindings_grows:
  "grows s T s' T' \<Longrightarrow> b < length (stBindings s) \<Longrightarrow> b < length (stBindings s') \<and> stBindings s' ! b = stBindings s ! b"
  by (auto simp: grows_def)

lemmas grows_intros = ref_ok_grows typed_grows dst_ok_grows

lemma value_ok_mono:
  assumes "value_ok A s T v" and "length (stBindings s) \<le> length (stBindings s')"
    and "\<And>a. ref_ok s a \<Longrightarrow> ref_ok s' a" and "\<And>en G. typed T en G \<Longrightarrow> typed T' en G"
    and "\<And>l r. v = vPrimOpApp l r \<Longrightarrow> l < length (stValues s') \<and> is_prim (stValues s' ! l)"
  shows "value_ok A s' T' v"
  using assms by (cases v) auto

lemma env_ok_mono:
  assumes "env_ok c s T a" and "T' ! a = T ! a" and "stEnvs s' ! a = stEnvs s ! a"
    and "\<And>a. ref_ok s a \<Longrightarrow> ref_ok s' a" and "\<And>en G. typed T en G \<Longrightarrow> typed T' en G"
    and "\<And>w f G b. T ! a = Some (f # G) \<Longrightarrow> isWith f \<Longrightarrow> envValues (stEnvs s ! a) = [Some w] \<Longrightarrow> w < length (stValues s) \<Longrightarrow>
      stValues s ! w = vAttrs b \<Longrightarrow> w < length (stValues s') \<and> (\<exists>b. stValues s' ! w = vAttrs b)"
  shows "env_ok c s' T' a"
proof (cases "T ! a")
  case (Some G)
  then show ?thesis
  proof (cases G)
    case (Cons f G')
    show ?thesis
    proof (cases "isWith f")
      case True
      with assms(1) Some Cons obtain w b where "envValues (stEnvs s ! a) = [Some w]" "w < length (stValues s)" "stValues s ! w = vAttrs b"
        by (auto simp: env_ok_def)
      with assms(6) [of f G' w b] assms Some Cons True show ?thesis by (auto simp: env_ok_def split: option.splits)
    next
      case False
      have "slot_ok c s' p" if "slot_ok c s p" for p
        using that assms(4) by (simp add: slot_ok_def split: option.splits)
      with assms Some Cons False show ?thesis by (auto simp: env_ok_def split: option.splits)
    qed
  qed (use assms Some in \<open>simp add: env_ok_def\<close>)
qed (use assms in \<open>simp add: env_ok_def\<close>)

lemma heap_okD:
  assumes "heap_ok A X s T"
  shows "length T = length (stEnvs s)"
    and "a < length (stValues s) \<Longrightarrow> value_ok A s T (stValues s ! a)"
    and "a < length (stEnvs s) \<Longrightarrow> env_ok (a \<notin> X) s T a"
    and "b < length (stBindings s) \<Longrightarrow> is_set (map fst (stBindings s ! b))"
    and "b < length (stBindings s) \<Longrightarrow> i \<in> set (stBindings s ! b) \<Longrightarrow> ref_ok s (snd i)"
  using assms by (auto simp: heap_ok_def)

text \<open>Only values, environments and attributes matter.\<close>

lemma same_heap:
  assumes "stValues s' = stValues s" and "stEnvs s' = stEnvs s" and "stBindings s' = stBindings s"
  shows "ref_ok s' = ref_ok s" and "protected s' = protected s" and "dst_ok s' = dst_ok s" and "heap_ok A X s' T = heap_ok A X s T"
    and "grows s T s' T" and "grows s0 T0 s' T = grows s0 T0 s T"
proof -
  show r: "ref_ok s' = ref_ok s" and p: "protected s' = protected s" using assms by (auto simp: fun_eq_iff ref_ok_def protected_def)
  then show "dst_ok s' = dst_ok s" using assms by (simp add: fun_eq_iff dst_ok_def)
  have "value_ok A s' T v = value_ok A s T v" for v using assms r by (cases v) simp_all
  moreover have "env_ok k s' T e = env_ok k s T e" for k e using assms r by (simp add: env_ok_def slot_ok_def split: option.splits list.splits)
  ultimately show "heap_ok A X s' T = heap_ok A X s T" using assms r by (simp add: heap_ok_def)
  show "grows s T s' T" "grows s0 T0 s' T = grows s0 T0 s T" using assms p by (simp_all add: grows_def)
qed

lemma protected_cases:
  assumes "heap_ok A X s T" and "protected s T a"
  shows "a < length (stValues s) \<and> ((\<exists>b. stValues s ! a = vAttrs b) \<or> is_prim (stValues s ! a))"
  using assms(2) unfolding protected_def
proof (elim disjE exE conjE)
  fix k f G
  assume k: "k < length (stEnvs s)" "T ! k = Some (f # G)" "isWith f" "envValues (stEnvs s ! k) = [Some a]"
  with heap_okD(3) [OF assms(1) k(1)] show ?thesis by (auto simp: env_ok_def)
next
  fix k r
  assume "k < length (stValues s)" "stValues s ! k = vPrimOpApp a r"
  with heap_okD(2) [OF assms(1), of k] show ?thesis by auto
qed

subsection \<open>Changes of the heap\<close>

lemma heap_ok_alloc:
  assumes ok: "heap_ok A X s T" and v: "value_ok A s T v" and s': "s' = s\<lparr>stValues := stValues s @ [v]\<rparr>"
    and app: "\<And>l r. v = vPrimOpApp l r \<Longrightarrow> protected s T l"
  shows "heap_ok A X s' T" and "grows s T s' T" and "v \<noteq> vUninit \<Longrightarrow> ref_ok s' (length (stValues s))"
    and "dst_ok s' T (length (stValues s))" and "length (stValues s) < length (stValues s')"
proof -
  have ref: "ref_ok s' a" if "ref_ok s a" for a using that by (auto simp: ref_ok_def s' nth_append)
  have val: "value_ok A s' T w" if "value_ok A s T w" for w
    by (rule value_ok_mono [OF that]) (use that ref in \<open>auto simp: s' nth_append\<close>)
  show "heap_ok A X s' T"
    unfolding heap_ok_def
  proof (intro conjI allI impI ballI)
    fix a assume "a < length (stValues s')"
    with val v heap_okD(2) [OF ok, of a] show "value_ok A s' T (stValues s' ! a)" by (auto simp: s' nth_append less_Suc_eq)
  next
    fix a assume "a < length (stEnvs s')"
    then have "env_ok (a \<notin> X) s T a" using heap_okD(3) [OF ok] by (simp add: s')
    then show "env_ok (a \<notin> X) s' T a" by (rule env_ok_mono) (use ref in \<open>auto simp: s' nth_append\<close>)
  qed (use heap_okD(1,4,5) [OF ok] ref in \<open>auto simp: s'\<close>)
  have prot: "protected s' T a \<longleftrightarrow> protected s T a" for a
    using app by (auto simp: protected_def s' nth_append less_Suc_eq)
  then show "grows s T s' T" by (auto simp: grows_def s' nth_append)
  show "dst_ok s' T (length (stValues s))"
    using prot protected_cases [OF ok, of "length (stValues s)"] by (auto simp: dst_ok_def s')
qed (simp_all add: ref_ok_def s')

text \<open>Writing a value.  The function of a new partial application has to be one that is protected anyway, or new.\<close>

lemma heap_ok_set:
  assumes ok: "heap_ok A X s T" and a: "dst_ok s T a" and v: "value_ok A s T v" "v \<noteq> vUninit"
    and s': "s' = s\<lparr>stValues := (stValues s)[a := v]\<rparr>" and app: "\<And>l r. v = vPrimOpApp l r \<Longrightarrow> l \<noteq> a"
  shows "heap_ok A X s' T" and "ref_ok s' a"
    and "(\<And>l r. v = vPrimOpApp l r \<Longrightarrow> protected s T l) \<Longrightarrow> grows s T s' T"
    and "grows s0 T0 s T \<Longrightarrow> (\<And>l r. v = vPrimOpApp l r \<Longrightarrow> length (stValues s0) \<le> l) \<Longrightarrow> grows s0 T0 s' T"
proof -
  have a': "a < length (stValues s)" "\<not> protected s T a" using a by (simp_all add: dst_ok_def)
  have ref: "ref_ok s' b" if "ref_ok s b" for b using that v(2) a'(1) by (auto simp: ref_ok_def s' nth_list_update)
  have val: "value_ok A s' T w" if "value_ok A s T w" "\<And>l r. w = vPrimOpApp l r \<Longrightarrow> l \<noteq> a" for w
    by (rule value_ok_mono [OF that(1)]) (use that ref in \<open>auto simp: s'\<close>)
  show "heap_ok A X s' T"
    unfolding heap_ok_def
  proof (intro conjI allI impI ballI)
    fix b assume b: "b < length (stValues s')"
    show "value_ok A s' T (stValues s' ! b)"
    proof (cases "b = a")
      case True
      with val [OF v(1) app] b show ?thesis by (simp add: s')
    next
      case False
      with b have "value_ok A s T (stValues s ! b)" using heap_okD(2) [OF ok] by (simp add: s')
      moreover have "l \<noteq> a" if "stValues s ! b = vPrimOpApp l r" for l r
        using that a'(2) b by (auto simp: protected_def s')
      ultimately show ?thesis using val False by (simp add: s')
    qed
  next
    fix e assume e: "e < length (stEnvs s')"
    then have "env_ok (e \<notin> X) s T e" using heap_okD(3) [OF ok] by (simp add: s')
    then show "env_ok (e \<notin> X) s' T e"
    proof (rule env_ok_mono)
      fix w f G b
      assume "T ! e = Some (f # G)" "isWith f" "envValues (stEnvs s ! e) = [Some w]" "w < length (stValues s)" "stValues s ! w = vAttrs b"
      moreover from this e a'(2) have "w \<noteq> a" by (auto simp: protected_def s')
      ultimately show "w < length (stValues s') \<and> (\<exists>b. stValues s' ! w = vAttrs b)" by (simp add: s')
    qed (use ref in \<open>auto simp: s'\<close>)
  qed (use heap_okD(1,4,5) [OF ok] ref in \<open>auto simp: s'\<close>)
  show "ref_ok s' a" using a' v(2) by (simp add: ref_ok_def s')
  have prot: "protected s T b \<or> (\<exists>r. v = vPrimOpApp b r)" if "protected s' T b" for b
    using that a'(1) by (auto simp: protected_def s' nth_list_update split: if_splits)
  show "grows s T s' T" if app': "\<And>l r. v = vPrimOpApp l r \<Longrightarrow> protected s T l"
  proof -
    have "protected s T b" if "protected s' T b" for b using prot [OF that] app' by blast
    then show ?thesis using v(2) a'(1) by (auto simp: grows_def s' nth_list_update)
  qed
  show "grows s0 T0 s' T" if g: "grows s0 T0 s T" and new: "\<And>l r. v = vPrimOpApp l r \<Longrightarrow> length (stValues s0) \<le> l"
  proof -
    have "protected s0 T0 b" if "b < length (stValues s0)" "protected s' T b" for b
      using prot [OF that(2)] new g that(1) by (auto simp: grows_def dest: leD)
    with g v(2) a'(1) show ?thesis by (auto simp: grows_def s' nth_list_update)
  qed
qed

text \<open>A vector of attributes is made, or changed.\<close>

lemma heap_ok_new_bindings:
  assumes ok: "heap_ok A X s T" and bs: "is_set (map fst bs)" "\<And>i. i \<in> set bs \<Longrightarrow> ref_ok s (snd i)"
    and s': "s' = s\<lparr>stBindings := stBindings s @ [bs]\<rparr>"
  shows "heap_ok A X s' T" and "grows s T s' T"
proof -
  have ref: "ref_ok s' a = ref_ok s a" for a by (simp add: ref_ok_def s')
  have "value_ok A s' T v" if "value_ok A s T v" "v \<in> set (stValues s)" for v
    by (rule value_ok_mono [OF that(1)]) (use that ref in \<open>auto simp: s'\<close>)
  moreover have "env_ok c s' T a" if "env_ok c s T a" for c a
    using that by (rule env_ok_mono) (use ref in \<open>auto simp: s'\<close>)
  ultimately show "heap_ok A X s' T"
    using ok bs ref by (auto simp: heap_ok_def s' nth_append less_Suc_eq)
  show "grows s T s' T" by (simp add: grows_def s' protected_def nth_append)
qed

lemma heap_ok_set_bindings:
  assumes ok: "heap_ok A X s T" and bs: "is_set (map fst bs)" "\<And>i. i \<in> set bs \<Longrightarrow> ref_ok s (snd i)"
    and s': "s' = s\<lparr>stBindings := (stBindings s)[b := bs]\<rparr>" and b: "b < length (stBindings s)"
  shows "heap_ok A X s' T" and "grows s0 T0 s T \<Longrightarrow> length (stBindings s0) \<le> b \<Longrightarrow> grows s0 T0 s' T"
proof -
  have ref: "ref_ok s' a = ref_ok s a" for a by (simp add: ref_ok_def s')
  have "value_ok A s' T v" if "value_ok A s T v" "v \<in> set (stValues s)" for v
    by (rule value_ok_mono [OF that(1)]) (use that ref in \<open>auto simp: s'\<close>)
  moreover have "env_ok c s' T a" if "env_ok c s T a" for c a
    using that by (rule env_ok_mono) (use ref in \<open>auto simp: s'\<close>)
  ultimately show "heap_ok A X s' T"
    using ok bs ref b by (auto simp: heap_ok_def s' nth_list_update)
  show "grows s0 T0 s' T" if "grows s0 T0 s T" "length (stBindings s0) \<le> b"
    using that by (simp add: grows_def s' protected_def)
qed

text \<open>A new environment has no type yet; it gets one when its slots are filled, or are about to be.\<close>

lemma heap_ok_new_env:
  assumes ok: "heap_ok A X s T" and s': "s' = s\<lparr>stEnvs := stEnvs s @ [e]\<rparr>"
  shows "heap_ok A X s' (T @ [None])" and "grows s T s' (T @ [None])"
proof -
  have len: "length T = length (stEnvs s)" by (rule heap_okD(1) [OF ok])
  have ref: "ref_ok s' a = ref_ok s a" for a by (simp add: ref_ok_def s')
  have ty: "typed (T @ [None]) en G" if "typed T en G" for en G using that by (simp add: typed_def nth_append)
  have "value_ok A s' (T @ [None]) v" if "value_ok A s T v" "v \<in> set (stValues s)" for v
    by (rule value_ok_mono [OF that(1)]) (use that ref ty in \<open>auto simp: s'\<close>)
  moreover have "env_ok c s' (T @ [None]) a" if "env_ok c s T a" "a < length T" for c a
    using that(1) by (rule env_ok_mono) (use that(2) ref ty len in \<open>auto simp: s' nth_append\<close>)
  ultimately show "heap_ok A X s' (T @ [None])"
    using ok len ref by (auto simp: heap_ok_def s' less_Suc_eq env_ok_def nth_append)
  have "protected s T a" if "protected s' (T @ [None]) a" for a
    using that len by (auto simp: protected_def s' nth_append less_Suc_eq)
  with len show "grows s T s' (T @ [None])" by (auto simp: grows_def s' nth_append)
qed

lemma heap_ok_retype:
  assumes ok: "heap_ok A X s T" and e: "e < length T" "T ! e = None"
    and ty: "env_ok (e \<notin> Y) s (T[e := Some G]) e" and Y: "X \<subseteq> Y" "Y \<subseteq> insert e X"
  shows "heap_ok A Y s (T[e := Some G])"
    and "grows s0 T0 s T \<Longrightarrow> length T0 \<le> e \<Longrightarrow> (\<And>w f G'. G = f # G' \<Longrightarrow> isWith f \<Longrightarrow> envValues (stEnvs s ! e) = [Some w] \<Longrightarrow>
      length (stValues s0) \<le> w) \<Longrightarrow> grows s0 T0 s (T[e := Some G])"
proof -
  have len: "length T = length (stEnvs s)" by (rule heap_okD(1) [OF ok])
  have keep: "typed (T[e := Some G]) en G'" if "typed T en G'" for en G'
    using that e by (auto simp: typed_def nth_list_update)
  have "value_ok A s (T[e := Some G]) v" if "value_ok A s T v" "v \<in> set (stValues s)" for v
    by (rule value_ok_mono [OF that(1)]) (use that keep in auto)
  moreover have "env_ok (a \<notin> Y) s (T[e := Some G]) a" if "a < length (stEnvs s)" for a
  proof (cases "a = e")
    case False
    then have "a \<notin> Y \<longleftrightarrow> a \<notin> X" using Y by blast
    with heap_okD(3) [OF ok that] have "env_ok (a \<notin> Y) s T a" by simp
    then show ?thesis by (rule env_ok_mono) (use False keep in auto)
  qed (use ty in simp)
  ultimately show "heap_ok A Y s (T[e := Some G])"
    using ok by (auto simp: heap_ok_def)
  assume g: "grows s0 T0 s T" and new: "length T0 \<le> e"
    and w: "\<And>w f G'. G = f # G' \<Longrightarrow> isWith f \<Longrightarrow> envValues (stEnvs s ! e) = [Some w] \<Longrightarrow> length (stValues s0) \<le> w"
  have "protected s T a" if "protected s (T[e := Some G]) a" "a < length (stValues s0)" for a
    using that w e unfolding protected_def by (fastforce simp: nth_list_update split: if_splits)
  with g new show "grows s0 T0 s (T[e := Some G])" by (auto simp: grows_def)
qed

text \<open>Filling a slot of a new environment that has no type yet.\<close>

lemma heap_ok_set_untyped:
  assumes ok: "heap_ok A X s T" and e: "e < length T" "T ! e = None"
    and s': "s' = s\<lparr>stEnvs := (stEnvs s)[e := ev]\<rparr>"
  shows "heap_ok A X s' T" and "grows s0 T0 s T \<Longrightarrow> length T0 \<le> e \<Longrightarrow> grows s0 T0 s' T"
proof -
  have len: "length T = length (stEnvs s)" by (rule heap_okD(1) [OF ok])
  have ref: "ref_ok s' a = ref_ok s a" for a by (simp add: ref_ok_def s')
  have "value_ok A s' T v" if "value_ok A s T v" "v \<in> set (stValues s)" for v
    by (rule value_ok_mono [OF that(1)]) (use that ref in \<open>auto simp: s'\<close>)
  moreover have "env_ok c s' T a" if "env_ok c s T a" for c a
  proof (cases "a = e")
    case False
    with that show ?thesis by (rule_tac env_ok_mono) (use ref in \<open>auto simp: s'\<close>)
  qed (simp add: env_ok_def e)
  ultimately show "heap_ok A X s' T" using ok ref by (auto simp: heap_ok_def s')
  assume g: "grows s0 T0 s T" and new: "length T0 \<le> e"
  have "protected s T a" if "protected s' T a" for a
    using that e len by (auto simp: protected_def s' nth_list_update split: if_splits)
  with g new show "grows s0 T0 s' T" by (auto simp: grows_def s' nth_list_update)
qed

lemma env_ok_names:
  assumes "T ! a = Some (names_frame ns # G)"
  shows "env_ok c s T a \<longleftrightarrow> (case envUp (stEnvs s ! a) of None \<Rightarrow> G = [] | Some u \<Rightarrow> u < a \<and> typed T u G) \<and>
    (\<forall>x d. map_of (number_vars ns) x = Some d \<longrightarrow> d < length (envValues (stEnvs s ! a)) \<and>
      slot_ok c s (envValues (stEnvs s ! a) ! d))"
  by (simp add: env_ok_def assms names_frame_def)

lemma slot_ok_update:
  "slot_ok c s (vs ! d) \<Longrightarrow> d < length vs \<Longrightarrow> ref_ok s a \<Longrightarrow> slot_ok c s (vs[i := Some a] ! d)"
  by (cases "i = d") (simp_all add: slot_ok_def)

text \<open>Filling a slot of an environment that is being built.\<close>

lemma heap_ok_set_slot:
  assumes ok: "heap_ok A X s T" and e: "typed T e (names_frame ns # G)" and a: "ref_ok s a"
    and s': "s' = s\<lparr>stEnvs := (stEnvs s)[e := (stEnvs s ! e)\<lparr>envValues := (envValues (stEnvs s ! e))[i := Some a]\<rparr>]\<rparr>"
  shows "heap_ok A X s' T" and "grows s T s' T"
proof -
  have len: "length T = length (stEnvs s)" by (rule heap_okD(1) [OF ok])
  have e': "e < length (stEnvs s)" "T ! e = Some (names_frame ns # G)" using e len by (simp_all add: typed_def)
  have ref: "ref_ok s' a = ref_ok s a" for a by (simp add: ref_ok_def s')
  have "value_ok A s' T v" if "value_ok A s T v" "v \<in> set (stValues s)" for v
    by (rule value_ok_mono [OF that(1)]) (use that ref in \<open>auto simp: s'\<close>)
  moreover have "env_ok c s' T b" if b: "env_ok c s T b" for c b
  proof (cases "b = e")
    case False
    with that show ?thesis by (rule_tac env_ok_mono) (use ref in \<open>auto simp: s'\<close>)
  next
    case True
    have "slot_ok c s' p = slot_ok c s p" for p by (simp add: slot_ok_def ref split: option.splits)
    with b e' a True show ?thesis
      by (simp add: env_ok_names [of T e ns G] s' slot_ok_update)
  qed
  ultimately show "heap_ok A X s' T" using ok ref by (auto simp: heap_ok_def s')
  have "protected s T a" if "protected s' T a" for a
    using that e' by (auto simp: protected_def s' nth_list_update names_frame_def split: if_splits)
  with e' len show "grows s T s' T" by (auto simp: grows_def s' nth_list_update)
qed

text \<open>An environment whose named slots are all filled is complete.\<close>

lemma heap_ok_complete:
  assumes ok: "heap_ok A (insert e X) s T" and e: "typed T e (names_frame ns # G)"
    and slots: "\<And>d. d < length ns \<Longrightarrow> envValues (stEnvs s ! e) ! d \<noteq> None"
    and d: "\<And>x d. map_of (number_vars ns) x = Some d \<Longrightarrow> d < length ns"
  shows "heap_ok A X s T"
proof -
  have e': "e < length (stEnvs s)" "T ! e = Some (names_frame ns # G)" using e heap_okD(1) [OF ok] by (simp_all add: typed_def)
  have "env_ok False s T e" using heap_okD(3) [OF ok e'(1)] by simp
  moreover have "slot_ok c s (envValues (stEnvs s ! e) ! d)" if "slot_ok False s (envValues (stEnvs s ! e) ! d)" "d < length ns" for c d
    using slots [OF that(2)] that(1) by (auto simp: slot_ok_def)
  ultimately have "env_ok c s T e" for c
    using d by (simp add: env_ok_names [OF e'(2)])
  then have "env_ok (a \<notin> X) s T a" if "a < length (stEnvs s)" for a
    using heap_okD(3) [OF ok that] by (cases "a = e") auto
  then show ?thesis using ok by (simp add: heap_ok_def)
qed

subsection \<open>Scoping\<close>

text \<open>The attributes in a vector are found by name.\<close>

lemma Bindings_find_map_of:
  "is_set (map fst bs) \<Longrightarrow> Bindings_find bs x = map_of bs x"
proof (induction bs)
  case (Cons b bs)
  then have rest: "Bindings_find bs x = map_of bs x" by simp
  show ?case
  proof (cases "fst b < x")
    case True
    with rest show ?thesis by (cases b) (simp add: Bindings_find_def)
  next
    case False
    have "map_of bs x = None" if "fst b \<noteq> x"
      using Cons.prems False that by (fastforce simp: map_of_eq_None_iff)
    with False show ?thesis by (cases b) (simp add: Bindings_find_def)
  qed
qed (simp add: Bindings_find_def)

lemma Bindings_find_ref:
  assumes "heap_ok A X s T" and "b < length (stBindings s)" and "Bindings_find (stBindings s ! b) x = Some a"
  shows "ref_ok s a"
proof -
  have "map_of (stBindings s ! b) x = Some a"
    using assms(3) Bindings_find_map_of [OF heap_okD(4) [OF assms(1,2)]] by simp
  then have "(x, a) \<in> set (stBindings s ! b)" by (rule map_of_SomeD)
  from heap_okD(5) [OF assms(1,2) this] show ?thesis by simp
qed

text \<open>
  What a name means in an environment: the innermost scope that defines it, whatever \<^verbatim>\<open>with\<close>s are
  inside; if no scope does, the innermost \<^verbatim>\<open>with\<close> that has an attribute of that name.
\<close>

fun lexical :: "EvalState \<Rightarrow> StaticEnv \<Rightarrow> nat \<Rightarrow> Symbol \<Rightarrow> nat option option" where
  "lexical s [] en x = None"
| "lexical s (f # G) en x =
     (if binds_name x f then Some (envValues (stEnvs s ! en) ! the (map_of (vars f) x))
      else case envUp (stEnvs s ! en) of None \<Rightarrow> None | Some u \<Rightarrow> lexical s G u x)"

definition with_attr :: "EvalState \<Rightarrow> nat \<Rightarrow> Symbol \<Rightarrow> nat option" where
  "with_attr s en x = (case envValues (stEnvs s ! en) of
     Some w # _ \<Rightarrow> (case stValues s ! w of vAttrs b \<Rightarrow> map_of (stBindings s ! b) x | _ \<Rightarrow> None)
   | _ \<Rightarrow> None)"

fun from_with :: "EvalState \<Rightarrow> StaticEnv \<Rightarrow> nat \<Rightarrow> Symbol \<Rightarrow> nat option" where
  "from_with s [] en x = None"
| "from_with s (f # G) en x = (case (if isWith f then with_attr s en x else None) of
     Some a \<Rightarrow> Some a
   | None \<Rightarrow> (case envUp (stEnvs s ! en) of None \<Rightarrow> None | Some u \<Rightarrow> from_with s G u x))"

lemma typed_env:
  assumes ok: "heap_ok A X s T" and "typed T en G"
  shows "en < length (stEnvs s)" and "\<exists>f G'. G = f # G'" and "env_ok (en \<notin> X) s T en"
proof -
  show "en < length (stEnvs s)" using assms heap_okD(1) [OF ok] by (simp add: typed_def)
  from heap_okD(3) [OF ok this] show e: "env_ok (en \<notin> X) s T en" .
  with assms(2) show "\<exists>f G'. G = f # G'" by (auto simp: typed_def env_ok_def split: list.splits)
qed

lemma typed_up:
  assumes ok: "heap_ok A X s T" and "typed T en (f # G)"
  shows "case envUp (stEnvs s ! en) of None \<Rightarrow> G = [] | Some u \<Rightarrow> u < en \<and> typed T u G"
  using typed_env(3) [OF assms] assms(2) by (simp add: typed_def env_ok_def)

lemma env_up_typed:
  assumes ok: "heap_ok A X s T"
  shows "typed T en G \<Longrightarrow> l < length G \<Longrightarrow>
    \<exists>en'. env_up l en s = (Inr en', s) \<and> typed T en' (drop l G) \<and> en' + l \<le> en"
proof (induction l arbitrary: en G)
  case (Suc l)
  from typed_env(2) [OF ok Suc.prems(1)] obtain f G' where G: "G = f # G'" by blast
  with typed_up [OF ok Suc.prems(1) [unfolded G]] Suc.prems(2) obtain u
    where u: "envUp (stEnvs s ! en) = Some u" "u < en" "typed T u G'" by (auto split: option.splits)
  from Suc.IH [OF u(3)] Suc.prems(2) G obtain en' where "env_up l u s = (Inr en', s)" "typed T en' (drop l G')" "en' + l \<le> u" by auto
  with u G typed_env(1) [OF ok Suc.prems(1)] show ?case by (simp add: bindS_def getEnv_def)
qed (simp add: retS_def)

lemma lexical_drop:
  assumes ok: "heap_ok A X s T" and "typed T en G" and "l < length G" and "\<forall>j < l. \<not> binds_name x (G ! j)"
    and "env_up l en s = (Inr en', s)"
  shows "lexical s G en x = lexical s (drop l G) en' x"
  using assms(2-)
proof (induction l arbitrary: en G)
  case (Suc l)
  from typed_env(2) [OF ok Suc.prems(1)] obtain f G' where G: "G = f # G'" by blast
  with typed_up [OF ok Suc.prems(1) [unfolded G]] Suc.prems(2) obtain u
    where u: "envUp (stEnvs s ! en) = Some u" "typed T u G'" by (auto split: option.splits)
  with Suc.prems(4) typed_env(1) [OF ok Suc.prems(1)] have "env_up l u s = (Inr en', s)" by (simp add: bindS_def getEnv_def)
  moreover have "\<forall>j < l. \<not> binds_name x (G' ! j)" "\<not> binds_name x f" using Suc.prems(3) G by auto
  ultimately show ?case using Suc.IH [OF u(2)] Suc.prems(2) G u(1) by simp
qed (simp add: retS_def)

lemma from_with_drop:
  assumes ok: "heap_ok A X s T" and "typed T en G" and "l < length G" and "\<forall>j < l. \<not> isWith (G ! j)"
    and "env_up l en s = (Inr en', s)"
  shows "from_with s G en x = from_with s (drop l G) en' x"
  using assms(2-)
proof (induction l arbitrary: en G)
  case (Suc l)
  from typed_env(2) [OF ok Suc.prems(1)] obtain f G' where G: "G = f # G'" by blast
  with typed_up [OF ok Suc.prems(1) [unfolded G]] Suc.prems(2) obtain u
    where u: "envUp (stEnvs s ! en) = Some u" "typed T u G'" by (auto split: option.splits)
  with Suc.prems(4) typed_env(1) [OF ok Suc.prems(1)] have "env_up l u s = (Inr en', s)" by (simp add: bindS_def getEnv_def)
  moreover have "\<forall>j < l. \<not> isWith (G' ! j)" "\<not> isWith f" using Suc.prems(3) G by auto
  ultimately show ?case using Suc.IH [OF u(2)] Suc.prems(2) G u(1) by simp
qed (simp add: retS_def)

lemma from_with_none:
  assumes ok: "heap_ok A X s T"
  shows "typed T en G \<Longrightarrow> \<forall>f \<in> set G. \<not> isWith f \<Longrightarrow> from_with s G en x = None"
proof (induction G arbitrary: en)
  case (Cons f G)
  with typed_up [OF ok Cons.prems(1)] show ?case by (auto split: option.splits)
qed simp

lemma prev_with_first: "prev_with_loop G (Suc l) = (case first_with G (Suc l) of None \<Rightarrow> 0 | Some k \<Rightarrow> k)"
  by (induction G arbitrary: l) auto

text \<open>The chain of \<^verbatim>\<open>with\<close>s: \<^verbatim>\<open>prevWith\<close> leads to the next one, which is further out.\<close>

lemma lookup_with_from_with:
  assumes ok: "heap_ok A X s T"
  shows "typed T en (f # G) \<Longrightarrow> isWith f \<Longrightarrow> en < n \<Longrightarrow> lookup_with n en x s = (case from_with s (f # G) en x of
    Some a \<Rightarrow> (Inr a, s)
  | None \<Rightarrow> (Inl (EvalError (''undefined variable `'' @ symbol_string (stSymbols s) x @ [CHR 0x27])), s))"
proof (induction n arbitrary: en f G)
  case (Suc n)
  note en = typed_env(1) [OF ok Suc.prems(1)]
  from typed_env(3) [OF ok Suc.prems(1)] Suc.prems(1,2) obtain w b
    where w: "envValues (stEnvs s ! en) = [Some w]" "w < length (stValues s)" "stValues s ! w = vAttrs b"
      and prev: "envPrevWith (stEnvs s ! en) = prev_with_loop G 1"
    by (auto simp: typed_def env_ok_def)
  have b: "b < length (stBindings s)" using heap_okD(2) [OF ok w(2)] w(3) by simp
  have find: "Bindings_find (stBindings s ! b) x = with_attr s en x"
    using Bindings_find_map_of [OF heap_okD(4) [OF ok b]] w by (simp add: with_attr_def)
  show ?case
  proof (cases "with_attr s en x")
    case (Some a)
    with Suc.prems(2) en w b find show ?thesis by (simp add: bindS_def getEnv_def getValue_def getBindings_def retS_def)
  next
    case None
    show ?thesis
    proof (cases "first_with G 1")
      case none: None
      have "from_with s (f # G) en x = None"
        using None Suc.prems(2) typed_up [OF ok Suc.prems(1)] from_with_none [OF ok] none
        by (auto simp: first_with_None split: option.splits)
      with none en w b find None prev prev_with_first [of G 0] show ?thesis
        by (simp add: bindS_def getEnv_def getValue_def getBindings_def throwS_def)
    next
      case (Some k)
      from first_with_Some [OF this] obtain j where j: "j < length G" "k = 1 + j" "isWith (G ! j)" "\<forall>i < j. \<not> isWith (G ! i)" by blast
      have "k < length (f # G)" using j by simp
      from env_up_typed [OF ok Suc.prems(1) this] obtain en' where en': "env_up k en s = (Inr en', s)" "typed T en' (drop k (f # G))" "en' + k \<le> en" by blast
      have drop: "drop k (f # G) = G ! j # drop (Suc j) G" using j Cons_nth_drop_Suc [OF j(1)] by simp
      have up: "\<exists>u. envUp (stEnvs s ! en) = Some u \<and> typed T u G"
        using typed_up [OF ok Suc.prems(1)] j(1) by (auto split: option.splits)
      then obtain u where u: "envUp (stEnvs s ! en) = Some u" "typed T u G" by blast
      have "env_up j u s = (Inr en', s)" using en'(1) u(1) en j(2) by (simp add: bindS_def getEnv_def)
      from from_with_drop [OF ok u(2) j(1,4) this, of x] u(1) None Suc.prems(2)
      have "from_with s (f # G) en x = from_with s (G ! j # drop (Suc j) G) en' x"
        using Cons_nth_drop_Suc [OF j(1)] by simp
      moreover have "en' < n" using en'(3) j(2) Suc.prems(3) by simp
      ultimately show ?thesis
        using Suc.IH [of en' "G ! j" "drop (Suc j) G"] en' drop j(3) en w b find None prev Some prev_with_first [of G 0] j(2)
        by (simp add: bindS_def getEnv_def getValue_def getBindings_def)
    qed
  qed
qed simp

lemma binds_name_drop:
  assumes "k < length G" and "binds_name x (G ! k)"
  shows "lexical s (drop k G) en x = Some (envValues (stEnvs s ! en) ! the (map_of (vars (G ! k)) x))"
  using assms Cons_nth_drop_Suc [OF assms(1)] by (metis lexical.simps(2))

lemma lexical_none:
  assumes ok: "heap_ok A X s T"
  shows "typed T en G \<Longrightarrow> \<forall>f \<in> set G. \<not> binds_name x f \<Longrightarrow> lexical s G en x = None"
proof (induction G arbitrary: en)
  case (Cons f G)
  with typed_up [OF ok Cons.prems(1)] show ?case by (auto split: option.splits)
qed simp

text \<open>A variable in a scope.\<close>

lemma lookupVar_lexical:
  assumes ok: "heap_ok A X s T" and ty: "typed T en G" and v: "\<not> vrFromWith v" "vrLevel v < length G"
    "\<not> isWith (G ! vrLevel v)" "map_of (vars (G ! vrLevel v)) (vrName v) = Some (vrDispl v)"
  shows "\<exists>en'. env_up (vrLevel v) en s = (Inr en', s) \<and> typed T en' (drop (vrLevel v) G) \<and>
    lookupVar en v s = (Inr (envValues (stEnvs s ! en') ! vrDispl v), s) \<and>
    slot_ok (en' \<notin> X) s (envValues (stEnvs s ! en') ! vrDispl v)"
proof -
  from env_up_typed [OF ok ty v(2)] obtain en' where en': "env_up (vrLevel v) en s = (Inr en', s)" "typed T en' (drop (vrLevel v) G)" by blast
  have drop: "drop (vrLevel v) G = G ! vrLevel v # drop (Suc (vrLevel v)) G" using Cons_nth_drop_Suc [OF v(2)] by simp
  have "env_ok (en' \<notin> X) s T en'" "en' < length (stEnvs s)" using typed_env [OF ok en'(2)] by auto
  then have "vrDispl v < length (envValues (stEnvs s ! en'))" "slot_ok (en' \<notin> X) s (envValues (stEnvs s ! en') ! vrDispl v)"
    using en'(2) drop v by (auto simp: env_ok_def typed_def)
  with en' v(1) \<open>en' < length (stEnvs s)\<close> show ?thesis
    by (intro exI [of _ en']) (simp add: lookupVar_def bindS_def getEnv_def retS_def)
qed

text \<open>A variable from a \<^verbatim>\<open>with\<close>.\<close>

lemma lookupVar_with:
  assumes ok: "heap_ok A X s T" and ty: "typed T en G" and v: "vrFromWith v" "vrLevel v < length G" "isWith (G ! vrLevel v)"
  shows "\<exists>en'. env_up (vrLevel v) en s = (Inr en', s) \<and> lookupVar en v s = (case from_with s (drop (vrLevel v) G) en' (vrName v) of
      Some a \<Rightarrow> (Inr (Some a), s)
    | None \<Rightarrow> (Inl (EvalError (''undefined variable `'' @ symbol_string (stSymbols s) (vrName v) @ [CHR 0x27])), s))"
proof -
  from env_up_typed [OF ok ty v(2)] obtain en' where en': "env_up (vrLevel v) en s = (Inr en', s)" "typed T en' (drop (vrLevel v) G)" by blast
  have drop: "drop (vrLevel v) G = G ! vrLevel v # drop (Suc (vrLevel v)) G" using Cons_nth_drop_Suc [OF v(2)] by simp
  have "en' < Suc (length (stEnvs s))" using typed_env(1) [OF ok en'(2)] by simp
  from lookup_with_from_with [OF ok en'(2) [unfolded drop] v(3) this, of "vrName v"] en' drop v(1)
  show ?thesis by (intro exI [of _ en']) (simp add: lookupVar_def bindS_def retS_def split: option.splits)
qed

text \<open>
  C9: A variable bound by \<^verbatim>\<open>bindVars\<close> is looked up by its position exactly as scoping says: in the
  innermost scope that defines it, and only if none does in the innermost \<^verbatim>\<open>with\<close> that has it.
\<close>

theorem lookupVar_scoping:
  assumes ok: "heap_ok A X s T" and ty: "typed T en G" and bind: "VarRef_bind (stSymbols s) G v = Inr v'"
  shows "lookupVar en v' s = (case lexical s G en (vrName v) of
      Some slot \<Rightarrow> (Inr slot, s)
    | None \<Rightarrow> (case from_with s G en (vrName v) of
        Some a \<Rightarrow> (Inr (Some a), s)
      | None \<Rightarrow> (Inl (EvalError (''undefined variable `'' @ symbol_string (stSymbols s) (vrName v) @ [CHR 0x27])), s)))"
proof (cases "bind_loop G 0 None v")
  case (Inl u)
  then have u: "v' = u" using bind by (simp add: VarRef_bind_def)
  from bind_loop_Inl [OF Inl] obtain k where k: "k < length G" "binds_name (vrName v) (G ! k)" "\<forall>j < k. \<not> binds_name (vrName v) (G ! j)"
    "v' = v\<lparr>vrFromWith := False, vrLevel := k, vrDispl := the (map_of (vars (G ! k)) (vrName v))\<rparr>"
    unfolding u by auto
  then have "\<not> vrFromWith v'" "vrLevel v' < length G" "\<not> isWith (G ! vrLevel v')" "map_of (vars (G ! vrLevel v')) (vrName v') = Some (vrDispl v')"
    by (auto simp: binds_name_def)
  from lookupVar_lexical [OF ok ty this] k obtain en' where en': "env_up k en s = (Inr en', s)"
    "lookupVar en v' s = (Inr (envValues (stEnvs s ! en') ! vrDispl v'), s)" by auto
  from lexical_drop [OF ok ty k(1,3) en'(1)] binds_name_drop [OF k(1,2)] en'(2) k(4) show ?thesis by simp
next
  case (Inr w)
  from bind_loop_Inr [OF this] have none: "\<forall>f \<in> set G. \<not> binds_name (vrName v) f" and w: "w = first_with G 0" by simp_all
  from bind Inr w obtain l where l: "first_with G 0 = Some l" "v' = v\<lparr>vrFromWith := True, vrLevel := l\<rparr>"
    by (auto simp: VarRef_bind_def split: option.splits)
  from first_with_Some [OF l(1)] have k: "l < length G" "isWith (G ! l)" "\<forall>i < l. \<not> isWith (G ! i)" by auto
  have v': "vrFromWith v'" "vrLevel v' = l" "vrName v' = vrName v" using l(2) by simp_all
  from lookupVar_with [OF ok ty v'(1), unfolded v'(2,3), OF k(1,2)] obtain en' where en': "env_up l en s = (Inr en', s)"
    "lookupVar en v' s = (case from_with s (drop l G) en' (vrName v) of
      Some a \<Rightarrow> (Inr (Some a), s)
    | None \<Rightarrow> (Inl (EvalError (''undefined variable `'' @ symbol_string (stSymbols s) (vrName v) @ [CHR 0x27])), s))" by blast
  from from_with_drop [OF ok ty k(1,3) en'(1)] lexical_none [OF ok ty none] en'(2) show ?thesis by simp
qed

text \<open>A heap for \<^verbatim>\<open>let x = 1; in with { x = 2; y = 3; }; \<dots>\<close>: the symbols are \<open>0\<close> for \<^verbatim>\<open>x\<close> and \<open>1\<close> for \<^verbatim>\<open>y\<close>.\<close>

definition scoping_state :: EvalState where
  "scoping_state = \<lparr>stValues = [vInt 1, vInt 2, vInt 3, vAttrs 0],
     stEnvs = [\<lparr>envUp = None, envPrevWith = 0, envValues = [Some 0]\<rparr>, \<lparr>envUp = Some 0, envPrevWith = 0, envValues = [Some 3]\<rparr>],
     stBindings = [[(0, 1), (1, 2)]], stSymbols = [''x'', ''y''], stSrcToStore = [], stDrvHashes = []\<rparr>"

definition scoping_static :: StaticEnv where
  "scoping_static = [with_frame, names_frame [0]]"

definition scoping_types :: heap_type where
  "scoping_types = [Some [names_frame [0]], Some scoping_static]"

lemma scoping_heap_ok: "heap_ok (\<lambda>_ _. False) {} scoping_state scoping_types" and scoping_typed: "typed scoping_types 1 scoping_static"
  by (simp_all add: heap_ok_def scoping_state_def scoping_types_def scoping_static_def All_less_Suc numeral_nat typed_def ref_ok_def
      env_ok_def slot_ok_def names_frame_def number_vars_def)

theorem lookupVar_scoping_witness:
  "lookupVar 1 \<lparr>vrName = 0, vrFromWith = False, vrLevel = 1, vrDispl = 0\<rparr> scoping_state = (Inr (Some 0), scoping_state) \<and>
   lookupVar 1 \<lparr>vrName = 1, vrFromWith = True, vrLevel = 0, vrDispl = 0\<rparr> scoping_state = (Inr (Some 2), scoping_state)"
proof -
  let ?v = "\<lambda>x. \<lparr>vrName = x, vrFromWith = False, vrLevel = 0, vrDispl = 0\<rparr>"
  have x: "VarRef_bind (stSymbols scoping_state) scoping_static (?v 0) = Inr \<lparr>vrName = 0, vrFromWith = False, vrLevel = 1, vrDispl = 0\<rparr>"
    and y: "VarRef_bind (stSymbols scoping_state) scoping_static (?v 1) = Inr \<lparr>vrName = 1, vrFromWith = True, vrLevel = 0, vrDispl = 0\<rparr>"
    by (simp_all add: VarRef_bind_def scoping_static_def names_frame_def number_vars_def)
  from lookupVar_scoping [OF scoping_heap_ok scoping_typed x] lookupVar_scoping [OF scoping_heap_ok scoping_typed y]
  show ?thesis
    by (simp add: scoping_state_def scoping_static_def binds_name_def names_frame_def number_vars_def with_attr_def)
qed

lemma from_with_ref:
  assumes ok: "heap_ok A X s T"
  shows "typed T en G \<Longrightarrow> from_with s G en x = Some a \<Longrightarrow> ref_ok s a"
proof (induction G arbitrary: en)
  case (Cons f G)
  show ?case
  proof (cases "if isWith f then with_attr s en x else None")
    case None
    with Cons.prems typed_up [OF ok Cons.prems(1)] Cons.IH show ?thesis by (auto split: option.splits)
  next
    case (Some a')
    with Cons.prems have a: "isWith f" "with_attr s en x = Some a" by (auto split: if_splits)
    from typed_env(3) [OF ok Cons.prems(1)] Cons.prems(1) a(1) obtain w b
      where w: "envValues (stEnvs s ! en) = [Some w]" "w < length (stValues s)" "stValues s ! w = vAttrs b"
      by (auto simp: typed_def env_ok_def)
    have "b < length (stBindings s)" using heap_okD(2) [OF ok w(2)] w(3) by simp
    moreover have "(x, a) \<in> set (stBindings s ! b)" using a(2) w by (auto simp: with_attr_def dest: map_of_SomeD)
    ultimately show ?thesis using heap_okD(5) [OF ok] by fastforce
  qed
qed simp

end
