(* ===== verification/Eval_Safety.thy ===== *)
theory Eval_Safety
  imports Eval_Heap
begin

text \<open>
  The evaluator never has undefined behaviour: it does not follow a null pointer, does not read or
  write beyond the end of an environment, and does not take the fields of a value for what they are
  not.  Every function of the evaluator keeps the heap well-formed, if the functions it calls do; the
  locale \<open>safe_evaluator\<close> says what they promise each other.
\<close>

subsection \<open>Operations that are safe\<close>

definition good_error :: "error \<Rightarrow> bool" where
  "good_error e = (case e of Undefined _ \<Rightarrow> False | AssertFail _ \<Rightarrow> False | _ \<Rightarrow> True)"

definition safe :: "EvalState \<Rightarrow> heap_type \<Rightarrow> EvalState \<Rightarrow> 'a ev \<Rightarrow> ('a \<Rightarrow> EvalState \<Rightarrow> heap_type \<Rightarrow> bool) \<Rightarrow> bool" where
  "safe s0 T0 s m Q = (case m s of (Inl e, _) \<Rightarrow> good_error e | (Inr x, s') \<Rightarrow> \<exists>T'. grows s0 T0 s' T' \<and> Q x s' T')"

lemma safe_bind:
  assumes m: "safe s1 T1 s m Q" and f: "\<And>x s' T'. grows s1 T1 s' T' \<Longrightarrow> Q x s' T' \<Longrightarrow> safe s0 T0 s' (f x) R"
  shows "safe s0 T0 s (bindS m f) R"
proof (cases "m s")
  case (Pair r t)
  show ?thesis
  proof (cases r)
    case (Inl e)
    with Pair m show ?thesis by (simp add: safe_def bindS_def)
  next
    case (Inr x)
    with Pair m obtain T' where "grows s1 T1 t T'" "Q x t T'" by (auto simp: safe_def)
    from f [OF this] Pair Inr show ?thesis by (simp add: safe_def bindS_def)
  qed
qed

text \<open>The first step of a sequence, seen from where the sequence began.\<close>

lemma safe_step:
  assumes "safe s T s m Q" and "grows s0 T0 s T"
    and "\<And>x s' T'. grows s T s' T' \<Longrightarrow> grows s0 T0 s' T' \<Longrightarrow> Q x s' T' \<Longrightarrow> safe s0 T0 s' (f x) R"
  shows "safe s0 T0 s (bindS m f) R"
  using assms(1) by (rule safe_bind) (blast intro: assms(3) grows_trans [OF assms(2)])

lemma safe_tail:
  assumes "safe s T s m Q" and "grows s0 T0 s T" and "\<And>x s' T'. grows s T s' T' \<Longrightarrow> Q x s' T' \<Longrightarrow> R x s' T'"
  shows "safe s0 T0 s m R"
  using assms unfolding safe_def by (auto split: prod.splits sum.splits intro: grows_trans)

lemma safe_conseq:
  "safe s0 T0 s m Q \<Longrightarrow> (\<And>x s' T'. grows s0 T0 s' T' \<Longrightarrow> Q x s' T' \<Longrightarrow> R x s' T') \<Longrightarrow> safe s0 T0 s m R"
  unfolding safe_def by (auto split: prod.splits sum.splits)

lemma safe_ret: "grows s0 T0 s T \<Longrightarrow> Q x s T \<Longrightarrow> safe s0 T0 s (retS x) Q"
  by (auto simp: safe_def retS_def)

lemma safe_throw [simp]: "good_error e \<Longrightarrow> safe s0 T0 s (throwS e) Q" "good_error e \<Longrightarrow> safe s0 T0 s (\<lambda>s. throwS e s) Q"
  by (simp_all add: safe_def throwS_def)

lemma good_errors [simp]: "good_error (EvalError m)" "good_error (TypeError m)" "good_error (AssertionError m)" "good_error Diverges"
  by (simp_all add: good_error_def)

lemma safe_throw_state [simp]: "(\<And>s. good_error (e s)) \<Longrightarrow> safe s0 T0 s (\<lambda>s. throwS (e s) s) Q"
  by (simp add: safe_def throwS_def)

lemma safe_expected [simp]: "safe s0 T0 s (expected what v) Q"
  by (simp add: expected_def)

lemma safe_getValue [simp]:
  "a < length (stValues s) \<Longrightarrow> safe s0 T0 s (bindS (getValue a) f) R = safe s0 T0 s (f (stValues s ! a)) R"
  by (simp add: safe_def bindS_def getValue_def)

lemma safe_getBindings [simp]:
  "b < length (stBindings s) \<Longrightarrow> safe s0 T0 s (bindS (getBindings b) f) R = safe s0 T0 s (f (stBindings s ! b)) R"
  by (simp add: safe_def bindS_def getBindings_def)

lemma lookupVar_safe:
  assumes ok: "heap_ok A X s T" and ty: "typed T en G" and v: "var_fits G v"
  shows "safe s T s (lookupVar en v) (\<lambda>p s' T'. s' = s \<and> T' = T \<and> (case p of Some a \<Rightarrow> ref_ok s a | None \<Rightarrow> \<exists>x \<in> X. x \<le> en))"
proof (cases "vrFromWith v")
  case True
  with v have "vrLevel v < length G" "isWith (G ! vrLevel v)" by (simp_all add: var_fits_def)
  from lookupVar_with [OF ok ty True this] obtain en' where en': "env_up (vrLevel v) en s = (Inr en', s)"
    and l: "lookupVar en v s = (case from_with s (drop (vrLevel v) G) en' (vrName v) of
      Some a \<Rightarrow> (Inr (Some a), s)
    | None \<Rightarrow> (Inl (EvalError (''undefined variable `'' @ symbol_string (stSymbols s) (vrName v) @ [CHR 0x27])), s))" by blast
  have "typed T en' (drop (vrLevel v) G)" using env_up_typed [OF ok ty \<open>vrLevel v < length G\<close>] en' by auto
  from from_with_ref [OF ok this] l show ?thesis
    by (cases "from_with s (drop (vrLevel v) G) en' (vrName v)") (auto simp: safe_def intro: exI [of _ T])
next
  case False
  with v have "vrLevel v < length G" "\<not> isWith (G ! vrLevel v)" "map_of (vars (G ! vrLevel v)) (vrName v) = Some (vrDispl v)"
    by (simp_all add: var_fits_def)
  from lookupVar_lexical [OF ok ty False this] env_up_typed [OF ok ty this(1)] obtain en'
    where "lookupVar en v s = (Inr (envValues (stEnvs s ! en') ! vrDispl v), s)" "slot_ok (en' \<notin> X) s (envValues (stEnvs s ! en') ! vrDispl v)" "en' \<le> en"
    by (metis Pair_inject add_leD1 sum.inject(2))
  then show ?thesis
    by (auto simp: safe_def slot_ok_def intro!: exI [of _ T] split: option.splits)
qed

lemma lookupVar_deref_safe:
  assumes ok: "heap_ok A X s T" and ty: "typed T en G" and v: "var_fits G v" and X: "\<forall>x \<in> X. en < x"
  shows "safe s T s (bindS (lookupVar en v) deref) (\<lambda>a s' T'. s' = s \<and> T' = T \<and> ref_ok s a)"
proof (rule safe_bind [OF lookupVar_safe [OF assms(1-3)]])
  fix p s' T'
  assume "s' = s \<and> T' = T \<and> (case p of Some a \<Rightarrow> ref_ok s a | None \<Rightarrow> \<exists>x \<in> X. x \<le> en)"
  with X show "safe s T s' (deref p) (\<lambda>a s' T'. s' = s \<and> T' = T \<and> ref_ok s a)"
    by (cases p) (auto simp: deref_def not_le [symmetric] intro: safe_ret [of s T s T])
qed

lemma allocWith_safe:
  assumes "heap_ok A X s T" and "value_ok A s T v" and "\<And>l r. v = vPrimOpApp l r \<Longrightarrow> protected s T l"
  shows "safe s T s (allocWith v) (\<lambda>a s' T'. T' = T \<and> s' = s\<lparr>stValues := stValues s @ [v]\<rparr> \<and> a = length (stValues s) \<and>
    heap_ok A X s' T' \<and> dst_ok s' T' a \<and> a < length (stValues s') \<and> (v \<noteq> vUninit \<longrightarrow> ref_ok s' a))"
  using heap_ok_alloc [OF assms(1,2) refl assms(3)] by (auto simp: safe_def allocWith_def intro!: exI [of _ T])

lemma allocValue_safe:
  assumes "heap_ok A X s T"
  shows "safe s T s allocValue (\<lambda>a s' T'. T' = T \<and> s' = s\<lparr>stValues := stValues s @ [vUninit]\<rparr> \<and> a = length (stValues s) \<and>
    heap_ok A X s' T' \<and> dst_ok s' T' a)"
  unfolding allocValue_def by (rule safe_conseq [OF allocWith_safe [OF assms]]) simp_all

lemma setValue_safe:
  assumes "heap_ok A X s T" and "dst_ok s T a" and "value_ok A s T v" and "v \<noteq> vUninit" and "\<And>l r. v \<noteq> vPrimOpApp l r"
  shows "safe s T s (setValue a v) (\<lambda>_ s' T'. T' = T \<and> s' = s\<lparr>stValues := (stValues s)[a := v]\<rparr> \<and> heap_ok A X s' T' \<and> ref_ok s' a \<and> dst_ok s' T' a)"
proof -
  have "a < length (stValues s)" using assms(2) by (simp add: dst_ok_def)
  moreover note h = heap_ok_set [OF assms(1-4) refl]
  have "grows s T (s\<lparr>stValues := (stValues s)[a := v]\<rparr>) T" by (rule h(3)) (simp_all add: assms(5))
  moreover have "dst_ok (s\<lparr>stValues := (stValues s)[a := v]\<rparr>) T a" by (rule dst_ok_grows [OF calculation(2) assms(2)])
  ultimately show ?thesis using h(1,2) assms(5) by (auto simp: safe_def setValue_def intro!: exI [of _ T])
qed

lemma maybeThunk_safe:
  assumes ok: "heap_ok A X s T" and ty: "typed T en G" and e: "fits G e"
  shows "safe s T s (maybeThunk en e) (\<lambda>a s' T'. heap_ok A X s' T' \<and> ref_ok s' a \<and> T' = T \<and> stEnvs s' = stEnvs s \<and> stBindings s' = stBindings s)"
proof -
  have alloc: "safe s T s (allocWith v) (\<lambda>a s' T'. heap_ok A X s' T' \<and> ref_ok s' a \<and> T' = T \<and> stEnvs s' = stEnvs s \<and> stBindings s' = stBindings s)"
    if "value_ok A s T v" "v \<noteq> vUninit" "\<And>l r. v \<noteq> vPrimOpApp l r" for v
    by (rule safe_conseq [OF allocWith_safe [OF ok that(1)]]) (use that in auto)
  have thunk: "value_ok A s T (vThunk en e)" using ty e by auto
  show ?thesis
  proof (cases e)
    case (ExprVar v)
    then have "var_fits G v" using e by simp
    show ?thesis
      unfolding maybeThunk_def ExprVar Expr.case
    proof (rule safe_bind [OF lookupVar_safe [OF ok ty \<open>var_fits G v\<close>]])
      fix p s' T'
      assume p: "s' = s \<and> T' = T \<and> (case p of Some a \<Rightarrow> ref_ok s a | None \<Rightarrow> \<exists>x \<in> X. x \<le> en)"
      show "safe s T s' (case p of Some a \<Rightarrow> retS a | None \<Rightarrow> allocWith (vThunk en (ExprVar v)))
         (\<lambda>a s' T'. heap_ok A X s' T' \<and> ref_ok s' a \<and> T' = T \<and> stEnvs s' = stEnvs s \<and> stBindings s' = stBindings s)"
        using p ok alloc [OF thunk] ExprVar by (cases p) (auto intro: safe_ret [of s T s T])
    qed
  qed (use alloc thunk in \<open>auto simp: maybeThunk_def mkString_def\<close>)
qed


text \<open>Sequences of steps, in the form in which the proofs below use them.\<close>

lemma safe_getValue_ref:
  assumes "heap_ok A X s T" and "ref_ok s a"
    and "stValues s ! a \<noteq> vUninit \<Longrightarrow> value_ok A s T (stValues s ! a) \<Longrightarrow> safe s0 T0 s (f (stValues s ! a)) R"
  shows "safe s0 T0 s (bindS (getValue a) f) R"
  using assms heap_okD(2) [OF assms(1), of a] by (simp add: ref_ok_def)

lemma safe_allocValue:
  assumes "heap_ok A X s T" and "grows s0 T0 s T"
    and "\<And>a s'. grows s T s' T \<Longrightarrow> grows s0 T0 s' T \<Longrightarrow> heap_ok A X s' T \<Longrightarrow> dst_ok s' T a \<Longrightarrow> length (stValues s) \<le> a \<Longrightarrow> safe s0 T0 s' (f a) R"
  shows "safe s0 T0 s (bindS allocValue f) R"
  by (rule safe_step [OF allocValue_safe [OF assms(1)] assms(2)]) (use assms(3) in auto)

lemma setValue_tail:
  assumes "heap_ok A X s T" and "grows s0 T0 s T" and "dst_ok s T a" and "value_ok A s T v" and "v \<noteq> vUninit"
    and "\<And>l r. v = vPrimOpApp l r \<Longrightarrow> protected s T l"
  shows "safe s0 T0 s (setValue a v) (\<lambda>_ s' T'. heap_ok A X s' T' \<and> ref_ok s' a)"
proof -
  have a: "a < length (stValues s)" "\<not> protected s T a" using assms(3) by (simp_all add: dst_ok_def)
  have ne: "\<And>l r. v = vPrimOpApp l r \<Longrightarrow> l \<noteq> a" using assms(6) a(2) by blast
  let ?s = "s\<lparr>stValues := (stValues s)[a := v]\<rparr>"
  have "heap_ok A X ?s T" by (rule heap_ok_set(1) [OF assms(1,3-5) refl]) (rule ne)
  moreover have "ref_ok ?s a" by (rule heap_ok_set(2) [OF assms(1,3-5) refl]) (rule ne)
  moreover have "grows s T ?s T" by (rule heap_ok_set(3) [OF assms(1,3-5) refl]) (use ne assms(6) in auto)
  ultimately show ?thesis using grows_trans [OF assms(2)] a(1) by (auto simp: safe_def setValue_def)
qed

text \<open>A value that is there already can be copied.\<close>

lemma copyValue_tail:
  assumes ok: "heap_ok A X s T" and "grows s0 T0 s T" and "dst_ok s T a" and b: "ref_ok s b"
  shows "safe s0 T0 s (bindS (getValue b) (\<lambda>x. setValue a x)) (\<lambda>_ s' T'. heap_ok A X s' T' \<and> ref_ok s' a)"
proof (rule safe_getValue_ref [OF ok b])
  assume "stValues s ! b \<noteq> vUninit" "value_ok A s T (stValues s ! b)"
  moreover have "protected s T l" if "stValues s ! b = vPrimOpApp l r" for l r
    using that b by (auto simp: protected_def ref_ok_def)
  ultimately show "safe s0 T0 s (setValue a (stValues s ! b)) (\<lambda>_ s' T'. heap_ok A X s' T' \<and> ref_ok s' a)"
    by (intro setValue_tail [OF ok assms(2,3)])
qed

lemma safe_foldS:
  assumes "heap_ok A X s T" and "grows s0 T0 s T" and "\<And>x. x \<in> set xs \<Longrightarrow> P x s T"
    and "\<And>x s T. x \<in> set xs \<Longrightarrow> heap_ok A X s T \<Longrightarrow> P x s T \<Longrightarrow> safe s T s (f x) (\<lambda>_ s' T'. heap_ok A X s' T')"
    and "\<And>x s T s' T'. x \<in> set xs \<Longrightarrow> grows s T s' T' \<Longrightarrow> P x s T \<Longrightarrow> P x s' T'"
  shows "safe s0 T0 s (foldS f xs) (\<lambda>_ s' T'. heap_ok A X s' T')"
  using assms
proof (induction xs arbitrary: s T)
  case Nil
  then show ?case by (auto simp: safe_def)
next
  case (Cons x xs)
  have "safe s0 T0 s (bindS (f x) (\<lambda>_. foldS f xs)) (\<lambda>_ s' T'. heap_ok A X s' T')"
  proof (rule safe_step)
    show "safe s T s (f x) (\<lambda>_ s' T'. heap_ok A X s' T')" using Cons.prems by simp
    fix s' T'
    assume g: "grows s T s' T'" "grows s0 T0 s' T'" "heap_ok A X s' T'"
    show "safe s0 T0 s' (foldS f xs) (\<lambda>_ s' T'. heap_ok A X s' T')"
    proof (rule Cons.IH [OF g(3,2)])
      show "P y s' T'" if "y \<in> set xs" for y using Cons.prems(3,5) that g(1) by (meson list.set_intros(2))
    qed (use Cons.prems(4,5) in \<open>meson list.set_intros(2)\<close>)+
  qed (use Cons.prems in simp_all)
  then show ?case by (simp add: safe_def)
qed

lemma Bindings_find_grows:
  assumes "heap_ok A X s T" and "value_ok A s T (vAttrs b)" and "Bindings_find (stBindings s ! b) x = Some a"
  shows "ref_ok s a"
  using Bindings_find_ref [OF assms(1) _ assms(3)] assms(2) by simp

subsection \<open>What the functions of the evaluator promise each other\<close>

abbreviation keeps :: "(Symbol \<Rightarrow> nat \<Rightarrow> bool) \<Rightarrow> 'a \<Rightarrow> EvalState \<Rightarrow> heap_type \<Rightarrow> bool" where
  "keeps A \<equiv> \<lambda>_ s' T'. heap_ok A {} s' T'"

abbreviation yields :: "(Symbol \<Rightarrow> nat \<Rightarrow> bool) \<Rightarrow> nat \<Rightarrow> 'a \<Rightarrow> EvalState \<Rightarrow> heap_type \<Rightarrow> bool" where
  "yields A v \<equiv> \<lambda>_ s' T'. heap_ok A {} s' T' \<and> ref_ok s' v"

lemma keeps_ret: "heap_ok A {} s T \<Longrightarrow> grows s0 T0 s T \<Longrightarrow> safe s0 T0 s (retS x) (keeps A)"
  by (rule safe_ret)

locale safe_evaluator =
  fixes A :: "Symbol \<Rightarrow> nat \<Rightarrow> bool" and r :: evaluator
  assumes eval: "heap_ok A {} s T \<Longrightarrow> typed T en G \<Longrightarrow> fits G e \<Longrightarrow> dst_ok s T v \<Longrightarrow> safe s T s (evEval r e en v) (yields A v)"
    and force: "heap_ok A {} s T \<Longrightarrow> ref_ok s a \<Longrightarrow> safe s T s (evForce r a) (keeps A)"
    and call: "heap_ok A {} s T \<Longrightarrow> ref_ok s f \<Longrightarrow> ref_ok s a \<Longrightarrow> dst_ok s T v \<Longrightarrow> safe s T s (evCall r f a v) (yields A v)"
    and eqv: "heap_ok A {} s T \<Longrightarrow> ref_ok s a \<Longrightarrow> ref_ok s b \<Longrightarrow> safe s T s (evEq r a b) (keeps A)"
    and coerce: "heap_ok A {} s T \<Longrightarrow> ref_ok s a \<Longrightarrow> safe s T s (evCoerce r a ctx b1 b2) (keeps A)"
    and strict: "heap_ok A {} s T \<Longrightarrow> ref_ok s a \<Longrightarrow> safe s T s (evStrict r a) (keeps A)"
begin

text \<open>The same as the first or the last step of a sequence.\<close>

lemma eval_step:
  assumes "heap_ok A {} s T" and "grows s0 T0 s T" and "typed T en G" and "fits G e" and "dst_ok s T v"
    and "\<And>x s' T'. grows s T s' T' \<Longrightarrow> grows s0 T0 s' T' \<Longrightarrow> heap_ok A {} s' T' \<Longrightarrow> ref_ok s' v \<Longrightarrow> safe s0 T0 s' (f x) R"
  shows "safe s0 T0 s (bindS (evEval r e en v) f) R"
  by (rule safe_step [OF eval [OF assms(1,3-5)] assms(2)], elim conjE) (rule assms(6))

lemma force_step:
  assumes "heap_ok A {} s T" and "grows s0 T0 s T" and "ref_ok s a"
    and "\<And>x s' T'. grows s T s' T' \<Longrightarrow> grows s0 T0 s' T' \<Longrightarrow> heap_ok A {} s' T' \<Longrightarrow> ref_ok s' a \<Longrightarrow> safe s0 T0 s' (f x) R"
  shows "safe s0 T0 s (bindS (evForce r a) f) R"
  by (rule safe_step [OF force [OF assms(1,3)] assms(2)]) (rule assms(4), assumption+, rule ref_ok_grows [OF _ assms(3)])

lemma eval_tail:
  assumes "heap_ok A {} s T" and "grows s0 T0 s T" and "typed T en G" and "fits G e" and "dst_ok s T v"
  shows "safe s0 T0 s (evEval r e en v) (yields A v)"
  by (rule safe_tail [OF eval [OF assms(1,3-5)] assms(2)])

text \<open>Forcing a value of a certain type.\<close>

lemma force_typed_step:
  assumes "heap_ok A {} s T" and "grows s0 T0 s T" and "ref_ok s a"
    and "\<And>v s' T'. grows s T s' T' \<Longrightarrow> grows s0 T0 s' T' \<Longrightarrow> heap_ok A {} s' T' \<Longrightarrow> ref_ok s' a \<Longrightarrow> v \<noteq> vUninit \<Longrightarrow>
      stValues s' ! a = v \<Longrightarrow> value_ok A s' T' v \<Longrightarrow> safe s0 T0 s' (f v) R"
  shows "safe s0 T0 s (bindS (evForce r a) (\<lambda>_. bindS (getValue a) f)) R"
  by (rule force_step [OF assms(1-3)], rule safe_getValue_ref, assumption+, rule assms(4)) (simp_all add: ref_ok_def)

lemma eval_typed_step:
  assumes "heap_ok A {} s T" and "grows s0 T0 s T" and "typed T en G" and "fits G e" and "dst_ok s T a"
    and "\<And>v s' T'. grows s T s' T' \<Longrightarrow> grows s0 T0 s' T' \<Longrightarrow> heap_ok A {} s' T' \<Longrightarrow> ref_ok s' a \<Longrightarrow> v \<noteq> vUninit \<Longrightarrow>
      stValues s' ! a = v \<Longrightarrow> value_ok A s' T' v \<Longrightarrow> safe s0 T0 s' (f v) R"
  shows "safe s0 T0 s (bindS (evEval r e en a) (\<lambda>_. bindS (getValue a) f)) R"
  by (rule eval_step [OF assms(1-5)], rule safe_getValue_ref, assumption+, rule assms(6)) (simp_all add: ref_ok_def)

lemma evalBool_safe:
  assumes "heap_ok A {} s T" and "grows s0 T0 s T" and ty: "typed T en G" and e: "fits G e"
  shows "safe s0 T0 s (evalBool r en e) (keeps A)"
  unfolding evalBool_def
proof (rule safe_allocValue [OF assms(1,2)])
  fix t s1
  assume g: "grows s T s1 T" "grows s0 T0 s1 T" and 1: "heap_ok A {} s1 T" "dst_ok s1 T t"
  show "safe s0 T0 s1 (bindS (evEval r e en t) (\<lambda>_. bindS (getValue t) (\<lambda>v. case v of vBool b \<Rightarrow> retS b | _ \<Rightarrow> expected ''a Boolean'' v))) (keeps A)"
    by (rule eval_typed_step [OF 1(1) g(2) ty e 1(2)]) (auto split: Value.split intro: safe_ret)
qed

lemma evalAttrs_safe:
  assumes "heap_ok A {} s T" and "grows s0 T0 s T" and "typed T en G" and "fits G e" and "dst_ok s T a"
  shows "safe s0 T0 s (evalAttrs r en e a) (\<lambda>b s' T'. heap_ok A {} s' T' \<and> ref_ok s' a \<and> stValues s' ! a = vAttrs b \<and> b < length (stBindings s'))"
  unfolding evalAttrs_def
  by (rule eval_typed_step [OF assms]) (auto split: Value.split intro: safe_ret)

lemma forceAttrs_safe:
  assumes "heap_ok A {} s T" and "grows s0 T0 s T" and "ref_ok s a"
  shows "safe s0 T0 s (forceAttrs r a) (\<lambda>b s' T'. heap_ok A {} s' T' \<and> b < length (stBindings s'))"
  unfolding forceAttrs_def
  by (rule force_typed_step [OF assms]) (auto split: Value.split intro: safe_ret)

lemma forceList_safe:
  assumes "heap_ok A {} s T" and "grows s0 T0 s T" and "ref_ok s a"
  shows "safe s0 T0 s (forceList r a) (\<lambda>as s' T'. heap_ok A {} s' T' \<and> (\<forall>a \<in> set as. ref_ok s' a))"
  unfolding forceList_def
  by (rule force_typed_step [OF assms]) (auto split: Value.split intro: safe_ret)

lemma forceString_safe:
  assumes "heap_ok A {} s T" and "grows s0 T0 s T" and "ref_ok s a"
  shows "safe s0 T0 s (forceString r a) (keeps A)"
  unfolding forceString_def
  by (rule force_typed_step [OF assms]) (auto split: Value.split intro: safe_ret)

lemma forceStringNoCtx_safe:
  assumes "heap_ok A {} s T" and "grows s0 T0 s T" and "ref_ok s a"
  shows "safe s0 T0 s (forceStringNoCtx r a) (keeps A)"
  unfolding forceStringNoCtx_def
  by (rule safe_step [OF forceString_safe [OF assms(1) grows_refl assms(3)] assms(2)])
    (auto split: prod.split list.split intro: safe_ret)

end

subsection \<open>Expressions without scopes\<close>

lemma list_elems_safe:
  assumes "heap_ok A X s T" and "grows s0 T0 s T" and "typed T en G" and "\<forall>e \<in> set es. fits G e"
  shows "safe s0 T0 s (list_elems en es) (\<lambda>as s' T'. heap_ok A X s' T' \<and> (\<forall>a \<in> set as. ref_ok s' a))"
  using assms
proof (induction es arbitrary: s T s0 T0)
  case Nil
  then show ?case by (auto intro: safe_ret)
next
  case (Cons e es)
  show ?case
    unfolding list_elems.simps
  proof (rule safe_step [OF maybeThunk_safe [OF Cons.prems(1,3)] Cons.prems(2)])
    fix a s1 T1
    assume g: "grows s T s1 T1" "grows s0 T0 s1 T1" and 1: "heap_ok A X s1 T1 \<and> ref_ok s1 a \<and> T1 = T \<and> stEnvs s1 = stEnvs s \<and> stBindings s1 = stBindings s"
    show "safe s0 T0 s1 (bindS (list_elems en es) (\<lambda>as. retS (a # as))) (\<lambda>as s' T'. heap_ok A X s' T' \<and> (\<forall>a \<in> set as. ref_ok s' a))"
    proof (rule safe_step [OF Cons.IH [OF _ grows_refl]])
      show "heap_ok A X s1 T1" "typed T1 en G" "\<forall>e \<in> set es. fits G e" using 1 Cons.prems by auto
    qed (use g 1 in \<open>auto intro!: safe_ret intro: ref_ok_grows\<close>)
  qed (use Cons.prems in simp)
qed

lemma merge_attrs_set:
  "x \<in> set (merge_attrs is js) \<Longrightarrow> x \<in> set is \<or> x \<in> set js"
  by (induction "is" js rule: merge_attrs.induct) (auto split: if_splits)

lemma merge_attrs_is_set:
  "is_set (map fst is) \<Longrightarrow> is_set (map fst js) \<Longrightarrow> is_set (map fst (merge_attrs is js))"
proof (induction "is" js rule: merge_attrs.induct)
  case (3 i "is" j js)
  have above: "\<forall>x \<in> set (merge_attrs is' js'). k < fst x" if "\<forall>x \<in> set is'. k < fst x" "\<forall>x \<in> set js'. k < fst x" for k is' js'
    using merge_attrs_set that by blast
  from 3(4,5) have i: "\<forall>x \<in> set is. fst i < fst x" "is_set (map fst is)" and j: "\<forall>x \<in> set js. fst j < fst x" "is_set (map fst js)" by auto
  consider "fst i = fst j" | "fst i < fst j" | "fst j < fst i" by linarith
  then show ?case
  proof cases
    case 1
    from above [of "is" "fst j" js] "3.IH"(1) i j 1 show ?thesis by simp
  next
    case 2
    then have "\<forall>x \<in> set (j # js). fst i < fst x" using j(1) by auto
    from above [OF i(1) this] "3.IH"(2) "3.prems"(2) i(2) 2 show ?thesis by simp
  next
    case 3
    then have "\<forall>x \<in> set (i # is). fst j < fst x" using i(1) by auto
    from above [OF this j(1)] "3.IH"(3) "3.prems"(1) j(2) 3 show ?thesis by simp
  qed
qed simp_all

context safe_evaluator
begin

lemma ExprList_safe:
  assumes "heap_ok A {} s T" and "grows s0 T0 s T" and "typed T en G" and "\<forall>e \<in> set es. fits G e" and v: "dst_ok s T v"
  shows "safe s0 T0 s (ExprList_eval es en v) (yields A v)"
  unfolding ExprList_eval_def
proof (rule safe_step [OF setValue_safe [OF assms(1) v] assms(2)], simp_all, elim conjE)
  fix s1 T1
  assume g: "grows s T s1 T1" "grows s0 T0 s1 T1" and 1: "heap_ok A {} s1 T1" "dst_ok s1 T1 v"
  show "safe s0 T0 s1 (bindS (list_elems en es) (\<lambda>as. setValue v (vList as))) (yields A v)"
    by (rule safe_step [OF list_elems_safe [OF 1(1) grows_refl typed_grows [OF g(1) assms(3)] assms(4)] g(2)], elim conjE,
        rule setValue_tail, assumption, assumption, rule dst_ok_grows [OF _ 1(2)]) auto
qed

lemma ExprVar_safe:
  assumes "heap_ok A {} s T" and "grows s0 T0 s T" and "typed T en G" and "var_fits G x" and v: "dst_ok s T v"
  shows "safe s0 T0 s (ExprVar_eval r x en v) (yields A v)"
  unfolding ExprVar_eval_def
  by (rule safe_step [OF lookupVar_deref_safe [OF assms(1,3,4)] assms(2)], simp, elim conjE, simp, rule force_step [OF assms(1,2)], assumption,
      rule copyValue_tail, assumption+, rule dst_ok_grows [OF _ v])

lemma select_loop_safe:
  assumes "heap_ok A {} s T" and "grows s0 T0 s T" and "typed T en G" and "\<And>d. def = Some d \<Longrightarrow> fits G d" and "dst_ok s T v" and "ref_ok s a"
  shows "safe s0 T0 s (select_loop r path def en v is a) (yields A v)"
  using assms
proof (induction "is" arbitrary: s T a)
  case Nil
  then show ?case
    by (auto intro!: force_step copyValue_tail elim: dst_ok_grows)
next
  case (Cons i "is")
  show ?case
  proof (cases def)
    case None
    have "safe s0 T0 s (bindS (forceAttrs r a) (\<lambda>b. bindS (getBindings b) (\<lambda>bs. case Bindings_find bs i of
        None \<Rightarrow> (\<lambda>s. throwS (EvalError (''attribute `'' @ showAttrPath (stSymbols s) path @ [CHR 0x27] @ '' missing'')) s)
      | Some j \<Rightarrow> select_loop r path None en v is j))) (yields A v)"
    proof (rule safe_step [OF forceAttrs_safe [OF Cons.prems(1) grows_refl Cons.prems(6)] Cons.prems(2)], elim conjE)
      fix b s1 T1
      assume g: "grows s T s1 T1" "grows s0 T0 s1 T1" and 1: "heap_ok A {} s1 T1" "b < length (stBindings s1)"
      show "safe s0 T0 s1 (bindS (getBindings b) (\<lambda>bs. case Bindings_find bs i of
        None \<Rightarrow> (\<lambda>s. throwS (EvalError (''attribute `'' @ showAttrPath (stSymbols s) path @ [CHR 0x27] @ '' missing'')) s)
      | Some j \<Rightarrow> select_loop r path None en v is j)) (yields A v)"
        using 1 Cons.IH [OF 1(1) g(2) typed_grows [OF g(1) Cons.prems(3)] Cons.prems(4) dst_ok_grows [OF g(1) Cons.prems(5)]]
          Bindings_find_ref [OF 1] None by (auto split: option.split)
    qed
    with None show ?thesis by simp
  next
    case (Some d)
    show ?thesis
      unfolding select_loop.simps Some option.case
    proof (rule force_typed_step [OF Cons.prems(1,2,6)])
      fix x s1 T1
      assume g: "grows s T s1 T1" "grows s0 T0 s1 T1" and 1: "heap_ok A {} s1 T1" "value_ok A s1 T1 x"
      note keep = typed_grows [OF g(1) Cons.prems(3)] Cons.prems(4) dst_ok_grows [OF g(1) Cons.prems(5)]
      have "safe s0 T0 s1 (evEval r d en v) (yields A v)" using eval_tail [OF 1(1) g(2) keep] Some by simp
      then show "safe s0 T0 s1 (case x of
         vAttrs b \<Rightarrow> bindS (getBindings b) (\<lambda>bs. case Bindings_find bs i of
           None \<Rightarrow> evEval r d en v
         | Some j \<Rightarrow> select_loop r path (Some d) en v is j)
       | _ \<Rightarrow> evEval r d en v) (yields A v)"
        using 1 Cons.IH [OF 1(1) g(2) keep] Bindings_find_ref [OF 1(1)] Some by (auto split: option.split Value.split)
    qed
  qed
qed

lemma ExprSelect_safe:
  assumes "heap_ok A {} s T" and "grows s0 T0 s T" and ty: "typed T en G" and e: "fits G e" and d: "\<And>d. def = Some d \<Longrightarrow> fits G d" and v: "dst_ok s T v"
  shows "safe s0 T0 s (ExprSelect_eval r e path def en v) (yields A v)"
  unfolding ExprSelect_eval_def
  by (rule safe_allocValue [OF assms(1,2)], rule eval_step, assumption, assumption, rule ty, rule e, assumption, rule select_loop_safe,
      assumption, assumption, rule typed_grows [OF _ ty], assumption, rule d, assumption, rule dst_ok_grows, assumption, rule dst_ok_grows [OF _ v])

lemma has_attr_loop_safe:
  assumes "heap_ok A {} s T" and "grows s0 T0 s T" and "ref_ok s a"
  shows "safe s0 T0 s (has_attr_loop r is a) (keeps A)"
  using assms
proof (induction "is" arbitrary: s T a)
  case Nil
  then show ?case by (auto intro: safe_ret)
next
  case (Cons i "is")
  show ?case
    unfolding has_attr_loop.simps
    by (rule force_typed_step [OF Cons.prems])
      (auto split: option.split Value.split intro: keeps_ret intro!: Cons.IH elim!: Bindings_find_ref)
qed

lemma ExprOpHasAttr_safe:
  assumes "heap_ok A {} s T" and "grows s0 T0 s T" and ty: "typed T en G" and e: "fits G e" and v: "dst_ok s T v"
  shows "safe s0 T0 s (ExprOpHasAttr_eval r e path en v) (yields A v)"
  unfolding ExprOpHasAttr_eval_def
  by (rule safe_allocValue [OF assms(1,2)], rule eval_step, assumption, assumption, rule ty, rule e, assumption,
      rule safe_step [OF has_attr_loop_safe [OF _ grows_refl]], assumption, assumption, assumption, rule setValue_tail, assumption, assumption,
      rule dst_ok_grows, assumption, rule dst_ok_grows, assumption, rule dst_ok_grows [OF _ v]) simp_all

end

lemma mkAttrs_tail:
  assumes ok: "heap_ok A X s T" and g: "grows s0 T0 s T" and v: "dst_ok s T v" and bs: "is_set (map fst bs)" "\<And>i. i \<in> set bs \<Longrightarrow> ref_ok s (snd i)"
  shows "safe s0 T0 s (mkAttrs v bs) (\<lambda>b s' T'. heap_ok A X s' T' \<and> ref_ok s' v \<and> dst_ok s' T' v \<and> T' = T \<and>
    b = length (stBindings s) \<and> stBindings s' = stBindings s @ [bs] \<and> grows s T s' T')"
proof -
  let ?s = "s\<lparr>stBindings := stBindings s @ [bs]\<rparr>"
  note h = heap_ok_new_bindings [OF ok bs refl]
  have "safe ?s T ?s (setValue v (vAttrs (length (stBindings s)))) (\<lambda>_ s' T'. T' = T \<and> s' = ?s\<lparr>stValues := (stValues ?s)[v := vAttrs (length (stBindings s))]\<rparr> \<and>
      heap_ok A X s' T' \<and> ref_ok s' v \<and> dst_ok s' T' v)"
    by (rule setValue_safe [OF h(1) dst_ok_grows [OF h(2) v]]) simp_all
  then have "safe s0 T0 ?s (bindS (setValue v (vAttrs (length (stBindings s)))) (\<lambda>_. retS (length (stBindings s)))) (\<lambda>b s' T'. heap_ok A X s' T' \<and>
      ref_ok s' v \<and> dst_ok s' T' v \<and> T' = T \<and> b = length (stBindings s) \<and> stBindings s' = stBindings s @ [bs] \<and> grows s T s' T')"
    by (rule safe_step [OF _ grows_trans [OF g h(2)]]) (auto intro!: safe_ret intro: grows_trans [OF h(2)])
  then show ?thesis by (simp add: safe_def mkAttrs_def Let_def)
qed

context safe_evaluator
begin

lemma ExprApp_safe:
  assumes "heap_ok A {} s T" and "grows s0 T0 s T" and ty: "typed T en G" and e: "fits G e1" "fits G e2" and v: "dst_ok s T v"
  shows "safe s0 T0 s (ExprApp_eval r e1 e2 en v) (yields A v)"
  unfolding ExprApp_eval_def
proof (rule safe_allocValue [OF assms(1,2)], rule eval_step, assumption, assumption, rule ty, rule e, assumption)
  fix f s1 s2 T2
  assume g: "grows s T s1 T" "grows s1 T s2 T2" "grows s0 T0 s2 T2" and 2: "heap_ok A {} s2 T2" "ref_ok s2 f"
  have g2: "grows s T s2 T2" using g by (blast intro: grows_trans)
  show "safe s0 T0 s2 (bindS (maybeThunk en e2) (\<lambda>arg. evCall r f arg v)) (yields A v)"
    by (rule safe_step [OF maybeThunk_safe [OF 2(1) typed_grows [OF g2 ty] e(2)] g(3)], elim conjE, rule safe_tail [OF call], assumption)
      (use 2 g2 v in \<open>auto intro: grows_intros\<close>)
qed

lemma ExprIf_safe:
  assumes "heap_ok A {} s T" and "grows s0 T0 s T" and ty: "typed T en G" and "fits G c" "fits G t" "fits G e" and v: "dst_ok s T v"
  shows "safe s0 T0 s (ExprIf_eval r c t e en v) (yields A v)"
  unfolding ExprIf_eval_def
  by (rule safe_step [OF evalBool_safe [OF assms(1) grows_refl ty assms(4)] assms(2)], rule eval_tail, assumption, assumption,
      rule typed_grows [OF _ ty]) (use assms in \<open>auto intro: grows_intros\<close>)

lemma ExprAssert_safe:
  assumes "heap_ok A {} s T" and "grows s0 T0 s T" and ty: "typed T en G" and "fits G c" "fits G e" and v: "dst_ok s T v"
  shows "safe s0 T0 s (ExprAssert_eval r pos c e en v) (yields A v)"
  unfolding ExprAssert_eval_def
  by (rule safe_step [OF evalBool_safe [OF assms(1) grows_refl ty assms(4)] assms(2)])
    (auto intro!: eval_tail typed_grows [OF _ ty] dst_ok_grows [OF _ v] assms(5))

lemma setBool_tail:
  assumes "heap_ok A {} s T" and "safe s T s m (keeps A)" and "grows s0 T0 s T" and "dst_ok s T v"
  shows "safe s0 T0 s (bindS m (\<lambda>b. setValue v (vBool (f b)))) (yields A v)"
  by (rule safe_step [OF assms(2,3)], rule setValue_tail) (auto intro: dst_ok_grows [OF _ assms(4)])

lemma ExprOpNot_safe:
  assumes "heap_ok A {} s T" and "grows s0 T0 s T" and "typed T en G" and "fits G e" and "dst_ok s T v"
  shows "safe s0 T0 s (ExprOpNot_eval r e en v) (yields A v)"
  unfolding ExprOpNot_eval_def
  by (rule setBool_tail [OF assms(1) evalBool_safe [OF assms(1) grows_refl assms(3,4)] assms(2,5)])

lemma two_bools:
  assumes "heap_ok A {} s T" and "typed T en G" and "fits G e1" and "fits G e2"
  shows "safe s T s (bindS (evalBool r en e1) (\<lambda>b. if p b then evalBool r en e2 else retS (q b))) (keeps A)"
  by (rule safe_step [OF evalBool_safe [OF assms(1) grows_refl assms(2,3)] grows_refl])
    (auto intro!: keeps_ret intro: evalBool_safe typed_grows [OF _ assms(2)] assms(4))

lemma ExprOps_safe:
  assumes "heap_ok A {} s T" and "grows s0 T0 s T" and "typed T en G" and "fits G e1" "fits G e2" and "dst_ok s T v"
  shows "safe s0 T0 s (ExprOpAnd_eval r e1 e2 en v) (yields A v)" and "safe s0 T0 s (ExprOpOr_eval r e1 e2 en v) (yields A v)"
    and "safe s0 T0 s (ExprOpImpl_eval r e1 e2 en v) (yields A v)"
proof -
  note two = two_bools [OF assms(1,3-5)]
  show "safe s0 T0 s (ExprOpAnd_eval r e1 e2 en v) (yields A v)"
    unfolding ExprOpAnd_eval_def by (rule setBool_tail [OF assms(1) two assms(2,6)])
  have "(\<lambda>b. if b then retS True else evalBool r en e2) = (\<lambda>b. if \<not> b then evalBool r en e2 else retS True)" by (simp add: fun_eq_iff)
  then show "safe s0 T0 s (ExprOpOr_eval r e1 e2 en v) (yields A v)"
    unfolding ExprOpOr_eval_def using setBool_tail [OF assms(1) two [of Not "\<lambda>_. True"] assms(2,6), of "\<lambda>b. b"] by simp
  have "(\<lambda>b. if \<not> b then retS True else evalBool r en e2) = (\<lambda>b. if b then evalBool r en e2 else retS True)" by (simp add: fun_eq_iff)
  then show "safe s0 T0 s (ExprOpImpl_eval r e1 e2 en v) (yields A v)"
    unfolding ExprOpImpl_eval_def using setBool_tail [OF assms(1) two [of "\<lambda>b. b" "\<lambda>_. True"] assms(2,6), of "\<lambda>b. b"] by simp
qed

lemma eval_two_safe:
  assumes "heap_ok A {} s T" and "grows s0 T0 s T" and ty: "typed T en G" and e: "fits G e1" "fits G e2"
  shows "safe s0 T0 s (eval_two r e1 e2 en) (\<lambda>(v1, v2) s' T'. heap_ok A {} s' T' \<and> ref_ok s' v1 \<and> ref_ok s' v2)"
  unfolding eval_two_def
proof (rule safe_allocValue [OF assms(1,2)], rule eval_step, assumption, assumption, rule ty, rule e, assumption,
    rule safe_allocValue, assumption, assumption)
  fix v1 s1 s2 T2 v2 s3
  assume g: "grows s T s1 T" "grows s1 T s2 T2" "grows s2 T2 s3 T2" "grows s0 T0 s3 T2" and 2: "heap_ok A {} s3 T2" "ref_ok s2 v1" "dst_ok s3 T2 v2"
  have g3: "grows s T s3 T2" using g by (blast intro: grows_trans)
  show "safe s0 T0 s3 (bindS (evEval r e2 en v2) (\<lambda>_. retS (v1, v2))) (\<lambda>(v1, v2) s' T'. heap_ok A {} s' T' \<and> ref_ok s' v1 \<and> ref_ok s' v2)"
    by (rule eval_step [OF 2(1) g(4) typed_grows [OF g3 ty] e(2) 2(3)], rule safe_ret, assumption)
      (use g(3) 2(2) in \<open>auto intro: ref_ok_grows\<close>)
qed

lemma ExprOpEq_safe:
  assumes "heap_ok A {} s T" and "grows s0 T0 s T" and "typed T en G" and "fits G e1" "fits G e2" and v: "dst_ok s T v"
  shows "safe s0 T0 s (ExprOpEq_eval r negate e1 e2 en v) (yields A v)"
  unfolding ExprOpEq_eval_def
  by (rule safe_step [OF eval_two_safe [OF assms(1) grows_refl assms(3-5)] assms(2)])
    (auto intro!: setBool_tail eqv dst_ok_grows [OF _ v])

lemma forceLists_safe:
  assumes "heap_ok A {} s T" and "grows s0 T0 s T" and "\<forall>l \<in> set ls. ref_ok s l"
  shows "safe s0 T0 s (foldr (\<lambda>l m. bindS (forceList r l) (\<lambda>as. bindS m (\<lambda>ass. retS (as # ass)))) ls (retS []))
    (\<lambda>ass s' T'. heap_ok A {} s' T' \<and> (\<forall>as \<in> set ass. \<forall>a \<in> set as. ref_ok s' a))"
  using assms
proof (induction ls arbitrary: s T s0 T0)
  case Nil
  then show ?case by (auto intro!: safe_ret)
next
  case (Cons l ls)
  show ?case
    unfolding foldr.simps comp_def
  proof (rule safe_step [OF forceList_safe [OF Cons.prems(1) grows_refl] Cons.prems(2)], use Cons.prems in simp, elim conjE)
    fix as s1 T1
    assume g: "grows s T s1 T1" "grows s0 T0 s1 T1" and 1: "heap_ok A {} s1 T1" "\<forall>a \<in> set as. ref_ok s1 a"
    have "\<forall>l \<in> set ls. ref_ok s1 l" using Cons.prems(3) g(1) by (auto intro: ref_ok_grows)
    then show "safe s0 T0 s1 (bindS (foldr (\<lambda>l m. bindS (forceList r l) (\<lambda>as. bindS m (\<lambda>ass. retS (as # ass)))) ls (retS [])) (\<lambda>ass. retS (as # ass)))
      (\<lambda>ass s' T'. heap_ok A {} s' T' \<and> (\<forall>as \<in> set ass. \<forall>a \<in> set as. ref_ok s' a))"
    proof (rule_tac safe_step [OF Cons.IH [OF 1(1) grows_refl] g(2)], assumption)
      fix ass s' T'
      assume g': "grows s1 T1 s' T'" and "grows s0 T0 s' T'" "heap_ok A {} s' T' \<and> (\<forall>as \<in> set ass. \<forall>a \<in> set as. ref_ok s' a)"
      then show "safe s0 T0 s' (retS (as # ass)) (\<lambda>ass s' T'. heap_ok A {} s' T' \<and> (\<forall>as \<in> set ass. \<forall>a \<in> set as. ref_ok s' a))"
        using 1(2) ref_ok_grows [OF g'] by (auto intro!: safe_ret)
    qed
  qed
qed

lemma concatLists_safe:
  assumes "heap_ok A {} s T" and "grows s0 T0 s T" and "\<forall>l \<in> set ls. ref_ok s l" and v: "dst_ok s T v"
  shows "safe s0 T0 s (concatLists r v ls) (yields A v)"
  unfolding concatLists_def
  by (rule safe_step [OF forceLists_safe [OF assms(1) grows_refl assms(3)] assms(2)], elim conjE, rule setValue_tail, assumption, assumption,
      rule dst_ok_grows [OF _ v]) auto

lemma ExprOpConcatLists_safe:
  assumes "heap_ok A {} s T" and "grows s0 T0 s T" and "typed T en G" and "fits G e1" "fits G e2" and v: "dst_ok s T v"
  shows "safe s0 T0 s (ExprOpConcatLists_eval r e1 e2 en v) (yields A v)"
  unfolding ExprOpConcatLists_eval_def
  by (rule safe_step [OF eval_two_safe [OF assms(1) grows_refl assms(3-5)] assms(2)])
    (auto intro!: concatLists_safe dst_ok_grows [OF _ v])

lemma ExprOpUpdate_safe:
  assumes "heap_ok A {} s T" and "grows s0 T0 s T" and ty: "typed T en G" and e: "fits G e1" "fits G e2" and v: "dst_ok s T v"
  shows "safe s0 T0 s (ExprOpUpdate_eval r e1 e2 en v) (yields A v)"
  unfolding ExprOpUpdate_eval_def
proof (rule safe_allocValue [OF assms(1,2)], rule safe_allocValue, assumption, assumption)
  fix v1 s1 v2 s2
  assume g: "grows s T s1 T" "grows s1 T s2 T" "grows s0 T0 s2 T" and 2: "heap_ok A {} s2 T" "dst_ok s1 T v1" "dst_ok s2 T v2"
  let ?rest = "\<lambda>b1 b2. bindS (getBindings b1) (\<lambda>bs1. bindS (getBindings b2) (\<lambda>bs2.
       if bs1 = [] then setValue v (vAttrs b2)
       else if bs2 = [] then setValue v (vAttrs b1)
       else bindS (mkAttrs v (merge_attrs bs1 bs2)) (\<lambda>_. retS ())))"
  show "safe s0 T0 s2 (bindS (evalAttrs r en e1 v1) (\<lambda>b1. bindS (evalAttrs r en e2 v2) (\<lambda>b2. ?rest b1 b2))) (yields A v)"
  proof (rule safe_step [OF evalAttrs_safe [OF 2(1) grows_refl typed_grows [OF g(2) ty] e(1) dst_ok_grows [OF g(2) 2(2)]] g(3)], elim conjE)
    fix b1 s3 T3
    assume g3: "grows s2 T s3 T3" "grows s0 T0 s3 T3" and 3: "heap_ok A {} s3 T3" "b1 < length (stBindings s3)"
    show "safe s0 T0 s3 (bindS (evalAttrs r en e2 v2) (\<lambda>b2. ?rest b1 b2)) (yields A v)"
    proof (rule safe_step [OF evalAttrs_safe [OF 3(1) grows_refl typed_grows [OF g3(1) ty] e(2) dst_ok_grows [OF g3(1) 2(3)]] g3(2)], elim conjE)
      fix b2 s4 T4
      assume g4: "grows s3 T3 s4 T4" "grows s0 T0 s4 T4" and 4: "heap_ok A {} s4 T4" "b2 < length (stBindings s4)"
      have b1: "b1 < length (stBindings s4)" using bindings_grows [OF g4(1) 3(2)] by simp
      have v4: "dst_ok s4 T4 v" using v g g3 g4 by (blast intro: dst_ok_grows)
      have "safe s0 T0 s4 (bindS (mkAttrs v (merge_attrs (stBindings s4 ! b1) (stBindings s4 ! b2))) (\<lambda>_. retS ())) (yields A v)"
      proof (rule safe_step [OF mkAttrs_tail [OF 4(1) grows_refl v4] g4(2)])
        show "is_set (map fst (merge_attrs (stBindings s4 ! b1) (stBindings s4 ! b2)))"
          by (rule merge_attrs_is_set [OF heap_okD(4) [OF 4(1) b1] heap_okD(4) [OF 4]])
        show "ref_ok s4 (snd i)" if "i \<in> set (merge_attrs (stBindings s4 ! b1) (stBindings s4 ! b2))" for i
          using merge_attrs_set [OF that] heap_okD(5) [OF 4(1) b1] heap_okD(5) [OF 4] by blast
      qed (auto intro: safe_ret)
      then show "safe s0 T0 s4 (?rest b1 b2) (yields A v)"
        using b1 4 setValue_tail [OF 4(1) g4(2) v4, of "vAttrs b1"] setValue_tail [OF 4(1) g4(2) v4, of "vAttrs b2"] by simp
    qed
  qed
qed

lemma concat_strings_safe:
  assumes "heap_ok A {} s T" and "grows s0 T0 s T" and "typed T en G" and "\<forall>e \<in> set es. fits G e" and "dst_ok s T vStr"
  shows "safe s0 T0 s (concat_strings r en vStr es isPath str ctx) (keeps A)"
  using assms
proof (induction es arbitrary: s T isPath str ctx)
  case Nil
  then show ?case by (auto intro: keeps_ret)
next
  case (Cons e es)
  show ?case
    unfolding concat_strings.simps Let_def
  proof (rule eval_typed_step [OF Cons.prems(1-3)], use Cons.prems(4) in simp, rule Cons.prems(5),
      rule safe_step [OF coerce], assumption, assumption, assumption)
    fix x s2 T2 p s3 T3
    assume g: "grows s T s2 T2" "grows s2 T2 s3 T3" "grows s0 T0 s3 T3" "heap_ok A {} s3 T3"
    have "typed T3 en G" "dst_ok s3 T3 vStr" using g Cons.prems(3,5) by (blast intro: grows_intros)+
    with Cons.IH [OF g(4,3)] Cons.prems(4)
    show "safe s0 T0 s3 (case p of (s, ctx) \<Rightarrow> concat_strings r en vStr es (Some (case isPath of None \<Rightarrow> (case x of vPath _ \<Rightarrow> True | _ \<Rightarrow> False) | Some p \<Rightarrow> p)) (str @ s) ctx) (keeps A)"
      by (simp split: prod.split)
  qed
qed

lemma ExprConcatStrings_safe:
  assumes "heap_ok A {} s T" and "grows s0 T0 s T" and ty: "typed T en G" and "\<forall>e \<in> set es. fits G e" and v: "dst_ok s T v"
  shows "safe s0 T0 s (ExprConcatStrings_eval r es en v) (yields A v)"
  unfolding ExprConcatStrings_eval_def
proof (rule safe_allocValue [OF assms(1,2)])
  fix vStr s1
  assume g: "grows s T s1 T" "grows s0 T0 s1 T" "heap_ok A {} s1 T" "dst_ok s1 T vStr"
  show "safe s0 T0 s1 (bindS (concat_strings r en vStr es None [] []) (\<lambda>(isPath, s, context).
       if isPath \<and> context \<noteq> [] then
         throwS (EvalError (''a string that refers to a store path cannot be appended to a path, in `'' @ s @ [CHR 0x27]))
       else if isPath then setValue v (vPath (c_str s))
       else setValue v (mkString s context))) (yields A v)"
    by (rule safe_step [OF concat_strings_safe [OF g(3) grows_refl ty assms(4) g(4)] g(2)])
      (auto split: prod.split simp: mkString_def intro!: setValue_tail dst_ok_grows [OF _ dst_ok_grows [OF g(1) v]])
qed

end

subsection \<open>New environments\<close>

lemma number_vars_fold:
  "is_map vs \<Longrightarrow> (case fold (\<lambda>x (vs, displ). (map_put x displ vs, displ + 1)) ns (vs, n) of (vs', n') \<Rightarrow>
    is_map vs' \<and> n' = n + length ns \<and> (\<forall>x. x \<notin> set ns \<longrightarrow> map_of vs' x = map_of vs x) \<and>
    (\<forall>x d. x \<in> set ns \<longrightarrow> map_of vs' x = Some d \<longrightarrow> d < n + length ns) \<and>
    (distinct ns \<longrightarrow> (\<forall>i < length ns. map_of vs' (ns ! i) = Some (n + i))))"
proof (induction ns arbitrary: vs n)
  case (Cons x ns)
  obtain vs' n' where f: "fold (\<lambda>x (vs, displ). (map_put x displ vs, displ + 1)) ns (map_put x n vs, n + 1) = (vs', n')" by fastforce
  from Cons.IH [of "map_put x n vs" "n + 1"] Cons.prems f
  have *: "is_map vs'" "n' = n + 1 + length ns" "\<forall>y. y \<notin> set ns \<longrightarrow> map_of vs' y = map_of (map_put x n vs) y"
    "\<forall>y d. y \<in> set ns \<longrightarrow> map_of vs' y = Some d \<longrightarrow> d < n + 1 + length ns" "distinct ns \<longrightarrow> (\<forall>i < length ns. map_of vs' (ns ! i) = Some (n + 1 + i))"
    by auto
  have "d < n + length (x # ns)" if "y \<in> set (x # ns)" "map_of vs' y = Some d" for y d
    using that *(3,4) Cons.prems by (cases "y \<in> set ns") auto
  moreover have "map_of vs' ((x # ns) ! i) = Some (n + i)" if "distinct (x # ns)" "i < length (x # ns)" for i
    using that *(3,5) Cons.prems by (cases i) auto
  ultimately show ?case using * Cons.prems f by auto
qed auto

lemma number_vars_bound: "map_of (number_vars ns) x = Some d \<Longrightarrow> d < length ns"
  using number_vars_fold [where vs = "[]" and ns = ns and n = 0] by (cases "x \<in> set ns") (auto simp: number_vars_def split: prod.splits)

lemma number_vars_nth: "distinct ns \<Longrightarrow> i < length ns \<Longrightarrow> map_of (number_vars ns) (ns ! i) = Some i"
  using number_vars_fold [where vs = "[]" and ns = ns and n = 0] by (auto simp: number_vars_def split: prod.splits)

lemma allocEnv_step:
  assumes ok: "heap_ok A X s T" and g: "grows s0 T0 s T"
    and "\<And>s'. heap_ok A X s' (T @ [None]) \<Longrightarrow> grows s T s' (T @ [None]) \<Longrightarrow> grows s0 T0 s' (T @ [None]) \<Longrightarrow>
      s' = s\<lparr>stEnvs := stEnvs s @ [\<lparr>envUp = Some en, envPrevWith = 0, envValues = replicate n None\<rparr>]\<rparr> \<Longrightarrow> length (stEnvs s) = length T \<Longrightarrow>
      safe s0 T0 s' (f (length T)) R"
  shows "safe s0 T0 s (bindS (allocEnv n en) f) R"
proof -
  note h = heap_ok_new_env [OF ok refl]
  from assms(3) [OF h grows_trans [OF g h(2)] refl] heap_okD(1) [OF ok] show ?thesis by (simp add: safe_def bindS_def allocEnv_def)
qed

lemma retype_names:
  assumes ok: "heap_ok A X s T" and g: "grows s0 T0 s T" "length T0 \<le> e" and e: "e < length T" "T ! e = None" "en < e" "typed T en G"
    and env: "envUp (stEnvs s ! e) = Some en" "envValues (stEnvs s ! e) = replicate (length ns) None"
  shows "heap_ok A (insert e X) s (T[e := Some (names_frame ns # G)])" and "grows s0 T0 s (T[e := Some (names_frame ns # G)])"
    and "typed (T[e := Some (names_frame ns # G)]) e (names_frame ns # G)" and "typed (T[e := Some (names_frame ns # G)]) en G"
proof -
  let ?T = "T[e := Some (names_frame ns # G)]"
  show en: "typed ?T en G" and "typed ?T e (names_frame ns # G)" using e by (simp_all add: typed_def nth_list_update)
  have T: "?T ! e = Some (names_frame ns # G)" using e by simp
  have env_ok: "env_ok (e \<notin> insert e X) s ?T e" unfolding env_ok_names [OF T]
    using e en env by (simp add: number_vars_bound slot_ok_def)
  show "heap_ok A (insert e X) s ?T" "grows s0 T0 s ?T"
    using heap_ok_retype [OF ok e(1,2) env_ok] g by (auto simp: names_frame_def)
qed

lemma setEnvValue_step:
  assumes ok: "heap_ok A X s T" and g: "grows s0 T0 s T" and e: "typed T e (names_frame ns # G)" and i: "i < length (envValues (stEnvs s ! e))" and a: "ref_ok s a"
    and f: "\<And>s'. heap_ok A X s' T \<Longrightarrow> grows s T s' T \<Longrightarrow> grows s0 T0 s' T \<Longrightarrow>
      s' = s\<lparr>stEnvs := (stEnvs s)[e := (stEnvs s ! e)\<lparr>envValues := (envValues (stEnvs s ! e))[i := Some a]\<rparr>]\<rparr> \<Longrightarrow> safe s0 T0 s' (f ()) R"
  shows "safe s0 T0 s (bindS (setEnvValue e i a) f) R"
proof -
  note h = heap_ok_set_slot [OF ok e a refl, of i]
  have "e < length (stEnvs s)" by (rule typed_env(1) [OF ok e])
  with f [OF h grows_trans [OF g h(2)] refl] i show ?thesis by (simp add: safe_def bindS_def setEnvValue_def)
qed

text \<open>An environment whose first \<open>k\<close> slots have been filled.\<close>

definition filling :: "(Symbol \<Rightarrow> nat \<Rightarrow> bool) \<Rightarrow> EvalState \<Rightarrow> heap_type \<Rightarrow> nat \<Rightarrow> Symbol list \<Rightarrow> StaticEnv \<Rightarrow> nat \<Rightarrow> bool" where
  "filling A s T e ns G k \<longleftrightarrow> heap_ok A {e} s T \<and> typed T e (names_frame ns # G) \<and>
     length (envValues (stEnvs s ! e)) = length ns \<and> (\<forall>d < k. envValues (stEnvs s ! e) ! d \<noteq> None)"

lemma filling_heap: "filling A s T e ns G k \<Longrightarrow> heap_ok A {e} s T"
  and filling_typed: "filling A s T e ns G k \<Longrightarrow> typed T e (names_frame ns # G)"
  by (simp_all add: filling_def)

lemma filling_complete: "filling A s T e ns G (length ns) \<Longrightarrow> heap_ok A {} s T"
  by (rule heap_ok_complete [of A e "{}" s T ns G]) (auto simp: filling_def intro: number_vars_bound)

lemma filling_step:
  assumes fill: "filling A s T e ns G k" and g: "grows s0 T0 s T" and k: "k < length ns" and a: "ref_ok s a"
    and f: "\<And>s'. filling A s' T e ns G (Suc k) \<Longrightarrow> grows s T s' T \<Longrightarrow> grows s0 T0 s' T \<Longrightarrow> stBindings s' = stBindings s \<Longrightarrow> safe s0 T0 s' (f ()) R"
  shows "safe s0 T0 s (bindS (setEnvValue e k a) f) R"
proof (rule setEnvValue_step [OF filling_heap [OF fill] g filling_typed [OF fill] _ a])
  show "k < length (envValues (stEnvs s ! e))" using fill k by (simp add: filling_def)
  fix s'
  assume h: "heap_ok A {e} s' T" "grows s T s' T" "grows s0 T0 s' T"
    and s': "s' = s\<lparr>stEnvs := (stEnvs s)[e := (stEnvs s ! e)\<lparr>envValues := (envValues (stEnvs s ! e))[k := Some a]\<rparr>]\<rparr>"
  have "e < length (stEnvs s)" by (rule typed_env(1) [OF filling_heap [OF fill] filling_typed [OF fill]])
  then have "filling A s' T e ns G (Suc k)" using fill h(1) k by (auto simp: filling_def s' less_Suc_eq nth_list_update)
  from f [OF this h(2,3)] show "safe s0 T0 s' (f ()) R" by (simp add: s')
qed

lemma filling_begin:
  assumes "heap_ok A {} s T" "grows s0 T0 s T" "length T0 \<le> e" "e < length T" "T ! e = None" "en < e" "typed T en G"
    and "envUp (stEnvs s ! e) = Some en" "envValues (stEnvs s ! e) = replicate (length ns) None"
  shows "filling A s (T[e := Some (names_frame ns # G)]) e ns G 0" and "grows s0 T0 s (T[e := Some (names_frame ns # G)])"
    and "typed (T[e := Some (names_frame ns # G)]) en G"
  using retype_names [OF assms] assms(9) by (auto simp: filling_def)

lemma new_scope_step:
  assumes ok: "heap_ok A {} s T" and g: "grows s0 T0 s T" and ty: "typed T en G"
    and f: "\<And>s'. filling A s' (T @ [Some (names_frame ns # G)]) (length T) ns G 0 \<Longrightarrow> grows s T s' (T @ [Some (names_frame ns # G)]) \<Longrightarrow>
      grows s0 T0 s' (T @ [Some (names_frame ns # G)]) \<Longrightarrow> typed (T @ [Some (names_frame ns # G)]) en G \<Longrightarrow> en < length T \<Longrightarrow>
      stBindings s' = stBindings s \<Longrightarrow> safe s0 T0 s' (f (length T)) R"
  shows "safe s0 T0 s (bindS (allocEnv (length ns) en) f) R"
proof (rule allocEnv_step [OF ok g])
  fix s1
  let ?T = "T @ [Some (names_frame ns # G)]"
  assume 1: "heap_ok A {} s1 (T @ [None])" "grows s T s1 (T @ [None])" "length (stEnvs s) = length T"
    and s1: "s1 = s\<lparr>stEnvs := stEnvs s @ [\<lparr>envUp = Some en, envPrevWith = 0, envValues = replicate (length ns) None\<rparr>]\<rparr>"
  have en: "en < length T" using ty by (simp add: typed_def)
  have new: "stEnvs s1 ! length T = \<lparr>envUp = Some en, envPrevWith = 0, envValues = replicate (length ns) None\<rparr>"
    using 1(3) by (simp add: s1 nth_append)
  have "filling A s1 ?T (length T) ns G 0" "grows s T s1 ?T" "typed ?T en G"
    using filling_begin [OF 1(1,2), of "length T" en G ns] en typed_grows [OF 1(2) ty] new by (simp_all add: list_update_append)
  from f [OF this(1,2) grows_trans [OF g this(2)] this(3) en] show "safe s0 T0 s1 (f (length T)) R" by (simp add: s1)
qed

text \<open>The value of an attribute: inherited from the outer environment, or a thunk in the new one.\<close>

lemma attr_value_safe:
  assumes fill: "filling A s T e ns G k" and en: "typed T en G" "en < e" and d: "fits_attr G (names_frame ns # G) d"
  shows "safe s T s (case d of Inherited var _ \<Rightarrow> bindS (lookupVar en var) deref
      | Defined x _ \<Rightarrow> if t then allocWith (vThunk e x) else maybeThunk e x)
    (\<lambda>a s' T'. filling A s' T' e ns G k \<and> ref_ok s' a \<and> T' = T \<and> stBindings s' = stBindings s)"
proof (cases d)
  case (Inherited var n)
  with d have "var_fits G var" by simp
  from lookupVar_deref_safe [OF filling_heap [OF fill] en(1) this] en(2) have "safe s T s (bindS (lookupVar en var) deref)
      (\<lambda>a s' T'. s' = s \<and> T' = T \<and> ref_ok s a)" by simp
  then show ?thesis unfolding Inherited AttrDef.case by (rule safe_conseq) (use fill in auto)
next
  case (Defined x n)
  with d have x: "fits (names_frame ns # G) x" by simp
  note ty = filling_typed [OF fill]
  have "safe s T s (allocWith (vThunk e x)) (\<lambda>a s' T'. heap_ok A {e} s' T' \<and> ref_ok s' a \<and> T' = T \<and> stEnvs s' = stEnvs s \<and> stBindings s' = stBindings s)"
    by (rule safe_conseq [OF allocWith_safe [OF filling_heap [OF fill]]]) (use ty x in auto)
  with maybeThunk_safe [OF filling_heap [OF fill] ty x]
  have "safe s T s (if t then allocWith (vThunk e x) else maybeThunk e x)
      (\<lambda>a s' T'. heap_ok A {e} s' T' \<and> ref_ok s' a \<and> T' = T \<and> stEnvs s' = stEnvs s \<and> stBindings s' = stBindings s)" by simp
  then show ?thesis unfolding Defined AttrDef.case by (rule safe_conseq) (use fill in \<open>auto simp: filling_def\<close>)
qed

lemma foldS_Cons_safe: "safe s0 T0 s (bindS (f x) (\<lambda>_. foldS f xs)) Q \<Longrightarrow> safe s0 T0 s (foldS f (x # xs)) Q"
  by (simp add: safe_def)

lemma foldS_Cons: "foldS f (x # xs) = bindS (f x) (\<lambda>_. foldS f xs)"
  by (simp add: fun_eq_iff)

lemma safe_assoc: "safe s0 T0 s (bindS m (\<lambda>x. bindS (f x) g)) Q \<Longrightarrow> safe s0 T0 s (bindS (bindS m f) g) Q"
proof -
  have "bindS (bindS m f) g = bindS m (\<lambda>x. bindS (f x) g)" by (auto simp: bindS_def fun_eq_iff split: prod.splits sum.splits)
  then show "safe s0 T0 s (bindS m (\<lambda>x. bindS (f x) g)) Q \<Longrightarrow> ?thesis" by simp
qed

text \<open>The attributes of a \<^verbatim>\<open>let\<close>.\<close>

lemma let_attrs_safe:
  assumes "filling A s T e ns G k" and "grows s0 T0 s T" and "typed T en G" and en: "en < e"
    and "\<forall>a \<in> set as. fits_attr G (names_frame ns # G) (snd a)" and "k + length as = length ns"
  shows "safe s0 T0 s (foldS (let_attr en e) (enumerate k as)) (\<lambda>_ s' T'. filling A s' T' e ns G (length ns))"
  using assms(1-3,5-)
proof (induction as arbitrary: s k)
  case Nil
  then show ?case by (auto simp: safe_def)
next
  case (Cons a as)
  obtain x d where a: "a = (x, d)" by fastforce
  have d: "fits_attr G (names_frame ns # G) d" using Cons.prems(4) a by simp
  have "safe s0 T0 s (bindS (let_attr en e (k, a)) (\<lambda>_. foldS (let_attr en e) (enumerate (Suc k) as))) (\<lambda>_ s' T'. filling A s' T' e ns G (length ns))"
    unfolding a let_attr_def [of en e "(k, x, d)"] prod.case
  proof (rule safe_assoc, rule safe_step [OF attr_value_safe [where t = False, unfolded if_False, OF Cons.prems(1,3) en d] Cons.prems(2)], elim conjE)
    fix v s1 T1
    assume "filling A s1 T1 e ns G k" "grows s0 T0 s1 T1" "T1 = T" and v: "ref_ok s1 v"
    then have 1: "filling A s1 T e ns G k" "grows s0 T0 s1 T" by simp_all
    show "safe s0 T0 s1 (bindS (setEnvValue e k v) (\<lambda>_. foldS (let_attr en e) (enumerate (Suc k) as))) (\<lambda>_ s' T'. filling A s' T' e ns G (length ns))"
      by (rule filling_step [OF 1 _ v]) (use Cons in auto)
  qed
  then show ?case by (simp add: foldS_Cons_safe)
qed

text \<open>Binding the formals of a function.\<close>

lemma call_formals_safe:
  assumes "filling A s T e ns G k" and "grows s0 T0 s T" and "k + length fs = length ns" and "b < length (stBindings s)"
    and "\<forall>f \<in> set fs. case snd f of None \<Rightarrow> True | Some d \<Rightarrow> fits (names_frame ns # G) d"
  shows "safe s0 T0 s (call_formals e b pos fs k n) (\<lambda>_ s' T'. filling A s' T' e ns G (length ns) \<and> b < length (stBindings s'))"
  using assms
proof (induction fs arbitrary: s T k n)
  case Nil
  then show ?case by (auto intro: safe_ret)
next
  case (Cons f fs)
  let ?Q = "\<lambda>(_ :: nat) s' T'. filling A s' T' e ns G (length ns) \<and> b < length (stBindings s')"
  have k: "k < length ns" using Cons.prems(3) by simp
  have next_ok: "safe s0 T0 s1 (bindS (setEnvValue e k a) (\<lambda>_. call_formals e b pos fs (k + 1) m)) ?Q"
    if 1: "filling A s1 T1 e ns G k" "grows s0 T0 s1 T1" "ref_ok s1 a" "b < length (stBindings s1)" for s1 T1 a m
    by (rule filling_step [OF that(1,2) k that(3)]) (use that Cons.IH Cons.prems in auto)
  show ?case
  proof (cases "Bindings_find (stBindings s ! b) (fst f)")
    case (Some a)
    with next_ok [OF Cons.prems(1,2) _ Cons.prems(4)] Bindings_find_ref [OF filling_heap [OF Cons.prems(1)] Cons.prems(4) Some] Cons.prems(4)
    show ?thesis by simp
  next
    case none: None
    show ?thesis
    proof (cases "snd f")
      case None
      with none Cons.prems(4) show ?thesis by simp
    next
      case (Some d)
      with Cons.prems(5) have d: "fits_attr G (names_frame ns # G) (Defined d 0)" by simp
      have "fits (names_frame ns # G) d" using d by simp
      have "safe s0 T0 s (bindS (maybeThunk e d) (\<lambda>a. bindS (setEnvValue e k a) (\<lambda>_. call_formals e b pos fs (k + 1) n))) ?Q"
        by (rule safe_step [OF maybeThunk_safe [OF filling_heap [OF Cons.prems(1)] filling_typed [OF Cons.prems(1)] \<open>fits (names_frame ns # G) d\<close>] Cons.prems(2)],
            elim conjE, rule next_ok) (use Cons.prems in \<open>auto simp: filling_def\<close>)
      with none Some Cons.prems(4) show ?thesis by simp
    qed
  qed
qed

context safe_evaluator
begin

lemma ExprLet_safe:
  assumes ok: "heap_ok A {} s T" and g: "grows s0 T0 s T" and ty: "typed T en G" and e: "fits G (ExprLet as body)" and v: "dst_ok s T v"
  shows "safe s0 T0 s (ExprLet_eval r as body en v) (yields A v)"
  unfolding ExprLet_eval_def
proof (rule new_scope_step [OF ok g ty, of "map fst as", unfolded length_map])
  fix s1
  let ?e = "length T" let ?ns = "map fst as" let ?T = "T @ [Some (names_frame ?ns # G)]"
  assume 1: "filling A s1 ?T ?e ?ns G 0" "grows s T s1 ?T" "grows s0 T0 s1 ?T" "typed ?T en G" "en < ?e"
  show "safe s0 T0 s1 (bindS (foldS (let_attr en ?e) (enumerate 0 as)) (\<lambda>_. evEval r body ?e v)) (yields A v)"
  proof (rule safe_step [OF let_attrs_safe [OF 1(1) grows_refl 1(4,5)] 1(3)])
    fix s2 T2
    assume 2: "grows s1 ?T s2 T2" "grows s0 T0 s2 T2" "filling A s2 T2 ?e ?ns G (length ?ns)"
    show "safe s0 T0 s2 (evEval r body ?e v) (yields A v)"
      by (rule eval_tail [OF filling_complete [OF 2(3)] 2(2) filling_typed [OF 2(3)]])
        (use e dst_ok_grows [OF 2(1) dst_ok_grows [OF 1(2) v]] in auto)
  qed (use e in auto)
qed

end

context safe_evaluator
begin

text \<open>The environment of a call is filled after the argument has been forced; until then it has no type.\<close>

lemma call_args_safe:
  assumes ok: "heap_ok A {} s T" and g: "grows s0 T0 s T" and e: "length T0 \<le> e" "e < length T" "T ! e = None" "en < e" "typed T en G"
    and env: "envUp (stEnvs s ! e) = Some en" "envValues (stEnvs s ! e) = replicate (length (lambda_names param formals)) None"
    and lam: "fits G (ExprLambda pos param formals body)" and arg: "ref_ok s arg"
  shows "safe s0 T0 s (case formals of
              None \<Rightarrow> setEnvValue e 0 arg
            | Some (fs, ellipsis) \<Rightarrow>
                bindS (forceAttrs r arg) (\<lambda>b.
                bindS (if param \<noteq> None then setEnvValue e 0 arg else retS ()) (\<lambda>_.
                bindS (call_formals e b pos fs (if param \<noteq> None then 1 else 0) 0) (\<lambda>attrsUsed.
                bindS (getBindings b) (\<lambda>bs.
                  if \<not> ellipsis \<and> attrsUsed \<noteq> length bs
                  then throwS (TypeError (''function at '' @ show_Pos pos @ '' called with unexpected argument''))
                  else retS ())))))
    (\<lambda>_ s' T'. heap_ok A {} s' T' \<and> typed T' e (names_frame (lambda_names param formals) # G))"
proof (cases formals)
  case None
  with lam obtain x where x: "param = Some x" by auto
  let ?ns = "lambda_names param formals" let ?T = "T[e := Some (names_frame ?ns # G)]"
  have n: "length ?ns = 1" by (simp add: lambda_names_def None x)
  note f = filling_begin [OF ok g e env]
  have "safe s0 T0 s (bindS (setEnvValue e 0 arg) retS) (\<lambda>_ s' T'. heap_ok A {} s' T' \<and> typed T' e (names_frame ?ns # G))"
    by (rule filling_step [OF f(1,2) _ arg]) (use n filling_complete [of A _ _ e ?ns G] filling_typed in \<open>auto intro!: safe_ret\<close>)
  moreover have "bindS (setEnvValue e 0 arg) retS = setEnvValue e 0 arg"
    by (auto simp: bindS_def retS_def fun_eq_iff split: prod.splits sum.splits)
  ultimately show ?thesis using None by simp
next
  case (Some fe)
  obtain fs ellipsis where fe: "fe = (fs, ellipsis)" by fastforce
  let ?ns = "lambda_names param formals"
  have fs: "\<forall>f \<in> set fs. case snd f of None \<Rightarrow> True | Some d \<Rightarrow> fits (names_frame ?ns # G) d" using lam unfolding Some fe by simp
  let ?Q = "\<lambda>_ s' T'. heap_ok A {} s' T' \<and> typed T' e (names_frame ?ns # G)"
  let ?last = "\<lambda>b attrsUsed. bindS (getBindings b) (\<lambda>bs.
                  if \<not> ellipsis \<and> attrsUsed \<noteq> length bs
                  then throwS (TypeError (''function at '' @ show_Pos pos @ '' called with unexpected argument''))
                  else retS ())"
  have formals: "safe s0 T0 s2 (bindS (call_formals e b pos fs k 0) (?last b)) ?Q"
    if "filling A s2 T2 e ?ns G k" "grows s0 T0 s2 T2" "k + length fs = length ?ns" "b < length (stBindings s2)" for s2 T2 k b
    by (rule safe_step [OF call_formals_safe [OF that(1) grows_refl that(3,4) fs] that(2)])
      (auto intro!: safe_ret intro: filling_complete filling_typed)
  have "safe s0 T0 s (bindS (forceAttrs r arg) (\<lambda>b. bindS (if param \<noteq> None then setEnvValue e 0 arg else retS ()) (\<lambda>_.
                bindS (call_formals e b pos fs (if param \<noteq> None then 1 else 0) 0) (?last b)))) ?Q"
  proof (rule safe_step [OF forceAttrs_safe [OF ok grows_refl arg] g], elim conjE)
    fix b s1 T1
    assume 1: "grows s T s1 T1" "grows s0 T0 s1 T1" "heap_ok A {} s1 T1" "b < length (stBindings s1)"
    have e1: "e < length T1" "T1 ! e = None" "stEnvs s1 ! e = stEnvs s ! e" using 1(1) e(2,3) by (auto simp: grows_def)
    note f = filling_begin [OF 1(3,2) e(1) e1(1,2) e(4) typed_grows [OF 1(1) e(5)], unfolded e1(3), OF env]
    have arg1: "ref_ok s1 arg" by (rule ref_ok_grows [OF 1(1) arg])
    show "safe s0 T0 s1 (bindS (if param \<noteq> None then setEnvValue e 0 arg else retS ()) (\<lambda>_.
                bindS (call_formals e b pos fs (if param \<noteq> None then 1 else 0) 0) (?last b))) ?Q"
    proof (cases param)
      case None
      then have "safe s0 T0 s1 (bindS (call_formals e b pos fs 0 0) (?last b)) ?Q"
        by (intro formals [OF f(1,2)]) (simp_all add: lambda_names_def Some fe 1)
      then show ?thesis using None by (simp add: bindS_def retS_def safe_def)
    next
      case (Some x)
      have "safe s0 T0 s1 (bindS (setEnvValue e 0 arg) (\<lambda>_. bindS (call_formals e b pos fs 1 0) (?last b))) ?Q"
        by (rule filling_step [OF f(1,2) _ arg1], simp add: lambda_names_def Some, rule formals)
          (use 1(4) in \<open>simp_all add: lambda_names_def Some \<open>formals = Some fe\<close> fe\<close>)
      then show ?thesis by (simp add: Some)
    qed
  qed
  then show ?thesis by (simp add: Some fe)
qed

lemma call_lambda_safe:
  assumes ok: "heap_ok A {} s T" and g: "grows s0 T0 s T" and ty: "typed T en G" and lam: "fits G (ExprLambda pos param formals body)"
    and arg: "ref_ok s arg" and v: "dst_ok s T v"
  shows "safe s0 T0 s (call_lambda r en pos param formals body arg v) (yields A v)"
  unfolding call_lambda_def
proof (rule allocEnv_step [OF ok g])
  fix s1
  let ?T = "T @ [None]" let ?ns = "lambda_names param formals"
  assume 1: "heap_ok A {} s1 ?T" "grows s T s1 ?T" "grows s0 T0 s1 ?T" "length (stEnvs s) = length T"
    and s1: "s1 = s\<lparr>stEnvs := stEnvs s @ [\<lparr>envUp = Some en, envPrevWith = 0, envValues = replicate (length ?ns) None\<rparr>]\<rparr>"
  have new: "stEnvs s1 ! length T = \<lparr>envUp = Some en, envPrevWith = 0, envValues = replicate (length ?ns) None\<rparr>"
    using 1(4) by (simp add: s1 nth_append)
  have en: "en < length T" using ty by (simp add: typed_def)
  note args = call_args_safe [OF 1(1,2) _ _ _ en typed_grows [OF 1(2) ty] _ _ lam ref_ok_grows [OF 1(2) arg], unfolded new]
  have body: "fits (names_frame ?ns # G) body" using lam by (cases formals) auto
  show "safe s0 T0 s1 (bindS (case formals of
              None \<Rightarrow> setEnvValue (length T) 0 arg
            | Some (fs, ellipsis) \<Rightarrow>
                bindS (forceAttrs r arg) (\<lambda>b.
                bindS (if param \<noteq> None then setEnvValue (length T) 0 arg else retS ()) (\<lambda>_.
                bindS (call_formals (length T) b pos fs (if param \<noteq> None then 1 else 0) 0) (\<lambda>attrsUsed.
                bindS (getBindings b) (\<lambda>bs.
                  if \<not> ellipsis \<and> attrsUsed \<noteq> length bs
                  then throwS (TypeError (''function at '' @ show_Pos pos @ '' called with unexpected argument''))
                  else retS ()))))) (\<lambda>_. evEval r body (length T) v)) (yields A v)"
    by (rule safe_bind [OF args], simp_all, elim conjE, rule eval_tail, assumption, rule grows_trans [OF g], assumption+, rule body,
        rule dst_ok_grows [OF _ v])
qed

end

lemma setPrevWith_untyped:
  assumes ok: "heap_ok A X s T" and g: "grows s0 T0 s T" "length T0 \<le> e" and e: "e < length T" "T ! e = None"
    and f: "\<And>s'. heap_ok A X s' T \<Longrightarrow> grows s0 T0 s' T \<Longrightarrow> s' = s\<lparr>stEnvs := (stEnvs s)[e := (stEnvs s ! e)\<lparr>envPrevWith := n\<rparr>]\<rparr> \<Longrightarrow> safe s0 T0 s' (f ()) R"
  shows "safe s0 T0 s (bindS (setPrevWith e n) f) R"
proof -
  note h = heap_ok_set_untyped [OF ok e refl]
  from f [OF h(1) h(2) [OF g]] e(1) heap_okD(1) [OF ok] show ?thesis by (simp add: safe_def bindS_def setPrevWith_def)
qed

lemma setEnvValue_untyped:
  assumes ok: "heap_ok A X s T" and g: "grows s0 T0 s T" "length T0 \<le> e" and e: "e < length T" "T ! e = None" "i < length (envValues (stEnvs s ! e))"
    and f: "\<And>s'. heap_ok A X s' T \<Longrightarrow> grows s0 T0 s' T \<Longrightarrow>
      s' = s\<lparr>stEnvs := (stEnvs s)[e := (stEnvs s ! e)\<lparr>envValues := (envValues (stEnvs s ! e))[i := Some a]\<rparr>]\<rparr> \<Longrightarrow> safe s0 T0 s' (f ()) R"
  shows "safe s0 T0 s (bindS (setEnvValue e i a) f) R"
proof -
  note h = heap_ok_set_untyped [OF ok e(1,2) refl]
  from f [OF h(1) h(2) [OF g]] e heap_okD(1) [OF ok] show ?thesis by (simp add: safe_def bindS_def setEnvValue_def)
qed

context safe_evaluator
begin

text \<open>The attributes of a \<^verbatim>\<open>with\<close> are evaluated before its environment gets its type.\<close>

lemma with_body_safe:
  assumes ok: "heap_ok A {} s T" and g: "grows s0 T0 s T" "length T0 \<le> e" and e: "e < length T" "T ! e = None" "en < e" "typed T en G"
    and env: "stEnvs s ! e = \<lparr>envUp = Some en, envPrevWith = prev_with_loop G 1, envValues = [Some w]\<rparr>"
    and w: "length (stValues s0) \<le> w" "ref_ok s w" "stValues s ! w = vAttrs b"
    and body: "fits (with_frame # G) body" and v: "dst_ok s0 T0 v"
  shows "safe s0 T0 s (evEval r body e v) (yields A v)"
proof -
  let ?T = "T[e := Some (with_frame # G)]"
  have "env_ok (e \<notin> {}) s ?T e" using e env w by (simp add: env_ok_def typed_def nth_list_update ref_ok_def)
  note h = heap_ok_retype [OF ok e(1,2) this, simplified]
  have g': "grows s0 T0 s ?T" by (rule h(2) [OF g]) (use env w in auto)
  have "typed ?T e (with_frame # G)" using e by (simp add: typed_def)
  from eval_tail [OF h(1) g' this body dst_ok_grows [OF g' v]] show ?thesis .
qed

lemma ExprWith_safe:
  assumes ok: "heap_ok A {} s T" and ty: "typed T en G" and e: "fits G (ExprWith pos attrs body prevWith)" and v: "dst_ok s T v"
  shows "safe s T s (ExprWith_eval r attrs body prevWith en v) (yields A v)"
  unfolding ExprWith_eval_def
proof (rule allocEnv_step [OF ok grows_refl], rule setPrevWith_untyped, assumption, assumption)
  fix s1 s2
  let ?e = "length T" let ?T = "T @ [None]"
  assume 1: "length (stEnvs s) = length T" and s1: "s1 = s\<lparr>stEnvs := stEnvs s @ [\<lparr>envUp = Some en, envPrevWith = 0, envValues = replicate 1 None\<rparr>]\<rparr>"
    and 2: "heap_ok A {} s2 ?T" "grows s T s2 ?T" and s2: "s2 = s1\<lparr>stEnvs := (stEnvs s1)[?e := (stEnvs s1 ! ?e)\<lparr>envPrevWith := prevWith\<rparr>]\<rparr>"
  have en: "en < ?e" using ty by (simp add: typed_def)
  have env2: "stEnvs s2 ! ?e = \<lparr>envUp = Some en, envPrevWith = prev_with_loop G 1, envValues = [None]\<rparr>" "length (stEnvs s2) = Suc (length T)"
    using 1 e by (simp_all add: s2 s1 nth_append)
  have vals: "length (stValues s2) = length (stValues s)" by (simp add: s2 s1)
  show "safe s T s2 (bindS allocValue (\<lambda>w. bindS (setEnvValue ?e 0 w) (\<lambda>_. bindS (evalAttrs r en attrs w) (\<lambda>_. evEval r body ?e v)))) (yields A v)"
  proof (rule safe_step [OF allocValue_safe [OF 2(1)] 2(2)], elim conjE)
    fix w s3 T3
    assume 3: "grows s T s3 T3" "T3 = ?T" "s3 = s2\<lparr>stValues := stValues s2 @ [vUninit]\<rparr>" "w = length (stValues s2)" "heap_ok A {} s3 T3" "dst_ok s3 T3 w"
    have env3: "stEnvs s3 ! ?e = \<lparr>envUp = Some en, envPrevWith = prev_with_loop G 1, envValues = [None]\<rparr>" "length (stEnvs s3) = Suc (length T)"
      using env2 by (simp_all add: 3(3))
    show "safe s T s3 (bindS (setEnvValue ?e 0 w) (\<lambda>_. bindS (evalAttrs r en attrs w) (\<lambda>_. evEval r body ?e v))) (yields A v)"
    proof (rule setEnvValue_untyped [OF 3(5,1)])
      fix s4
      assume 4: "heap_ok A {} s4 T3" "grows s T s4 T3"
        and s4: "s4 = s3\<lparr>stEnvs := (stEnvs s3)[?e := (stEnvs s3 ! ?e)\<lparr>envValues := (envValues (stEnvs s3 ! ?e))[0 := Some w]\<rparr>]\<rparr>"
      have w4: "dst_ok s4 T3 w" using 3(6) env3 by (auto simp: dst_ok_def protected_def s4 3(2) nth_list_update nth_append split: if_splits)
      have env4: "stEnvs s4 ! ?e = \<lparr>envUp = Some en, envPrevWith = prev_with_loop G 1, envValues = [Some w]\<rparr>"
        using env3 by (simp add: s4)
      show "safe s T s4 (bindS (evalAttrs r en attrs w) (\<lambda>_. evEval r body ?e v)) (yields A v)"
      proof (rule safe_step [OF evalAttrs_safe [OF 4(1) grows_refl typed_grows [OF 4(2) ty] _ w4] 4(2)], use e in simp, elim conjE)
        fix b s5 T5
        assume 5: "grows s4 T3 s5 T5" "grows s T s5 T5" "heap_ok A {} s5 T5" "ref_ok s5 w" "stValues s5 ! w = vAttrs b"
        have "?e < length T5" "T5 ! ?e = None" "stEnvs s5 ! ?e = stEnvs s4 ! ?e"
          using 5(1) by (auto simp: grows_def 3(2) nth_append)
        with with_body_safe [OF 5(3,2), of ?e en G w b body v] env4 en typed_grows [OF 5(2) ty] 5 v e vals 3(4)
        show "safe s T s5 (evEval r body ?e v) (yields A v)" by simp
      qed
    qed (use env3 3(2) in \<open>simp_all add: nth_append\<close>)
  qed
qed simp_all

end

subsection \<open>Attribute sets\<close>

lemma grows_set_bindings:
  "grows s0 T0 s T \<Longrightarrow> length (stBindings s0) \<le> b \<Longrightarrow> grows s0 T0 (s\<lparr>stBindings := (stBindings s)[b := bs]\<rparr>) T"
  by (simp add: grows_def protected_def)

lemma pushAttr_step:
  assumes ok: "heap_ok A X s T" and g: "grows s0 T0 s T" "length (stBindings s0) \<le> b" and b: "b < length (stBindings s)"
    and x: "is_set (map fst (stBindings s ! b) @ [x])" and a: "ref_ok s a"
    and f: "\<And>s'. heap_ok A X s' T \<Longrightarrow> grows s0 T0 s' T \<Longrightarrow> s' = s\<lparr>stBindings := (stBindings s)[b := stBindings s ! b @ [(x, a)]]\<rparr> \<Longrightarrow> safe s0 T0 s' (f ()) R"
  shows "safe s0 T0 s (bindS (pushAttr b x a) f) R"
proof -
  have "is_set (map fst (stBindings s ! b @ [(x, a)]))" "\<And>i. i \<in> set (stBindings s ! b @ [(x, a)]) \<Longrightarrow> ref_ok s (snd i)"
    using x a heap_okD(5) [OF ok b] by auto
  note h = heap_ok_set_bindings(1) [OF ok this refl b]
  from f [OF h grows_set_bindings [OF g]] b show ?thesis
    by (simp add: safe_def bindS_def pushAttr_def getBindings_def setBindings_def)
qed

lemma is_set_snoc: "is_set (xs @ y # ys) \<Longrightarrow> is_set (xs @ [y])"
  by (auto simp: sorted_wrt_append)

lemma plain_attrs_safe:
  assumes "heap_ok A {} s T" and "grows s0 T0 s T" and b: "length (stBindings s0) \<le> b" and "b < length (stBindings s)"
    and "is_set (map fst (stBindings s ! b) @ map fst as)" and "typed T en G" and "\<forall>a \<in> set as. fits_attr G G (snd a)" and "ref_ok s v"
  shows "safe s0 T0 s (foldS (plain_attr en b) as) (yields A v)"
  using assms(1,2,4-)
proof (induction as arbitrary: s T)
  case Nil
  then show ?case by (auto simp: safe_def)
next
  case (Cons a as)
  obtain x d where a: "a = (x, d)" by fastforce
  have d: "fits_attr G G d" using Cons.prems(6) a by simp
  have val: "safe s T s (case d of Inherited var _ \<Rightarrow> bindS (lookupVar en var) deref | Defined x _ \<Rightarrow> maybeThunk en x)
    (\<lambda>p s' T'. heap_ok A {} s' T' \<and> ref_ok s' p \<and> T' = T \<and> stBindings s' = stBindings s)"
  proof (cases d)
    case (Inherited var n)
    then have "var_fits G var" using d by simp
    from lookupVar_deref_safe [OF Cons.prems(1,5) this] have "safe s T s (bindS (lookupVar en var) deref) (\<lambda>p s' T'. s' = s \<and> T' = T \<and> ref_ok s p)" by simp
    then show ?thesis unfolding Inherited AttrDef.case by (rule safe_conseq) (use Cons.prems(1) in auto)
  next
    case (Defined y n)
    then have "fits G y" using d by simp
    from maybeThunk_safe [OF Cons.prems(1,5) this] show ?thesis unfolding Defined AttrDef.case by (rule safe_conseq) auto
  qed
  have "safe s0 T0 s (bindS (plain_attr en b a) (\<lambda>_. foldS (plain_attr en b) as)) (yields A v)"
    unfolding a plain_attr_def [of en b "(x, d)"] prod.case
  proof (rule safe_assoc, rule safe_step [OF val Cons.prems(2)], elim conjE)
    fix p s1 T1
    assume 1: "grows s T s1 T1" "grows s0 T0 s1 T1" "heap_ok A {} s1 T1" "ref_ok s1 p" "stBindings s1 = stBindings s"
    have v1: "ref_ok s1 v" by (rule ref_ok_grows [OF 1(1) Cons.prems(7)])
    have set1: "is_set (map fst (stBindings s1 ! b) @ x # map fst as)" using Cons.prems(4) 1(5) a by simp
    show "safe s0 T0 s1 (bindS (pushAttr b x p) (\<lambda>_. foldS (plain_attr en b) as)) (yields A v)"
    proof (rule pushAttr_step [OF 1(3,2) b _ is_set_snoc [OF set1] 1(4)])
      show b1: "b < length (stBindings s1)" using Cons.prems(3) 1(5) by simp
      fix s2
      assume 2: "heap_ok A {} s2 T1" "grows s0 T0 s2 T1" and s2: "s2 = s1\<lparr>stBindings := (stBindings s1)[b := stBindings s1 ! b @ [(x, p)]]\<rparr>"
      show "safe s0 T0 s2 (foldS (plain_attr en b) as) (yields A v)"
        by (rule Cons.IH [OF 2]) (use b1 set1 v1 typed_grows [OF 1(1) Cons.prems(5)] Cons.prems(6) in \<open>simp_all add: s2 ref_ok_def\<close>)
    qed
  qed
  then show ?case by (rule foldS_Cons_safe)
qed

lemma rec_attrs_safe:
  assumes "filling A s T e ns G k" and "grows s0 T0 s T" and b: "length (stBindings s0) \<le> b" and "b < length (stBindings s)"
    and "is_set (map fst (stBindings s ! b) @ map fst as)" and "typed T en G" and en: "en < e"
    and "\<forall>a \<in> set as. fits_attr G (names_frame ns # G) (snd a)" and "k + length as = length ns" and "ref_ok s v"
  shows "safe s0 T0 s (foldS (rec_attr t en e b) (enumerate k as)) (\<lambda>_ s' T'. filling A s' T' e ns G (length ns) \<and> ref_ok s' v \<and>
    b < length (stBindings s') \<and> map fst (stBindings s' ! b) = map fst (stBindings s ! b) @ map fst as)"
  using assms(1,2,4-6,8-)
proof (induction as arbitrary: s k)
  case Nil
  then show ?case by (auto simp: safe_def)
next
  case (Cons a as)
  obtain x d where a: "a = (x, d)" by fastforce
  have d: "fits_attr G (names_frame ns # G) d" using Cons.prems(6) a by simp
  let ?Q = "\<lambda>_ s' T'. filling A s' T' e ns G (length ns) \<and> ref_ok s' v \<and>
    b < length (stBindings s') \<and> map fst (stBindings s' ! b) = map fst (stBindings s ! b) @ map fst (a # as)"
  have "safe s0 T0 s (bindS (rec_attr t en e b (k, a)) (\<lambda>_. foldS (rec_attr t en e b) (enumerate (Suc k) as))) ?Q"
    unfolding a rec_attr_def [of t en e b "(k, x, d)"] prod.case
  proof (rule safe_assoc, rule safe_step [OF attr_value_safe [OF Cons.prems(1,5) en d] Cons.prems(2)], rule safe_assoc, elim conjE)
    fix p s1 T1
    assume "T1 = T" "grows s T s1 T1" "grows s0 T0 s1 T1" "filling A s1 T1 e ns G k" and p: "ref_ok s1 p" and bs1: "stBindings s1 = stBindings s"
    then have 1: "grows s T s1 T" "grows s0 T0 s1 T" "filling A s1 T e ns G k" by simp_all
    show "safe s0 T0 s1 (bindS (setEnvValue e k p) (\<lambda>_. bindS (pushAttr b x p) (\<lambda>_. foldS (rec_attr t en e b) (enumerate (Suc k) as))))
      (\<lambda>_ s' T'. filling A s' T' e ns G (length ns) \<and> ref_ok s' v \<and>
        b < length (stBindings s') \<and> map fst (stBindings s' ! b) = map fst (stBindings s ! b) @ map fst ((x, d) # as))"
    proof (rule filling_step [OF 1(3,2) _ p])
      fix s2
      assume 2: "filling A s2 T e ns G (Suc k)" "grows s1 T s2 T" "grows s0 T0 s2 T" "stBindings s2 = stBindings s1"
      have set2: "is_set (map fst (stBindings s2 ! b) @ x # map fst as)" using Cons.prems(4) bs1 2(4) a by simp
      have b2: "b < length (stBindings s2)" using Cons.prems(3) bs1 2(4) by simp
      have v2: "ref_ok s2 v" using ref_ok_grows [OF 2(2) ref_ok_grows [OF 1(1) Cons.prems(8)]] .
      show "safe s0 T0 s2 (bindS (pushAttr b x p) (\<lambda>_. foldS (rec_attr t en e b) (enumerate (Suc k) as)))
        (\<lambda>_ s' T'. filling A s' T' e ns G (length ns) \<and> ref_ok s' v \<and>
          b < length (stBindings s') \<and> map fst (stBindings s' ! b) = map fst (stBindings s ! b) @ map fst ((x, d) # as))"
      proof (rule pushAttr_step [OF filling_heap [OF 2(1)] 2(3) b b2 is_set_snoc [OF set2] ref_ok_grows [OF 2(2) p]])
        fix s3
        assume 3: "heap_ok A {e} s3 T" "grows s0 T0 s3 T" and s3: "s3 = s2\<lparr>stBindings := (stBindings s2)[b := stBindings s2 ! b @ [(x, p)]]\<rparr>"
        have "filling A s3 T e ns G (Suc k)" using 3(1) 2(1) by (simp add: filling_def s3)
        from Cons.IH [OF this 3(2)] b2 set2 v2 Cons.prems(5-7)
        show "safe s0 T0 s3 (foldS (rec_attr t en e b) (enumerate (Suc k) as))
          (\<lambda>_ s' T'. filling A s' T' e ns G (length ns) \<and> ref_ok s' v \<and>
            b < length (stBindings s') \<and> map fst (stBindings s' ! b) = map fst (stBindings s ! b) @ map fst ((x, d) # as))"
          by (simp add: s3 ref_ok_def bs1 2(4))
      qed
    qed (use Cons.prems(7) in simp)
  qed
  then show ?case unfolding enumerate_simps by (rule foldS_Cons_safe)
qed

text \<open>
  \<^verbatim>\<open>__overrides\<close>.  While the overriding attributes are added, the set is not in order; \<open>u\<close> is the heap with
  the set as it was, and \<open>bs\<close> what the set is now.
\<close>

definition overridden :: "EvalState \<Rightarrow> Symbol list \<Rightarrow> Bindings \<Rightarrow> Bindings \<Rightarrow> bool" where
  "overridden u ns bs os \<longleftrightarrow> distinct (map fst bs) \<and> take (length ns) (map fst bs) = ns \<and> length ns \<le> length bs \<and>
     (\<forall>i \<in> set bs \<union> set os. ref_ok u (snd i)) \<and> distinct (map fst os) \<and>
     (\<forall>i \<in> set os. fst i \<in> set ns \<or> fst i \<notin> fst ` set bs)"

lemma attr_displ_index:
  assumes "number_attrs True as = as" and "map_of as x = Some d"
  shows "attr_displ d < length as \<and> map fst as ! attr_displ d = x"
proof -
  from map_of_SomeD [OF assms(2)] obtain i where i: "i < length as" "as ! i = (x, d)" by (auto simp: in_set_conv_nth)
  have "number_attrs True as ! i = (x, renumber True i d)"
    using i by (simp add: number_attrs_def nth_enumerate_eq)
  with assms(1) i have "d = renumber True i d" by simp
  then have "attr_displ d = i" by (cases d) (simp_all add: renumber_def)
  with i show ?thesis by simp
qed

lemma overridden_replace:
  assumes ov: "overridden u ns bs (i # os)" and n: "n < length ns" "ns ! n = fst i"
  shows "overridden u ns (bs[n := i]) os"
proof -
  have bs: "take (length ns) (map fst bs) = ns" "n < length bs" using ov n(1) by (simp_all add: overridden_def)
  have "fst (bs ! n) = take (length ns) (map fst bs) ! n" using bs(2) n(1) by simp
  then have "fst (bs ! n) = fst i" using bs(1) n(2) by simp
  then have keys: "map fst (bs[n := i]) = map fst bs" using bs(2) by (simp add: map_update list_update_same_conv)
  then have "fst ` set (bs[n := i]) = fst ` set bs" by (metis set_map)
  moreover have "ref_ok u (snd j)" if "j \<in> set (bs[n := i])" for j
    using set_update_subset_insert [of bs n i] that ov by (auto simp: overridden_def)
  ultimately show ?thesis using ov keys by (simp add: overridden_def) blast
qed

lemma overridden_push:
  assumes ov: "overridden u ns bs (i # os)" and i: "fst i \<notin> set ns"
  shows "overridden u ns (bs @ [i]) os"
proof -
  have "fst i \<notin> fst ` set bs" "fst i \<notin> fst ` set os" using ov i by (auto simp: overridden_def)
  moreover have "fst j \<noteq> fst i" if "j \<in> set os" for j using calculation(2) that by (metis image_eqI)
  ultimately show ?thesis using ov by (simp add: overridden_def)
qed

lemma Bindings_sort_is_set: "distinct (map fst bs) \<Longrightarrow> is_set (map fst (Bindings_sort bs))"
  by (simp add: Bindings_sort_def strict_sorted_iff distinct_map)

lemma safe_run: "m s = (Inr x, s') \<Longrightarrow> safe s0 T0 s' (f x) Q \<Longrightarrow> safe s0 T0 s (bindS m f) Q"
  by (simp add: safe_def bindS_def)

lemma override_attrs_safe:
  assumes "heap_ok A {} u T" and "grows s0 T0 u T" and b: "length (stBindings s0) \<le> b" and "b < length (stBindings u)"
    and e: "typed T e (names_frame (map fst as) # G)" and as: "is_set (map fst as)" "number_attrs True as = as"
    and "overridden u (map fst as) bs os" and "ref_ok u v"
  shows "safe s0 T0 (u\<lparr>stBindings := (stBindings u)[b := bs]\<rparr>)
    (bindS (foldS (override_attr as e b) os) (\<lambda>_. bindS (getBindings b) (\<lambda>bs. setBindings b (Bindings_sort bs)))) (yields A v)"
  using assms(1,2,4,8,9)
proof (induction os arbitrary: u bs)
  case Nil
  have bs: "distinct (map fst bs)" "\<And>i. i \<in> set (Bindings_sort bs) \<Longrightarrow> ref_ok u (snd i)"
    using Nil.prems(4) by (auto simp: overridden_def Bindings_sort_def)
  note h = heap_ok_set_bindings(1) [OF Nil.prems(1) Bindings_sort_is_set [OF bs(1)] bs(2) refl Nil.prems(3)]
  from h grows_set_bindings [OF Nil.prems(2) b] Nil.prems(3,5) show ?case
    by (auto simp: safe_def bindS_def getBindings_def setBindings_def ref_ok_def)
next
  case (Cons i os)
  let ?rest = "\<lambda>_. bindS (foldS (override_attr as e b) os) (\<lambda>_. bindS (getBindings b) (\<lambda>bs. setBindings b (Bindings_sort bs)))"
  let ?s = "u\<lparr>stBindings := (stBindings u)[b := bs]\<rparr>"
  have "safe s0 T0 ?s (bindS (override_attr as e b i) ?rest) (yields A v)"
  proof (cases "map_of as (fst i)")
    case None
    then have "fst i \<notin> set (map fst as)" by (simp add: map_of_eq_None_iff)
    note ov = overridden_push [OF Cons.prems(4) this]
    have "override_attr as e b i ?s = (Inr (), u\<lparr>stBindings := (stBindings u)[b := bs @ [i]]\<rparr>)"
      using None Cons.prems(3) by (simp add: bindS_def override_attr_def pushAttr_def getBindings_def setBindings_def)
    then show ?thesis by (rule safe_run) (rule Cons.IH [OF Cons.prems(1-3) ov Cons.prems(5)])
  next
    case (Some d)
    let ?n = "attr_displ d"
    from attr_displ_index [OF as(2) Some] have n: "?n < length (map fst as)" "map fst as ! ?n = fst i" by simp_all
    have nb: "?n < length bs" using n(1) Cons.prems(4) by (simp add: overridden_def)
    have en: "e < length (stEnvs u)" "env_ok True u T e" using typed_env [OF Cons.prems(1) e] by simp_all
    have T: "T ! e = Some (names_frame (map fst as) # G)" using e by (simp add: typed_def)
    have "map_of (number_vars (map fst as)) (fst i) = Some ?n" using number_vars_nth [OF is_set_distinct [OF as(1)] n(1)] n(2) by simp
    with en(2) env_ok_names [OF T] have ne: "?n < length (envValues (stEnvs u ! e))" by blast
    have a: "ref_ok u (snd i)" using Cons.prems(4) by (simp add: overridden_def)
    let ?u = "u\<lparr>stEnvs := (stEnvs u)[e := (stEnvs u ! e)\<lparr>envValues := (envValues (stEnvs u ! e))[?n := Some (snd i)]\<rparr>]\<rparr>"
    note h = heap_ok_set_slot [OF Cons.prems(1) e a refl, of ?n]
    have ov: "overridden ?u (map fst as) (bs[?n := i]) os"
      using overridden_replace [OF Cons.prems(4) n] by (simp add: overridden_def ref_ok_def)
    have "safe s0 T0 (?u\<lparr>stBindings := (stBindings ?u)[b := bs[?n := i]]\<rparr>) (?rest ()) (yields A v)"
      by (rule Cons.IH [OF h(1) grows_trans [OF Cons.prems(2) h(2)] _ ov]) (use Cons.prems(3,5) in \<open>simp_all add: ref_ok_def\<close>)
    moreover have "override_attr as e b i ?s = (Inr (), ?u\<lparr>stBindings := (stBindings ?u)[b := bs[?n := i]]\<rparr>)"
      using Some nb ne en(1) Cons.prems(3) by (simp add: bindS_def override_attr_def getBindings_def setBindings_def setEnvValue_def)
    ultimately show ?thesis by (rule safe_run [rotated])
  qed
  then show ?case unfolding foldS_Cons by (rule safe_assoc)
qed

context safe_evaluator
begin

lemma overrides_safe:
  assumes ok: "heap_ok A {} s T" and g: "grows s0 T0 s T" and b: "length (stBindings s0) \<le> b" "b < length (stBindings s)"
    and e: "typed T e (names_frame (map fst as) # G)" and as: "is_set (map fst as)" "number_attrs True as = as"
    and bs: "map fst (stBindings s ! b) = map fst as" and n: "n < length as" and v: "ref_ok s v"
  shows "safe s0 T0 s (overrides c r as n e b) (yields A v)"
proof -
  have len: "length (stBindings s ! b) = length as" using bs by (metis length_map)
  have a: "ref_ok s (snd (stBindings s ! b ! n))" by (rule heap_okD(5) [OF ok b(2)]) (simp add: len n)
  have "safe s0 T0 s (bindS (forceAttrs r (snd (stBindings s ! b ! n))) (\<lambda>ov. bindS (getBindings ov) (\<lambda>os.
     bindS (foldS (override_attr as e b) os) (\<lambda>_. bindS (getBindings b) (\<lambda>bs. setBindings b (Bindings_sort bs)))))) (yields A v)"
  proof (rule safe_step [OF forceAttrs_safe [OF ok grows_refl a] g], elim conjE)
    fix ov s1 T1
    assume 1: "grows s T s1 T1" "grows s0 T0 s1 T1" "heap_ok A {} s1 T1" "ov < length (stBindings s1)"
    have b1: "b < length (stBindings s1)" "stBindings s1 ! b = stBindings s ! b" using bindings_grows [OF 1(1) b(2)] by simp_all
    have same: "s1\<lparr>stBindings := (stBindings s1)[b := stBindings s ! b]\<rparr> = s1" using b1(2) by (metis EvalState.surjective EvalState.update_convs(3) list_update_id)
    have "overridden s1 (map fst as) (stBindings s ! b) (stBindings s1 ! ov)"
      using heap_okD(5) [OF 1(3) b1(1)] heap_okD(5) [OF 1(3,4)] is_set_distinct [OF heap_okD(4) [OF 1(3,4)]] is_set_distinct [OF as(1)] bs b1(2) len
      unfolding overridden_def by (metis Un_iff length_map list.set_map order_refl take_all)
    from override_attrs_safe [OF 1(3,2) b(1) b1(1) typed_grows [OF 1(1) e] as this ref_ok_grows [OF 1(1) v]]
    show "safe s0 T0 s1 (bindS (getBindings ov) (\<lambda>os. bindS (foldS (override_attr as e b) os) (\<lambda>_.
       bindS (getBindings b) (\<lambda>bs. setBindings b (Bindings_sort bs))))) (yields A v)"
      using 1(4) by (simp add: same)
  qed
  then show ?thesis unfolding overrides_def using b(2) n len by simp
qed

lemma ExprAttrs_safe:
  assumes ok: "heap_ok A {} s T" and ty: "typed T en G" and e: "fits G (ExprAttrs recursive as)" and v: "dst_ok s T v"
  shows "safe s T s (ExprAttrs_eval c r recursive as en v) (yields A v)"
  unfolding ExprAttrs_eval_def
proof (rule safe_step [OF mkAttrs_tail [OF ok grows_refl v] grows_refl], simp, simp, elim conjE)
  fix b s1 T1
  assume 1: "grows s T s1 T1" "heap_ok A {} s1 T1" "ref_ok s1 v" "b = length (stBindings s)" "stBindings s1 = stBindings s @ [[]]"
  have b1: "length (stBindings s) \<le> b" "b < length (stBindings s1)" "stBindings s1 ! b = []" using 1(4,5) by simp_all
  have ty1: "typed T1 en G" by (rule typed_grows [OF 1(1) ty])
  show "safe s T s1 (if recursive then
         bindS (allocEnv (length as) en) (\<lambda>env2.
         bindS (foldS (rec_attr (map_of as (sOverrides c) \<noteq> None) en env2 b) (enumerate 0 as)) (\<lambda>_.
           case map_of as (sOverrides c) of
             None \<Rightarrow> retS ()
           | Some def \<Rightarrow> overrides c r as (attr_displ def) env2 b))
       else foldS (plain_attr en b) as) (yields A v)"
  proof (cases recursive)
    case False
    with plain_attrs_safe [OF 1(2,1) b1(1,2) _ ty1, of as v] 1(3) b1(3) e show ?thesis by simp
  next
    case True
    let ?ns = "map fst as"
    from e True have as: "is_set ?ns" "\<forall>a \<in> set as. fits_attr G (names_frame ?ns # G) (snd a)" "number_attrs True as = as" by simp_all
    have "safe s T s1 (bindS (allocEnv (length ?ns) en) (\<lambda>env2.
         bindS (foldS (rec_attr (map_of as (sOverrides c) \<noteq> None) en env2 b) (enumerate 0 as)) (\<lambda>_.
           case map_of as (sOverrides c) of
             None \<Rightarrow> retS ()
           | Some def \<Rightarrow> overrides c r as (attr_displ def) env2 b))) (yields A v)"
    proof (rule new_scope_step [OF 1(2,1) ty1])
      fix s2
      let ?e = "length T1" let ?T = "T1 @ [Some (names_frame ?ns # G)]"
      assume 2: "filling A s2 ?T ?e ?ns G 0" "grows s1 T1 s2 ?T" "grows s T s2 ?T" "typed ?T en G" "en < ?e" "stBindings s2 = stBindings s1"
      have "safe s T s2 (foldS (rec_attr (map_of as (sOverrides c) \<noteq> None) en ?e b) (enumerate 0 as)) (\<lambda>_ s' T'. filling A s' T' ?e ?ns G (length ?ns) \<and> ref_ok s' v \<and>
          b < length (stBindings s') \<and> map fst (stBindings s' ! b) = map fst (stBindings s2 ! b) @ map fst as)"
        by (rule rec_attrs_safe [OF 2(1,3) b1(1) _ _ 2(4,5)]) (use b1 2(6) as ref_ok_grows [OF 2(2) 1(3)] in simp_all)
      then show "safe s T s2 (bindS (foldS (rec_attr (map_of as (sOverrides c) \<noteq> None) en ?e b) (enumerate 0 as)) (\<lambda>_.
           case map_of as (sOverrides c) of
             None \<Rightarrow> retS ()
           | Some def \<Rightarrow> overrides c r as (attr_displ def) ?e b)) (yields A v)"
      proof (rule safe_bind, elim conjE)
        fix s3 T3
        assume 3: "grows s T s3 T3" "filling A s3 T3 ?e ?ns G (length ?ns)" "ref_ok s3 v" "b < length (stBindings s3)"
          "map fst (stBindings s3 ! b) = map fst (stBindings s2 ! b) @ map fst as"
        note ok3 = filling_complete [OF 3(2)]
        show "safe s T s3 (case map_of as (sOverrides c) of
             None \<Rightarrow> retS ()
           | Some def \<Rightarrow> overrides c r as (attr_displ def) ?e b) (yields A v)"
        proof (cases "map_of as (sOverrides c)")
          case None
          with ok3 3 show ?thesis by (auto intro!: safe_ret)
        next
          case (Some d)
          from attr_displ_index [OF as(3) Some] overrides_safe [OF ok3 3(1) b1(1) 3(4) filling_typed [OF 3(2)] as(1,3) _ _ 3(3)] Some 3(5) b1(3) 2(6)
          show ?thesis by simp
        qed
      qed
    qed
    with True show ?thesis by simp
  qed
qed

end

subsection \<open>Calls\<close>

lemma primop_chain_safe:
  assumes "heap_ok A {} s T" and "a < length (stValues s)" and "is_prim (stValues s ! a)"
  shows "safe s T s (primop_chain n a) (\<lambda>(as, name, arity) s' T'. s' = s \<and> T' = T \<and> A name arity \<and> (\<forall>x \<in> set as. ref_ok s x))"
  using assms(2,3)
proof (induction n arbitrary: a)
  case (Suc n)
  note ok = heap_okD(2) [OF assms(1) Suc.prems(1)]
  show ?case
  proof (cases "stValues s ! a")
    case (vPrimOp name arity)
    with ok Suc.prems(1) show ?thesis by (auto intro!: safe_ret [of s T s T])
  next
    case (vPrimOpApp l x)
    with ok have l: "l < length (stValues s)" "is_prim (stValues s ! l)" "ref_ok s x" by auto
    have "safe s T s (bindS (primop_chain n l) (\<lambda>(args, name, arity). retS (args @ [x], name, arity)))
      (\<lambda>(as, name, arity) s' T'. s' = s \<and> T' = T \<and> A name arity \<and> (\<forall>x \<in> set as. ref_ok s x))"
      by (rule safe_bind [OF Suc.IH [OF l(1,2)]]) (use l(3) in \<open>auto intro!: safe_ret [of s T s T]\<close>)
    with vPrimOpApp Suc.prems(1) show ?thesis by simp
  qed (use Suc.prems in auto)
qed simp

text \<open>A partial application: the function moves into a value of its own.\<close>

lemma partial_app_safe:
  assumes ok: "heap_ok A {} s T" and f: "f < length (stValues s)" "is_prim (stValues s ! f)" and arg: "ref_ok s arg" and v: "dst_ok s T v"
  shows "safe s T s (bindS (getValue f) (\<lambda>fv. bindS (allocWith fv) (\<lambda>left. setValue v (vPrimOpApp left arg)))) (yields A v)"
proof -
  let ?fv = "stValues s ! f"
  have fv: "value_ok A s T ?fv" "?fv \<noteq> vUninit" using heap_okD(2) [OF ok f(1)] f(2) by auto
  have app: "protected s T l" if "?fv = vPrimOpApp l x" for l x using that f(1) by (auto simp: protected_def)
  let ?s = "s\<lparr>stValues := stValues s @ [?fv]\<rparr>" let ?l = "length (stValues s)"
  have h: "heap_ok A {} ?s T" "grows s T ?s T" by (rule heap_ok_alloc [OF ok fv(1) refl], rule app, assumption)+
  have v': "dst_ok ?s T v" by (rule dst_ok_grows [OF h(2) v])
  have val: "value_ok A ?s T (vPrimOpApp ?l arg)" using f(2) ref_ok_grows [OF h(2) arg] by simp
  have ne: "\<And>l x. vPrimOpApp ?l arg = vPrimOpApp l x \<Longrightarrow> l \<noteq> v" using v by (auto simp: dst_ok_def)
  let ?s' = "?s\<lparr>stValues := (stValues ?s)[v := vPrimOpApp ?l arg]\<rparr>"
  have "heap_ok A {} ?s' T" by (rule heap_ok_set(1) [OF h(1) v' val _ refl ne]) simp_all
  moreover have "ref_ok ?s' v" by (rule heap_ok_set(2) [OF h(1) v' val _ refl ne]) simp_all
  moreover have "grows s T ?s' T" by (rule heap_ok_set(4) [OF h(1) v' val _ refl ne h(2)]) simp_all
  ultimately show ?thesis using f(1) v' by (auto simp: safe_def bindS_def getValue_def allocWith_def setValue_def dst_ok_def)
qed

text \<open>What a primitive operation has to promise, given an evaluator that does.\<close>

definition prims_safe :: "(Symbol \<Rightarrow> nat \<Rightarrow> bool) \<Rightarrow> eval_config \<Rightarrow> bool" where
  "prims_safe A c \<longleftrightarrow> (\<forall>r s T name as v. safe_evaluator A r \<longrightarrow> heap_ok A {} s T \<longrightarrow> A name (length as) \<longrightarrow>
     (\<forall>a \<in> set as. ref_ok s a) \<longrightarrow> dst_ok s T v \<longrightarrow> safe s T s (primOpFun c r name as v) (yields A v))"

text \<open>Copying a file into the store may fail, but in no way that is not an error.\<close>

definition copying_safe :: "eval_config \<Rightarrow> bool" where
  "copying_safe c \<longleftrightarrow> (\<forall>p e. copyToStore c p = Inl e \<longrightarrow> good_error e)"

lemma not_protected:
  assumes "heap_ok A X s T" and "ref_ok s a" and "\<And>b. stValues s ! a \<noteq> vAttrs b" and "\<not> is_prim (stValues s ! a)"
  shows "dst_ok s T a"
  using assms protected_cases [OF assms(1)] by (auto simp: dst_ok_def ref_ok_def)

context safe_evaluator
begin

lemma call_primop_safe:
  assumes ok: "heap_ok A {} s T" and f: "ref_ok s f" "is_prim (stValues s ! f)" and arg: "ref_ok s arg" and v: "dst_ok s T v" and prims: "prims_safe A c"
  shows "safe s T s (call_primop c r f arg v) (yields A v)"
proof -
  have f': "f < length (stValues s)" using f(1) by (simp add: ref_ok_def)
  have "safe s T s (bindS (primop_chain (Suc (length (stValues s))) f) (\<lambda>(args, name, arity).
       if arity - length args = 1 then primOpFun c r name (args @ [arg]) v
       else bindS (getValue f) (\<lambda>fv. bindS (allocWith fv) (\<lambda>left. setValue v (vPrimOpApp left arg))))) (yields A v)"
  proof (rule safe_bind [OF primop_chain_safe [OF ok f' f(2)]])
    fix x s' T'
    assume x: "(case x of (as, name, arity) \<Rightarrow> \<lambda>s' T'. s' = s \<and> T' = T \<and> A name arity \<and> (\<forall>x \<in> set as. ref_ok s x)) s' T'"
    obtain args name arity where xs: "x = (args, name, arity)" by (cases x) blast
    with x have a: "A name arity" "\<forall>x \<in> set args. ref_ok s x" "s' = s" by simp_all
    have "safe s T s (primOpFun c r name (args @ [arg]) v) (yields A v)" if "arity - length args = 1"
    proof -
      have "arity = length (args @ [arg])" using that by simp
      with prims safe_evaluator_axioms ok a(1,2) arg v show ?thesis unfolding prims_safe_def by simp
    qed
    with partial_app_safe [OF ok f' f(2) arg v]
    show "safe s T s' (case x of (args, name, arity) \<Rightarrow> if arity - length args = 1 then primOpFun c r name (args @ [arg]) v
       else bindS (getValue f) (\<lambda>fv. bindS (allocWith fv) (\<lambda>left. setValue v (vPrimOpApp left arg)))) (yields A v)"
      by (simp add: xs a(3))
  qed
  then show ?thesis by (simp add: call_primop_def safe_def bindS_def)
qed

lemma callFunction_safe:
  assumes ok: "heap_ok A {} s T" and f: "ref_ok s f" and arg: "ref_ok s arg" and v: "dst_ok s T v" and prims: "prims_safe A c"
  shows "safe s T s (callFunction c r f arg v) (yields A v)"
  unfolding callFunction_def
  by (rule safe_getValue_ref [OF ok f])
    (use call_primop_safe [OF ok f _ arg v prims] call_lambda_safe [OF ok grows_refl _ _ arg v] in \<open>auto split: Value.split\<close>)

lemma forceValue_safe:
  assumes ok: "heap_ok A {} s T" and a: "ref_ok s a"
  shows "safe s T s (forceValue r a) (keeps A)"
  unfolding forceValue_def
proof (rule safe_getValue_ref [OF ok a])
  assume val: "value_ok A s T (stValues s ! a)"
  have thunk: "safe s T s (bindS (setValue a (vBlackhole en e)) (\<lambda>_ s. case evEval r e en a s of
           (Inr x, s) \<Rightarrow> (Inr x, s)
         | (Inl err, s) \<Rightarrow> if isError err
             then (Inl err, s\<lparr>stValues := (stValues s)[a := restore_thunk (stValues s ! a)]\<rparr>)
             else (Inl err, s))) (keeps A)" if t: "stValues s ! a = vThunk en e" for en e
  proof -
    from val t obtain G where G: "typed T en G" "fits G e" by auto
    have "dst_ok s T a" by (rule not_protected [OF ok a]) (simp_all add: t)
    then have "safe s T s (setValue a (vBlackhole en e)) (\<lambda>_ s' T'. T' = T \<and> s' = s\<lparr>stValues := (stValues s)[a := vBlackhole en e]\<rparr> \<and>
        heap_ok A {} s' T' \<and> ref_ok s' a \<and> dst_ok s' T' a)" by (rule setValue_safe [OF ok]) (use G in auto)
    then show ?thesis
    proof (rule safe_step [OF _ grows_refl], elim conjE)
      fix s1 T1
      assume 1: "grows s T s1 T1" "heap_ok A {} s1 T1" "dst_ok s1 T1 a"
      from eval_tail [OF 1(2,1) typed_grows [OF 1(1) G(1)] G(2) 1(3)]
      show "safe s T s1 (\<lambda>s. case evEval r e en a s of
           (Inr x, s) \<Rightarrow> (Inr x, s)
         | (Inl err, s) \<Rightarrow> if isError err
             then (Inl err, s\<lparr>stValues := (stValues s)[a := restore_thunk (stValues s ! a)]\<rparr>)
             else (Inl err, s)) (keeps A)"
        by (auto simp: safe_def split: prod.splits sum.splits)
    qed
  qed
  have app: "safe s T s (evCall r l x a) (keeps A)" if t: "stValues s ! a = vApp l x" for l x
    by (rule safe_conseq [OF call [OF ok _ _ not_protected [OF ok a]]]) (use val t in auto)
  show "safe s T s (case stValues s ! a of
       vThunk en e \<Rightarrow>
         bindS (setValue a (vBlackhole en e)) (\<lambda>_ s. case evEval r e en a s of
           (Inr x, s) \<Rightarrow> (Inr x, s)
         | (Inl err, s) \<Rightarrow> if isError err
             then (Inl err, s\<lparr>stValues := (stValues s)[a := restore_thunk (stValues s ! a)]\<rparr>)
             else (Inl err, s))
     | vApp left right \<Rightarrow> evCall r left right a
     | vBlackhole _ _ \<Rightarrow> throwS (EvalError ''infinite recursion encountered'')
     | vClobbered \<Rightarrow> throwS (Undefined ''thunk whose fields have been overwritten'')
     | _ \<Rightarrow> retS ()) (keeps A)"
    using thunk app val keeps_ret [OF ok grows_refl] by (cases "stValues s ! a") simp_all
qed

end

subsection \<open>Deep forcing, strings and comparison\<close>

lemma canonPath_plain: "canonPath link p False = Inl e \<Longrightarrow> good_error e"
  using canonPath_loop_plain [of "[]" link p p 0] by (auto simp: canonPath_def good_error_def split: if_splits)

context safe_evaluator
begin

lemma strictForceValue_safe:
  assumes ok: "heap_ok A {} s T" and a: "ref_ok s a"
  shows "safe s T s (strictForceValue r a) (keeps A)"
  unfolding strictForceValue_def
proof (rule force_typed_step [OF ok grows_refl a])
  fix v s1 T1
  assume 1: "grows s T s1 T1" "heap_ok A {} s1 T1" "value_ok A s1 T1 v"
  have each: "safe s2 T2 s2 (evStrict r x) (keeps A)" if "heap_ok A {} s2 T2" "ref_ok s2 x" for s2 T2 x by (rule strict [OF that])
  have attrs: "safe s T s1 (foldS (\<lambda>i. evStrict r (snd i)) (stBindings s1 ! b)) (keeps A)" if "b < length (stBindings s1)" for b
    by (rule safe_foldS [OF 1(2,1), where P = "\<lambda>i s T. ref_ok s (snd i)"]) (use heap_okD(5) [OF 1(2) that] each ref_ok_grows in auto)
  have list: "safe s T s1 (foldS (evStrict r) xs) (keeps A)" if "\<forall>x \<in> set xs. ref_ok s1 x" for xs
    by (rule safe_foldS [OF 1(2,1), where P = "\<lambda>x s T. ref_ok s x"]) (use that each ref_ok_grows in auto)
  show "safe s T s1 (case v of
       vAttrs b \<Rightarrow> bindS (getBindings b) (\<lambda>bs. foldS (\<lambda>i. evStrict r (snd i)) bs)
     | vList as \<Rightarrow> foldS (evStrict r) as
     | _ \<Rightarrow> retS ()) (keeps A)"
    using attrs list 1(3) keeps_ret [OF 1(2,1)] by (cases v) simp_all
qed

lemma copyPathToStore_safe:
  assumes ok: "heap_ok A {} s T" and "grows s0 T0 s T" and c: "copying_safe c"
  shows "safe s0 T0 s (copyPathToStore c p) (keeps A)"
proof -
  have "heap_ok A {} (s\<lparr>stSrcToStore := m\<rparr>) T" "grows s0 T0 (s\<lparr>stSrcToStore := m\<rparr>) T" for m
    using ok assms(2) same_heap(4,6) [of "s\<lparr>stSrcToStore := m\<rparr>" s] by simp_all
  then have "\<exists>T'. grows s0 T0 (s\<lparr>stSrcToStore := m\<rparr>) T' \<and> heap_ok A {} (s\<lparr>stSrcToStore := m\<rparr>) T'" for m by blast
  with ok assms(2) c show ?thesis
    by (auto simp: safe_def copyPathToStore_def throwS_def copying_safe_def Let_def split: sum.split)
qed

lemma coerce_list_safe:
  assumes "heap_ok A {} s T" and "grows s0 T0 s T" and "\<forall>a \<in> set as. ref_ok s a"
  shows "safe s0 T0 s (coerce_list r cm copy as ctx) (keeps A)"
  using assms
proof (induction as arbitrary: s T s0 T0 ctx)
  case Nil
  then show ?case by (auto intro: keeps_ret)
next
  case (Cons a as)
  have a: "ref_ok s a" using Cons.prems(3) by simp
  show ?case
    unfolding coerce_list.simps
  proof (rule safe_step [OF coerce [OF Cons.prems(1) a] Cons.prems(2)])
    fix x s1 T1
    assume 1: "grows s T s1 T1" "grows s0 T0 s1 T1" "heap_ok A {} s1 T1"
    have refs: "ref_ok s1 a" "\<forall>a \<in> set as. ref_ok s1 a" using Cons.prems(3) ref_ok_grows [OF 1(1)] by auto
    have rest: "safe s1 T1 s1 (coerce_list r cm copy as ctx) (keeps A)" for ctx by (rule Cons.IH [OF 1(3) grows_refl refs(2)])
    show "safe s0 T0 s1 (case x of (s, ctx) \<Rightarrow> bindS (getValue a) (\<lambda>v. bindS (coerce_list r cm copy as ctx) (\<lambda>(s', ctx).
       retS (s @ (if as \<noteq> [] \<and> v \<noteq> vList [] then '' '' else []) @ s', ctx)))) (keeps A)"
      by (cases x, simp only: prod.case, rule safe_getValue_ref [OF 1(3) refs(1)], rule safe_step [OF rest 1(2)])
        (auto intro!: keeps_ret split: prod.split)
  qed
qed

lemma coerceToString_safe:
  assumes ok: "heap_ok A {} s T" and a: "ref_ok s a" and c: "copying_safe c"
  shows "safe s T s (coerceToString c r a ctx cm copy) (keeps A)"
  unfolding coerceToString_def
proof (rule force_typed_step [OF ok grows_refl a])
  fix v s1 T1
  assume 1: "grows s T s1 T1" "heap_ok A {} s1 T1" "value_ok A s1 T1 v"
  note ret = keeps_ret [OF 1(2,1)]
  have path: "safe s T s1 (\<lambda>st. case canonPath (\<lambda>_. Inr None) p False of
         Inl e \<Rightarrow> (Inl e, st)
       | Inr p \<Rightarrow> (if \<not> copy then retS (p, ctx)
                  else bindS (copyPathToStore c p) (\<lambda>dst. retS (dst, set_insert dst ctx))) st) (keeps A)" for p
  proof (cases "canonPath (\<lambda>_. Inr None) p False")
    case (Inl e)
    then show ?thesis using canonPath_plain [OF Inl] by (simp add: safe_def)
  next
    case (Inr q)
    have "safe s T s1 (bindS (copyPathToStore c q) (\<lambda>dst. retS (dst, set_insert dst ctx))) (keeps A)"
      by (rule safe_step [OF copyPathToStore_safe [OF 1(2) grows_refl c] 1(1)]) (auto intro: keeps_ret)
    with ret [of "(q, ctx)"] Inr show ?thesis by (cases copy) (simp_all add: safe_def)
  qed
  have attrs: "safe s T s1 (bindS (getBindings b) (\<lambda>bs. case Bindings_find bs (sOutPath c) of
         None \<Rightarrow> throwS (TypeError ''cannot coerce an attribute set (except a derivation) to a string'')
       | Some i \<Rightarrow> evCoerce r i ctx cm copy)) (keeps A)" if "b < length (stBindings s1)" for b
    using that Bindings_find_ref [OF 1(2) that] safe_tail [OF coerce [OF 1(2)] 1(1)] by (auto split: option.split)
  show "safe s T s1 (case v of
       vString s ctx' \<Rightarrow> retS (s, copyContext ctx' ctx)
     | vPath p \<Rightarrow> (\<lambda>st. case canonPath (\<lambda>_. Inr None) p False of
         Inl e \<Rightarrow> (Inl e, st)
       | Inr p \<Rightarrow> (if \<not> copy then retS (p, ctx)
                  else bindS (copyPathToStore c p) (\<lambda>dst. retS (dst, set_insert dst ctx))) st)
     | vAttrs b \<Rightarrow> bindS (getBindings b) (\<lambda>bs. case Bindings_find bs (sOutPath c) of
         None \<Rightarrow> throwS (TypeError ''cannot coerce an attribute set (except a derivation) to a string'')
       | Some i \<Rightarrow> evCoerce r i ctx cm copy)
     | _ \<Rightarrow>
       if cm then (case v of
           vBool b \<Rightarrow> retS (if b then ''1'' else [], ctx)
         | vInt n \<Rightarrow> retS (int2String n, ctx)
         | vNull \<Rightarrow> retS ([], ctx)
         | vList as \<Rightarrow> coerce_list r cm copy as ctx
         | _ \<Rightarrow> throwS (TypeError (''cannot coerce '' @ showType v @ '' to a string'')))
       else throwS (TypeError (''cannot coerce '' @ showType v @ '' to a string''))) (keeps A)"
    using path attrs coerce_list_safe [OF 1(2,1)] 1(3) by (cases v) (auto intro!: ret)
qed

lemma isDerivationValue_safe:
  assumes ok: "heap_ok A {} s T" and g: "grows s0 T0 s T" and a: "ref_ok s a"
  shows "safe s0 T0 s (isDerivationValue c r a) (keeps A)"
  unfolding isDerivationValue_def
proof (rule safe_getValue_ref [OF ok a])
  assume val: "value_ok A s T (stValues s ! a)"
  have find: "safe s0 T0 s (bindS (evForce r i) (\<lambda>_. bindS (getValue i) (\<lambda>t. case t of
           vString _ _ \<Rightarrow> bindS (forceStringNoCtx r i) (\<lambda>s. retS (s = ''derivation''))
         | _ \<Rightarrow> retS False))) (keeps A)" if "ref_ok s i" for i
  proof (rule force_typed_step [OF ok g that])
    fix v s1 T1
    assume 1: "grows s0 T0 s1 T1" "heap_ok A {} s1 T1" "ref_ok s1 i"
    have "safe s0 T0 s1 (bindS (forceStringNoCtx r i) (\<lambda>s. retS (s = ''derivation''))) (keeps A)"
      by (rule safe_step [OF forceStringNoCtx_safe [OF 1(2) grows_refl 1(3)] 1(1)]) (auto intro: keeps_ret)
    then show "safe s0 T0 s1 (case v of
           vString _ _ \<Rightarrow> bindS (forceStringNoCtx r i) (\<lambda>s. retS (s = ''derivation''))
         | _ \<Rightarrow> retS False) (keeps A)"
      using keeps_ret [OF 1(2,1), of False] by (cases v) simp_all
  qed
  show "safe s0 T0 s (case stValues s ! a of
       vAttrs b \<Rightarrow> bindS (getBindings b) (\<lambda>bs. case Bindings_find bs (sType c) of
         None \<Rightarrow> retS False
       | Some i \<Rightarrow> bindS (evForce r i) (\<lambda>_. bindS (getValue i) (\<lambda>t. case t of
           vString _ _ \<Rightarrow> bindS (forceStringNoCtx r i) (\<lambda>s. retS (s = ''derivation''))
         | _ \<Rightarrow> retS False)))
     | _ \<Rightarrow> retS False) (keeps A)"
    using keeps_ret [OF ok g, of False] val Bindings_find_ref [OF ok] find
    by (cases "stValues s ! a") (auto split: option.split)
qed

lemma eq_all_safe:
  assumes "heap_ok A {} s T" and "grows s0 T0 s T" and "\<forall>p \<in> set ps. ref_ok s (fst p) \<and> ref_ok s (snd p)"
  shows "safe s0 T0 s (eq_all r ps) (keeps A)"
  using assms
proof (induction ps arbitrary: s T)
  case Nil
  then show ?case by (auto intro: keeps_ret)
next
  case (Cons p ps)
  show ?case
    unfolding eq_all.simps
  proof (rule safe_step [OF eqv [OF Cons.prems(1)] Cons.prems(2)])
    fix b s1 T1
    assume 1: "grows s T s1 T1" "grows s0 T0 s1 T1" "heap_ok A {} s1 T1"
    have "\<forall>p \<in> set ps. ref_ok s1 (fst p) \<and> ref_ok s1 (snd p)" using Cons.prems(3) ref_ok_grows [OF 1(1)] by simp
    from Cons.IH [OF 1(3,2) this] keeps_ret [OF 1(3,2), of False] show "safe s0 T0 s1 (if b then eq_all r ps else retS False) (keeps A)" by simp
  qed (use Cons.prems(3) in simp_all)
qed

lemma eq_attrs_safe:
  assumes "heap_ok A {} s T" and "grows s0 T0 s T" and "length is = length js" and "\<forall>i \<in> set is \<union> set js. ref_ok s (snd i)"
  shows "safe s0 T0 s (eq_attrs r is js) (keeps A)"
  using assms
proof (induction "is" arbitrary: js s T)
  case Nil
  then show ?case by (auto intro: keeps_ret)
next
  case (Cons i "is")
  from Cons.prems(3) obtain j js' where js: "js = j # js'" by (cases js) auto
  have "safe s0 T0 s (bindS (evEq r (snd i) (snd j)) (\<lambda>b. if b then eq_attrs r is js' else retS False)) (keeps A)"
  proof (rule safe_step [OF eqv [OF Cons.prems(1)] Cons.prems(2)])
    fix b s1 T1
    assume 1: "grows s T s1 T1" "grows s0 T0 s1 T1" "heap_ok A {} s1 T1"
    have "\<forall>i \<in> set is \<union> set js'. ref_ok s1 (snd i)" using Cons.prems(4) ref_ok_grows [OF 1(1)] js by simp
    from Cons.IH [OF 1(3,2) _ this] Cons.prems(3) js keeps_ret [OF 1(3,2), of False]
    show "safe s0 T0 s1 (if b then eq_attrs r is js' else retS False) (keeps A)" by simp
  qed (use Cons.prems(4) js in simp_all)
  with keeps_ret [OF Cons.prems(1,2), of False] js show ?case by simp
qed

end

context safe_evaluator
begin

lemma eqAttrs_safe:
  assumes ok: "heap_ok A {} s T" and g: "grows s0 T0 s T" and a: "ref_ok s a1" "ref_ok s a2" and b: "b1 < length (stBindings s)" "b2 < length (stBindings s)"
  shows "safe s0 T0 s (eqAttrs c r a1 a2 b1 b2) (keeps A)"
proof -
  have both: "safe s T s (bindS (isDerivationValue c r a1) (\<lambda>d. if d then isDerivationValue c r a2 else retS False)) (keeps A)"
  proof (rule safe_step [OF isDerivationValue_safe [OF ok grows_refl a(1)] grows_refl])
    fix d s1 T1
    assume 1: "grows s T s1 T1" "heap_ok A {} s1 T1"
    from isDerivationValue_safe [OF 1(2,1) ref_ok_grows [OF 1(1) a(2)]] keeps_ret [OF 1(2,1), of False]
    show "safe s T s1 (if d then isDerivationValue c r a2 else retS False) (keeps A)" by simp
  qed
  show ?thesis
    unfolding eqAttrs_def
  proof (rule safe_step [OF both g])
    fix both s1 T1
    assume 1: "grows s T s1 T1" "grows s0 T0 s1 T1" "heap_ok A {} s1 T1"
    have b1: "b1 < length (stBindings s1)" "b2 < length (stBindings s1)" using bindings_grows [OF 1(1)] b by blast+
    let ?is = "stBindings s1 ! b1" let ?js = "stBindings s1 ! b2"
    have eq: "safe s0 T0 s1 (evEq r i j) (keeps A)" if "Bindings_find ?is x = Some i" "Bindings_find ?js y = Some j" for i j x y
      using safe_tail [OF eqv [OF 1(3) Bindings_find_ref [OF 1(3) b1(1) that(1)] Bindings_find_ref [OF 1(3) b1(2) that(2)]] 1(2)] by simp
    have refs: "\<forall>i \<in> set ?is \<union> set ?js. ref_ok s1 (snd i)"
      using heap_okD(5) [OF 1(3) b1(1)] heap_okD(5) [OF 1(3) b1(2)] by blast
    have "safe s0 T0 s1 (if length ?is \<noteq> length ?js then retS False else eq_attrs r ?is ?js) (keeps A)"
      using keeps_ret [OF 1(3,2), of False] eq_attrs_safe [OF 1(3,2) _ refs] by simp
    with eq show "safe s0 T0 s1 (bindS (getBindings b1) (\<lambda>is. bindS (getBindings b2) (\<lambda>js.
       case (if both then (Bindings_find is (sOutPath c), Bindings_find js (sOutPath c)) else (None, None)) of
         (Some i, Some j) \<Rightarrow> evEq r i j
       | _ \<Rightarrow> if length is \<noteq> length js then retS False else eq_attrs r is js))) (keeps A)"
      using b1 by (auto split: option.split)
  qed
qed

lemma eqValues_safe:
  assumes ok: "heap_ok A {} s T" and a: "ref_ok s a1" "ref_ok s a2"
  shows "safe s T s (eqValues c r a1 a2) (keeps A)"
  unfolding eqValues_def
proof (rule force_step [OF ok grows_refl a(1)])
  fix s1 T1
  assume 1: "grows s T s1 T1" "heap_ok A {} s1 T1" "ref_ok s1 a1"
  let ?m = "if a1 = a2 then retS True
     else bindS (getValue a1) (\<lambda>v1. bindS (getValue a2) (\<lambda>v2. case (v1, v2) of
       (vInt m, vInt n) \<Rightarrow> retS (m = n)
     | (vBool p, vBool q) \<Rightarrow> retS (p = q)
     | (vString s c1, vString t c2) \<Rightarrow> retS (s = t \<and> c1 = c2)
     | (vPath p, vPath q) \<Rightarrow> retS (p = q)
     | (vNull, vNull) \<Rightarrow> retS True
     | (vList as, vList bs) \<Rightarrow> if length as \<noteq> length bs then retS False else eq_all r (zip as bs)
     | (vAttrs b1, vAttrs b2) \<Rightarrow> eqAttrs c r a1 a2 b1 b2
     | (vThunk _ _, vThunk _ _) \<Rightarrow> throwS (EvalError ''cannot compare a thunk with a thunk'')
     | (vApp _ _, vApp _ _) \<Rightarrow> throwS (EvalError ''cannot compare a function application with a function application'')
     | (vBlackhole _ _, vBlackhole _ _) \<Rightarrow> throwS (EvalError ''cannot compare a black hole with a black hole'')
     | _ \<Rightarrow> retS False))"
  show "safe s T s1 (bindS (evForce r a2) (\<lambda>_. ?m)) (keeps A)"
  proof (rule force_step [OF 1(2,1) ref_ok_grows [OF 1(1) a(2)]])
    fix s2 T2
    assume 2: "grows s1 T1 s2 T2" "grows s T s2 T2" "heap_ok A {} s2 T2" "ref_ok s2 a2"
    have a1: "ref_ok s2 a1" by (rule ref_ok_grows [OF 2(1) 1(3)])
    note ret = keeps_ret [OF 2(3,2)]
    have vals: "value_ok A s2 T2 (stValues s2 ! a1)" "value_ok A s2 T2 (stValues s2 ! a2)"
      using heap_okD(2) [OF 2(3)] a1 2(4) by (auto simp: ref_ok_def)
    have lists: "safe s T s2 (eq_all r (zip as bs)) (keeps A)" if "\<forall>a \<in> set as. ref_ok s2 a" "\<forall>a \<in> set bs. ref_ok s2 a" for as bs
      by (rule eq_all_safe [OF 2(3,2)]) (use that in \<open>auto dest: set_zip_leftD set_zip_rightD\<close>)
    note attrs = eqAttrs_safe [OF 2(3,2) a1 2(4)]
    have in2: "a1 < length (stValues s2)" "a2 < length (stValues s2)" using a1 2(4) by (auto simp: ref_ok_def)
    show "safe s T s2 ?m (keeps A)"
    proof (cases "a1 = a2")
      case False
      with in2 vals lists attrs show ?thesis
        by (cases "stValues s2 ! a1"; cases "stValues s2 ! a2") (simp_all add: ret)
    qed (simp add: ret)
  qed
qed

lemma Expr_eval_safe:
  assumes ok: "heap_ok A {} s T" and ty: "typed T en G" and e: "fits G e" and v: "dst_ok s T v"
  shows "safe s T s (Expr_eval c r e en v) (yields A v)"
proof -
  note g = grows_refl [of s T]
  have set: "safe s T s (setValue v x) (yields A v)" if "value_ok A s T x" "x \<noteq> vUninit" "\<And>l r. x \<noteq> vPrimOpApp l r" for x
    by (rule setValue_tail [OF ok g v]) (use that in auto)
  show ?thesis
  proof (cases e)
    case (ExprSelect e1 p d)
    with e ExprSelect_safe [OF ok g ty _ _ v, of e1 d p] show ?thesis by (cases d) (simp_all add: Expr_eval_def)
  next
    case (ExprLambda pos param formals body)
    with e ty have "value_ok A s T (vLambda en pos param formals body)" by auto
    from set [OF this] ExprLambda show ?thesis by (simp add: Expr_eval_def)
  next
    case (ExprAttrs rec as)
    with ExprAttrs_safe [OF ok ty _ v, of rec as] e show ?thesis by (simp only: Expr_eval_def Expr.case)
  next
    case (ExprLet as body)
    with ExprLet_safe [OF ok g ty _ v, of as body] e show ?thesis by (simp only: Expr_eval_def Expr.case)
  next
    case (ExprWith pos attrs body prev)
    with ExprWith_safe [OF ok ty _ v, of pos attrs body prev] e show ?thesis by (simp only: Expr_eval_def Expr.case)
  next
    case (ExprBin b e1 e2)
    with e have e': "fits G e1" "fits G e2" by simp_all
    note ops = ExprApp_safe [OF ok g ty e' v] ExprOpEq_safe [OF ok g ty e' v] ExprOps_safe [OF ok g ty e' v]
      ExprOpUpdate_safe [OF ok g ty e' v] ExprOpConcatLists_safe [OF ok g ty e' v]
    show ?thesis by (cases b) (simp_all add: ExprBin Expr_eval_def ops)
  qed (use e set ExprVar_safe [OF ok g ty _ v] ExprOpHasAttr_safe [OF ok g ty _ v] ExprList_safe [OF ok g ty _ v] ExprIf_safe [OF ok g ty _ _ _ v]
      ExprAssert_safe [OF ok g ty _ _ v] ExprOpNot_safe [OF ok g ty _ v] ExprConcatStrings_safe [OF ok g ty _ v]
      in \<open>simp_all add: Expr_eval_def mkString_def\<close>)
qed

end

subsection \<open>Tying the knot\<close>

lemma safe_evaluator_at:
  assumes prims: "prims_safe A c" and copy: "copying_safe c"
  shows "safe_evaluator A (evaluator_at c n)"
proof (induction n)
  case 0
  show ?case by unfold_locales simp_all
next
  case (Suc n)
  from Suc show ?case
    by (intro safe_evaluator.intro)
      (simp_all add: Let_def safe_evaluator.Expr_eval_safe [OF Suc] safe_evaluator.forceValue_safe [OF Suc] safe_evaluator.callFunction_safe [OF Suc _ _ _ _ prims]
        safe_evaluator.eqValues_safe [OF Suc] safe_evaluator.coerceToString_safe [OF Suc _ _ copy] safe_evaluator.strictForceValue_safe [OF Suc])
qed

end
