(* ===== verification/Names.thy ===== *)
theory Names
  imports Util_Strings "HOL-Library.Product_Lexorder"
begin

text \<open>
  Names and versions of derivations: \<^verbatim>\<open>src/libexpr/names.cc\<close>.  An iterator into a version string is the
  rest of the string.
\<close>

subsection \<open>Derivation names\<close>

definition isalpha :: "char \<Rightarrow> bool" where
  "isalpha c \<longleftrightarrow> (CHR ''a'' \<le> c \<and> c \<le> CHR ''z'') \<or> (CHR ''A'' \<le> c \<and> c \<le> CHR ''Z'')"

record DrvName =
  dnFullName :: string
  dnName :: string
  dnVersion :: string
  dnHits :: nat

text \<open>The loop of the constructor from position \<open>i\<close> on.\<close>

function DrvName_split :: "string \<Rightarrow> nat \<Rightarrow> string \<times> string" where
  "DrvName_split s i =
     (if i < length s then
        if s ! i = CHR ''-'' \<and> i + 1 < length s \<and> \<not> isalpha (s ! (i + 1))
        then (take i s, drop (i + 1) s)
        else DrvName_split s (i + 1)
      else (s, []))"
  by pat_completeness auto
termination
  by (relation "measure (\<lambda>(s, i). length s - i)") auto

declare DrvName_split.simps [simp del]

definition DrvName_new :: "string \<Rightarrow> DrvName" where
  "DrvName_new s = (let (name, version) = DrvName_split s 0
     in \<lparr>dnFullName = s, dnName = name, dnVersion = version, dnHits = 0\<rparr>)"

definition DrvName_matches :: "DrvName \<Rightarrow> DrvName \<Rightarrow> bool" where
  "DrvName_matches d n =
     (if dnName d \<noteq> ''*'' \<and> dnName d \<noteq> dnName n then False
      else if dnVersion d \<noteq> [] \<and> dnVersion d \<noteq> dnVersion n then False
      else True)"

definition drvNamesFromArgs :: "string list \<Rightarrow> DrvName list" where
  "drvNamesFromArgs opArgs = fold (\<lambda>s result. result @ [DrvName_new s]) opArgs []"

subsection \<open>Comparing versions\<close>

definition isSeparator :: "char \<Rightarrow> bool" where
  "isSeparator c \<longleftrightarrow> c = CHR ''.'' \<or> c = CHR ''-''"

definition nextComponent :: "string \<Rightarrow> string \<times> string" where
  "nextComponent p =
     (case dropWhile isSeparator p of
        [] \<Rightarrow> ([], [])
      | c # r \<Rightarrow>
          if isdigit c then (takeWhile isdigit (c # r), dropWhile isdigit (c # r))
          else (takeWhile (\<lambda>c. \<not> isdigit c \<and> \<not> isSeparator c) (c # r),
                dropWhile (\<lambda>c. \<not> isdigit c \<and> \<not> isSeparator c) (c # r)))"

definition componentsLT :: "string \<Rightarrow> string \<Rightarrow> bool" where
  "componentsLT c1 c2 =
     (case (string2Int c1, string2Int c2) of
        (Some n1, Some n2) \<Rightarrow> n1 < n2
      | (n1, n2) \<Rightarrow>
          if c1 = [] \<and> n2 \<noteq> None then True
          else if c1 = ''pre'' \<and> c2 \<noteq> ''pre'' then True
          else if c2 = ''pre'' then False
          else if n2 \<noteq> None then True
          else if n1 \<noteq> None then False
          else c1 < c2)"

lemma nextComponent_shorter: "p \<noteq> [] \<Longrightarrow> length (snd (nextComponent p)) < length p"
proof -
  assume "p \<noteq> []"
  show ?thesis
  proof (cases "dropWhile isSeparator p")
    case Nil
    then show ?thesis using \<open>p \<noteq> []\<close> by (simp add: nextComponent_def del: dropWhile_eq_Nil_conv)
  next
    case (Cons c r)
    then have "length r < length p" "\<not> isSeparator c"
      using skip_length [OF Cons] dropWhile_hd_not [OF Cons] by simp_all
    then have "length (dropWhile P r) < length p" for P
      by (intro le_less_trans [OF length_dropWhile_le])
    then show ?thesis
      using \<open>\<not> isSeparator c\<close> by (cases "isdigit c") (simp_all add: nextComponent_def Cons)
  qed
qed

lemma nextComponent_le: "length (snd (nextComponent p)) \<le> length p"
  using nextComponent_shorter [of p] by (cases "p = []") (auto simp: nextComponent_def)

function compareVersions :: "string \<Rightarrow> string \<Rightarrow> int" where
  "compareVersions p1 p2 =
     (if p1 \<noteq> [] \<or> p2 \<noteq> [] then
        let (c1, p1) = nextComponent p1;
            (c2, p2) = nextComponent p2
        in if componentsLT c1 c2 then -1
           else if componentsLT c2 c1 then 1
           else compareVersions p1 p2
      else 0)"
  by pat_completeness auto
termination
proof (relation "measure (\<lambda>(p1, p2). length p1 + length p2)", goal_cases)
  case (2 p1 p2 x c1 p1' y c2 p2')
  then have "length p1' \<le> length p1" "length p2' \<le> length p2"
    "p1 \<noteq> [] \<Longrightarrow> length p1' < length p1" "p2 \<noteq> [] \<Longrightarrow> length p2' < length p2"
    using nextComponent_le [of p1] nextComponent_le [of p2] nextComponent_shorter [of p1] nextComponent_shorter [of p2]
    by (metis snd_conv)+
  with 2 show ?case by auto
qed simp

declare compareVersions.simps [simp del]

subsection \<open>The order of components\<close>

text \<open>
  The key a component is compared by: \<^verbatim>\<open>pre\<close> comes first, then the other words in lexicographic order
  (the empty component, where a version ends, is the least of them), then the numbers.
\<close>

definition component_key :: "string \<Rightarrow> nat \<times> string \<times> int" where
  "component_key c = (case string2Int c of
     Some n \<Rightarrow> (2, [], n)
   | None \<Rightarrow> if c = ''pre'' then (0, [], 0) else (1, c, 0))"

lemma string2Int_words: "string2Int [] = None" "string2Int ''pre'' = None"
  by code_simp+

lemma componentsLT_key: "componentsLT c1 c2 \<longleftrightarrow> component_key c1 < component_key c2"
  using string2Int_words
  by (cases "string2Int c1"; cases "string2Int c2") (auto simp: componentsLT_def component_key_def)

lemma compareVersions_step:
  "compareVersions p1 p2 =
     (let k1 = component_key (fst (nextComponent p1)); k2 = component_key (fst (nextComponent p2))
      in if k1 < k2 then -1 else if k2 < k1 then 1
         else compareVersions (snd (nextComponent p1)) (snd (nextComponent p2)))"
proof (cases "p1 \<noteq> [] \<or> p2 \<noteq> []")
  case True
  then show ?thesis
    by (subst compareVersions.simps) (simp add: componentsLT_key case_prod_beta Let_def)
next
  case False
  then show ?thesis by (simp add: nextComponent_def compareVersions.simps Let_def)
qed

lemma nextComponent_shrinks:
  assumes "p1 \<noteq> [] \<or> p2 \<noteq> [] \<or> p3 \<noteq> []"
  shows "length (snd (nextComponent p1)) + length (snd (nextComponent p2)) + length (snd (nextComponent p3))
    < length p1 + length p2 + length p3"
  using assms nextComponent_le [of p1] nextComponent_le [of p2] nextComponent_le [of p3]
    nextComponent_shorter [of p1] nextComponent_shorter [of p2] nextComponent_shorter [of p3]
  by fastforce

lemma compareVersions_end: "compareVersions [] [] = 0"
  by (simp add: compareVersions.simps)

lemma compareVersions_swap: "compareVersions p2 p1 = - compareVersions p1 p2"
proof (induction "length p1 + length p2" arbitrary: p1 p2 rule: less_induct)
  case less
  show ?case
  proof (cases "p1 = [] \<and> p2 = []")
    case False
    then have "compareVersions (snd (nextComponent p2)) (snd (nextComponent p1))
        = - compareVersions (snd (nextComponent p1)) (snd (nextComponent p2))"
      using nextComponent_shrinks [of p1 p2 "[]"] by (intro less) (auto simp: nextComponent_def)
    then show ?thesis
      by (subst (1 2) compareVersions_step) (auto simp: Let_def)
  qed (simp add: compareVersions_end)
qed

lemma compareVersions_leD:
  assumes "compareVersions p1 p2 \<le> 0"
  shows "component_key (fst (nextComponent p1)) < component_key (fst (nextComponent p2)) \<or>
    component_key (fst (nextComponent p1)) = component_key (fst (nextComponent p2)) \<and>
    compareVersions (snd (nextComponent p1)) (snd (nextComponent p2)) \<le> 0"
proof (cases "component_key (fst (nextComponent p1))" "component_key (fst (nextComponent p2))" rule: linorder_cases)
  case equal
  then show ?thesis using assms unfolding compareVersions_step [of p1 p2] by (simp add: Let_def)
next
  case greater
  moreover from this have "\<not> component_key (fst (nextComponent p1)) < component_key (fst (nextComponent p2))"
    by (metis less_asym)
  ultimately show ?thesis using assms unfolding compareVersions_step [of p1 p2] by (simp add: Let_def)
qed simp

lemma compareVersions_trans:
  "compareVersions p1 p2 \<le> 0 \<Longrightarrow> compareVersions p2 p3 \<le> 0 \<Longrightarrow> compareVersions p1 p3 \<le> 0"
proof (induction "length p1 + length p2 + length p3" arbitrary: p1 p2 p3 rule: less_induct)
  case less
  show ?case
  proof (cases "p1 = [] \<and> p2 = [] \<and> p3 = []")
    case False
    let ?k = "\<lambda>p. component_key (fst (nextComponent p))" and ?t = "\<lambda>p. snd (nextComponent p)"
    have ih: "compareVersions (?t p1) (?t p3) \<le> 0"
      if "compareVersions (?t p1) (?t p2) \<le> 0" "compareVersions (?t p2) (?t p3) \<le> 0"
      using False nextComponent_shrinks [of p1 p2 p3] by (intro less.hyps [OF _ that]) blast
    note le = compareVersions_leD [OF less.prems(1)] compareVersions_leD [OF less.prems(2)]
    have "?k p1 < ?k p3 \<or> ?k p1 = ?k p3 \<and> compareVersions (?t p1) (?t p3) \<le> 0"
    proof (cases "?k p1 = ?k p2 \<and> ?k p2 = ?k p3")
      case True
      then show ?thesis using le ih by simp
    next
      case False
      then have "?k p1 < ?k p3" using le less_trans [of "?k p1" "?k p2" "?k p3"] by fastforce
      then show ?thesis ..
    qed
    then show ?thesis
      unfolding compareVersions_step [of p1 p3] by (elim disjE conjE) (simp_all add: Let_def)
  qed (simp add: compareVersions_end)
qed

text \<open>
  C35: \<^verbatim>\<open>compareVersions\<close> orders versions: it always returns -1, 0 or 1, exchanging the arguments
  changes the sign, and it is transitive; so choosing the newest of several versions does not depend
  on the order in which they are compared.
\<close>

theorem compareVersions_preorder:
  "compareVersions v1 v2 \<in> {-1, 0, 1} \<and> compareVersions v2 v1 = - compareVersions v1 v2 \<and>
   (compareVersions v1 v2 \<le> 0 \<and> compareVersions v2 v3 \<le> 0 \<longrightarrow> compareVersions v1 v3 \<le> 0)"
proof -
  have "compareVersions v1 v2 \<in> {-1, 0, 1}"
    by (induction v1 v2 rule: compareVersions.induct) (subst compareVersions.simps, auto simp: Let_def split: prod.splits)
  then show ?thesis using compareVersions_swap compareVersions_trans by blast
qed

theorem compareVersions_preorder_witness:
  "compareVersions ''2.3pre1'' ''2.3a'' = -1 \<and> compareVersions ''2.3a'' ''2.3.1'' = -1 \<and> compareVersions ''2.3pre1'' ''2.3.1'' \<le> 0"
proof -
  have "compareVersions ''2.3pre1'' ''2.3a'' = -1" "compareVersions ''2.3a'' ''2.3.1'' = -1" by code_simp+
  with compareVersions_preorder [of "''2.3pre1''" "''2.3a''" "''2.3.1''"] show ?thesis by simp
qed

subsection \<open>Splitting names\<close>

text \<open>A dash at \<open>i\<close> ends the name.\<close>

definition ends_name :: "string \<Rightarrow> nat \<Rightarrow> bool" where
  "ends_name s i \<longleftrightarrow> i + 1 < length s \<and> s ! i = CHR ''-'' \<and> \<not> isalpha (s ! (i + 1))"

lemma DrvName_split_spec:
  assumes "\<forall>j<i. \<not> ends_name s j"
  shows "(\<exists>k. ends_name s k \<and> (\<forall>j<k. \<not> ends_name s j) \<and> DrvName_split s i = (take k s, drop (k + 1) s)) \<or>
    (\<forall>k. \<not> ends_name s k) \<and> DrvName_split s i = (s, [])"
  using assms
proof (induction s i rule: DrvName_split.induct)
  case (1 s i)
  consider "ends_name s i" | "i < length s" "\<not> ends_name s i" | "\<not> i < length s" by (auto simp: ends_name_def)
  then show ?case
  proof cases
    case 1
    then have "DrvName_split s i = (take i s, drop (i + 1) s)"
      by (subst DrvName_split.simps) (simp add: ends_name_def)
    then show ?thesis using 1 "1.prems" by blast
  next
    case 2
    then have "DrvName_split s i = DrvName_split s (i + 1)"
      by (subst DrvName_split.simps) (auto simp: ends_name_def)
    then show ?thesis using 2 1 by (metis (no_types, lifting) Suc_eq_plus1 ends_name_def less_Suc_eq)
  next
    case 3
    then have "\<forall>k. \<not> ends_name s k" using "1.prems" by (metis add_lessD1 ends_name_def not_less_iff_gr_or_eq order.strict_trans)
    then show ?thesis using 3 by (simp add: DrvName_split.simps)
  qed
qed

lemma ends_name_parts: "ends_name s k \<Longrightarrow> take k s @ ''-'' @ drop (k + 1) s = s"
  using id_take_nth_drop [of k s] by (simp add: ends_name_def)



end
