(* ===== verification/Primops.thy ===== *)
theory Primops
  imports Eval Names "HOL-Library.Signed_Division"
begin

text \<open>
  \<^verbatim>\<open>src/libexpr/primops.cc\<close>: the primitive operations of the expression language, and \<^verbatim>\<open>createBaseEnv\<close>,
  which registers them.  A primitive operation gets the addresses of its arguments and the value it
  writes its result to.

  Not modelled are \<^verbatim>\<open>import\<close>, \<^verbatim>\<open>toXML\<close> and \<^verbatim>\<open>filterSource\<close>, which parse files, print values as XML and call
  back from the archiver, and \<^verbatim>\<open>derivationStrict\<close>.

  Where C++ leaves open which of two operands is evaluated first, the model takes the left one.
\<close>

subsection \<open>Helpers\<close>

text \<open>What the operations take from outside: environment variables, files, and the store.\<close>

record world =
  getEnv :: "string \<Rightarrow> string"
  wPathExists :: "path \<Rightarrow> bool res"
  wReadFile :: "path \<Rightarrow> string res"
  wReadLink :: "path \<Rightarrow> string option res"
  wIsValidPath :: "path \<Rightarrow> bool"
  wStoreDir :: path
  wAddText :: "string \<Rightarrow> string \<Rightarrow> path list \<Rightarrow> path res"

definition liftE :: "'a res \<Rightarrow> 'a ev" where
  "liftE m s = (m, s)"

definition createSymbol :: "string \<Rightarrow> Symbol ev" where
  "createSymbol x s = (case SymbolTable_create (stSymbols s) x of (sy, i) \<Rightarrow> (Inr i, s\<lparr>stSymbols := sy\<rparr>))"

text \<open>An \<^verbatim>\<open>int\<close> has 32 bits; arithmetic that leaves them wraps around.\<close>

definition wrap_int :: "int \<Rightarrow> int" where
  "wrap_int n = sint (word_of_int n :: 32 word)"

abbreviation int_min :: int where
  "int_min \<equiv> - (2 ^ 31)"

text \<open>The value at an address after forcing it.\<close>

definition forced :: "evaluator \<Rightarrow> nat \<Rightarrow> Value ev" where
  "forced r a = bindS (evForce r a) (\<lambda>_. getValue a)"

primrec allocAll :: "Value list \<Rightarrow> nat list ev" where
  "allocAll [] = retS []"
| "allocAll (v # vs) = bindS (allocWith v) (\<lambda>a. bindS (allocAll vs) (\<lambda>as. retS (a # as)))"

definition decodeContext :: "string \<Rightarrow> (string \<times> string) res" where
  "decodeContext s =
     (if s = [] then Inl OutOfRange
      else if hd s = CHR ''!'' then
        (case find_char_from (CHR ''!'') s 1 of
           Some index \<Rightarrow> Inr (drop (index + 1) s, take (index - 1) (drop 1 s))
         | None \<Rightarrow> Inr (s, drop 1 s))
      else Inr (s, []))"

subsection \<open>Tests of types, and errors\<close>

definition prim_test :: "(Value \<Rightarrow> bool) \<Rightarrow> evaluator \<Rightarrow> nat list \<Rightarrow> nat \<Rightarrow> unit ev" where
  "prim_test p r as v = bindS (forced r (as ! 0)) (\<lambda>x. setValue v (vBool (p x)))"

definition prim_isNull :: "evaluator \<Rightarrow> nat list \<Rightarrow> nat \<Rightarrow> unit ev" where
  "prim_isNull = prim_test (\<lambda>x. x = vNull)"

definition prim_isFunction :: "evaluator \<Rightarrow> nat list \<Rightarrow> nat \<Rightarrow> unit ev" where
  "prim_isFunction = prim_test (\<lambda>x. case x of vLambda _ _ _ _ _ \<Rightarrow> True | _ \<Rightarrow> False)"

definition prim_isInt :: "evaluator \<Rightarrow> nat list \<Rightarrow> nat \<Rightarrow> unit ev" where
  "prim_isInt = prim_test (\<lambda>x. case x of vInt _ \<Rightarrow> True | _ \<Rightarrow> False)"

definition prim_isString :: "evaluator \<Rightarrow> nat list \<Rightarrow> nat \<Rightarrow> unit ev" where
  "prim_isString = prim_test (\<lambda>x. case x of vString _ _ \<Rightarrow> True | _ \<Rightarrow> False)"

definition prim_isBool :: "evaluator \<Rightarrow> nat list \<Rightarrow> nat \<Rightarrow> unit ev" where
  "prim_isBool = prim_test (\<lambda>x. case x of vBool _ \<Rightarrow> True | _ \<Rightarrow> False)"

definition prim_isAttrs :: "evaluator \<Rightarrow> nat list \<Rightarrow> nat \<Rightarrow> unit ev" where
  "prim_isAttrs = prim_test (\<lambda>x. case x of vAttrs _ \<Rightarrow> True | _ \<Rightarrow> False)"

definition prim_isList :: "evaluator \<Rightarrow> nat list \<Rightarrow> nat \<Rightarrow> unit ev" where
  "prim_isList = prim_test (\<lambda>x. case x of vList _ \<Rightarrow> True | _ \<Rightarrow> False)"

definition prim_abort :: "evaluator \<Rightarrow> nat list \<Rightarrow> nat \<Rightarrow> unit ev" where
  "prim_abort r as v = bindS (evCoerce r (as ! 0) [] False True) (\<lambda>(s, context).
     throwS (Abort (''evaluation aborted with the following error message: `'' @ s @ [CHR 0x27])))"

definition prim_throw :: "evaluator \<Rightarrow> nat list \<Rightarrow> nat \<Rightarrow> unit ev" where
  "prim_throw r as v = bindS (evCoerce r (as ! 0) [] False True) (\<lambda>(s, context).
     throwS (ThrownError (''user-thrown exception: '' @ s)))"

text \<open>The prefix that the handler adds to the error is left out, what it evaluates for it is not.\<close>

definition prim_addErrorContext :: "evaluator \<Rightarrow> nat list \<Rightarrow> nat \<Rightarrow> unit ev" where
  "prim_addErrorContext r as v s = (case evForce r (as ! 1) s of
     (Inr _, s) \<Rightarrow> bindS (getValue (as ! 1)) (setValue v) s
   | (Inl e, s) \<Rightarrow> if isError e then bindS (evCoerce r (as ! 0) [] False True) (\<lambda>_. throwS e) s else (Inl e, s))"

fun is_AssertionError :: "error \<Rightarrow> bool" where
  "is_AssertionError (AssertionError _) \<longleftrightarrow> True"
| "is_AssertionError (ThrownError _) \<longleftrightarrow> True"
| "is_AssertionError _ \<longleftrightarrow> False"

text \<open>The result becomes a set before the argument is forced.\<close>

definition prim_tryEval :: "evaluator \<Rightarrow> nat list \<Rightarrow> nat \<Rightarrow> unit ev" where
  "prim_tryEval r as v =
     bindS (mkAttrs v []) (\<lambda>b.
     bindS (\<lambda>s. case evForce r (as ! 0) s of
         (Inr _, s) \<Rightarrow> bindS (createSymbol ''value'') (\<lambda>x. bindS (pushAttr b x (as ! 0)) (\<lambda>_. retS True)) s
       | (Inl e, s) \<Rightarrow> if is_AssertionError e
           then bindS (createSymbol ''value'') (\<lambda>x. bindS (allocWith (vBool False)) (\<lambda>a. bindS (pushAttr b x a) (\<lambda>_. retS False))) s
           else (Inl e, s)) (\<lambda>success.
     bindS (createSymbol ''success'') (\<lambda>x. bindS (allocWith (vBool success)) (\<lambda>a. bindS (pushAttr b x a) (\<lambda>_.
     bindS (getBindings b) (\<lambda>bs. setBindings b (Bindings_sort bs)))))))"

definition prim_getEnv :: "world \<Rightarrow> evaluator \<Rightarrow> nat list \<Rightarrow> nat \<Rightarrow> unit ev" where
  "prim_getEnv w r as v = bindS (forceStringNoCtx r (as ! 0)) (\<lambda>name. setValue v (mkString (getEnv w name) []))"

text \<open>What \<^verbatim>\<open>trace\<close> prints is left out.\<close>

definition prim_trace :: "evaluator \<Rightarrow> nat list \<Rightarrow> nat \<Rightarrow> unit ev" where
  "prim_trace r as v = bindS (evForce r (as ! 0)) (\<lambda>_. bindS (forced r (as ! 1)) (setValue v))"

subsection \<open>The closure of a set of values\<close>

text \<open>
  \<^verbatim>\<open>CompareValues\<close>.  All keys in the set are of one type, that of the first one, since the others have
  been compared with one of them.
\<close>

definition find_key :: "Value \<Rightarrow> Value list \<Rightarrow> bool res" where
  "find_key k ks = (case ks of [] \<Rightarrow> Inr False | k0 # _ \<Rightarrow>
     (case (k0, k) of
        (vInt _, vInt _) \<Rightarrow> Inr (k \<in> set ks)
      | (vString _ _, vString s _) \<Rightarrow> Inr (\<exists>x \<in> set ks. case x of vString s' _ \<Rightarrow> s' = s | _ \<Rightarrow> False)
      | (vPath _, vPath _) \<Rightarrow> Inr (k \<in> set ks)
      | _ \<Rightarrow> Inl (EvalError ''cannot compare values'')))"

definition find_attr :: "nat \<Rightarrow> string \<Rightarrow> nat ev" where
  "find_attr b name = bindS (createSymbol name) (\<lambda>x. bindS (getBindings b) (\<lambda>bs. case Bindings_find bs x of
     None \<Rightarrow> throwS (EvalError (''attribute `'' @ name @ [CHR 0x27] @ '' required''))
   | Some a \<Rightarrow> retS a))"

text \<open>
  The loop over the work set; \<open>n\<close> bounds its rounds.  The elements of the result are copied when they are
  found, and not a second time at the end.
\<close>

primrec closure_loop :: "nat \<Rightarrow> evaluator \<Rightarrow> nat \<Rightarrow> nat list \<Rightarrow> Value list \<Rightarrow> nat list \<Rightarrow> nat list ev" where
  "closure_loop 0 r fop workSet doneKeys res = throwS Diverges"
| "closure_loop (Suc n) r fop workSet doneKeys res = (case workSet of
     [] \<Rightarrow> retS res
   | e # workSet \<Rightarrow>
       bindS (forceAttrs r e) (\<lambda>b.
       bindS (find_attr b ''key'') (\<lambda>k.
       bindS (forced r k) (\<lambda>key.
       bindS (liftE (find_key key doneKeys)) (\<lambda>found.
         if found then closure_loop n r fop workSet doneKeys res
         else
           bindS (getValue e) (\<lambda>ev. bindS (allocWith ev) (\<lambda>copy.
           bindS (allocWith (vApp fop e)) (\<lambda>call.
           bindS (forceList r call) (\<lambda>new.
           bindS (foldS (evForce r) new) (\<lambda>_.
             closure_loop n r fop (workSet @ new) (doneKeys @ [key]) (res @ [copy])))))))))))"

definition prim_genericClosure :: "nat \<Rightarrow> evaluator \<Rightarrow> nat list \<Rightarrow> nat \<Rightarrow> unit ev" where
  "prim_genericClosure n r as v =
     bindS (forceAttrs r (as ! 0)) (\<lambda>b.
     bindS (find_attr b ''startSet'') (\<lambda>st.
     bindS (forceList r st) (\<lambda>workSet.
     bindS (find_attr b ''operator'') (\<lambda>fop.
     bindS (evForce r fop) (\<lambda>_.
     bindS (closure_loop n r fop workSet [] []) (\<lambda>res. setValue v (vList res)))))))"

subsection \<open>Paths and files\<close>

text \<open>\<^verbatim>\<open>coerceToPath\<close> with an empty context to start from.\<close>

definition coercePath :: "evaluator \<Rightarrow> nat \<Rightarrow> (path \<times> string list) ev" where
  "coercePath r a = bindS (evCoerce r a [] False False) (\<lambda>(p, context).
     if p = [] \<or> hd p \<noteq> CHR ''/'' then throwS (EvalError (''string `'' @ p @ [CHR 0x27] @ '' doesn'' @ [CHR 0x27] @ ''t represent an absolute path''))
     else retS (p, context))"

definition coercePathNoCtx :: "evaluator \<Rightarrow> nat \<Rightarrow> path ev" where
  "coercePathNoCtx r a = bindS (coercePath r a) (\<lambda>(p, context).
     if context \<noteq> [] then throwS (EvalError (''string `'' @ p @ [CHR 0x27] @ '' cannot refer to other paths'')) else retS p)"

definition prim_toPath :: "evaluator \<Rightarrow> nat list \<Rightarrow> nat \<Rightarrow> unit ev" where
  "prim_toPath r as v = bindS (coercePath r (as ! 0)) (\<lambda>(p, context).
     bindS (liftE (canonPath (\<lambda>_. Inr None) p False)) (\<lambda>p. setValue v (mkString p context)))"

definition prim_storePath :: "world \<Rightarrow> evaluator \<Rightarrow> nat list \<Rightarrow> nat \<Rightarrow> unit ev" where
  "prim_storePath w r as v = bindS (coercePath r (as ! 0)) (\<lambda>(p, context).
     bindS (liftE (if isStorePath (wStoreDir w) p then Inr p else canonPath (wReadLink w) p True)) (\<lambda>p.
       if \<not> isInStore (wStoreDir w) p then throwS (EvalError (''path `'' @ p @ [CHR 0x27] @ '' is not in the Nix store''))
       else bindS (liftE (toStorePath (wStoreDir w) p)) (\<lambda>p2.
         if \<not> wIsValidPath w p2 then throwS (EvalError (''store path `'' @ p2 @ [CHR 0x27] @ '' is not valid''))
         else setValue v (mkString p (set_insert p2 context)))))"

definition prim_pathExists :: "world \<Rightarrow> evaluator \<Rightarrow> nat list \<Rightarrow> nat \<Rightarrow> unit ev" where
  "prim_pathExists w r as v = bindS (coercePathNoCtx r (as ! 0)) (\<lambda>p. bindS (liftE (wPathExists w p)) (\<lambda>b. setValue v (vBool b)))"

definition prim_baseNameOf :: "evaluator \<Rightarrow> nat list \<Rightarrow> nat \<Rightarrow> unit ev" where
  "prim_baseNameOf r as v = bindS (evCoerce r (as ! 0) [] False True) (\<lambda>(s, context).
     bindS (liftE (baseNameOf s)) (\<lambda>n. setValue v (mkString n context)))"

definition prim_dirOf :: "evaluator \<Rightarrow> nat list \<Rightarrow> nat \<Rightarrow> unit ev" where
  "prim_dirOf r as v = bindS (coercePath r (as ! 0)) (\<lambda>(p, context).
     bindS (liftE (dirOf p)) (\<lambda>dir. bindS (getValue (as ! 0)) (\<lambda>x.
       setValue v (case x of vPath _ \<Rightarrow> vPath (c_str dir) | _ \<Rightarrow> mkString dir context))))"

definition prim_readFile :: "world \<Rightarrow> evaluator \<Rightarrow> nat list \<Rightarrow> nat \<Rightarrow> unit ev" where
  "prim_readFile w r as v = bindS (coercePathNoCtx r (as ! 0)) (\<lambda>p. bindS (liftE (wReadFile w p)) (\<lambda>s. setValue v (mkString s [])))"

text \<open>The references of a text file that is added to the store.\<close>

definition toFile_refs :: "string \<Rightarrow> string list \<Rightarrow> path list res" where
  "toFile_refs name context = foldE (\<lambda>p refs.
     if p = [] then Inl OutOfRange
     else let p = (if hd p = CHR ''='' then drop 1 p else p)
          in if isDerivation p
             then Inl (EvalError (''in `toFile'' @ [CHR 0x27] @ '': the file `'' @ name @ [CHR 0x27] @ '' cannot refer to derivation outputs''))
             else Inr (set_insert p refs)) context []"

definition prim_toFile :: "world \<Rightarrow> evaluator \<Rightarrow> nat list \<Rightarrow> nat \<Rightarrow> unit ev" where
  "prim_toFile w r as v =
     bindS (forceStringNoCtx r (as ! 0)) (\<lambda>name.
     bindS (forceString r (as ! 1)) (\<lambda>(contents, context).
     bindS (liftE (toFile_refs name (copyContext context []))) (\<lambda>refs.
     bindS (liftE (wAddText w name contents refs)) (\<lambda>p.
       setValue v (mkString p [p])))))"

subsection \<open>Attribute sets\<close>

text \<open>Different symbols have different strings, so there is a name for every attribute.\<close>

definition prim_attrNames :: "evaluator \<Rightarrow> nat list \<Rightarrow> nat \<Rightarrow> unit ev" where
  "prim_attrNames r as v =
     bindS (forceAttrs r (as ! 0)) (\<lambda>b. bindS (getBindings b) (\<lambda>bs.
     bindS (\<lambda>s. allocAll (map (\<lambda>n. mkString n []) (set_of_list (map (\<lambda>i. symbol_string (stSymbols s) (fst i)) bs))) s) (\<lambda>cells.
       setValue v (vList cells))))"

definition prim_getAttr :: "evaluator \<Rightarrow> nat list \<Rightarrow> nat \<Rightarrow> unit ev" where
  "prim_getAttr r as v =
     bindS (forceStringNoCtx r (as ! 0)) (\<lambda>attr.
     bindS (forceAttrs r (as ! 1)) (\<lambda>b.
     bindS (createSymbol attr) (\<lambda>x. bindS (getBindings b) (\<lambda>bs. case Bindings_find bs x of
       None \<Rightarrow> throwS (EvalError (''attribute `'' @ attr @ [CHR 0x27] @ '' missing''))
     | Some a \<Rightarrow> bindS (forced r a) (setValue v)))))"

definition prim_hasAttr :: "evaluator \<Rightarrow> nat list \<Rightarrow> nat \<Rightarrow> unit ev" where
  "prim_hasAttr r as v =
     bindS (forceStringNoCtx r (as ! 0)) (\<lambda>attr.
     bindS (forceAttrs r (as ! 1)) (\<lambda>b.
     bindS (createSymbol attr) (\<lambda>x. bindS (getBindings b) (\<lambda>bs. setValue v (vBool (Bindings_find bs x \<noteq> None))))))"

primrec forced_symbols :: "evaluator \<Rightarrow> nat list \<Rightarrow> Symbol list ev" where
  "forced_symbols r [] = retS []"
| "forced_symbols r (a # as) = bindS (forceStringNoCtx r a) (\<lambda>s. bindS (createSymbol s) (\<lambda>x.
     bindS (forced_symbols r as) (\<lambda>xs. retS (x # xs))))"

definition prim_removeAttrs :: "evaluator \<Rightarrow> nat list \<Rightarrow> nat \<Rightarrow> unit ev" where
  "prim_removeAttrs r as v =
     bindS (forceAttrs r (as ! 0)) (\<lambda>b.
     bindS (forceList r (as ! 1)) (\<lambda>elems.
     bindS (forced_symbols r elems) (\<lambda>names.
     bindS (getBindings b) (\<lambda>bs.
     bindS (mkAttrs v (filter (\<lambda>i. fst i \<notin> set names) bs)) (\<lambda>_. retS ())))))"

text \<open>
  The elements are forced while the set is already there, and not in order yet.  \<^verbatim>\<open>state.sName\<close> is the
  symbol that \<^verbatim>\<open>create("name")\<close> returns.
\<close>

definition list_to_attr :: "evaluator \<Rightarrow> nat \<Rightarrow> nat \<Rightarrow> unit ev" where
  "list_to_attr r b v2 =
     bindS (forceAttrs r v2) (\<lambda>b2. bindS (createSymbol ''name'') (\<lambda>sName. bindS (getBindings b2) (\<lambda>bs2.
     case Bindings_find bs2 sName of
       None \<Rightarrow> throwS (TypeError (''`name'' @ [CHR 0x27] @ '' attribute missing in a call to `listToAttrs'' @ [CHR 0x27]))
     | Some j \<Rightarrow>
         bindS (forceStringNoCtx r j) (\<lambda>name.
         bindS (createSymbol ''value'') (\<lambda>x.
         bindS (getBindings b2) (\<lambda>bs2. case Bindings_find bs2 x of
           None \<Rightarrow> throwS (TypeError (''`value'' @ [CHR 0x27] @ '' attribute missing in a call to `listToAttrs'' @ [CHR 0x27]))
         | Some j2 \<Rightarrow>
             bindS (createSymbol name) (\<lambda>sym. bindS (getBindings b) (\<lambda>bs.
               if sym \<in> fst ` set bs then retS () else pushAttr b sym j2))))))))"

definition prim_listToAttrs :: "evaluator \<Rightarrow> nat list \<Rightarrow> nat \<Rightarrow> unit ev" where
  "prim_listToAttrs r as v =
     bindS (forceList r (as ! 0)) (\<lambda>elems.
     bindS (mkAttrs v []) (\<lambda>b.
     bindS (foldS (list_to_attr r b) elems) (\<lambda>_.
     bindS (getBindings b) (\<lambda>bs. setBindings b (Bindings_sort bs)))))"

definition intersect_attrs :: "Bindings \<Rightarrow> Bindings \<Rightarrow> Bindings" where
  "intersect_attrs bs1 bs2 = concat (map (\<lambda>i. case Bindings_find bs2 (fst i) of None \<Rightarrow> [] | Some a \<Rightarrow> [(fst i, a)]) bs1)"

definition prim_intersectAttrs :: "evaluator \<Rightarrow> nat list \<Rightarrow> nat \<Rightarrow> unit ev" where
  "prim_intersectAttrs r as v =
     bindS (forceAttrs r (as ! 0)) (\<lambda>b1. bindS (forceAttrs r (as ! 1)) (\<lambda>b2.
     bindS (getBindings b1) (\<lambda>bs1. bindS (getBindings b2) (\<lambda>bs2.
     bindS (mkAttrs v (intersect_attrs bs1 bs2)) (\<lambda>_. retS ())))))"

definition prim_functionArgs :: "evaluator \<Rightarrow> nat list \<Rightarrow> nat \<Rightarrow> unit ev" where
  "prim_functionArgs r as v =
     bindS (forced r (as ! 0)) (\<lambda>x. case x of
       vLambda en pos param formals body \<Rightarrow>
         (let fs = (case formals of None \<Rightarrow> [] | Some (fs, ellipsis) \<Rightarrow> fs)
          in bindS (allocAll (map (\<lambda>f. vBool (snd f \<noteq> None)) fs)) (\<lambda>cells.
             bindS (mkAttrs v (Bindings_sort (zip (map fst fs) cells))) (\<lambda>_. retS ())))
     | _ \<Rightarrow> throwS (TypeError (''`functionArgs'' @ [CHR 0x27] @ '' requires a function'')))"

subsection \<open>Lists\<close>

definition elemAt :: "evaluator \<Rightarrow> nat \<Rightarrow> int \<Rightarrow> nat \<Rightarrow> unit ev" where
  "elemAt r l n v = bindS (forceList r l) (\<lambda>elems.
     if n < 0 \<or> n \<ge> int (length elems) then throwS (Error (''list index '' @ int2String n @ '' is out of bounds''))
     else bindS (forced r (elems ! nat n)) (setValue v))"

definition prim_elemAt :: "evaluator \<Rightarrow> nat list \<Rightarrow> nat \<Rightarrow> unit ev" where
  "prim_elemAt r as v = bindS (forceInt r (as ! 1)) (\<lambda>n. elemAt r (as ! 0) n v)"

definition prim_head :: "evaluator \<Rightarrow> nat list \<Rightarrow> nat \<Rightarrow> unit ev" where
  "prim_head r as v = elemAt r (as ! 0) 0 v"

definition prim_tail :: "evaluator \<Rightarrow> nat list \<Rightarrow> nat \<Rightarrow> unit ev" where
  "prim_tail r as v = bindS (forceList r (as ! 0)) (\<lambda>elems.
     if elems = [] then throwS (Error (''`tail'' @ [CHR 0x27] @ '' called on an empty list'')) else setValue v (vList (tl elems)))"

definition prim_map :: "evaluator \<Rightarrow> nat list \<Rightarrow> nat \<Rightarrow> unit ev" where
  "prim_map r as v =
     bindS (forceFunction r (as ! 0)) (\<lambda>_. bindS (forceList r (as ! 1)) (\<lambda>elems.
     bindS (allocAll (map (\<lambda>e. vApp (as ! 0) e) elems)) (\<lambda>cells. setValue v (vList cells))))"

primrec filter_elems :: "evaluator \<Rightarrow> nat \<Rightarrow> nat list \<Rightarrow> nat list ev" where
  "filter_elems r f [] = retS []"
| "filter_elems r f (e # es) =
     bindS allocValue (\<lambda>res. bindS (evCall r f e res) (\<lambda>_. bindS (forceBool r res) (\<lambda>b.
     bindS (filter_elems r f es) (\<lambda>vs. retS (if b then e # vs else vs)))))"

text \<open>The argument is shared when it loses no element, and equal to the result anyway.\<close>

definition prim_filter :: "evaluator \<Rightarrow> nat list \<Rightarrow> nat \<Rightarrow> unit ev" where
  "prim_filter r as v =
     bindS (forceFunction r (as ! 0)) (\<lambda>_. bindS (forceList r (as ! 1)) (\<lambda>elems.
     bindS (filter_elems r (as ! 0) elems) (\<lambda>vs. setValue v (vList vs))))"

primrec any_equal :: "evaluator \<Rightarrow> nat \<Rightarrow> nat list \<Rightarrow> bool ev" where
  "any_equal r x [] = retS False"
| "any_equal r x (e # es) = bindS (evEq r x e) (\<lambda>b. if b then retS True else any_equal r x es)"

definition prim_elem :: "evaluator \<Rightarrow> nat list \<Rightarrow> nat \<Rightarrow> unit ev" where
  "prim_elem r as v = bindS (forceList r (as ! 1)) (\<lambda>elems. bindS (any_equal r (as ! 0) elems) (\<lambda>b. setValue v (vBool b)))"

definition prim_concatLists :: "evaluator \<Rightarrow> nat list \<Rightarrow> nat \<Rightarrow> unit ev" where
  "prim_concatLists r as v = bindS (forceList r (as ! 0)) (\<lambda>elems. concatLists r v elems)"

definition prim_length :: "evaluator \<Rightarrow> nat list \<Rightarrow> nat \<Rightarrow> unit ev" where
  "prim_length r as v = bindS (forceList r (as ! 0)) (\<lambda>elems. setValue v (vInt (wrap_int (int (length elems)))))"

subsection \<open>Integers and strings\<close>

definition prim_arith :: "(int \<Rightarrow> int \<Rightarrow> Value) \<Rightarrow> evaluator \<Rightarrow> nat list \<Rightarrow> nat \<Rightarrow> unit ev" where
  "prim_arith f r as v = bindS (forceInt r (as ! 0)) (\<lambda>m. bindS (forceInt r (as ! 1)) (\<lambda>n. setValue v (f m n)))"

definition prim_add :: "evaluator \<Rightarrow> nat list \<Rightarrow> nat \<Rightarrow> unit ev" where
  "prim_add = prim_arith (\<lambda>m n. vInt (wrap_int (m + n)))"

definition prim_sub :: "evaluator \<Rightarrow> nat list \<Rightarrow> nat \<Rightarrow> unit ev" where
  "prim_sub = prim_arith (\<lambda>m n. vInt (wrap_int (m - n)))"

definition prim_mul :: "evaluator \<Rightarrow> nat list \<Rightarrow> nat \<Rightarrow> unit ev" where
  "prim_mul = prim_arith (\<lambda>m n. vInt (wrap_int (m * n)))"

text \<open>The least integer divided by \<open>- 1\<close> has no result in 32 bits, and the processor stops the program.\<close>

definition prim_div :: "evaluator \<Rightarrow> nat list \<Rightarrow> nat \<Rightarrow> unit ev" where
  "prim_div r as v = bindS (forceInt r (as ! 1)) (\<lambda>i2.
     if i2 = 0 then throwS (EvalError ''division by zero'')
     else bindS (forceInt r (as ! 0)) (\<lambda>i1.
       if i1 = int_min \<and> i2 = - 1 then throwS (Undefined ''overflow in a division'')
       else setValue v (vInt (i1 sdiv i2))))"

definition prim_lessThan :: "evaluator \<Rightarrow> nat list \<Rightarrow> nat \<Rightarrow> unit ev" where
  "prim_lessThan = prim_arith (\<lambda>m n. vBool (m < n))"

definition prim_toString :: "evaluator \<Rightarrow> nat list \<Rightarrow> nat \<Rightarrow> unit ev" where
  "prim_toString r as v = bindS (evCoerce r (as ! 0) [] True False) (\<lambda>(s, context). setValue v (mkString s context))"

text \<open>A negative length is converted to a very large one.\<close>

definition substring :: "int \<Rightarrow> int \<Rightarrow> string \<Rightarrow> string" where
  "substring pos len s =
     (if pos \<ge> int (length s) then []
      else if len < 0 then drop (nat pos) s else take (nat len) (drop (nat pos) s))"

definition prim_substring :: "evaluator \<Rightarrow> nat list \<Rightarrow> nat \<Rightarrow> unit ev" where
  "prim_substring r as v =
     bindS (forceInt r (as ! 0)) (\<lambda>pos. bindS (forceInt r (as ! 1)) (\<lambda>len.
     bindS (evCoerce r (as ! 2) [] False True) (\<lambda>(s, context).
       if pos < 0 then throwS (EvalError (''negative start position in `substring'' @ [CHR 0x27]))
       else setValue v (mkString (substring pos len s) context))))"

definition prim_stringLength :: "evaluator \<Rightarrow> nat list \<Rightarrow> nat \<Rightarrow> unit ev" where
  "prim_stringLength r as v = bindS (evCoerce r (as ! 0) [] False True) (\<lambda>(s, context).
     setValue v (vInt (wrap_int (int (length s)))))"

definition prim_unsafeDiscardStringContext :: "evaluator \<Rightarrow> nat list \<Rightarrow> nat \<Rightarrow> unit ev" where
  "prim_unsafeDiscardStringContext r as v = bindS (evCoerce r (as ! 0) [] False True) (\<lambda>(s, context). setValue v (mkString s []))"

definition discard_output_dependency :: "string list \<Rightarrow> string list res" where
  "discard_output_dependency context = foldE (\<lambda>p context2.
     if p = [] then Inl OutOfRange
     else Inr (set_insert (if hd p = CHR ''='' then CHR ''~'' # drop 1 p else p) context2)) context []"

definition prim_unsafeDiscardOutputDependency :: "evaluator \<Rightarrow> nat list \<Rightarrow> nat \<Rightarrow> unit ev" where
  "prim_unsafeDiscardOutputDependency r as v = bindS (evCoerce r (as ! 0) [] False True) (\<lambda>(s, context).
     bindS (liftE (discard_output_dependency context)) (\<lambda>context2. setValue v (mkString s context2)))"

definition prim_parseDrvName :: "evaluator \<Rightarrow> nat list \<Rightarrow> nat \<Rightarrow> unit ev" where
  "prim_parseDrvName r as v =
     bindS (forceStringNoCtx r (as ! 0)) (\<lambda>name.
     bindS (createSymbol ''name'') (\<lambda>sName. bindS (createSymbol ''version'') (\<lambda>sVersion.
     bindS (allocWith (mkString (dnName (DrvName_new name)) [])) (\<lambda>a1.
     bindS (allocWith (mkString (dnVersion (DrvName_new name)) [])) (\<lambda>a2.
     bindS (mkAttrs v (Bindings_sort [(sName, a1), (sVersion, a2)])) (\<lambda>_. retS ()))))))"

definition prim_compareVersions :: "evaluator \<Rightarrow> nat list \<Rightarrow> nat \<Rightarrow> unit ev" where
  "prim_compareVersions r as v =
     bindS (forceStringNoCtx r (as ! 0)) (\<lambda>v1. bindS (forceStringNoCtx r (as ! 1)) (\<lambda>v2.
       setValue v (vInt (compareVersions v1 v2))))"

subsection \<open>Registration\<close>

text \<open>The table of the operations, in the order in which they are registered; \<open>n\<close> bounds \<^verbatim>\<open>genericClosure\<close>.\<close>

type_synonym primop = "string \<times> nat \<times> (evaluator \<Rightarrow> nat list \<Rightarrow> nat \<Rightarrow> unit ev)"

definition primops :: "world \<Rightarrow> nat \<Rightarrow> primop list" where
  "primops w n =
    [(''isNull'', 1, prim_isNull), (''__isFunction'', 1, prim_isFunction), (''__isString'', 1, prim_isString),
     (''__isInt'', 1, prim_isInt), (''__isBool'', 1, prim_isBool), (''__genericClosure'', 1, prim_genericClosure n),
     (''abort'', 1, prim_abort), (''throw'', 1, prim_throw), (''__addErrorContext'', 2, prim_addErrorContext),
     (''__tryEval'', 1, prim_tryEval), (''__getEnv'', 1, prim_getEnv w), (''__trace'', 2, prim_trace),
     (''__toPath'', 1, prim_toPath), (''__storePath'', 1, prim_storePath w), (''__pathExists'', 1, prim_pathExists w),
     (''baseNameOf'', 1, prim_baseNameOf), (''dirOf'', 1, prim_dirOf), (''__readFile'', 1, prim_readFile w),
     (''__toFile'', 2, prim_toFile w),
     (''__attrNames'', 1, prim_attrNames), (''__getAttr'', 2, prim_getAttr), (''__hasAttr'', 2, prim_hasAttr),
     (''__isAttrs'', 1, prim_isAttrs), (''removeAttrs'', 2, prim_removeAttrs), (''__listToAttrs'', 1, prim_listToAttrs),
     (''__intersectAttrs'', 2, prim_intersectAttrs), (''__functionArgs'', 1, prim_functionArgs),
     (''__isList'', 1, prim_isList), (''__elemAt'', 2, prim_elemAt), (''__head'', 1, prim_head), (''__tail'', 1, prim_tail),
     (''map'', 2, prim_map), (''__filter'', 2, prim_filter), (''__elem'', 2, prim_elem), (''__concatLists'', 1, prim_concatLists),
     (''__length'', 1, prim_length),
     (''__add'', 2, prim_add), (''__sub'', 2, prim_sub), (''__mul'', 2, prim_mul), (''__div'', 2, prim_div), (''__lessThan'', 2, prim_lessThan),
     (''toString'', 1, prim_toString), (''__substring'', 3, prim_substring), (''__stringLength'', 1, prim_stringLength),
     (''__unsafeDiscardStringContext'', 1, prim_unsafeDiscardStringContext),
     (''__unsafeDiscardOutputDependency'', 1, prim_unsafeDiscardOutputDependency),
     (''__parseDrvName'', 1, prim_parseDrvName), (''__compareVersions'', 2, prim_compareVersions)]"

text \<open>A primitive operation is a position in a table.\<close>

definition with_primops :: "primop list \<Rightarrow> eval_config \<Rightarrow> eval_config" where
  "with_primops ps c = c\<lparr>primOpFun := (\<lambda>r i as v. if i < length ps then snd (snd (ps ! i)) r as v else nullPointer)\<rparr>"

definition arities :: "primop list \<Rightarrow> Symbol \<Rightarrow> nat \<Rightarrow> bool" where
  "arities ps i n \<longleftrightarrow> i < length ps \<and> n = fst (snd (ps ! i))"

text \<open>The base environment, and the static one that goes with it.\<close>

definition strip_underscores :: "string \<Rightarrow> string" where
  "strip_underscores name = (if take 2 name = ''__'' then drop 2 name else name)"

text \<open>\<^verbatim>\<open>addConstant\<close> and \<^verbatim>\<open>addPrimOp\<close>: they differ in the order in which they create the symbols.\<close>

definition addBase ::
  "string \<Rightarrow> Value \<Rightarrow> EvalState \<times> (Symbol \<times> nat) list \<times> nat \<Rightarrow> EvalState \<times> (Symbol \<times> nat) list \<times> nat" where
  "addBase name x st = (case st of (s, vs, baseEnvDispl) \<Rightarrow>
     let v = length (stValues s);
         (sy, sym) = SymbolTable_create (stSymbols s) name;
         (sy, sym2) = SymbolTable_create sy (strip_underscores name)
     in (s\<lparr>stValues := stValues s @ [x],
           stEnvs := (stEnvs s)[0 := (stEnvs s ! 0)\<lparr>envValues := (envValues (stEnvs s ! 0))[baseEnvDispl := Some v]\<rparr>],
           stBindings := (stBindings s)[0 := stBindings s ! 0 @ [(sym2, v)]],
           stSymbols := sy\<rparr>, map_put sym baseEnvDispl vs, baseEnvDispl + 1))"

definition base_constants :: "int \<Rightarrow> string \<Rightarrow> string \<Rightarrow> (string \<times> Value) list" where
  "base_constants currentTime currentSystem nixVersion =
    [(''builtins'', vAttrs 0), (''true'', vBool True), (''false'', vBool False), (''null'', vNull),
     (''__currentTime'', vInt (wrap_int currentTime)), (''__currentSystem'', mkString currentSystem []),
     (''__nixVersion'', mkString nixVersion []), (''__langVersion'', vInt 1)]"

definition createBaseEnv :: "string list \<Rightarrow> (string \<times> Value) list \<Rightarrow> primop list \<Rightarrow> EvalState \<times> StaticFrame" where
  "createBaseEnv symbols cs ps =
     (let s0 = \<lparr>stValues = [], stEnvs = [\<lparr>envUp = None, envPrevWith = 0, envValues = replicate 128 None\<rparr>],
                stBindings = [[]], stSymbols = symbols, stSrcToStore = [], stDrvHashes = []\<rparr>;
          entries = cs @ map (\<lambda>(i, name, arity, _). (name, vPrimOp i arity)) (enumerate 0 ps);
          (s, vs, _) = fold (\<lambda>(name, x). addBase name x) entries (s0, [], 0)
      in (s\<lparr>stBindings := [Bindings_sort (stBindings s ! 0)]\<rparr>, \<lparr>isWith = False, vars = vs\<rparr>))"

end
