(* ===== verification/Primops_Safety.thy ===== *)
theory Primops_Safety
  imports Eval_Safety Primops
begin

text \<open>
  The primitive operations keep the promise the evaluator relies on, and the base environment is
  well formed: evaluation never does what C++ leaves undefined.
\<close>

subsection \<open>The operations are safe\<close>

lemma good_errors2 [simp]: "good_error (Error m)" "good_error (Abort m)" "good_error (ThrownError m)" "good_error OutOfRange"
  by (simp_all add: good_error_def)

lemma foldE_error: "foldE f xs s = Inl e \<Longrightarrow> (\<And>x s e. f x s = Inl e \<Longrightarrow> P e) \<Longrightarrow> P e"
  by (induction xs arbitrary: s) (auto simp: bindE_def split: sum.splits)

text \<open>The last step of most operations: a value without addresses in it.\<close>

fun plain :: "Value \<Rightarrow> bool" where
  "plain (vInt _) \<longleftrightarrow> True"
| "plain (vBool _) \<longleftrightarrow> True"
| "plain (vString _ _) \<longleftrightarrow> True"
| "plain (vPath _) \<longleftrightarrow> True"
| "plain vNull \<longleftrightarrow> True"
| "plain _ \<longleftrightarrow> False"

lemma setPlain_tail:
  assumes "heap_ok A X s T" and "grows s0 T0 s T" and "dst_ok s T v" and "plain x"
  shows "safe s0 T0 s (setValue v x) (\<lambda>_ s' T'. heap_ok A X s' T' \<and> ref_ok s' v)"
  by (rule setValue_tail [OF assms(1-3)]) (use assms(4) in \<open>cases x, auto\<close>)+

lemma createSymbol_step:
  assumes ok: "heap_ok A X s T" and g: "grows s0 T0 s T"
    and f: "\<And>x s'. heap_ok A X s' T \<Longrightarrow> grows s T s' T \<Longrightarrow> grows s0 T0 s' T \<Longrightarrow> stBindings s' = stBindings s \<Longrightarrow> safe s0 T0 s' (f x) R"
  shows "safe s0 T0 s (bindS (createSymbol n) f) R"
proof -
  obtain sy i where c: "SymbolTable_create (stSymbols s) n = (sy, i)" by fastforce
  let ?s = "s\<lparr>stSymbols := sy\<rparr>"
  have "createSymbol n s = (Inr i, ?s)" by (simp add: createSymbol_def c)
  moreover have "safe s0 T0 ?s (f i) R" by (rule f) (use ok g same_heap [of ?s s] in simp_all)
  ultimately show ?thesis by (rule safe_run)
qed

lemma liftE_step:
  assumes "\<And>e. m = Inl e \<Longrightarrow> good_error e" and "\<And>x. m = Inr x \<Longrightarrow> safe s0 T0 s (f x) R"
  shows "safe s0 T0 s (bindS (liftE m) f) R"
proof (cases m)
  case (Inl e)
  with assms(1) show ?thesis by (simp add: safe_def bindS_def liftE_def)
next
  case (Inr x)
  then have "liftE m s = (Inr x, s)" by (simp add: liftE_def)
  then show ?thesis by (rule safe_run) (rule assms(2) [OF Inr])
qed

lemma bindS_assoc: "bindS (bindS m f) g = bindS m (\<lambda>x. bindS (f x) g)"
  by (auto simp: bindS_def fun_eq_iff split: prod.splits sum.splits)

lemma bind_ret [simp]: "bindS (retS x) f = f x"
  by (simp add: bindS_def retS_def fun_eq_iff)

lemma safe_bind_throw: "good_error e \<Longrightarrow> safe s0 T0 s (bindS (throwS e) f) R"
  by (simp add: safe_def bindS_def throwS_def)

lemma allocAll_step:
  assumes "heap_ok A X s T" and "grows s0 T0 s T" and "\<forall>v \<in> set vs. value_ok A s T v \<and> v \<noteq> vUninit \<and> \<not> is_prim v"
    and "\<And>as s'. heap_ok A X s' T \<Longrightarrow> grows s T s' T \<Longrightarrow> grows s0 T0 s' T \<Longrightarrow> stBindings s' = stBindings s \<Longrightarrow> length as = length vs \<Longrightarrow>
      \<forall>a \<in> set as. ref_ok s' a \<Longrightarrow> safe s0 T0 s' (f as) R"
  shows "safe s0 T0 s (bindS (allocAll vs) f) R"
  using assms
proof (induction vs arbitrary: s f)
  case Nil
  have "allocAll [] s = (Inr [], s)" by (simp add: retS_def)
  then show ?case by (rule safe_run) (use Nil in simp)
next
  case (Cons v vs)
  have v: "value_ok A s T v" "v \<noteq> vUninit" "\<And>l r. v = vPrimOpApp l r \<Longrightarrow> protected s T l" using Cons.prems(3) by auto
  show ?case
    unfolding allocAll.simps bindS_assoc
  proof (rule safe_step [OF allocWith_safe [OF Cons.prems(1) v(1,3)] Cons.prems(2)], assumption, elim conjE)
    fix a s1 T1
    assume 1: "grows s T s1 T1" "grows s0 T0 s1 T1" "T1 = T" "s1 = s\<lparr>stValues := stValues s @ [v]\<rparr>" "heap_ok A X s1 T1" "v \<noteq> vUninit \<longrightarrow> ref_ok s1 a"
    have vs: "\<forall>v \<in> set vs. value_ok A s1 T v \<and> v \<noteq> vUninit \<and> \<not> is_prim v"
    proof
      fix u assume "u \<in> set vs"
      with Cons.prems(3) have u: "value_ok A s T u" "u \<noteq> vUninit" "\<not> is_prim u" by auto
      have "value_ok A s1 T u"
        by (rule value_ok_mono [OF u(1)]) (use 1 u(3) ref_ok_grows [OF 1(1)] in auto)
      with u show "value_ok A s1 T u \<and> u \<noteq> vUninit \<and> \<not> is_prim u" by simp
    qed
    show "safe s0 T0 s1 (bindS (allocAll vs) (\<lambda>x. bindS (retS (a # x)) f)) R"
    proof (rule Cons.IH [OF 1(5,2) [unfolded 1(3)] vs])
      fix as s'
      assume s': "heap_ok A X s' T" "grows s1 T s' T" "grows s0 T0 s' T" "stBindings s' = stBindings s1" "length as = length vs" "\<forall>a \<in> set as. ref_ok s' a"
      have "ref_ok s' a" using ref_ok_grows [OF s'(2)] 1(6) v(2) by simp
      with s' 1 have "safe s0 T0 s' (f (a # as)) R" by (intro Cons.prems(4)) (auto intro: grows_trans)
      then show "safe s0 T0 s' (bindS (retS (a # as)) f) R" by (simp add: safe_def bindS_def retS_def)
    qed
  qed
qed

context safe_evaluator
begin

lemma forced_step:
  assumes "heap_ok A {} s T" and "grows s0 T0 s T" and "ref_ok s a"
    and "\<And>v s' T'. grows s T s' T' \<Longrightarrow> grows s0 T0 s' T' \<Longrightarrow> heap_ok A {} s' T' \<Longrightarrow> ref_ok s' a \<Longrightarrow> v \<noteq> vUninit \<Longrightarrow>
      stValues s' ! a = v \<Longrightarrow> value_ok A s' T' v \<Longrightarrow> safe s0 T0 s' (f v) R"
  shows "safe s0 T0 s (bindS (forced r a) f) R"
  unfolding forced_def bindS_assoc by (rule force_typed_step [OF assms])

lemma forced_copy:
  assumes "heap_ok A {} s T" and "grows s0 T0 s T" and "ref_ok s a" and v: "dst_ok s T v"
  shows "safe s0 T0 s (bindS (forced r a) (setValue v)) (yields A v)"
  unfolding forced_def bindS_assoc
  by (rule force_step [OF assms(1-3)], rule copyValue_tail, assumption+, rule dst_ok_grows [OF _ v])

lemma forceInt_safe:
  assumes "heap_ok A {} s T" and "grows s0 T0 s T" and "ref_ok s a"
  shows "safe s0 T0 s (forceInt r a) (keeps A)"
  unfolding forceInt_def
  by (rule force_typed_step [OF assms]) (auto split: Value.split intro: safe_ret)

lemma forceBool_safe:
  assumes "heap_ok A {} s T" and "grows s0 T0 s T" and "ref_ok s a"
  shows "safe s0 T0 s (forceBool r a) (keeps A)"
  unfolding forceBool_def
  by (rule force_typed_step [OF assms]) (auto split: Value.split intro: safe_ret)

lemma forceFunction_safe:
  assumes "heap_ok A {} s T" and "grows s0 T0 s T" and "ref_ok s a"
  shows "safe s0 T0 s (forceFunction r a) (keeps A)"
  unfolding forceFunction_def
  by (rule force_typed_step [OF assms]) (auto intro: safe_ret)

end

context safe_evaluator
begin

lemma prim_test_safe:
  assumes ok: "heap_ok A {} s T" and v: "dst_ok s T v" and a: "ref_ok s (as ! 0)"
  shows "safe s T s (prim_test p r as v) (yields A v)"
  unfolding prim_test_def
  by (rule forced_step [OF ok grows_refl a], rule setPlain_tail, assumption+, rule dst_ok_grows [OF _ v], assumption, simp)

lemma prim_throws_safe:
  assumes ok: "heap_ok A {} s T" and a: "ref_ok s (as ! 0)"
  shows "safe s T s (prim_abort r as v) (yields A v)" and "safe s T s (prim_throw r as v) (yields A v)"
  unfolding prim_abort_def prim_throw_def
  by (rule safe_step [OF coerce [OF ok a] grows_refl], simp split: prod.split)+

lemma prim_trace_safe:
  assumes ok: "heap_ok A {} s T" and v: "dst_ok s T v" and a: "ref_ok s (as ! 0)" "ref_ok s (as ! 1)"
  shows "safe s T s (prim_trace r as v) (yields A v)"
  unfolding prim_trace_def
  by (rule force_step [OF ok grows_refl a(1)], rule forced_copy, assumption+, rule ref_ok_grows [OF _ a(2)], assumption, rule dst_ok_grows [OF _ v])

lemma prim_getEnv_safe:
  assumes ok: "heap_ok A {} s T" and v: "dst_ok s T v" and a: "ref_ok s (as ! 0)"
  shows "safe s T s (prim_getEnv w r as v) (yields A v)"
  unfolding prim_getEnv_def
  by (rule safe_step [OF forceStringNoCtx_safe [OF ok grows_refl a] grows_refl], rule setPlain_tail, assumption+, rule dst_ok_grows [OF _ v], assumption, simp add: mkString_def)

lemma find_attr_step:
  assumes ok: "heap_ok A {} s T" and g: "grows s0 T0 s T" and b: "b < length (stBindings s)"
    and f: "\<And>a s'. heap_ok A {} s' T \<Longrightarrow> grows s T s' T \<Longrightarrow> grows s0 T0 s' T \<Longrightarrow> ref_ok s' a \<Longrightarrow> safe s0 T0 s' (f a) R"
  shows "safe s0 T0 s (bindS (find_attr b name) f) R"
  unfolding find_attr_def bindS_assoc
proof (rule createSymbol_step [OF ok g])
  fix x s1
  assume 1: "heap_ok A {} s1 T" "grows s T s1 T" "grows s0 T0 s1 T" "stBindings s1 = stBindings s"
  have b1: "b < length (stBindings s1)" using b 1(4) by simp
  show "safe s0 T0 s1 (bindS (getBindings b) (\<lambda>y. bindS (case Bindings_find y x of
     None \<Rightarrow> throwS (EvalError (''attribute `'' @ name @ [CHR 0x27] @ '' required''))
   | Some a \<Rightarrow> retS a) f)) R"
  proof (cases "Bindings_find (stBindings s1 ! b) x")
    case None
    with b1 show ?thesis by (simp add: safe_bind_throw)
  next
    case (Some a)
    from f [OF 1(1-3) Bindings_find_ref [OF 1(1) b1 Some]] b1 Some show ?thesis by (simp add: bind_ret)
  qed
qed

lemma find_key_error: "find_key k ks = Inl e \<Longrightarrow> good_error e"
  by (auto simp: find_key_def split: list.splits Value.splits)

lemma closure_loop_safe:
  assumes "heap_ok A {} s T" and "grows s0 T0 s T" and "ref_ok s fop" and "\<forall>a \<in> set ws. ref_ok s a" and "\<forall>a \<in> set res. ref_ok s a"
  shows "safe s0 T0 s (closure_loop n r fop ws ks res) (\<lambda>res s' T'. heap_ok A {} s' T' \<and> (\<forall>a \<in> set res. ref_ok s' a))"
  using assms
proof (induction n arbitrary: s T ws ks res)
  case (Suc n)
  let ?Q = "\<lambda>res s' T'. heap_ok A {} s' T' \<and> (\<forall>a \<in> set res. ref_ok s' a)"
  show ?case
  proof (cases ws)
    case Nil
    with Suc.prems show ?thesis by (auto intro: safe_ret)
  next
    case (Cons e ws')
    have e: "ref_ok s e" using Suc.prems(4) Cons by simp
    show ?thesis
      unfolding closure_loop.simps Cons list.case
    proof (rule safe_step [OF forceAttrs_safe [OF Suc.prems(1) grows_refl e] Suc.prems(2)], elim conjE, rule find_attr_step, assumption+,
        rule forced_step, assumption+, rule liftE_step, erule find_key_error)
      fix b s1 T1 k s2 key s3 T3 found
      assume "grows s T s1 T1" "grows s1 T1 s2 T1" "grows s2 T1 s3 T3" and g: "grows s0 T0 s3 T3" and ok: "heap_ok A {} s3 T3"
      then have g3: "grows s T s3 T3" by (blast intro: grows_trans)
      have refs: "ref_ok s3 fop" "\<forall>a \<in> set ws'. ref_ok s3 a" "\<forall>a \<in> set res. ref_ok s3 a" "ref_ok s3 e"
        using Suc.prems(3-5) Cons e ref_ok_grows [OF g3] by auto
      have new: "safe s0 T0 s3 (bindS (getValue e) (\<lambda>ev. bindS (allocWith ev) (\<lambda>copy. bindS (allocWith (vApp fop e)) (\<lambda>call.
           bindS (forceList r call) (\<lambda>new. bindS (foldS (evForce r) new) (\<lambda>_.
             closure_loop n r fop (ws' @ new) (ks @ [key]) (res @ [copy]))))))) ?Q"
      proof (rule safe_getValue_ref [OF ok refs(4)])
        let ?ev = "stValues s3 ! e"
        assume ev: "?ev \<noteq> vUninit" "value_ok A s3 T3 ?ev"
        have app: "\<And>l x. ?ev = vPrimOpApp l x \<Longrightarrow> protected s3 T3 l" using refs(4) by (auto simp: protected_def ref_ok_def)
        show "safe s0 T0 s3 (bindS (allocWith ?ev) (\<lambda>copy. bindS (allocWith (vApp fop e)) (\<lambda>call.
           bindS (forceList r call) (\<lambda>new. bindS (foldS (evForce r) new) (\<lambda>_.
             closure_loop n r fop (ws' @ new) (ks @ [key]) (res @ [copy])))))) ?Q"
        proof (rule safe_step [OF allocWith_safe [OF ok ev(2) app] g], assumption, elim conjE)
          fix copy s4 T4
          assume 4: "grows s3 T3 s4 T4" "grows s0 T0 s4 T4" "heap_ok A {} s4 T4" "?ev \<noteq> vUninit \<longrightarrow> ref_ok s4 copy"
          have vapp: "value_ok A s4 T4 (vApp fop e)" using ref_ok_grows [OF 4(1)] refs by simp
          show "safe s0 T0 s4 (bindS (allocWith (vApp fop e)) (\<lambda>call. bindS (forceList r call) (\<lambda>new. bindS (foldS (evForce r) new) (\<lambda>_.
             closure_loop n r fop (ws' @ new) (ks @ [key]) (res @ [copy]))))) ?Q"
          proof (rule safe_step [OF allocWith_safe [OF 4(3) vapp] 4(2)], simp, elim conjE)
            fix call s5 T5
            assume 5: "grows s4 T4 s5 T5" "grows s0 T0 s5 T5" "heap_ok A {} s5 T5" "vApp fop e \<noteq> vUninit \<longrightarrow> ref_ok s5 call"
            have call5: "ref_ok s5 call" using 5(4) by simp
            show "safe s0 T0 s5 (bindS (forceList r call) (\<lambda>new. bindS (foldS (evForce r) new) (\<lambda>_.
               closure_loop n r fop (ws' @ new) (ks @ [key]) (res @ [copy])))) ?Q"
            proof (rule safe_step [OF forceList_safe [OF 5(3) grows_refl call5] 5(2)], elim conjE)
              fix new s6 T6
              assume 6: "grows s5 T5 s6 T6" "grows s0 T0 s6 T6" "heap_ok A {} s6 T6" "\<forall>a \<in> set new. ref_ok s6 a"
              have fold: "safe s6 T6 s6 (foldS (evForce r) new) (keeps A)"
                by (rule safe_foldS [OF 6(3) grows_refl, where P = "\<lambda>x s T. ref_ok s x"]) (use 6(4) force ref_ok_grows in auto)
              show "safe s0 T0 s6 (bindS (foldS (evForce r) new) (\<lambda>_. closure_loop n r fop (ws' @ new) (ks @ [key]) (res @ [copy]))) ?Q"
              proof (rule safe_step [OF fold 6(2)])
                fix s7 T7
                assume 7: "grows s6 T6 s7 T7" "grows s0 T0 s7 T7" "heap_ok A {} s7 T7"
                have "grows s4 T4 s7 T7" using 5(1) 6(1) 7(1) by (blast intro: grows_trans)
                note up = ref_ok_grows [OF this] ref_ok_grows [OF grows_trans [OF 4(1) this]] ref_ok_grows [OF 7(1)]
                show "safe s0 T0 s7 (closure_loop n r fop (ws' @ new) (ks @ [key]) (res @ [copy])) ?Q"
                  by (rule Suc.IH [OF 7(3,2)]) (use up refs 6(4) 4(4) ev(1) in auto)
              qed
            qed
          qed
        qed
      qed
      show "safe s0 T0 s3 (if found then closure_loop n r fop ws' ks res
         else bindS (getValue e) (\<lambda>ev. bindS (allocWith ev) (\<lambda>copy. bindS (allocWith (vApp fop e)) (\<lambda>call.
           bindS (forceList r call) (\<lambda>new. bindS (foldS (evForce r) new) (\<lambda>_.
             closure_loop n r fop (ws' @ new) (ks @ [key]) (res @ [copy]))))))) ?Q"
        using Suc.IH [OF ok g refs(1-3)] new by simp
    qed
  qed
qed simp

lemma prim_genericClosure_safe:
  assumes ok: "heap_ok A {} s T" and v: "dst_ok s T v" and a: "ref_ok s (as ! 0)"
  shows "safe s T s (prim_genericClosure n r as v) (yields A v)"
  unfolding prim_genericClosure_def
proof (rule safe_step [OF forceAttrs_safe [OF ok grows_refl a] grows_refl], elim conjE, rule find_attr_step, assumption+)
  fix b s1 T1 st s2
  assume 1: "grows s T s1 T1" "b < length (stBindings s1)" and 2: "heap_ok A {} s2 T1" "grows s1 T1 s2 T1" "grows s T s2 T1" "ref_ok s2 st"
  show "safe s T s2 (bindS (forceList r st) (\<lambda>workSet. bindS (find_attr b ''operator'') (\<lambda>fop. bindS (evForce r fop) (\<lambda>_.
     bindS (closure_loop n r fop workSet [] []) (\<lambda>res. setValue v (vList res)))))) (yields A v)"
  proof (rule safe_step [OF forceList_safe [OF 2(1) grows_refl 2(4)] 2(3)], elim conjE)
    fix ws s3 T3
    assume 3: "grows s2 T1 s3 T3" "grows s T s3 T3" "heap_ok A {} s3 T3" "\<forall>a \<in> set ws. ref_ok s3 a"
    have b3: "b < length (stBindings s3)" using bindings_grows [OF 3(1)] bindings_grows [OF 2(2) 1(2)] by blast
    show "safe s T s3 (bindS (find_attr b ''operator'') (\<lambda>fop. bindS (evForce r fop) (\<lambda>_.
       bindS (closure_loop n r fop ws [] []) (\<lambda>res. setValue v (vList res))))) (yields A v)"
    proof (rule find_attr_step [OF 3(3,2) b3], rule force_step, assumption+)
      fix fop s4 s5 T5
      assume 5: "grows s3 T3 s4 T3" "grows s4 T3 s5 T5" "grows s T s5 T5" "heap_ok A {} s5 T5" "ref_ok s5 fop"
      have "\<forall>a \<in> set ws. ref_ok s5 a" using 3(4) ref_ok_grows [OF grows_trans [OF 5(1,2)]] by blast
      then show "safe s T s5 (bindS (closure_loop n r fop ws [] []) (\<lambda>res. setValue v (vList res))) (yields A v)"
        by (intro safe_step [OF closure_loop_safe [OF 5(4) grows_refl 5(5)] 5(3)])
          (auto intro!: setValue_tail dst_ok_grows [OF _ v])
    qed
  qed
qed

end

context safe_evaluator
begin

lemma coercePath_safe:
  assumes ok: "heap_ok A {} s T" and g: "grows s0 T0 s T" and a: "ref_ok s a"
  shows "safe s0 T0 s (coercePath r a) (keeps A)" and "safe s0 T0 s (coercePathNoCtx r a) (keeps A)"
proof -
  have *: "safe s0 T0 s (coercePath r a) (keeps A)" if "grows s0 T0 s T" for s0 T0
    unfolding coercePath_def by (rule safe_step [OF coerce [OF ok a] that]) (auto split: prod.split intro: keeps_ret)
  show "safe s0 T0 s (coercePath r a) (keeps A)" by (rule * [OF g])
  show "safe s0 T0 s (coercePathNoCtx r a) (keeps A)"
    unfolding coercePathNoCtx_def by (rule safe_step [OF * [OF grows_refl] g]) (auto split: prod.split intro: keeps_ret)
qed

lemma prim_toPath_safe:
  assumes ok: "heap_ok A {} s T" and v: "dst_ok s T v" and a: "ref_ok s (as ! 0)"
  shows "safe s T s (prim_toPath r as v) (yields A v)"
  unfolding prim_toPath_def
  by (rule safe_step [OF coercePath_safe(1) [OF ok grows_refl a] grows_refl])
    (auto split: prod.split simp: mkString_def dest: canonPath_plain intro!: liftE_step setPlain_tail dst_ok_grows [OF _ v])

lemma prim_pathExists_safe:
  assumes ok: "heap_ok A {} s T" and v: "dst_ok s T v" and a: "ref_ok s (as ! 0)" and w: "\<And>p e. wPathExists w p = Inl e \<Longrightarrow> good_error e"
  shows "safe s T s (prim_pathExists w r as v) (yields A v)"
  unfolding prim_pathExists_def
  by (rule safe_step [OF coercePath_safe(2) [OF ok grows_refl a] grows_refl])
    (auto dest: w intro!: liftE_step setPlain_tail dst_ok_grows [OF _ v])

lemma prim_readFile_safe:
  assumes ok: "heap_ok A {} s T" and v: "dst_ok s T v" and a: "ref_ok s (as ! 0)" and w: "\<And>p e. wReadFile w p = Inl e \<Longrightarrow> good_error e"
  shows "safe s T s (prim_readFile w r as v) (yields A v)"
  unfolding prim_readFile_def
  by (rule safe_step [OF coercePath_safe(2) [OF ok grows_refl a] grows_refl])
    (auto dest: w simp: mkString_def intro!: liftE_step setPlain_tail dst_ok_grows [OF _ v])

lemma prim_baseNameOf_safe:
  assumes ok: "heap_ok A {} s T" and v: "dst_ok s T v" and a: "ref_ok s (as ! 0)"
  shows "safe s T s (prim_baseNameOf r as v) (yields A v)"
  unfolding prim_baseNameOf_def
  by (rule safe_step [OF coerce [OF ok a] grows_refl])
    (auto split: prod.split option.splits simp: baseNameOf_def mkString_def intro!: liftE_step setPlain_tail dst_ok_grows [OF _ v])

lemma prim_dirOf_safe:
  assumes ok: "heap_ok A {} s T" and v: "dst_ok s T v" and a: "ref_ok s (as ! 0)"
  shows "safe s T s (prim_dirOf r as v) (yields A v)"
  unfolding prim_dirOf_def
proof (rule safe_step [OF coercePath_safe(1) [OF ok grows_refl a] grows_refl])
  fix x s1 T1
  assume 1: "grows s T s1 T1" "heap_ok A {} s1 T1"
  show "safe s T s1 (case x of (p, context) \<Rightarrow> bindS (liftE (dirOf p)) (\<lambda>dir. bindS (getValue (as ! 0)) (\<lambda>x.
       setValue v (case x of vPath _ \<Rightarrow> vPath (c_str dir) | _ \<Rightarrow> mkString dir context)))) (yields A v)"
  proof (cases x, simp only: prod.case, rule liftE_step)
    fix p ctx e
    assume "dirOf p = Inl e"
    then show "good_error e" by (auto simp: dirOf_def split: option.splits)
  next
    fix p ctx dir
    show "safe s T s1 (bindS (getValue (as ! 0)) (\<lambda>x. setValue v (case x of vPath _ \<Rightarrow> vPath (c_str dir) | _ \<Rightarrow> mkString dir ctx))) (yields A v)"
      by (rule safe_getValue_ref [OF 1(2) ref_ok_grows [OF 1(1) a]], rule setPlain_tail [OF 1(2,1) dst_ok_grows [OF 1(1) v]])
        (simp add: mkString_def split: Value.split)
  qed
qed

lemma toFile_refs_error: "toFile_refs name ctx = Inl e \<Longrightarrow> good_error e"
  unfolding toFile_refs_def by (erule foldE_error) (auto simp: Let_def split: if_splits)

lemma prim_toFile_safe:
  assumes ok: "heap_ok A {} s T" and v: "dst_ok s T v" and a: "ref_ok s (as ! 0)" "ref_ok s (as ! 1)" and w: "\<And>n c refs e. wAddText w n c refs = Inl e \<Longrightarrow> good_error e"
  shows "safe s T s (prim_toFile w r as v) (yields A v)"
  unfolding prim_toFile_def
proof (rule safe_step [OF forceStringNoCtx_safe [OF ok grows_refl a(1)] grows_refl])
  fix name s1 T1
  assume 1: "grows s T s1 T1" "heap_ok A {} s1 T1"
  show "safe s T s1 (bindS (forceString r (as ! 1)) (\<lambda>(contents, context).
     bindS (liftE (toFile_refs name (copyContext context []))) (\<lambda>refs.
     bindS (liftE (wAddText w name contents refs)) (\<lambda>p. setValue v (mkString p [p]))))) (yields A v)"
    by (rule safe_step [OF forceString_safe [OF 1(2) grows_refl ref_ok_grows [OF 1(1) a(2)]] 1(1)])
      (auto dest: w toFile_refs_error simp: mkString_def split: prod.split
        intro!: liftE_step setPlain_tail dst_ok_grows [OF _ dst_ok_grows [OF 1(1) v]])
qed

lemma prim_attrNames_safe:
  assumes ok: "heap_ok A {} s T" and v: "dst_ok s T v" and a: "ref_ok s (as ! 0)"
  shows "safe s T s (prim_attrNames r as v) (yields A v)"
  unfolding prim_attrNames_def
proof (rule safe_step [OF forceAttrs_safe [OF ok grows_refl a] grows_refl], elim conjE, simp)
  fix b s1 T1
  assume 1: "grows s T s1 T1" "heap_ok A {} s1 T1"
  let ?vs = "map (\<lambda>n. mkString n []) (set_of_list (map (\<lambda>i. symbol_string (stSymbols s1) (fst i)) (stBindings s1 ! b)))"
  have "safe s T s1 (bindS (allocAll ?vs) (\<lambda>cells. setValue v (vList cells))) (yields A v)"
    by (rule allocAll_step [OF 1(2,1)], simp add: mkString_def, rule setValue_tail, assumption, assumption,
        rule dst_ok_grows [OF _ dst_ok_grows [OF 1(1) v]]) auto
  then show "safe s T s1 (bindS (\<lambda>s. allocAll (map (\<lambda>n. mkString n []) (set_of_list (map (\<lambda>i. symbol_string (stSymbols s) (fst i)) (stBindings s1 ! b)))) s)
     (\<lambda>cells. setValue v (vList cells))) (yields A v)" by (simp add: safe_def bindS_def)
qed

text \<open>An attribute set as the second argument, and the name of an attribute as the first.\<close>

lemma named_attr_step:
  assumes ok: "heap_ok A {} s T" and a: "ref_ok s a0" "ref_ok s a1"
    and f: "\<And>attr x b s' T'. heap_ok A {} s' T' \<Longrightarrow> grows s T s' T' \<Longrightarrow> b < length (stBindings s') \<Longrightarrow> safe s T s' (f attr x (stBindings s' ! b)) R"
  shows "safe s T s (bindS (forceStringNoCtx r a0) (\<lambda>attr. bindS (forceAttrs r a1) (\<lambda>b. bindS (createSymbol attr) (\<lambda>x. bindS (getBindings b) (f attr x))))) R"
proof (rule safe_step [OF forceStringNoCtx_safe [OF ok grows_refl a(1)] grows_refl])
  fix attr s1 T1
  assume 1: "grows s T s1 T1" "heap_ok A {} s1 T1"
  show "safe s T s1 (bindS (forceAttrs r a1) (\<lambda>b. bindS (createSymbol attr) (\<lambda>x. bindS (getBindings b) (f attr x)))) R"
  proof (rule safe_step [OF forceAttrs_safe [OF 1(2) grows_refl ref_ok_grows [OF 1(1) a(2)]] 1(1)], elim conjE, rule createSymbol_step, assumption+)
    fix b s2 T2 x s3
    assume "b < length (stBindings s2)" "heap_ok A {} s3 T2" "grows s T s3 T2" "stBindings s3 = stBindings s2"
    then show "safe s T s3 (bindS (getBindings b) (f attr x)) R" using f [of s3 T2 b attr x] by simp
  qed
qed

lemma prim_getAttr_safe:
  assumes ok: "heap_ok A {} s T" and v: "dst_ok s T v" and a: "ref_ok s (as ! 0)" "ref_ok s (as ! 1)"
  shows "safe s T s (prim_getAttr r as v) (yields A v)"
  unfolding prim_getAttr_def
  by (rule named_attr_step [OF ok a])
    (auto split: option.split intro!: forced_copy dst_ok_grows [OF _ v] elim!: Bindings_find_ref)

lemma prim_hasAttr_safe:
  assumes ok: "heap_ok A {} s T" and v: "dst_ok s T v" and a: "ref_ok s (as ! 0)" "ref_ok s (as ! 1)"
  shows "safe s T s (prim_hasAttr r as v) (yields A v)"
  unfolding prim_hasAttr_def
  by (rule named_attr_step [OF ok a]) (auto intro!: setPlain_tail dst_ok_grows [OF _ v])

end

lemma intersect_attrs_set: "i \<in> set (intersect_attrs bs1 bs2) \<Longrightarrow> fst i \<in> fst ` set bs1 \<and> Bindings_find bs2 (fst i) = Some (snd i)"
  by (force simp: intersect_attrs_def split: option.splits)

lemma intersect_attrs_is_set: "is_set (map fst bs1) \<Longrightarrow> is_set (map fst (intersect_attrs bs1 bs2))"
proof (induction bs1)
  case (Cons i bs1)
  then have "\<forall>j \<in> set (intersect_attrs bs1 bs2). fst i < fst j" by (auto dest!: intersect_attrs_set)
  with Cons show ?case by (auto simp: intersect_attrs_def split: option.split)
qed (simp add: intersect_attrs_def)

lemma SymbolTable_create_distinct:
  assumes "SymbolTable_create sy x = (sy1, i)" and "SymbolTable_create sy1 y = (sy2, j)" and "x \<noteq> y"
  shows "i \<noteq> j"
proof -
  have i: "i < length sy1 \<and> sy1 ! i = x"
    using assms(1) index_of_Some by (fastforce simp: SymbolTable_create_def split: option.splits)
  show ?thesis
  proof (cases "index_of y sy1")
    case None
    with assms(2) i show ?thesis by (auto simp: SymbolTable_create_def)
  next
    case (Some k)
    with assms(2) index_of_Some [OF Some] i assms(3) show ?thesis by (auto simp: SymbolTable_create_def)
  qed
qed

context safe_evaluator
begin

lemma forced_symbols_safe:
  assumes "heap_ok A {} s T" and "grows s0 T0 s T" and "\<forall>a \<in> set as. ref_ok s a"
  shows "safe s0 T0 s (forced_symbols r as) (keeps A)"
  using assms
proof (induction as arbitrary: s T s0 T0)
  case Nil
  then show ?case by (auto intro: keeps_ret)
next
  case (Cons a as)
  have a: "ref_ok s a" using Cons.prems(3) by simp
  show ?case
    unfolding forced_symbols.simps
  proof (rule safe_step [OF forceStringNoCtx_safe [OF Cons.prems(1) grows_refl a] Cons.prems(2)], rule createSymbol_step, assumption+)
    fix str s1 T1 x s2
    assume 2: "grows s T s1 T1" "heap_ok A {} s2 T1" "grows s1 T1 s2 T1" "grows s0 T0 s2 T1"
    have "\<forall>a \<in> set as. ref_ok s2 a" using Cons.prems(3) ref_ok_grows [OF grows_trans [OF 2(1,3)]] by simp
    then show "safe s0 T0 s2 (bindS (forced_symbols r as) (\<lambda>xs. retS (x # xs))) (keeps A)"
      by (intro safe_step [OF Cons.IH [OF 2(2) grows_refl] 2(4)]) (auto intro: keeps_ret)
  qed
qed

lemma mkAttrs_last:
  assumes "heap_ok A {} s T" and "grows s0 T0 s T" and "dst_ok s T v" and "is_set (map fst bs)" and "\<And>i. i \<in> set bs \<Longrightarrow> ref_ok s (snd i)"
  shows "safe s0 T0 s (bindS (mkAttrs v bs) (\<lambda>_. retS ())) (yields A v)"
  by (rule safe_step [OF mkAttrs_tail [OF assms(1) grows_refl assms(3-5)] assms(2)]) (auto intro: safe_ret)

lemma prim_removeAttrs_safe:
  assumes ok: "heap_ok A {} s T" and v: "dst_ok s T v" and a: "ref_ok s (as ! 0)" "ref_ok s (as ! 1)"
  shows "safe s T s (prim_removeAttrs r as v) (yields A v)"
  unfolding prim_removeAttrs_def
proof (rule safe_step [OF forceAttrs_safe [OF ok grows_refl a(1)] grows_refl], elim conjE)
  fix b s1 T1
  assume 1: "grows s T s1 T1" "heap_ok A {} s1 T1" "b < length (stBindings s1)"
  show "safe s T s1 (bindS (forceList r (as ! 1)) (\<lambda>elems. bindS (forced_symbols r elems) (\<lambda>names.
     bindS (getBindings b) (\<lambda>bs. bindS (mkAttrs v (filter (\<lambda>i. fst i \<notin> set names) bs)) (\<lambda>_. retS ()))))) (yields A v)"
  proof (rule safe_step [OF forceList_safe [OF 1(2) grows_refl ref_ok_grows [OF 1(1) a(2)]] 1(1)], elim conjE)
    fix elems s2 T2
    assume 2: "grows s1 T1 s2 T2" "grows s T s2 T2" "heap_ok A {} s2 T2" "\<forall>a \<in> set elems. ref_ok s2 a"
    show "safe s T s2 (bindS (forced_symbols r elems) (\<lambda>names.
     bindS (getBindings b) (\<lambda>bs. bindS (mkAttrs v (filter (\<lambda>i. fst i \<notin> set names) bs)) (\<lambda>_. retS ())))) (yields A v)"
    proof (rule safe_step [OF forced_symbols_safe [OF 2(3) grows_refl 2(4)] 2(2)])
      fix names :: "Symbol list" and s3 T3
      assume 3: "grows s2 T2 s3 T3" "grows s T s3 T3" "heap_ok A {} s3 T3"
      have b3: "b < length (stBindings s3)" using bindings_grows [OF 3(1)] bindings_grows [OF 2(1) 1(3)] by blast
      have "is_set (map fst (filter (\<lambda>i. fst i \<notin> set names) (stBindings s3 ! b)))"
        using heap_okD(4) [OF 3(3) b3] by (simp add: sorted_wrt_map sorted_wrt_filter)
      from mkAttrs_last [OF 3(3,2) dst_ok_grows [OF 3(2) v] this] heap_okD(5) [OF 3(3) b3] b3
      show "safe s T s3 (bindS (getBindings b) (\<lambda>bs. bindS (mkAttrs v (filter (\<lambda>i. fst i \<notin> set names) bs)) (\<lambda>_. retS ()))) (yields A v)"
        by simp
    qed
  qed
qed

lemma prim_intersectAttrs_safe:
  assumes ok: "heap_ok A {} s T" and v: "dst_ok s T v" and a: "ref_ok s (as ! 0)" "ref_ok s (as ! 1)"
  shows "safe s T s (prim_intersectAttrs r as v) (yields A v)"
  unfolding prim_intersectAttrs_def
proof (rule safe_step [OF forceAttrs_safe [OF ok grows_refl a(1)] grows_refl], elim conjE)
  fix b1 s1 T1
  assume 1: "grows s T s1 T1" "heap_ok A {} s1 T1" "b1 < length (stBindings s1)"
  show "safe s T s1 (bindS (forceAttrs r (as ! 1)) (\<lambda>b2. bindS (getBindings b1) (\<lambda>bs1. bindS (getBindings b2) (\<lambda>bs2.
     bindS (mkAttrs v (intersect_attrs bs1 bs2)) (\<lambda>_. retS ()))))) (yields A v)"
  proof (rule safe_step [OF forceAttrs_safe [OF 1(2) grows_refl ref_ok_grows [OF 1(1) a(2)]] 1(1)], elim conjE)
    fix b2 s2 T2
    assume 2: "grows s1 T1 s2 T2" "grows s T s2 T2" "heap_ok A {} s2 T2" "b2 < length (stBindings s2)"
    have b1: "b1 < length (stBindings s2)" using bindings_grows [OF 2(1) 1(3)] by simp
    have "ref_ok s2 (snd i)" if "i \<in> set (intersect_attrs (stBindings s2 ! b1) (stBindings s2 ! b2))" for i
      using intersect_attrs_set [OF that] Bindings_find_ref [OF 2(3,4)] by blast
    from mkAttrs_last [OF 2(3,2) dst_ok_grows [OF 2(2) v] intersect_attrs_is_set [OF heap_okD(4) [OF 2(3) b1]] this] b1 2(4)
    show "safe s T s2 (bindS (getBindings b1) (\<lambda>bs1. bindS (getBindings b2) (\<lambda>bs2.
       bindS (mkAttrs v (intersect_attrs bs1 bs2)) (\<lambda>_. retS ())))) (yields A v)" by simp
  qed
qed

lemma prim_functionArgs_safe:
  assumes ok: "heap_ok A {} s T" and v: "dst_ok s T v" and a: "ref_ok s (as ! 0)"
  shows "safe s T s (prim_functionArgs r as v) (yields A v)"
  unfolding prim_functionArgs_def
proof (rule forced_step [OF ok grows_refl a])
  fix x s1 T1
  assume 1: "grows s T s1 T1" "heap_ok A {} s1 T1" "value_ok A s1 T1 x"
  have "safe s T s1 (bindS (allocAll (map (\<lambda>f. vBool (snd f \<noteq> None)) fs)) (\<lambda>cells. bindS (mkAttrs v (Bindings_sort (zip (map fst fs) cells))) (\<lambda>_. retS ()))) (yields A v)"
    if "distinct (map fst fs)" for fs :: "(Symbol \<times> Expr option) list"
  proof (rule allocAll_step [OF 1(2,1)], simp)
    fix cells s2
    assume 2: "heap_ok A {} s2 T1" "grows s1 T1 s2 T1" "grows s T s2 T1" "length cells = length (map (\<lambda>f. vBool (snd f \<noteq> None)) fs)" "\<forall>a \<in> set cells. ref_ok s2 a"
    have "is_set (map fst (Bindings_sort (zip (map fst fs) cells)))" by (rule Bindings_sort_is_set) (use 2(4) that in simp)
    moreover have "ref_ok s2 (snd i)" if "i \<in> set (Bindings_sort (zip (map fst fs) cells))" for i
    proof -
      have "i \<in> set (zip (map fst fs) cells)" using that by (simp add: Bindings_sort_def)
      then have "snd i \<in> set cells" by (metis prod.collapse set_zip_rightD)
      with 2(5) show ?thesis by blast
    qed
    ultimately show "safe s T s2 (bindS (mkAttrs v (Bindings_sort (zip (map fst fs) cells))) (\<lambda>_. retS ())) (yields A v)"
      using mkAttrs_last [OF 2(1,3) dst_ok_grows [OF 2(3) v]] by blast
  qed
  note mk = this
  show "safe s T s1 (case x of
       vLambda en pos param formals body \<Rightarrow>
         (let fs = (case formals of None \<Rightarrow> [] | Some (fs, ellipsis) \<Rightarrow> fs)
          in bindS (allocAll (map (\<lambda>f. vBool (snd f \<noteq> None)) fs)) (\<lambda>cells.
             bindS (mkAttrs v (Bindings_sort (zip (map fst fs) cells))) (\<lambda>_. retS ())))
     | _ \<Rightarrow> throwS (TypeError (''`functionArgs'' @ [CHR 0x27] @ '' requires a function''))) (yields A v)"
    using mk [of "[]"] mk 1(3) by (cases x) (auto split: option.split simp: Let_def)
qed

end

lemma in_set_tl: "x \<in> set (tl xs) \<Longrightarrow> x \<in> set xs"
  by (cases xs) auto

lemma dirOf_error: "dirOf p = Inl e \<Longrightarrow> good_error e"
  by (auto simp: dirOf_def split: option.splits)

lemma canonPath_loop_error:
  assumes link: "\<And>p e. link p = Inl e \<Longrightarrow> good_error e"
  shows "canonPath_loop link resolve p i s n = Inl e \<Longrightarrow> good_error e"
  using link
proof (induction link resolve p i s n arbitrary: e rule: canonPath_loop.induct)
  case (1 link resolve p i s n)
  show ?case
  proof (cases "dropWhile (\<lambda>c. c = CHR ''/'') i")
    case Nil
    with "1.prems"(1) show ?thesis by (subst (asm) canonPath_loop.simps) simp
  next
    case (Cons c r)
    note run = "1.prems"(1) [unfolded canonPath_loop.simps [of link resolve p i s n] Cons list.case]
    let ?dot = "c = CHR ''.'' \<and> (r = [] \<or> hd r = CHR ''/'')"
    let ?dots = "c = CHR ''.'' \<and> r \<noteq> [] \<and> hd r = CHR ''.'' \<and> (tl r = [] \<or> hd (tl r) = CHR ''/'')"
    show ?thesis
    proof (cases ?dot)
      case True
      with run have "canonPath_loop link resolve p r s n = Inl e" by simp
      from "1.IH"(1) [OF Cons True this "1.prems"(2)] show ?thesis .
    next
      case dot: False
      show ?thesis
      proof (cases ?dots)
        case True
        show ?thesis
        proof (cases "s = []")
          case s: True
          with run dot True have "canonPath_loop link resolve p (tl r) s n = Inl e" by (simp only: if_True if_False simp_thms)
          from "1.IH"(3) [OF Cons dot True _ this "1.prems"(2)] s show ?thesis by simp
        next
          case s: False
          show ?thesis
          proof (cases "rfind_char (CHR ''/'') s")
            case None
            with run dot True s show ?thesis by simp
          next
            case (Some pos)
            with run dot True s have "canonPath_loop link resolve p (tl r) (take pos s) n = Inl e" by simp
            from "1.IH"(2) [OF Cons dot True s Some this "1.prems"(2)] show ?thesis .
          qed
        qed
      next
        case dots: False
        note run' = run [unfolded if_not_P [OF dot] if_not_P [OF dots] Let_def]
        show ?thesis
        proof (cases resolve)
          case False
          with run' have "canonPath_loop link resolve p (dropWhile (\<lambda>c. c \<noteq> CHR ''/'') r) (s @ [CHR ''/''] @ c # takeWhile (\<lambda>c. c \<noteq> CHR ''/'') r) n = Inl e" by simp
          from "1.IH"(7) [OF Cons dot dots refl refl refl False this "1.prems"(2)] show ?thesis .
        next
          case True
          let ?i = "dropWhile (\<lambda>c. c \<noteq> CHR ''/'') r" and ?s = "s @ [CHR ''/''] @ c # takeWhile (\<lambda>c. c \<noteq> CHR ''/'') r"
          show ?thesis
          proof (cases "link ?s")
            case (Inl e')
            with run' True "1.prems"(2) show ?thesis by simp
          next
            case (Inr l)
            show ?thesis
            proof (cases l)
              case None
              with run' True Inr have "canonPath_loop link resolve p ?i ?s n = Inl e" by simp
              from "1.IH"(4) [OF Cons dot dots refl refl refl True Inr None this "1.prems"(2)] show ?thesis .
            next
              case (Some target)
              show ?thesis
              proof (cases "Suc n \<ge> maxFollow")
                case True
                with run' \<open>resolve\<close> Inr Some show ?thesis by auto
              next
                case follow: False
                let ?abs = "if char_at target 0 \<noteq> CHR ''/'' then bindE (dirOf ?s) (\<lambda>d. Inr (d @ ''/'' @ target)) else Inr target"
                let ?canon = "\<lambda>t. if char_at t 0 \<noteq> CHR ''/'' then Inl (Error (''not an absolute path: `'' @ t @ [CHR 0x27])) else canonPath_loop link False t t [] 0"
                from run' \<open>resolve\<close> Inr Some follow
                have "bindE ?abs (\<lambda>t. bindE (?canon t) (\<lambda>t. canonPath_loop link resolve p (t @ ?i) [] (Suc n))) = Inl e" by simp
                then consider "?abs = Inl e" | t where "?abs = Inr t" "?canon t = Inl e"
                  | t t' where "?abs = Inr t" "?canon t = Inr t'" "canonPath_loop link resolve p (t' @ ?i) [] (Suc n) = Inl e"
                  unfolding bindE_eq_Inl by blast
                then show ?thesis
                proof cases
                  case 1
                  then show ?thesis by (auto simp: bindE_eq_Inl dest: dirOf_error split: if_splits)
                next
                  case 2
                  show ?thesis
                  proof (cases "char_at t 0 = CHR ''/''")
                    case True
                    with 2(2) have "canonPath_loop link False t t [] 0 = Inl e" by simp
                    with "1.IH"(5) [OF Cons dot dots refl refl refl \<open>resolve\<close> Inr Some follow 2(1) _ _ "1.prems"(2)] True show ?thesis by simp
                  qed (use 2(2) in auto)
                next
                  case 3
                  from "1.IH"(6) [OF Cons dot dots refl refl refl \<open>resolve\<close> Inr Some follow 3(1,2,3) "1.prems"(2)] show ?thesis .
                qed
              qed
            qed
          qed
        qed
      qed
    qed
  qed
qed

context safe_evaluator
begin

lemma elemAt_safe:
  assumes ok: "heap_ok A {} s T" and g: "grows s0 T0 s T" and v: "dst_ok s T v" and a: "ref_ok s a"
  shows "safe s0 T0 s (elemAt r a n v) (yields A v)"
  unfolding elemAt_def
  by (rule safe_step [OF forceList_safe [OF ok grows_refl a] g]) (auto intro!: forced_copy dst_ok_grows [OF _ v])

lemma prim_elemAt_safe:
  assumes ok: "heap_ok A {} s T" and v: "dst_ok s T v" and a: "ref_ok s (as ! 0)" "ref_ok s (as ! 1)"
  shows "safe s T s (prim_elemAt r as v) (yields A v)"
  unfolding prim_elemAt_def
  by (rule safe_step [OF forceInt_safe [OF ok grows_refl a(2)] grows_refl])
    (auto intro!: elemAt_safe dst_ok_grows [OF _ v] ref_ok_grows [OF _ a(1)])

lemma prim_head_safe:
  assumes ok: "heap_ok A {} s T" and v: "dst_ok s T v" and a: "ref_ok s (as ! 0)"
  shows "safe s T s (prim_head r as v) (yields A v)"
  unfolding prim_head_def by (rule elemAt_safe [OF ok grows_refl v a])

lemma prim_tail_safe:
  assumes ok: "heap_ok A {} s T" and v: "dst_ok s T v" and a: "ref_ok s (as ! 0)"
  shows "safe s T s (prim_tail r as v) (yields A v)"
  unfolding prim_tail_def
proof (rule safe_step [OF forceList_safe [OF ok grows_refl a] grows_refl], elim conjE)
  fix elems s1 T1
  assume 1: "grows s T s1 T1" "heap_ok A {} s1 T1" "\<forall>a \<in> set elems. ref_ok s1 a"
  have "\<forall>a \<in> set (tl elems). ref_ok s1 a" using 1(3) in_set_tl by fast
  then show "safe s T s1 (if elems = [] then throwS (Error (''`tail'' @ [CHR 0x27] @ '' called on an empty list'')) else setValue v (vList (tl elems))) (yields A v)"
    using setValue_tail [OF 1(2,1) dst_ok_grows [OF 1(1) v], of "vList (tl elems)"] by simp
qed

lemma prim_map_safe:
  assumes ok: "heap_ok A {} s T" and v: "dst_ok s T v" and a: "ref_ok s (as ! 0)" "ref_ok s (as ! 1)"
  shows "safe s T s (prim_map r as v) (yields A v)"
  unfolding prim_map_def
proof (rule safe_step [OF forceFunction_safe [OF ok grows_refl a(1)] grows_refl])
  fix s1 T1
  assume 1: "grows s T s1 T1" "heap_ok A {} s1 T1"
  show "safe s T s1 (bindS (forceList r (as ! 1)) (\<lambda>elems.
     bindS (allocAll (map (\<lambda>e. vApp (as ! 0) e) elems)) (\<lambda>cells. setValue v (vList cells)))) (yields A v)"
  proof (rule safe_step [OF forceList_safe [OF 1(2) grows_refl ref_ok_grows [OF 1(1) a(2)]] 1(1)], elim conjE)
    fix elems s2 T2
    assume 2: "grows s1 T1 s2 T2" "grows s T s2 T2" "heap_ok A {} s2 T2" "\<forall>a \<in> set elems. ref_ok s2 a"
    have "ref_ok s2 (as ! 0)" by (rule ref_ok_grows [OF 2(2) a(1)])
    then show "safe s T s2 (bindS (allocAll (map (\<lambda>e. vApp (as ! 0) e) elems)) (\<lambda>cells. setValue v (vList cells))) (yields A v)"
      by (intro allocAll_step [OF 2(3,2)] setValue_tail dst_ok_grows [OF _ dst_ok_grows [OF 2(2) v]]) (use 2(4) in auto)
  qed
qed

lemma filter_elems_safe:
  assumes "heap_ok A {} s T" and "grows s0 T0 s T" and "ref_ok s f" and "\<forall>a \<in> set es. ref_ok s a"
  shows "safe s0 T0 s (filter_elems r f es) (\<lambda>vs s' T'. heap_ok A {} s' T' \<and> (\<forall>a \<in> set vs. ref_ok s' a))"
  using assms
proof (induction es arbitrary: s T s0 T0)
  case Nil
  then show ?case by (auto intro: safe_ret)
next
  case (Cons e es)
  let ?Q = "\<lambda>vs s' T'. heap_ok A {} s' T' \<and> (\<forall>a \<in> set vs. ref_ok s' a)"
  show ?case
    unfolding filter_elems.simps
  proof (rule safe_allocValue [OF Cons.prems(1,2)])
    fix res s1
    assume 1: "grows s T s1 T" "grows s0 T0 s1 T" "heap_ok A {} s1 T" "dst_ok s1 T res"
    have refs1: "ref_ok s1 f" "ref_ok s1 e" using Cons.prems(3,4) ref_ok_grows [OF 1(1)] by simp_all
    show "safe s0 T0 s1 (bindS (evCall r f e res) (\<lambda>_. bindS (forceBool r res) (\<lambda>b. bindS (filter_elems r f es) (\<lambda>vs. retS (if b then e # vs else vs))))) ?Q"
    proof (rule safe_step [OF call [OF 1(3) refs1 1(4)] 1(2)], elim conjE)
      fix s2 T2
      assume 2: "grows s1 T s2 T2" "grows s0 T0 s2 T2" "heap_ok A {} s2 T2" "ref_ok s2 res"
      show "safe s0 T0 s2 (bindS (forceBool r res) (\<lambda>b. bindS (filter_elems r f es) (\<lambda>vs. retS (if b then e # vs else vs)))) ?Q"
      proof (rule safe_step [OF forceBool_safe [OF 2(3) grows_refl 2(4)] 2(2)])
        fix b s3 T3
        assume 3: "grows s2 T2 s3 T3" "grows s0 T0 s3 T3" "heap_ok A {} s3 T3"
        have "grows s T s3 T3" using 1(1) 2(1) 3(1) by (blast intro: grows_trans)
        note up = ref_ok_grows [OF this]
        have refs: "ref_ok s3 f" "\<forall>a \<in> set es. ref_ok s3 a" "ref_ok s3 e" using Cons.prems(3,4) up by auto
        show "safe s0 T0 s3 (bindS (filter_elems r f es) (\<lambda>vs. retS (if b then e # vs else vs))) ?Q"
        proof (rule safe_step [OF Cons.IH [OF 3(3) grows_refl refs(1,2)] 3(2)], elim conjE, rule safe_ret, assumption)
          fix vs s4 T4
          assume 4: "grows s3 T3 s4 T4" "heap_ok A {} s4 T4" "\<forall>a \<in> set vs. ref_ok s4 a"
          then show "heap_ok A {} s4 T4 \<and> (\<forall>a \<in> set (if b then e # vs else vs). ref_ok s4 a)" using ref_ok_grows [OF 4(1) refs(3)] by simp
        qed
      qed
    qed
  qed
qed

lemma prim_filter_safe:
  assumes ok: "heap_ok A {} s T" and v: "dst_ok s T v" and a: "ref_ok s (as ! 0)" "ref_ok s (as ! 1)"
  shows "safe s T s (prim_filter r as v) (yields A v)"
  unfolding prim_filter_def
proof (rule safe_step [OF forceFunction_safe [OF ok grows_refl a(1)] grows_refl])
  fix s1 T1
  assume 1: "grows s T s1 T1" "heap_ok A {} s1 T1"
  show "safe s T s1 (bindS (forceList r (as ! 1)) (\<lambda>elems. bindS (filter_elems r (as ! 0) elems) (\<lambda>vs. setValue v (vList vs)))) (yields A v)"
  proof (rule safe_step [OF forceList_safe [OF 1(2) grows_refl ref_ok_grows [OF 1(1) a(2)]] 1(1)], elim conjE)
    fix elems s2 T2
    assume 2: "grows s T s2 T2" "heap_ok A {} s2 T2" "\<forall>a \<in> set elems. ref_ok s2 a"
    show "safe s T s2 (bindS (filter_elems r (as ! 0) elems) (\<lambda>vs. setValue v (vList vs))) (yields A v)"
      by (rule safe_step [OF filter_elems_safe [OF 2(2) grows_refl ref_ok_grows [OF 2(1) a(1)] 2(3)] 2(1)], elim conjE,
          rule setValue_tail, assumption, assumption, rule dst_ok_grows [OF _ v]) auto
  qed
qed

lemma any_equal_safe:
  assumes "heap_ok A {} s T" and "grows s0 T0 s T" and "ref_ok s x" and "\<forall>a \<in> set es. ref_ok s a"
  shows "safe s0 T0 s (any_equal r x es) (keeps A)"
  using assms
proof (induction es arbitrary: s T)
  case Nil
  then show ?case by (auto intro: keeps_ret)
next
  case (Cons e es)
  have e: "ref_ok s e" using Cons.prems(4) by simp
  show ?case
    unfolding any_equal.simps
  proof (rule safe_step [OF eqv [OF Cons.prems(1,3) e] Cons.prems(2)])
    fix b s1 T1
    assume 1: "grows s T s1 T1" "grows s0 T0 s1 T1" "heap_ok A {} s1 T1"
    have "ref_ok s1 x" "\<forall>a \<in> set es. ref_ok s1 a" using Cons.prems(3,4) ref_ok_grows [OF 1(1)] by simp_all
    from Cons.IH [OF 1(3,2) this] keeps_ret [OF 1(3,2), of True] show "safe s0 T0 s1 (if b then retS True else any_equal r x es) (keeps A)" by simp
  qed
qed

lemma prim_elem_safe:
  assumes ok: "heap_ok A {} s T" and v: "dst_ok s T v" and a: "ref_ok s (as ! 0)" "ref_ok s (as ! 1)"
  shows "safe s T s (prim_elem r as v) (yields A v)"
  unfolding prim_elem_def
proof (rule safe_step [OF forceList_safe [OF ok grows_refl a(2)] grows_refl], elim conjE)
  fix elems s1 T1
  assume 1: "grows s T s1 T1" "heap_ok A {} s1 T1" "\<forall>a \<in> set elems. ref_ok s1 a"
  show "safe s T s1 (bindS (any_equal r (as ! 0) elems) (\<lambda>b. setValue v (vBool b))) (yields A v)"
    by (rule setBool_tail [OF 1(2) any_equal_safe [OF 1(2) grows_refl ref_ok_grows [OF 1(1) a(1)] 1(3)] 1(1) dst_ok_grows [OF 1(1) v]])
qed

lemma prim_concatLists_safe:
  assumes ok: "heap_ok A {} s T" and v: "dst_ok s T v" and a: "ref_ok s (as ! 0)"
  shows "safe s T s (prim_concatLists r as v) (yields A v)"
  unfolding prim_concatLists_def
  by (rule safe_step [OF forceList_safe [OF ok grows_refl a] grows_refl]) (auto intro!: concatLists_safe dst_ok_grows [OF _ v])

lemma prim_length_safe:
  assumes ok: "heap_ok A {} s T" and v: "dst_ok s T v" and a: "ref_ok s (as ! 0)"
  shows "safe s T s (prim_length r as v) (yields A v)"
  unfolding prim_length_def
  by (rule safe_step [OF forceList_safe [OF ok grows_refl a] grows_refl]) (auto intro!: setPlain_tail dst_ok_grows [OF _ v])

lemma prim_arith_safe:
  assumes ok: "heap_ok A {} s T" and v: "dst_ok s T v" and a: "ref_ok s (as ! 0)" "ref_ok s (as ! 1)" and f: "\<And>m n. plain (f m n)"
  shows "safe s T s (prim_arith f r as v) (yields A v)"
  unfolding prim_arith_def
proof (rule safe_step [OF forceInt_safe [OF ok grows_refl a(1)] grows_refl])
  fix m s1 T1
  assume 1: "grows s T s1 T1" "heap_ok A {} s1 T1"
  show "safe s T s1 (bindS (forceInt r (as ! 1)) (\<lambda>n. setValue v (f m n))) (yields A v)"
    by (rule safe_step [OF forceInt_safe [OF 1(2) grows_refl ref_ok_grows [OF 1(1) a(2)]] 1(1)]) (auto intro!: setPlain_tail f dst_ok_grows [OF _ v])
qed

lemma coerced_safe:
  assumes ok: "heap_ok A {} s T" and g: "grows s0 T0 s T" and v: "dst_ok s T v" and a: "ref_ok s a" and f: "\<And>str ctx. plain (f str ctx)"
  shows "safe s0 T0 s (bindS (evCoerce r a [] b1 b2) (\<lambda>(str, ctx). setValue v (f str ctx))) (yields A v)"
  by (rule safe_step [OF coerce [OF ok a] g]) (auto split: prod.split intro!: setPlain_tail f dst_ok_grows [OF _ v])

lemma prim_substring_safe:
  assumes ok: "heap_ok A {} s T" and v: "dst_ok s T v" and a: "ref_ok s (as ! 0)" "ref_ok s (as ! 1)" "ref_ok s (as ! 2)"
  shows "safe s T s (prim_substring r as v) (yields A v)"
  unfolding prim_substring_def
proof (rule safe_step [OF forceInt_safe [OF ok grows_refl a(1)] grows_refl])
  fix pos s1 T1
  assume 1: "grows s T s1 T1" "heap_ok A {} s1 T1"
  show "safe s T s1 (bindS (forceInt r (as ! 1)) (\<lambda>len. bindS (evCoerce r (as ! 2) [] False True) (\<lambda>(s, context).
       if pos < 0 then throwS (EvalError (''negative start position in `substring'' @ [CHR 0x27]))
       else setValue v (mkString (substring pos len s) context)))) (yields A v)"
  proof (rule safe_step [OF forceInt_safe [OF 1(2) grows_refl ref_ok_grows [OF 1(1) a(2)]] 1(1)])
    fix len s2 T2
    assume 2: "grows s T s2 T2" "heap_ok A {} s2 T2"
    show "safe s T s2 (bindS (evCoerce r (as ! 2) [] False True) (\<lambda>(s, context).
       if pos < 0 then throwS (EvalError (''negative start position in `substring'' @ [CHR 0x27]))
       else setValue v (mkString (substring pos len s) context))) (yields A v)"
      by (rule safe_step [OF coerce [OF 2(2) ref_ok_grows [OF 2(1) a(3)]] 2(1)])
        (auto split: prod.split simp: mkString_def intro!: setPlain_tail dst_ok_grows [OF _ v])
  qed
qed

lemma prim_unsafeDiscardOutputDependency_safe:
  assumes ok: "heap_ok A {} s T" and v: "dst_ok s T v" and a: "ref_ok s (as ! 0)"
  shows "safe s T s (prim_unsafeDiscardOutputDependency r as v) (yields A v)"
  unfolding prim_unsafeDiscardOutputDependency_def discard_output_dependency_def
  by (rule safe_step [OF coerce [OF ok a] grows_refl])
    (auto split: prod.split if_splits simp: mkString_def elim!: foldE_error intro!: liftE_step setPlain_tail dst_ok_grows [OF _ v])

lemma prim_compareVersions_safe:
  assumes ok: "heap_ok A {} s T" and v: "dst_ok s T v" and a: "ref_ok s (as ! 0)" "ref_ok s (as ! 1)"
  shows "safe s T s (prim_compareVersions r as v) (yields A v)"
  unfolding prim_compareVersions_def
proof (rule safe_step [OF forceStringNoCtx_safe [OF ok grows_refl a(1)] grows_refl])
  fix v1 s1 T1
  assume 1: "grows s T s1 T1" "heap_ok A {} s1 T1"
  show "safe s T s1 (bindS (forceStringNoCtx r (as ! 1)) (\<lambda>v2. setValue v (vInt (compareVersions v1 v2)))) (yields A v)"
    by (rule safe_step [OF forceStringNoCtx_safe [OF 1(2) grows_refl ref_ok_grows [OF 1(1) a(2)]] 1(1)]) (auto intro!: setPlain_tail dst_ok_grows [OF _ v])
qed

end

context safe_evaluator
begin

lemma prim_storePath_safe:
  assumes ok: "heap_ok A {} s T" and v: "dst_ok s T v" and a: "ref_ok s (as ! 0)" and w: "\<And>p e. wReadLink w p = Inl e \<Longrightarrow> good_error e"
  shows "safe s T s (prim_storePath w r as v) (yields A v)"
  unfolding prim_storePath_def
proof (rule safe_step [OF coercePath_safe(1) [OF ok grows_refl a] grows_refl])
  fix x s1 T1
  assume 1: "grows s T s1 T1" "heap_ok A {} s1 T1"
  have canon: "good_error e" if "canonPath (wReadLink w) p True = Inl e" for p e
    using that canonPath_loop_error [of "wReadLink w" True p p "[]" 0 e] w by (auto simp: canonPath_def split: if_splits)
  note set = setPlain_tail [OF 1(2,1) dst_ok_grows [OF 1(1) v]]
  have store: "safe s T s1 (if \<not> isInStore (wStoreDir w) p then throwS (EvalError (''path `'' @ p @ [CHR 0x27] @ '' is not in the Nix store''))
       else bindS (liftE (toStorePath (wStoreDir w) p)) (\<lambda>p2.
         if \<not> wIsValidPath w p2 then throwS (EvalError (''store path `'' @ p2 @ [CHR 0x27] @ '' is not valid''))
         else setValue v (mkString p (set_insert p2 ctx)))) (yields A v)" for p ctx
    by (simp, intro impI, rule liftE_step) (auto simp: toStorePath_def mkString_def intro: set split: if_splits option.splits)
  show "safe s T s1 (case x of (p, context) \<Rightarrow>
     bindS (liftE (if isStorePath (wStoreDir w) p then Inr p else canonPath (wReadLink w) p True)) (\<lambda>p.
       if \<not> isInStore (wStoreDir w) p then throwS (EvalError (''path `'' @ p @ [CHR 0x27] @ '' is not in the Nix store''))
       else bindS (liftE (toStorePath (wStoreDir w) p)) (\<lambda>p2.
         if \<not> wIsValidPath w p2 then throwS (EvalError (''store path `'' @ p2 @ [CHR 0x27] @ '' is not valid''))
         else setValue v (mkString p (set_insert p2 context))))) (yields A v)"
    by (cases x, simp only: prod.case, rule liftE_step, simp split: if_splits add: canon, rule store)
qed

lemma prim_parseDrvName_safe:
  assumes ok: "heap_ok A {} s T" and v: "dst_ok s T v" and a: "ref_ok s (as ! 0)"
  shows "safe s T s (prim_parseDrvName r as v) (yields A v)"
  unfolding prim_parseDrvName_def
proof (rule safe_step [OF forceStringNoCtx_safe [OF ok grows_refl a] grows_refl])
  fix name s1 T1
  assume 1: "grows s T s1 T1" "heap_ok A {} s1 T1"
  obtain sy1 i where c1: "SymbolTable_create (stSymbols s1) ''name'' = (sy1, i)" by fastforce
  obtain sy2 j where c2: "SymbolTable_create sy1 ''version'' = (sy2, j)" by fastforce
  have ij: "i \<noteq> j" by (rule SymbolTable_create_distinct [OF c1 c2]) simp
  let ?s2 = "s1\<lparr>stSymbols := sy1\<rparr>" let ?s3 = "s1\<lparr>stSymbols := sy2\<rparr>"
  have r1: "createSymbol ''name'' s1 = (Inr i, ?s2)" and r2: "createSymbol ''version'' ?s2 = (Inr j, ?s3)"
    by (simp_all add: createSymbol_def c1 c2)
  have 3: "heap_ok A {} ?s3 T1" "grows s T ?s3 T1" "dst_ok ?s3 T1 v" using 1 same_heap [of ?s3 s1] dst_ok_grows [OF 1(1) v] by simp_all
  let ?d = "DrvName_new name"
  have "safe s T ?s3 (bindS (allocAll [mkString (dnName ?d) [], mkString (dnVersion ?d) []]) (\<lambda>as. bindS (mkAttrs v (Bindings_sort [(i, as ! 0), (j, as ! 1)])) (\<lambda>_. retS ()))) (yields A v)"
  proof (rule allocAll_step [OF 3(1,2)], simp add: mkString_def)
    fix as s4
    assume 4: "heap_ok A {} s4 T1" "grows ?s3 T1 s4 T1" "grows s T s4 T1" "length as = length [mkString (dnName ?d) [], mkString (dnVersion ?d) []]" "\<forall>a \<in> set as. ref_ok s4 a"
    have as: "ref_ok s4 (as ! 0)" "ref_ok s4 (as ! 1)" using 4(4,5) by simp_all
    have "ref_ok s4 (snd x)" if "x \<in> set (Bindings_sort [(i, as ! 0), (j, as ! 1)])" for x
    proof -
      have "x \<in> set [(i, as ! 0), (j, as ! 1)]" using that by (simp only: Bindings_sort_def set_sort)
      then show ?thesis using as by auto
    qed
    moreover have "is_set (map fst (Bindings_sort [(i, as ! 0), (j, as ! 1)]))" by (rule Bindings_sort_is_set) (simp add: ij)
    ultimately show "safe s T s4 (bindS (mkAttrs v (Bindings_sort [(i, as ! 0), (j, as ! 1)])) (\<lambda>_. retS ())) (yields A v)"
      using mkAttrs_last [OF 4(1,3) dst_ok_grows [OF 4(2) 3(3)]] by blast
  qed
  then have run: "safe s T ?s3 (bindS (allocWith (mkString (dnName ?d) [])) (\<lambda>a1. bindS (allocWith (mkString (dnVersion ?d) [])) (\<lambda>a2.
     bindS (mkAttrs v (Bindings_sort [(i, a1), (j, a2)])) (\<lambda>_. retS ())))) (yields A v)"
    by (simp add: bindS_assoc)
  show "safe s T s1 (bindS (createSymbol ''name'') (\<lambda>sName. bindS (createSymbol ''version'') (\<lambda>sVersion.
     bindS (allocWith (mkString (dnName ?d) [])) (\<lambda>a1. bindS (allocWith (mkString (dnVersion ?d) [])) (\<lambda>a2.
     bindS (mkAttrs v (Bindings_sort [(sName, a1), (sVersion, a2)])) (\<lambda>_. retS ())))))) (yields A v)"
    by (rule safe_run [where m = "createSymbol ''name''", OF r1], rule safe_run [where m = "createSymbol ''version''", OF r2], rule run)
qed

end

lemmas primop_rules = safe_evaluator.prim_test_safe safe_evaluator.prim_throws_safe safe_evaluator.prim_trace_safe safe_evaluator.prim_getEnv_safe
    safe_evaluator.prim_genericClosure_safe safe_evaluator.prim_toPath_safe safe_evaluator.prim_storePath_safe safe_evaluator.prim_pathExists_safe
    safe_evaluator.prim_readFile_safe safe_evaluator.prim_baseNameOf_safe safe_evaluator.prim_dirOf_safe safe_evaluator.prim_toFile_safe
    safe_evaluator.prim_attrNames_safe safe_evaluator.prim_getAttr_safe safe_evaluator.prim_hasAttr_safe safe_evaluator.prim_removeAttrs_safe
    safe_evaluator.prim_intersectAttrs_safe safe_evaluator.prim_functionArgs_safe safe_evaluator.prim_elemAt_safe safe_evaluator.prim_head_safe
    safe_evaluator.prim_tail_safe safe_evaluator.prim_map_safe safe_evaluator.prim_filter_safe safe_evaluator.prim_elem_safe
    safe_evaluator.prim_concatLists_safe safe_evaluator.prim_length_safe safe_evaluator.prim_arith_safe safe_evaluator.prim_substring_safe
    safe_evaluator.prim_unsafeDiscardOutputDependency_safe safe_evaluator.prim_parseDrvName_safe safe_evaluator.prim_compareVersions_safe safe_evaluator.coerced_safe [OF _ _ grows_refl]

text \<open>What is left out of the table: the operations that go on after an error, or are not finished when they evaluate something, and \<^verbatim>\<open>div\<close>.\<close>

definition exposed :: "string set" where
  "exposed = {''__addErrorContext'', ''__tryEval'', ''__listToAttrs'', ''__div''}"

definition safe_primops :: "world \<Rightarrow> nat \<Rightarrow> primop list" where
  "safe_primops w n = filter (\<lambda>p. fst p \<notin> exposed) (primops w n)"

definition world_ok :: "world \<Rightarrow> bool" where
  "world_ok w \<longleftrightarrow> (\<forall>p e. wPathExists w p = Inl e \<longrightarrow> good_error e) \<and> (\<forall>p e. wReadFile w p = Inl e \<longrightarrow> good_error e) \<and>
     (\<forall>p e. wReadLink w p = Inl e \<longrightarrow> good_error e) \<and> (\<forall>n c refs e. wAddText w n c refs = Inl e \<longrightarrow> good_error e)"

definition primop_ok :: "(Symbol \<Rightarrow> nat \<Rightarrow> bool) \<Rightarrow> primop \<Rightarrow> bool" where
  "primop_ok A p \<longleftrightarrow> (\<forall>r s T as v. safe_evaluator A r \<longrightarrow> heap_ok A {} s T \<longrightarrow> length as = fst (snd p) \<longrightarrow>
     (\<forall>a \<in> set as. ref_ok s a) \<longrightarrow> dst_ok s T v \<longrightarrow> safe s T s (snd (snd p) r as v) (yields A v))"

lemma primop_okI:
  assumes "\<And>r s T as v. safe_evaluator A r \<Longrightarrow> heap_ok A {} s T \<Longrightarrow> dst_ok s T v \<Longrightarrow> (\<And>i. i < n \<Longrightarrow> ref_ok s (as ! i)) \<Longrightarrow>
    safe s T s (f r as v) (yields A v)"
  shows "primop_ok A (name, n, f)"
  using assms by (auto simp: primop_ok_def)

lemma primops_ok:
  assumes w: "world_ok w"
  shows "\<forall>p \<in> set (safe_primops w n). primop_ok A p"
proof -
  have w': "\<And>p e. wPathExists w p = Inl e \<Longrightarrow> good_error e" "\<And>p e. wReadFile w p = Inl e \<Longrightarrow> good_error e"
    "\<And>p e. wReadLink w p = Inl e \<Longrightarrow> good_error e" "\<And>n c refs e. wAddText w n c refs = Inl e \<Longrightarrow> good_error e"
    using w by (auto simp: world_ok_def)
  show ?thesis
    unfolding safe_primops_def primops_def exposed_def prim_isNull_def prim_isFunction_def prim_isString_def prim_isInt_def prim_isBool_def
        prim_isAttrs_def prim_isList_def prim_add_def prim_sub_def prim_mul_def prim_lessThan_def prim_toString_def prim_stringLength_def
        prim_unsafeDiscardStringContext_def
    by (simp, intro conjI primop_okI; rule primop_rules; (assumption | erule w'(1) | erule w'(2) | erule w'(3) | erule w'(4) | simp add: mkString_def))
qed

subsection \<open>The evaluator with the primitive operations\<close>

lemma arities_prims_safe:
  assumes "\<forall>p \<in> set ps. primop_ok (arities ps) p"
  shows "prims_safe (arities ps) (with_primops ps c)"
  using assms by (fastforce simp: prims_safe_def arities_def with_primops_def primop_ok_def)

lemma copying_safe_with_primops [simp]: "copying_safe (with_primops ps c) = copying_safe c"
  by (simp add: copying_safe_def with_primops_def)

lemma safe_evaluator_primops:
  assumes "world_ok w" and "copying_safe c"
  shows "safe_evaluator (arities (safe_primops w k)) (evaluator_at (with_primops (safe_primops w k) c) n)"
  using safe_evaluator_at [OF arities_prims_safe [OF primops_ok [OF assms(1)]]] assms(2) by simp

text \<open>A program without files whose store accepts every text: the interface on an evaluator as it is.\<close>

definition no_files :: world where
  "no_files = \<lparr>getEnv = (\<lambda>_. []), wPathExists = (\<lambda>_. Inr False), wReadFile = (\<lambda>p. Inl (SysError p)), wReadLink = (\<lambda>_. Inr None),
     wIsValidPath = (\<lambda>_. False), wStoreDir = ''/nix/store'', wAddText = (\<lambda>n _ _. Inr (''/nix/store/'' @ n))\<rparr>"

definition plain_config :: "eval_config" where
  "plain_config = \<lparr>primOpFun = (\<lambda>_ _ _ _. nullPointer), copyToStore = (\<lambda>p. Inl (SysError p)), sOverrides = 7, sOutPath = 1, sType = 3\<rparr>"

lemma plain_world: "world_ok no_files" "copying_safe plain_config"
  by (simp_all add: world_ok_def no_files_def copying_safe_def plain_config_def good_error_def)

interpretation plain: safe_evaluator "arities (safe_primops no_files k)" "evaluator_at (with_primops (safe_primops no_files k) plain_config) n" for k n
  by (rule safe_evaluator_primops [OF plain_world])

subsection \<open>The base environment\<close>

text \<open>What \<^verbatim>\<open>addConstant\<close> and \<^verbatim>\<open>addPrimOp\<close> have built after some entries.\<close>

definition base_after :: "(string \<times> Value) list \<Rightarrow> EvalState \<times> (Symbol \<times> nat) list \<times> nat \<Rightarrow> bool" where
  "base_after es st \<longleftrightarrow> (case st of (s, vs, displ) \<Rightarrow>
     displ = length es \<and> stValues s = map snd es \<and>
     stEnvs s = [\<lparr>envUp = None, envPrevWith = 0, envValues = map Some [0..<length es] @ replicate (128 - length es) None\<rparr>] \<and>
     (\<exists>syms. stBindings s = [zip syms [0..<length es]] \<and> length syms = length es \<and>
       (\<forall>i < length es. syms ! i < length (stSymbols s) \<and> stSymbols s ! (syms ! i) = strip_underscores (fst (es ! i)))) \<and>
     is_map vs \<and> (\<forall>x d. map_of vs x = Some d \<longrightarrow> d < length es))"

lemma SymbolTable_create_keeps:
  assumes "SymbolTable_create sy x = (sy', i)"
  shows "i < length sy'" and "sy' ! i = x" and "j < length sy \<Longrightarrow> j < length sy' \<and> sy' ! j = sy ! j"
  using assms index_of_Some [of x sy] by (auto simp: SymbolTable_create_def nth_append split: option.splits)

lemma fill_slot:
  assumes "n < N"
  shows "(map Some [0..<n] @ replicate (N - n) None)[n := Some n] = map Some [0..<Suc n] @ replicate (N - Suc n) None"
proof -
  from assms have "N - n = Suc (N - Suc n)" by simp
  then show ?thesis by (simp add: list_update_append)
qed

lemma base_after_add:
  assumes st: "base_after es st" and len: "length es < 128"
  shows "base_after (es @ [(name, x)]) (addBase name x st)"
proof -
  obtain s vs displ where [simp]: "st = (s, vs, displ)" by (cases st) auto
  obtain sy1 sym where c1: "SymbolTable_create (stSymbols s) name = (sy1, sym)" by fastforce
  obtain sy2 sym2 where c2: "SymbolTable_create sy1 (strip_underscores name) = (sy2, sym2)" by fastforce
  note keep1 = SymbolTable_create_keeps(3) [OF c1] and keep2 = SymbolTable_create_keeps [OF c2]
  from st obtain syms where b: "displ = length es" "stValues s = map snd es"
    "stEnvs s = [\<lparr>envUp = None, envPrevWith = 0, envValues = map Some [0..<length es] @ replicate (128 - length es) None\<rparr>]"
    "stBindings s = [zip syms [0..<length es]]" "length syms = length es"
    "\<forall>i < length es. syms ! i < length (stSymbols s) \<and> stSymbols s ! (syms ! i) = strip_underscores (fst (es ! i))"
    "is_map vs" "\<forall>x d. map_of vs x = Some d \<longrightarrow> d < length es"
    unfolding base_after_def by auto
  have binds: "zip syms [0..<length es] @ [(sym2, length es)] = zip (syms @ [sym2]) [0..<length (es @ [(name, x)])]"
    using b(5) by simp
  have syms: "(syms @ [sym2]) ! i < length sy2 \<and> sy2 ! ((syms @ [sym2]) ! i) = strip_underscores (fst ((es @ [(name, x)]) ! i))"
    if "i < length (es @ [(name, x)])" for i
    using that b(5,6) keep1 keep2 by (auto simp: nth_append less_Suc_eq)
  have vars: "d < length (es @ [(name, x)])" if "map_of (map_put sym displ vs) y = Some d" for y d
    using that b(1,7,8) by (auto simp: less_Suc_eq split: if_splits)
  have new: "addBase name x st = (s\<lparr>stValues := map snd (es @ [(name, x)]),
      stEnvs := [\<lparr>envUp = None, envPrevWith = 0, envValues = map Some [0..<length (es @ [(name, x)])] @ replicate (128 - length (es @ [(name, x)])) None\<rparr>],
      stBindings := [zip (syms @ [sym2]) [0..<length (es @ [(name, x)])]], stSymbols := sy2\<rparr>, map_put sym displ vs, length (es @ [(name, x)]))"
    by (simp only: addBase_def \<open>st = (s, vs, displ)\<close> prod.case Let_def c1 c2 b(1-4) list.size list_update_code nth_Cons_0 Env.simps fill_slot [OF len] binds
        length_append length_map map_append list.map snd_conv add_0_left add_Suc_right add_0_right Suc_eq_plus1 [symmetric])
  show ?thesis
    unfolding base_after_def new prod.case
    by (intro conjI exI [of _ "syms @ [sym2]"]) (use b(5,7) syms vars in \<open>simp_all add: is_map_put\<close>)
qed

lemma base_after_fold:
  "base_after es st \<Longrightarrow> length es + length es' \<le> 128 \<Longrightarrow> base_after (es @ es') (fold (\<lambda>(name, x). addBase name x) es' st)"
proof (induction es' arbitrary: es st)
  case (Cons e es')
  obtain name x where [simp]: "e = (name, x)" by (cases e)
  from Cons.prems have "base_after (es @ [(name, x)]) (addBase name x st)" by (intro base_after_add) simp_all
  with Cons.IH [of "es @ [(name, x)]"] Cons.prems show ?case by simp
qed simp

definition base_value :: "(Symbol \<Rightarrow> nat \<Rightarrow> bool) \<Rightarrow> Value \<Rightarrow> bool" where
  "base_value A x = (case x of vPrimOp i n \<Rightarrow> A i n | vAttrs b \<Rightarrow> b = 0 | vInt _ \<Rightarrow> True | vBool _ \<Rightarrow> True | vNull \<Rightarrow> True | vString _ _ \<Rightarrow> True | _ \<Rightarrow> False)"

lemma base_heap_ok:
  assumes base: "base_after es (s, vs, displ)" and names: "distinct (map (strip_underscores \<circ> fst) es)"
    and vals: "\<forall>e \<in> set es. base_value A (snd e)"
  shows "heap_ok A {} (s\<lparr>stBindings := [Bindings_sort (stBindings s ! 0)]\<rparr>) [Some [\<lparr>isWith = False, vars = vs\<rparr>]]"
proof -
  let ?s = "s\<lparr>stBindings := [Bindings_sort (stBindings s ! 0)]\<rparr>"
  from base obtain syms where b: "stValues s = map snd es"
    "stEnvs s = [\<lparr>envUp = None, envPrevWith = 0, envValues = map Some [0..<length es] @ replicate (128 - length es) None\<rparr>]"
    "stBindings s = [zip syms [0..<length es]]" "length syms = length es"
    "\<forall>i < length es. syms ! i < length (stSymbols s) \<and> stSymbols s ! (syms ! i) = strip_underscores (fst (es ! i))"
    "\<forall>x d. map_of vs x = Some d \<longrightarrow> d < length es"
    unfolding base_after_def by auto
  have val: "base_value A (snd (es ! i))" if "i < length es" for i using that vals by simp
  have ref: "ref_ok ?s i" if "i < length es" for i
    using val [OF that] that by (auto simp: ref_ok_def b(1) base_value_def)
  have "distinct syms"
    unfolding distinct_conv_nth
  proof (intro allI impI)
    fix i j assume "i < length syms" "j < length syms" "i \<noteq> j"
    moreover from this have "strip_underscores (fst (es ! i)) \<noteq> strip_underscores (fst (es ! j))"
      using nth_eq_iff_index_eq [OF names, of i j] b(4) by simp
    ultimately show "syms ! i \<noteq> syms ! j" using b(4,5) by metis
  qed
  then have set: "is_set (map fst (Bindings_sort (zip syms [0..<length es])))"
    using b(4) by (intro Bindings_sort_is_set) simp
  have attrs: "ref_ok ?s (snd x)" if "x \<in> set (Bindings_sort (zip syms [0..<length es]))" for x
    
  proof -
    obtain y d where x: "x = (y, d)" by (cases x)
    with that have "(y, d) \<in> set (zip syms [0..<length es])" by (simp add: Bindings_sort_def)
    from set_zip_rightD [OF this] x show ?thesis by (simp add: ref)
  qed
  have "value_ok A ?s T (snd (es ! i))" if "i < length es" for T i
    using val [OF that] by (auto simp: base_value_def split: Value.splits)
  moreover have "env_ok True ?s [Some [\<lparr>isWith = False, vars = vs\<rparr>]] 0"
    using b(2,6) ref by (auto simp: env_ok_def slot_ok_def nth_append intro: trans_less_add1)
  ultimately show ?thesis
    using b(1-3) set attrs by (simp add: heap_ok_def)
qed

lemma primops_length: "length (primops w n) = 48"
  by (simp add: primops_def)

lemma enumerate_map: "map (\<lambda>(i, x). f x) (enumerate n xs) = map f xs"
  by (induction xs arbitrary: n) simp_all

lemma base_ok:
  assumes base: "createBaseEnv symbols (base_constants t system version) (safe_primops w k) = (s, frame)"
  shows "heap_ok (arities (safe_primops w k)) {} s [Some [frame]]"
proof -
  let ?ps = "safe_primops w k"
  define es where "es = base_constants t system version @ map (\<lambda>(i, name, arity, _). (name, vPrimOp i arity)) (enumerate 0 ?ps)"
  define s0 where "s0 = \<lparr>stValues = [], stEnvs = [\<lparr>envUp = None, envPrevWith = 0, envValues = replicate 128 None\<rparr>],
                stBindings = [[]], stSymbols = symbols, stSrcToStore = [], stDrvHashes = []\<rparr>"
  obtain s1 vs displ where run: "fold (\<lambda>(name, x). addBase name x) es (s0, [], 0) = (s1, vs, displ)" by (metis prod_cases3)
  have names: "map fst es = map fst (base_constants t system version) @ map fst ?ps"
    by (simp add: es_def case_prod_beta comp_def enumerate_map [where f = fst, unfolded case_prod_beta])
  have "base_after [] (s0, [], 0)" by (simp add: base_after_def s0_def)
  moreover have "length es \<le> 128"
    using length_filter_le [of "\<lambda>p. fst p \<notin> exposed" "primops w k"] primops_length [of w k]
    by (simp add: es_def base_constants_def safe_primops_def)
  ultimately have after: "base_after es (s1, vs, displ)" using base_after_fold [of "[]" "(s0, [], 0)" es] run by simp
  have "distinct (map strip_underscores (map fst es))"
    unfolding names by code_simp
  then have "distinct (map (strip_underscores \<circ> fst) es)" by simp
  moreover have "base_value (arities ?ps) (snd e)" if e: "e \<in> set es" for e
    using that by (auto simp: es_def base_constants_def base_value_def mkString_def arities_def in_set_enumerate_eq)
  ultimately have "heap_ok (arities ?ps) {} (s1\<lparr>stBindings := [Bindings_sort (stBindings s1 ! 0)]\<rparr>) [Some [\<lparr>isWith = False, vars = vs\<rparr>]]"
    by (intro base_heap_ok [OF after] ballI)
  then show ?thesis using base run by (auto simp: createBaseEnv_def es_def s0_def Let_def)
qed

text \<open>\<^verbatim>\<open>EvalState::eval\<close>, into a new value: an expression is evaluated in the base environment.\<close>

definition EvalState_eval :: "eval_config \<Rightarrow> nat \<Rightarrow> Expr \<Rightarrow> nat ev" where
  "EvalState_eval c n e = bindS allocValue (\<lambda>v. bindS (evEval (evaluator_at c n) e 0 v) (\<lambda>_. retS v))"


text \<open>The expression \<^verbatim>\<open>(x: { x = x; y = [ x ]; }.y) 5\<close>, before and after its variables have been resolved.\<close>

definition sample_symbols :: "string list" where
  "sample_symbols = [''<with>'', ''outPath'', ''drvPath'', ''type'', ''meta'', ''name'', ''system'', ''__overrides'', ''outputs'',
     ''outputName'', ''__ignoreNulls'', ''x'', ''y'']"

definition sample_expr :: Expr where
  "sample_expr = (let x = ExprVar \<lparr>vrName = 11, vrFromWith = False, vrLevel = 0, vrDispl = 0\<rparr>
     in ExprBin App (ExprLambda noPos (Some 11) None
          (ExprSelect (ExprAttrs False [(11, Defined x 0), (12, Defined (ExprList [x]) 0)]) [12] None)) (ExprInt 5))"



text \<open>
  Why those operations are left out: \<^verbatim>\<open>forceValue\<close> restores only the type of a value when its evaluation
  fails, and \<^verbatim>\<open>ExprAttrs::eval\<close> has stored its attributes in the value before it evaluates
  \<^verbatim>\<open>__overrides\<close>.  Here the thunk is \<^verbatim>\<open>rec { __overrides = 1 1; }\<close>, which is forced twice.
\<close>

definition overrides_state :: EvalState where
  "overrides_state = \<lparr>stValues = [vThunk 0 (ExprAttrs True [(7, Defined (ExprBin App (ExprInt 1) (ExprInt 1)) 0)])],
     stEnvs = [\<lparr>envUp = None, envPrevWith = 0, envValues = []\<rparr>], stBindings = [], stSymbols = sample_symbols,
     stSrcToStore = [], stDrvHashes = []\<rparr>"

lemma evaluator_at_Suc:
  "evEval (evaluator_at c (Suc n)) = Expr_eval c (evaluator_at c n)" "evForce (evaluator_at c (Suc n)) = forceValue (evaluator_at c n)"
  "evCall (evaluator_at c (Suc n)) = callFunction c (evaluator_at c n)"
  by (simp_all add: Let_def)

lemma force_after_error:
  assumes "r = evaluator_at plain_config (Suc (Suc (Suc (Suc (Suc (Suc n))))))"
  shows "\<exists>m m' s. evForce r 0 overrides_state = (Inl (TypeError m), s) \<and> evForce r 0 s = (Inl (Undefined m'), s)"
  using assms
  by (simp add: evaluator_at_Suc overrides_state_def forceValue_def Expr_eval_def ExprAttrs_eval_def overrides_def forceAttrs_def ExprApp_eval_def
     callFunction_def bindS_def retS_def throwS_def getValue_def setValue_def allocValue_def allocWith_def mkAttrs_def allocEnv_def rec_attr_def
     maybeThunk_def setEnvValue_def pushAttr_def getBindings_def setBindings_def expected_def plain_config_def restore_thunk_def foldS_def  nullPointer_def del: evaluator_at.simps)

end
