(* ===== verification/Path_Locks.thy ===== *)
theory Path_Locks
  imports Containers
begin

text \<open>
  \<^verbatim>\<open>src/libstore/pathlocks.cc\<close>: lock files, POSIX record locks on them and the class \<^verbatim>\<open>PathLocks\<close>, as a system
  of processes that run concurrently.  A step of the system is one system call of one process with the
  computation up to the next one.  The theory shows that at most one process holds the lock of a path,
  although lock files are deleted and created again all the time, that processes waiting for locks
  cannot wait for each other in a circle, and what goes wrong when \<^verbatim>\<open>unlink\<close> fails or a process dies
  between \<^verbatim>\<open>unlink\<close> and \<^verbatim>\<open>write\<close>.
\<close>

subsection \<open>Lock files and record locks\<close>

text \<open>
  The part of the kernel that the locks are in: the inode of every name of a lock file, the size of
  the file, the process that has the write lock, those that have a read lock, and the open
  descriptors of every process.
\<close>

record lock_files =
  lfName :: "path \<Rightarrow> nat option"
  lfSize :: "nat \<Rightarrow> nat"
  lfWriter :: "nat \<Rightarrow> nat option"
  lfReaders :: "nat \<Rightarrow> nat list"
  lfOpen :: "nat \<Rightarrow> nat \<Rightarrow> nat option"

datatype LockType = ltRead | ltWrite | ltNone

text \<open>
  What the kernel decides: the descriptor \<^verbatim>\<open>open\<close> returns, the inode of a file it creates, and whether
  \<^verbatim>\<open>unlink\<close> succeeds.
\<close>

record choice =
  chFd :: nat
  chInode :: nat
  chUnlink :: bool

definition openLockFile :: "nat \<Rightarrow> choice \<Rightarrow> path \<Rightarrow> bool \<Rightarrow> lock_files \<Rightarrow> nat option \<times> lock_files" where
  "openLockFile me ch p create k =
     (case lfName k p of
        Some i \<Rightarrow> (Some (chFd ch), k\<lparr>lfOpen := (lfOpen k)(me := (lfOpen k me)(chFd ch \<mapsto> i))\<rparr>)
      | None \<Rightarrow>
          if create then
            (Some (chFd ch), k\<lparr>lfName := (lfName k)(p \<mapsto> chInode ch), lfSize := (lfSize k)(chInode ch := 0),
                          lfOpen := (lfOpen k)(me := (lfOpen k me)(chFd ch \<mapsto> chInode ch))\<rparr>)
          else (None, k))"

text \<open>
  \<^verbatim>\<open>unlink\<close> and \<^verbatim>\<open>writeFull\<close> of \<^verbatim>\<open>deleteLockFile\<close> are two system calls, so two functions here.
\<close>

definition unlink_lock :: "choice \<Rightarrow> path \<Rightarrow> lock_files \<Rightarrow> lock_files" where
  "unlink_lock ch p k = (if chUnlink ch then k\<lparr>lfName := (lfName k)(p := None)\<rparr> else k)"

definition write_token :: "nat \<Rightarrow> nat \<Rightarrow> lock_files \<Rightarrow> lock_files" where
  "write_token me d k = (case lfOpen k me d of
     Some i \<Rightarrow> k\<lparr>lfSize := (lfSize k)(i := lfSize k i + 1)\<rparr> | None \<Rightarrow> k)"

text \<open>
  \<^verbatim>\<open>fcntl\<close> grants a lock when no other process has a conflicting one; \<open>None\<close> stands for \<^verbatim>\<open>EAGAIN\<close>, that
  is, for \<^verbatim>\<open>false\<close> without \<^verbatim>\<open>wait\<close> and for waiting with it.
\<close>

definition lockFile :: "nat \<Rightarrow> nat \<Rightarrow> LockType \<Rightarrow> lock_files \<Rightarrow> lock_files option" where
  "lockFile me d lockType k = (case lfOpen k me d of
     None \<Rightarrow> None
   | Some i \<Rightarrow>
       (let free = (lfWriter k i = None \<or> lfWriter k i = Some me);
            unread = filter (\<lambda>q. q \<noteq> me) (lfReaders k i);
            unwritten = (if lfWriter k i = Some me then (lfWriter k)(i := None) else lfWriter k)
        in case lockType of
             ltRead \<Rightarrow> if free then Some (k\<lparr>lfWriter := unwritten, lfReaders := (lfReaders k)(i := me # unread)\<rparr>) else None
           | ltWrite \<Rightarrow> if free \<and> unread = []
               then Some (k\<lparr>lfWriter := (lfWriter k)(i \<mapsto> me), lfReaders := (lfReaders k)(i := [])\<rparr>) else None
           | ltNone \<Rightarrow> Some (k\<lparr>lfWriter := unwritten, lfReaders := (lfReaders k)(i := unread)\<rparr>)))"

text \<open>Closing any descriptor of a file drops every lock the process has on the file.\<close>

definition close_fd :: "nat \<Rightarrow> nat \<Rightarrow> lock_files \<Rightarrow> lock_files" where
  "close_fd me d k = (case lfOpen k me d of
     None \<Rightarrow> k
   | Some i \<Rightarrow> k\<lparr>lfOpen := (lfOpen k)(me := (lfOpen k me)(d := None)),
                lfWriter := (if lfWriter k i = Some me then (lfWriter k)(i := None) else lfWriter k),
                lfReaders := (lfReaders k)(i := filter (\<lambda>q. q \<noteq> me) (lfReaders k i))\<rparr>)"

definition exit_process :: "nat \<Rightarrow> lock_files \<Rightarrow> lock_files" where
  "exit_process me k = k\<lparr>lfOpen := (lfOpen k)(me := (\<lambda>_. None)),
     lfWriter := (\<lambda>i. if lfWriter k i = Some me then None else lfWriter k i),
     lfReaders := (\<lambda>i. filter (\<lambda>q. q \<noteq> me) (lfReaders k i))\<rparr>"

subsection \<open>PathLocks\<close>

record PathLocks =
  fds :: "(nat \<times> path) list"
  deletePaths :: bool

definition PathLocks_new :: PathLocks where
  "PathLocks_new = \<lparr>fds = [], deletePaths = False\<rparr>"

definition PathLocks_setDeletion :: "bool \<Rightarrow> PathLocks \<Rightarrow> PathLocks" where
  "PathLocks_setDeletion b l = l\<lparr>deletePaths := b\<rparr>"

text \<open>
  Where a process is: outside, in \<^verbatim>\<open>lockPaths\<close> of an object, or in its \<^verbatim>\<open>unlock\<close>, there with the
  descriptor that \<^verbatim>\<open>lockPaths\<close> closes when it returns \<^verbatim>\<open>false\<close>.
\<close>

datatype lock_pc =
    Outside
  | LockNext nat "path list" bool
  | Opening nat path "path list" bool "nat option"
  | ClosingOld nat path "path list" bool nat nat
  | TryLock nat path "path list" bool nat
  | WaitLock nat path "path list" bool nat
  | Checking nat path "path list" bool nat
  | Unlocking nat "(nat \<times> path) list" "(nat \<times> path) option"
  | Unlinked nat nat path "(nat \<times> path) list" "(nat \<times> path) option"
  | ClosingLock nat nat path "(nat \<times> path) list" "(nat \<times> path) option"

text \<open>A process: its \<^verbatim>\<open>PathLocks\<close> objects, the static \<^verbatim>\<open>lockedPaths\<close>, and what its last call did.\<close>

record process =
  objects :: "nat \<Rightarrow> PathLocks"
  lockedPaths :: "path list"
  control :: lock_pc
  result :: "bool res"

record system =
  kern :: lock_files
  procs :: "nat \<Rightarrow> process"

definition lockPath :: "path \<Rightarrow> path" where
  "lockPath p = p @ ''.lock''"

definition pathIsLockedByMe :: "path \<Rightarrow> process \<Rightarrow> bool" where
  "pathIsLockedByMe p me \<longleftrightarrow> lockPath p \<in> set (lockedPaths me)"

definition PathLocks_lockPaths :: "nat \<Rightarrow> path list \<Rightarrow> bool \<Rightarrow> process \<Rightarrow> process res" where
  "PathLocks_lockPaths x paths wait p =
     bindE (guardE (fds (objects p x) = []) (AssertFail ''fds.empty()'')) (\<lambda>_.
       Inr (p\<lparr>control := LockNext x (sort paths) wait\<rparr>))"

definition PathLocks_unlock :: "nat \<Rightarrow> process \<Rightarrow> process" where
  "PathLocks_unlock x p = p\<lparr>control := Unlocking x (fds (objects p x)) None\<rparr>"

definition put_object :: "nat \<Rightarrow> PathLocks \<Rightarrow> process \<Rightarrow> process" where
  "put_object x l p = p\<lparr>objects := (objects p)(x := l)\<rparr>"

text \<open>One step of \<^verbatim>\<open>lockPaths\<close> or \<^verbatim>\<open>unlock\<close>; \<open>None\<close> when the process has to wait.\<close>

definition lockPaths_step :: "nat \<Rightarrow> choice \<Rightarrow> process \<Rightarrow> lock_files \<Rightarrow> (process \<times> lock_files) option" where
  "lockPaths_step me ch p k = (case control p of
     LockNext x [] wait \<Rightarrow> Some (p\<lparr>control := Outside, result := Inr True\<rparr>, k)
   | LockNext x (path # rest) wait \<Rightarrow>
       if lockPath path \<in> set (lockedPaths p)
       then Some (p\<lparr>control := Outside, result := Inl (Error ''deadlock: trying to re-acquire self-held lock'')\<rparr>, k)
       else Some (p\<lparr>control := Opening x path rest wait None\<rparr>, k)
   | Opening x path rest wait fd \<Rightarrow>
       (case openLockFile me ch (lockPath path) True k of
          (None, k) \<Rightarrow> None
        | (Some d, k) \<Rightarrow> Some (p\<lparr>control := (case fd of None \<Rightarrow> TryLock x path rest wait d
                                         | Some old \<Rightarrow> ClosingOld x path rest wait old d)\<rparr>, k))
   | ClosingOld x path rest wait old d \<Rightarrow> Some (p\<lparr>control := TryLock x path rest wait d\<rparr>, close_fd me old k)
   | TryLock x path rest wait d \<Rightarrow>
       (case lockFile me d ltWrite k of
          Some k \<Rightarrow> Some (p\<lparr>control := Checking x path rest wait d\<rparr>, k)
        | None \<Rightarrow> if wait then Some (p\<lparr>control := WaitLock x path rest wait d\<rparr>, k)
                  else Some (p\<lparr>control := Unlocking x (fds (objects p x)) (Some (d, lockPath path))\<rparr>, k))
   | WaitLock x path rest wait d \<Rightarrow>
       (case lockFile me d ltWrite k of
          Some k \<Rightarrow> Some (p\<lparr>control := Checking x path rest wait d\<rparr>, k)
        | None \<Rightarrow> None)
   | Checking x path rest wait d \<Rightarrow>
       (case lfOpen k me d of
          None \<Rightarrow> None
        | Some i \<Rightarrow>
            if lfSize k i \<noteq> 0 then Some (p\<lparr>control := Opening x path rest wait (Some d)\<rparr>, k)
            else Some ((put_object x ((objects p x)\<lparr>fds := fds (objects p x) @ [(d, lockPath path)]\<rparr>) p)
                         \<lparr>lockedPaths := set_insert (lockPath path) (lockedPaths p), control := LockNext x rest wait\<rparr>, k))
   | _ \<Rightarrow> None)"

definition unlock_step :: "nat \<Rightarrow> choice \<Rightarrow> process \<Rightarrow> lock_files \<Rightarrow> (process \<times> lock_files) option" where
  "unlock_step me ch p k = (case control p of
     Unlocking x ((d, lp) # todo) fd \<Rightarrow>
       if deletePaths (objects p x) then Some (p\<lparr>control := Unlinked x d lp todo fd\<rparr>, unlink_lock ch lp k)
       else Some (p\<lparr>control := ClosingLock x d lp todo fd\<rparr>, k)
   | Unlinked x d lp todo fd \<Rightarrow> Some (p\<lparr>control := ClosingLock x d lp todo fd\<rparr>, write_token me d k)
   | ClosingLock x d lp todo fd \<Rightarrow>
       Some (p\<lparr>lockedPaths := set_erase lp (lockedPaths p), control := Unlocking x todo fd\<rparr>, close_fd me d k)
   | Unlocking x [] fd \<Rightarrow>
       (let p = (put_object x ((objects p x)\<lparr>fds := []\<rparr>) p)\<lparr>control := Outside\<rparr>
        in case fd of None \<Rightarrow> Some (p, k)
           | Some (d, lp) \<Rightarrow> Some (p\<lparr>result := Inr False\<rparr>, close_fd me d k))
   | _ \<Rightarrow> None)"

text \<open>
  An exception out of \<^verbatim>\<open>lockPaths\<close>: from \<^verbatim>\<open>checkInterrupt\<close>, or from a system call that failed and changed
  nothing.  The descriptors that are still in an \<^verbatim>\<open>AutoCloseFD\<close> are closed, those in \<^verbatim>\<open>fds\<close> stay.
\<close>

definition lockPaths_throw :: "nat \<Rightarrow> error \<Rightarrow> process \<Rightarrow> lock_files \<Rightarrow> (process \<times> lock_files) option" where
  "lockPaths_throw me e p k =
     (let out = p\<lparr>control := Outside, result := Inl e\<rparr>
      in case control p of
           LockNext x paths wait \<Rightarrow> Some (out, k)
         | Opening x path rest wait None \<Rightarrow> Some (out, k)
         | Opening x path rest wait (Some d) \<Rightarrow> Some (out, close_fd me d k)
         | TryLock x path rest wait d \<Rightarrow> Some (out, close_fd me d k)
         | WaitLock x path rest wait d \<Rightarrow> Some (out, close_fd me d k)
         | Checking x path rest wait d \<Rightarrow> Some (out, close_fd me d k)
         | _ \<Rightarrow> None)"

subsection \<open>Runs of the system\<close>

text \<open>The kernel hands out descriptors and inodes that are not in use.\<close>

definition fresh_choice :: "nat \<Rightarrow> choice \<Rightarrow> lock_files \<Rightarrow> bool" where
  "fresh_choice me ch k \<longleftrightarrow> lfOpen k me (chFd ch) = None \<and>
     (\<forall>q. lfName k q \<noteq> Some (chInode ch)) \<and> (\<forall>q d. lfOpen k q d \<noteq> Some (chInode ch))"

definition put_process :: "nat \<Rightarrow> process \<times> lock_files \<Rightarrow> system \<Rightarrow> system" where
  "put_process me r s = s\<lparr>kern := snd r, procs := (procs s)(me := fst r)\<rparr>"

text \<open>
  A process may die at any time, except that it is assumed not to die (and \<^verbatim>\<open>writeFull\<close> not to fail)
  between \<^verbatim>\<open>unlink\<close> and \<^verbatim>\<open>write\<close> of \<^verbatim>\<open>deleteLockFile\<close>; \<open>crash\<close> below is that case.
\<close>

definition new_process :: process where
  "new_process = \<lparr>objects = (\<lambda>_. PathLocks_new), lockedPaths = [], control = Outside, result = Inr True\<rparr>"

inductive lock_step :: "system \<Rightarrow> system \<Rightarrow> bool" where
  lock: "fresh_choice me ch (kern s) \<Longrightarrow> lockPaths_step me ch (procs s me) (kern s) = Some r \<Longrightarrow> lock_step s (put_process me r s)"
| unlock: "unlock_step me ch (procs s me) (kern s) = Some r \<Longrightarrow> lock_step s (put_process me r s)"
| throw: "lockPaths_throw me e (procs s me) (kern s) = Some r \<Longrightarrow> lock_step s (put_process me r s)"
| call_lock: "control (procs s me) = Outside \<Longrightarrow> is_set paths \<Longrightarrow>
    PathLocks_lockPaths x paths wait (procs s me) = Inr p \<Longrightarrow> lock_step s (put_process me (p, kern s) s)"
| call_unlock: "control (procs s me) = Outside \<Longrightarrow> lock_step s (put_process me (PathLocks_unlock x (procs s me), kern s) s)"
| call_setDeletion: "control (procs s me) = Outside \<Longrightarrow>
    lock_step s (put_process me (put_object x (PathLocks_setDeletion b (objects (procs s me) x)) (procs s me), kern s) s)"
| exit: "(\<forall>x d lp todo fd. control (procs s me) \<noteq> Unlinked x d lp todo fd) \<Longrightarrow>
    lock_step s (put_process me (new_process, exit_process me (kern s)) s)"

text \<open>In the beginning nobody has a file open; lock files may be there, under one name each.\<close>

definition start_system :: "system \<Rightarrow> bool" where
  "start_system s \<longleftrightarrow> lfOpen (kern s) = (\<lambda>_ _. None) \<and> lfWriter (kern s) = (\<lambda>_. None) \<and>
     lfReaders (kern s) = (\<lambda>_. []) \<and> (\<forall>p q i. lfName (kern s) p = Some i \<longrightarrow> lfName (kern s) q = Some i \<longrightarrow> p = q) \<and>
     procs s = (\<lambda>_. new_process)"

definition reachable_system :: "system \<Rightarrow> bool" where
  "reachable_system s \<longleftrightarrow> (\<exists>s0. start_system s0 \<and> lock_step\<^sup>*\<^sup>* s0 s)"

text \<open>
  A process holds the lock of a lock file from the check that the file is not stale until \<^verbatim>\<open>unlock\<close> comes
  to it.
\<close>

fun being_unlocked :: "lock_pc \<Rightarrow> (nat \<times> (nat \<times> path) list) option" where
  "being_unlocked (Unlocking x todo fd) = Some (x, todo)"
| "being_unlocked (Unlinked x d lp todo fd) = Some (x, todo)"
| "being_unlocked (ClosingLock x d lp todo fd) = Some (x, todo)"
| "being_unlocked _ = None"

definition live_fds :: "process \<Rightarrow> nat \<Rightarrow> (nat \<times> path) list" where
  "live_fds p x = (case being_unlocked (control p) of
     Some (y, todo) \<Rightarrow> if x = y then todo else fds (objects p x)
   | None \<Rightarrow> fds (objects p x))"

definition holds_lock :: "process \<Rightarrow> path \<Rightarrow> bool" where
  "holds_lock p path \<longleftrightarrow> (\<exists>x d. (d, lockPath path) \<in> set (live_fds p x))"

definition waits_for :: "system \<Rightarrow> (nat \<times> nat) set" where
  "waits_for s = {(a, b). \<exists>x path rest wait d i. control (procs s a) = WaitLock x path rest wait d \<and>
     lfOpen (kern s) a d = Some i \<and> lfWriter (kern s) i = Some b \<and> a \<noteq> b}"

subsection \<open>The protocol on one lock file\<close>

text \<open>
  What a process may use a descriptor of a lock file for: it has opened the file; it has the lock as
  well; it has found the file current; it has removed its name.  The protocol is a relation between
  processes, descriptors, names, inodes and uses, with the kernel's tables.
\<close>

datatype lock_use = Plain | Locked | Held | Dying

type_synonym uses = "nat \<Rightarrow> nat \<Rightarrow> path \<Rightarrow> nat \<Rightarrow> lock_use \<Rightarrow> bool"

definition lock_inv ::
  "uses \<Rightarrow> (path \<Rightarrow> nat option) \<Rightarrow> (nat \<Rightarrow> nat) \<Rightarrow> (nat \<Rightarrow> nat option) \<Rightarrow> bool" where
  "lock_inv U name len writer \<longleftrightarrow>
     (\<forall>a d p i u. U a d p i u \<and> len i = 0 \<longrightarrow> name p = Some i \<or> (\<exists>b e q. U b e q i Dying)) \<and>
     (\<forall>a d p i u b e q v. U a d p i u \<and> U b e q i v \<longrightarrow> p = q) \<and>
     (\<forall>a d p i u q. U a d p i u \<and> name q = Some i \<longrightarrow> q = p) \<and>
     (\<forall>p q i. name p = Some i \<and> name q = Some i \<longrightarrow> p = q) \<and>
     (\<forall>a i. writer i = Some a \<longleftrightarrow> (\<exists>d p u. U a d p i u \<and> u \<noteq> Plain)) \<and>
     (\<forall>a d p i. U a d p i Held \<longrightarrow> len i = 0)"

lemma lock_invI:
  assumes "\<And>a d p i u. U a d p i u \<Longrightarrow> len i = 0 \<Longrightarrow> name p = Some i \<or> (\<exists>b e q. U b e q i Dying)"
    and "\<And>a d p i u b e q v. U a d p i u \<Longrightarrow> U b e q i v \<Longrightarrow> p = q"
    and "\<And>a d p i u q. U a d p i u \<Longrightarrow> name q = Some i \<Longrightarrow> q = p"
    and "\<And>p q i. name p = Some i \<Longrightarrow> name q = Some i \<Longrightarrow> p = q"
    and "\<And>a i. writer i = Some a \<longleftrightarrow> (\<exists>d p u. U a d p i u \<and> u \<noteq> Plain)"
    and "\<And>a d p i. U a d p i Held \<Longrightarrow> len i = 0"
  shows "lock_inv U name len writer"
  unfolding lock_inv_def by (intro conjI allI impI; (elim conjE)?; (rule assms; assumption)?)

lemma lock_invD:
  assumes "lock_inv U name len writer"
  shows "U a d p i u \<Longrightarrow> len i = 0 \<Longrightarrow> name p = Some i \<or> (\<exists>b e q. U b e q i Dying)"
    and "U a d p i u \<Longrightarrow> U b e q i v \<Longrightarrow> p = q"
    and "U a d p i u \<Longrightarrow> name q = Some i \<Longrightarrow> q = p"
    and "name p = Some i \<Longrightarrow> name q = Some i \<Longrightarrow> p = q"
    and "writer i = Some a \<longleftrightarrow> (\<exists>d p u. U a d p i u \<and> u \<noteq> Plain)"
    and "U a d p i Held \<Longrightarrow> len i = 0"
  using assms unfolding lock_inv_def by - (elim conjE, metis)+

text \<open>A descriptor that is held is the one of the current lock file.\<close>

lemma lock_inv_held:
  assumes inv: "lock_inv U name len writer" and held: "U a d p i Held"
    and own: "\<And>e q v. U a e q i v \<Longrightarrow> v \<noteq> Dying"
  shows "name p = Some i"
proof -
  have w: "writer i = Some a" unfolding lock_invD(5) [OF inv] using held by blast
  have "\<not> U b e q i Dying" for b e q
  proof
    assume u: "U b e q i Dying"
    then have "writer i = Some b" unfolding lock_invD(5) [OF inv] by blast
    with w have "b = a" by simp
    with u own [of e q Dying] show False by simp
  qed
  with lock_invD(1) [OF inv held] lock_invD(6) [OF inv held] show ?thesis by blast
qed

lemma lock_inv_open:
  assumes inv: "lock_inv U name len writer" and i: "name lp = Some i"
  shows "lock_inv (\<lambda>b e q j v. U b e q j v \<or> (b = a \<and> e = d \<and> q = lp \<and> j = i \<and> v = Plain)) name len writer"
    (is "lock_inv ?V name len writer")
proof (rule lock_invI)
  fix b e q j v
  assume "?V b e q j v" and z: "len j = 0"
  then consider "U b e q j v" | "q = lp" "j = i" by blast
  then show "name q = Some j \<or> (\<exists>b e q. ?V b e q j Dying)"
  proof cases
    case 1
    from lock_invD(1) [OF inv this z] show ?thesis by auto
  qed (use i in simp)
next
  fix b e q j v c f r w
  assume "?V b e q j v" "?V c f r j w"
  then show "q = r" using lock_invD(2) [OF inv] lock_invD(3) [OF inv _ i] by (elim disjE conjE) simp_all
next
  fix b e q j v r
  assume "?V b e q j v" "name r = Some j"
  then show "r = q" using lock_invD(3) [OF inv] lock_invD(4) [OF inv _ i] by (elim disjE conjE) simp_all
next
  fix b j
  show "writer j = Some b \<longleftrightarrow> (\<exists>e q v. ?V b e q j v \<and> v \<noteq> Plain)"
    unfolding lock_invD(5) [OF inv] by blast
qed (use lock_invD(4,6) [OF inv] in auto)

lemma lock_inv_create:
  assumes inv: "lock_inv U name len writer" and i: "\<And>q. name q \<noteq> Some i" "\<And>b e q v. \<not> U b e q i v"
    and none: "name lp = None"
  shows "lock_inv U (name(lp \<mapsto> i)) (len(i := 0)) writer"
proof (rule lock_invI)
  fix b e q j v
  assume U: "U b e q j v" and "(len(i := 0)) j = 0"
  with i(2) have "j \<noteq> i" "len j = 0" by (auto split: if_splits)
  from lock_invD(1) [OF inv U this(2)] none this(1) show "(name(lp \<mapsto> i)) q = Some j \<or> (\<exists>b e q. U b e q j Dying)" by auto
next
  fix b d q j u r
  assume "U b d q j u" "(name(lp \<mapsto> i)) r = Some j"
  with i(2) show "r = q" using lock_invD(3) [OF inv] by (auto split: if_splits)
next
  fix p q j
  assume "(name(lp \<mapsto> i)) p = Some j" "(name(lp \<mapsto> i)) q = Some j"
  then show "p = q" using i(1) lock_invD(4) [OF inv] by (auto split: if_splits)
next
  fix b d q j
  assume "U b d q j Held"
  with lock_invD(6) [OF inv] show "(len(i := 0)) j = 0" by simp
qed (use lock_invD(2,5) [OF inv] in blast)+

lemma lock_inv_close:
  assumes inv: "lock_inv U name len writer" and d: "U a d lp i u" "u \<noteq> Dying"
    and others: "\<And>p j v. U a d p j v \<Longrightarrow> j = i \<and> v = u" "\<And>e q v. U a e q i v \<Longrightarrow> e = d \<or> v = Plain"
  shows "lock_inv (\<lambda>b e q j v. U b e q j v \<and> (b, e) \<noteq> (a, d)) name len
    (if writer i = Some a then writer(i := None) else writer)"
proof (rule lock_invI)
  fix b e q j v
  assume "U b e q j v \<and> (b, e) \<noteq> (a, d)" "len j = 0"
  then show "name q = Some j \<or> (\<exists>b e q. U b e q j Dying \<and> (b, e) \<noteq> (a, d))"
    using lock_invD(1) [OF inv] d(2) others(1) by blast
next
  fix b j
  show "(if writer i = Some a then writer(i := None) else writer) j = Some b \<longleftrightarrow>
      (\<exists>e q v. (U b e q j v \<and> (b, e) \<noteq> (a, d)) \<and> v \<noteq> Plain)" (is "?l \<longleftrightarrow> ?r")
  proof (cases "j = i")
    case True
    have "?r \<longleftrightarrow> writer i = Some b \<and> b \<noteq> a"
      unfolding True lock_invD(5) [OF inv] using others(2) by blast
    then show ?thesis using True by auto
  next
    case False
    have "?r \<longleftrightarrow> writer j = Some b"
      unfolding lock_invD(5) [OF inv] using others(1) False by blast
    then show ?thesis using False by auto
  qed
next
  fix b e q j v c f r w
  assume "U b e q j v \<and> (b, e) \<noteq> (a, d)" "U c f r j w \<and> (c, f) \<noteq> (a, d)"
  then show "q = r" using lock_invD(2) [OF inv] by (elim conjE)
next
  fix b e q j v r
  assume "U b e q j v \<and> (b, e) \<noteq> (a, d)" "name r = Some j"
  then show "r = q" using lock_invD(3) [OF inv] by (elim conjE)
qed (use lock_invD(4,6) [OF inv] in auto)

text \<open>A descriptor changes its use, with what that does to the tables.\<close>

definition relabel :: "nat \<Rightarrow> nat \<Rightarrow> lock_use \<Rightarrow> uses \<Rightarrow> uses" where
  "relabel a d u U = (\<lambda>b e q j v. if b = a \<and> e = d then v = u \<and> (\<exists>w. U b e q j w) else U b e q j v)"

lemma relabel_cases:
  assumes "relabel a d u U b e q j v"
  obtains w where "U b e q j w" "b = a" "e = d" "v = u" | "U b e q j v" "\<not> (b = a \<and> e = d)"
  using assms by (auto simp: relabel_def split: if_splits)

lemma relabel_other: "U b e q j v \<Longrightarrow> \<not> (b = a \<and> e = d) \<Longrightarrow> relabel a d u U b e q j v"
  by (auto simp: relabel_def)

lemma relabel_self: "U a d q j v \<Longrightarrow> relabel a d u U a d q j u"
  by (auto simp: relabel_def)

lemma lock_inv_relabel:
  assumes inv: "lock_inv U name len writer" and d: "U a d lp i w"
    and one: "\<And>p j v. U a d p j v \<Longrightarrow> p = lp \<and> j = i \<and> v = w"
    and name': "\<And>p j. name' p = Some j \<Longrightarrow> name p = Some j"
    and named: "\<And>b e q j v. relabel a d u U b e q j v \<Longrightarrow> len' j = 0 \<Longrightarrow>
      name' q = Some j \<or> (\<exists>b e q. relabel a d u U b e q j Dying)"
    and writer: "\<And>b. writer' i = Some b \<longleftrightarrow> (\<exists>e q v. relabel a d u U b e q i v \<and> v \<noteq> Plain)"
      "\<And>j. j \<noteq> i \<Longrightarrow> writer' j = writer j"
    and len': "\<And>b e q j. relabel a d u U b e q j Held \<Longrightarrow> len' j = 0"
  shows "lock_inv (relabel a d u U) name' len' writer'"
proof (rule lock_invI)
  fix b e q j v c f r x
  assume "relabel a d u U b e q j v" "relabel a d u U c f r j x"
  then show "q = r" using lock_invD(2) [OF inv] by (elim relabel_cases) blast+
next
  fix b e q j v r
  assume "relabel a d u U b e q j v" "name' r = Some j"
  then show "r = q" using lock_invD(3) [OF inv] name' by (elim relabel_cases) blast+
next
  fix p q j
  assume "name' p = Some j" "name' q = Some j"
  then show "p = q" using lock_invD(4) [OF inv] name' by blast
next
  fix b j
  show "writer' j = Some b \<longleftrightarrow> (\<exists>e q v. relabel a d u U b e q j v \<and> v \<noteq> Plain)"
  proof (cases "j = i")
    case False
    have "relabel a d u U b e q j v \<longleftrightarrow> U b e q j v" for e q v
      using False one by (auto simp: relabel_def)
    then show ?thesis using False writer(2) lock_invD(5) [OF inv] by auto
  qed (use writer(1) in simp)
qed (fact named len')+

lemma named_relabel:
  assumes inv: "lock_inv U name len writer" and w: "\<And>p j. \<not> U a d p j Dying"
    and U: "relabel a d u U b e q j v" and z: "len j = 0"
  shows "name q = Some j \<or> (\<exists>b e q. relabel a d u U b e q j Dying)"
proof -
  from U have "name q = Some j \<or> (\<exists>b e q. U b e q j Dying)"
    by (cases rule: relabel_cases) (rule lock_invD(1) [OF inv _ z], assumption)+
  moreover have "relabel a d u U b e q j Dying" if "U b e q j Dying" for b e q
    using that w by (intro relabel_other) auto
  ultimately show ?thesis by blast
qed

lemma lock_inv_lock:
  assumes inv: "lock_inv U name len writer" and d: "U a d lp i Plain"
    and one: "\<And>p j v. U a d p j v \<Longrightarrow> p = lp \<and> j = i \<and> v = Plain"
    and free: "writer i = None \<or> writer i = Some a"
  shows "lock_inv (relabel a d Locked U) name len (writer(i \<mapsto> a))"
proof (rule lock_inv_relabel [OF inv d one])
  show "name q = Some j \<or> (\<exists>b e q. relabel a d Locked U b e q j Dying)"
    if "relabel a d Locked U b e q j v" "len j = 0" for b e q j v
    using named_relabel [OF inv _ that] one by auto
next
  fix b
  have "\<exists>e q v. relabel a d Locked U a e q i v \<and> v \<noteq> Plain" using relabel_self [of U a d, OF d] by blast
  moreover have "b = a" if "relabel a d Locked U b e q i v" "v \<noteq> Plain" for e q v
    using that(1)
  proof (cases rule: relabel_cases)
    case 2
    then have "writer i = Some b" unfolding lock_invD(5) [OF inv] using that(2) by blast
    with free show ?thesis by auto
  qed simp
  ultimately show "(writer(i \<mapsto> a)) i = Some b \<longleftrightarrow> (\<exists>e q v. relabel a d Locked U b e q i v \<and> v \<noteq> Plain)" by auto
next
  fix b e q j assume "relabel a d Locked U b e q j Held"
  then show "len j = 0" using lock_invD(6) [OF inv] by (elim relabel_cases) auto
qed auto

lemma writer_relabel:
  assumes inv: "lock_inv U name len writer" and d: "U a d lp i w" "w \<noteq> Plain" "u \<noteq> Plain"
    and one: "\<And>p j v. U a d p j v \<Longrightarrow> p = lp \<and> j = i \<and> v = w"
  shows "writer i = Some b \<longleftrightarrow> (\<exists>e q v. relabel a d u U b e q i v \<and> v \<noteq> Plain)"
proof
  assume "writer i = Some b"
  then obtain e q v where "U b e q i v" "v \<noteq> Plain" unfolding lock_invD(5) [OF inv] by blast
  with d(3) show "\<exists>e q v. relabel a d u U b e q i v \<and> v \<noteq> Plain"
    using relabel_self [of U a d q i v u] relabel_other [of U b e q i v a d u] by (cases "b = a \<and> e = d") blast+
next
  assume "\<exists>e q v. relabel a d u U b e q i v \<and> v \<noteq> Plain"
  then obtain e q v where "relabel a d u U b e q i v" "v \<noteq> Plain" by blast
  then have "\<exists>e q v. U b e q i v \<and> v \<noteq> Plain" using d(1,2) by (elim relabel_cases) blast+
  then show "writer i = Some b" unfolding lock_invD(5) [OF inv] .
qed

lemma lock_inv_hold:
  assumes inv: "lock_inv U name len writer" and d: "U a d lp i Locked" and z: "len i = 0"
    and one: "\<And>p j v. U a d p j v \<Longrightarrow> p = lp \<and> j = i \<and> v = Locked"
  shows "lock_inv (relabel a d Held U) name len writer"
proof (rule lock_inv_relabel [OF inv d one])
  show "name q = Some j \<or> (\<exists>b e q. relabel a d Held U b e q j Dying)"
    if "relabel a d Held U b e q j v" "len j = 0" for b e q j v
    using named_relabel [OF inv _ that] one by auto
next
  fix b e q j assume "relabel a d Held U b e q j Held"
  then show "len j = 0" using lock_invD(6) [OF inv] z one by (elim relabel_cases) auto
qed (use writer_relabel [OF inv d _ _ one] in auto)

lemma lock_inv_release:
  assumes inv: "lock_inv U name len writer" and d: "U a d lp i Held"
    and one: "\<And>p j v. U a d p j v \<Longrightarrow> p = lp \<and> j = i \<and> v = Held"
  shows "lock_inv (relabel a d Locked U) name len writer"
proof (rule lock_inv_relabel [OF inv d one])
  show "name q = Some j \<or> (\<exists>b e q. relabel a d Locked U b e q j Dying)"
    if "relabel a d Locked U b e q j v" "len j = 0" for b e q j v
    using named_relabel [OF inv _ that] one by auto
next
  fix b e q j assume "relabel a d Locked U b e q j Held"
  then show "len j = 0" using lock_invD(6) [OF inv] by (elim relabel_cases) auto
qed (use writer_relabel [OF inv d _ _ one] in auto)

text \<open>Removing the name: the descriptor keeps it alive for those that have the file open until the token is written.\<close>

lemma lock_inv_unlink:
  assumes inv: "lock_inv U name len writer" and d: "U a d lp i Held"
    and one: "\<And>p j v. U a d p j v \<Longrightarrow> p = lp \<and> j = i \<and> v = Held"
    and own: "\<And>e q v. U a e q i v \<Longrightarrow> v \<noteq> Dying"
    and name': "name' = name \<or> name' = name(lp := None)"
  shows "lock_inv (relabel a d Dying U) name' len writer"
proof (rule lock_inv_relabel [OF inv d one])
  fix b e q j v assume U: "relabel a d Dying U b e q j v" and z: "len j = 0"
  have dying: "relabel a d Dying U a d lp i Dying" by (rule relabel_self [of U a d, OF d])
  have "name q = Some j \<or> (\<exists>b e q. relabel a d Dying U b e q j Dying)"
    using one by (intro named_relabel [OF inv _ U z]) auto
  then show "name' q = Some j \<or> (\<exists>b e q. relabel a d Dying U b e q j Dying)"
  proof
    assume q: "name q = Some j"
    show ?thesis
    proof (cases "q = lp")
      case True
      with q lock_inv_held [OF inv d own] dying show ?thesis by auto
    qed (use q name' in auto)
  qed simp
next
  fix b e q j assume "relabel a d Dying U b e q j Held"
  then show "len j = 0" using lock_invD(6) [OF inv] by (elim relabel_cases) auto
qed (use writer_relabel [OF inv d _ _ one] name' in \<open>auto split: if_splits\<close>)

lemma lock_inv_write:
  assumes inv: "lock_inv U name len writer" and d: "U a d lp i Dying"
    and one: "\<And>p j v. U a d p j v \<Longrightarrow> p = lp \<and> j = i \<and> v = Dying"
    and own: "\<And>e q v. U a e q i v \<Longrightarrow> v \<noteq> Held"
  shows "lock_inv (relabel a d Locked U) name (len(i := len i + 1)) writer"
proof (rule lock_inv_relabel [OF inv d one])
  fix b e q j v assume U: "relabel a d Locked U b e q j v" and z: "(len(i := len i + 1)) j = 0"
  then have j: "j \<noteq> i" "len j = 0" by (auto split: if_splits)
  from U have "name q = Some j \<or> (\<exists>b e q. U b e q j Dying)"
    by (cases rule: relabel_cases) (rule lock_invD(1) [OF inv _ j(2)], assumption)+
  moreover have "relabel a d Locked U b e q j Dying" if "U b e q j Dying" for b e q
    using that one j by (intro relabel_other) auto
  ultimately show "name q = Some j \<or> (\<exists>b e q. relabel a d Locked U b e q j Dying)" by blast
next
  fix b e q j assume r: "relabel a d Locked U b e q j Held"
  then have U: "U b e q j Held" by (cases rule: relabel_cases) simp_all
  have "j \<noteq> i"
  proof
    assume "j = i"
    with U have "writer i = Some b" unfolding lock_invD(5) [OF inv] by blast
    moreover have "writer i = Some a" unfolding lock_invD(5) [OF inv] using d by blast
    ultimately show False using U own \<open>j = i\<close> by auto
  qed
  with lock_invD(6) [OF inv U] show "(len(i := len i + 1)) j = 0" by simp
qed (use writer_relabel [OF inv d _ _ one] in auto)

lemma lock_inv_exit:
  assumes inv: "lock_inv U name len writer" and alive: "\<And>d p i. \<not> U a d p i Dying"
  shows "lock_inv (\<lambda>b e q j v. U b e q j v \<and> b \<noteq> a) name len (\<lambda>i. if writer i = Some a then None else writer i)"
proof (rule lock_invI)
  fix b e q j v
  assume "U b e q j v \<and> b \<noteq> a" and z: "len j = 0"
  then show "name q = Some j \<or> (\<exists>b e q. U b e q j Dying \<and> b \<noteq> a)"
    using lock_invD(1) [OF inv _ z] alive by blast
next
  fix b e q j v c f r w
  assume "U b e q j v \<and> b \<noteq> a" "U c f r j w \<and> c \<noteq> a"
  then show "q = r" using lock_invD(2) [OF inv] by (elim conjE)
next
  fix b e q j v r
  assume "U b e q j v \<and> b \<noteq> a" "name r = Some j"
  then show "r = q" using lock_invD(3) [OF inv] by (elim conjE)
next
  fix b j
  show "(if writer j = Some a then None else writer j) = Some b \<longleftrightarrow> (\<exists>e q v. (U b e q j v \<and> b \<noteq> a) \<and> v \<noteq> Plain)"
    using lock_invD(5) [OF inv, of j b] by auto
qed (use lock_invD(4,6) [OF inv] in auto)

subsection \<open>The processes follow the protocol\<close>

fun auto_close :: "(nat \<times> path) option \<Rightarrow> (nat \<times> path \<times> lock_use) list" where
  "auto_close None = []"
| "auto_close (Some (d, lp)) = [(d, lp, Plain)]"

lemma auto_close_Plain: "(d, lp, u) \<in> set (auto_close fd) \<Longrightarrow> u = Plain"
  by (cases fd rule: auto_close.cases) simp_all

fun pc_uses :: "lock_pc \<Rightarrow> (nat \<times> path \<times> lock_use) list" where
  "pc_uses (Opening x path rest wait (Some old)) = [(old, lockPath path, Locked)]"
| "pc_uses (ClosingOld x path rest wait old d) = [(old, lockPath path, Locked), (d, lockPath path, Plain)]"
| "pc_uses (TryLock x path rest wait d) = [(d, lockPath path, Plain)]"
| "pc_uses (WaitLock x path rest wait d) = [(d, lockPath path, Plain)]"
| "pc_uses (Checking x path rest wait d) = [(d, lockPath path, Locked)]"
| "pc_uses (Unlocking x todo fd) = auto_close fd"
| "pc_uses (Unlinked x d lp todo fd) = (d, lp, Dying) # auto_close fd"
| "pc_uses (ClosingLock x d lp todo fd) = (d, lp, Locked) # auto_close fd"
| "pc_uses _ = []"

definition held :: "process \<Rightarrow> (nat \<times> nat \<times> path) set" where
  "held p = {(x, d, lp). (d, lp) \<in> set (live_fds p x)}"

definition fd_uses :: "process \<Rightarrow> nat \<Rightarrow> path \<Rightarrow> lock_use \<Rightarrow> bool" where
  "fd_uses p d lp u \<longleftrightarrow> (d, lp, u) \<in> set (pc_uses (control p)) \<or> u = Held \<and> (\<exists>x. (x, d, lp) \<in> held p)"

definition system_uses :: "system \<Rightarrow> uses" where
  "system_uses s a d lp i u \<longleftrightarrow> lfOpen (kern s) a d = Some i \<and> fd_uses (procs s a) d lp u"

text \<open>What \<^verbatim>\<open>lockPaths\<close> still has to lock: in order, and behind what the object has locked.\<close>

fun to_lock :: "lock_pc \<Rightarrow> (nat \<times> path list) option" where
  "to_lock (LockNext x paths wait) = Some (x, paths)"
| "to_lock (Opening x path rest wait fd) = Some (x, path # rest)"
| "to_lock (ClosingOld x path rest wait old d) = Some (x, path # rest)"
| "to_lock (TryLock x path rest wait d) = Some (x, path # rest)"
| "to_lock (WaitLock x path rest wait d) = Some (x, path # rest)"
| "to_lock (Checking x path rest wait d) = Some (x, path # rest)"
| "to_lock _ = None"

fun current_path :: "lock_pc \<Rightarrow> path option" where
  "current_path (Opening x path rest wait fd) = Some path"
| "current_path (ClosingOld x path rest wait old d) = Some path"
| "current_path (TryLock x path rest wait d) = Some path"
| "current_path (WaitLock x path rest wait d) = Some path"
| "current_path (Checking x path rest wait d) = Some path"
| "current_path _ = None"

definition in_order :: "process \<Rightarrow> nat \<Rightarrow> path list \<Rightarrow> bool" where
  "in_order p x paths \<longleftrightarrow> is_set paths \<and>
     (\<forall>f \<in> set (fds (objects p x)). \<exists>q. snd f = lockPath q \<and> (\<forall>r \<in> set paths. q < r))"

definition process_ok :: "process \<Rightarrow> bool" where
  "process_ok p \<longleftrightarrow>
     (\<forall>x d lp y e lq. (x, d, lp) \<in> held p \<and> (y, e, lq) \<in> held p \<and> (d = e \<or> lp = lq) \<longrightarrow> x = y \<and> d = e \<and> lp = lq) \<and>
     (\<forall>x. distinct (live_fds p x)) \<and>
     (\<forall>d lp u x e lq. (d, lp, u) \<in> set (pc_uses (control p)) \<and> (x, e, lq) \<in> held p \<longrightarrow> d \<noteq> e \<and> lp \<noteq> lq) \<and>
     (\<forall>x d lp. (x, d, lp) \<in> held p \<longrightarrow> lp \<in> set (lockedPaths p)) \<and>
     distinct (map fst (pc_uses (control p))) \<and>
     (\<forall>path. current_path (control p) = Some path \<longrightarrow> lockPath path \<notin> set (lockedPaths p)) \<and>
     (\<forall>x paths. to_lock (control p) = Some (x, paths) \<longrightarrow> in_order p x paths)"

lemma process_okI:
  assumes "\<And>x d lp y e lq. (x, d, lp) \<in> held p \<Longrightarrow> (y, e, lq) \<in> held p \<Longrightarrow> d = e \<or> lp = lq \<Longrightarrow> x = y \<and> d = e \<and> lp = lq"
    and "\<And>x. distinct (live_fds p x)"
    and "\<And>d lp u x e lq. (d, lp, u) \<in> set (pc_uses (control p)) \<Longrightarrow> (x, e, lq) \<in> held p \<Longrightarrow> d \<noteq> e \<and> lp \<noteq> lq"
    and "\<And>x d lp. (x, d, lp) \<in> held p \<Longrightarrow> lp \<in> set (lockedPaths p)"
    and "distinct (map fst (pc_uses (control p)))"
    and "\<And>path. current_path (control p) = Some path \<Longrightarrow> lockPath path \<notin> set (lockedPaths p)"
    and "\<And>x paths. to_lock (control p) = Some (x, paths) \<Longrightarrow> in_order p x paths"
  shows "process_ok p"
  unfolding process_ok_def by (intro conjI; metis assms)

lemma process_okD:
  assumes "process_ok p"
  shows "(x, d, lp) \<in> held p \<Longrightarrow> (y, e, lq) \<in> held p \<Longrightarrow> d = e \<or> lp = lq \<Longrightarrow> x = y \<and> d = e \<and> lp = lq"
    and "distinct (live_fds p x)"
    and "(d, lp, u) \<in> set (pc_uses (control p)) \<Longrightarrow> (x, e, lq) \<in> held p \<Longrightarrow> d \<noteq> e \<and> lp \<noteq> lq"
    and "(x, d, lp) \<in> held p \<Longrightarrow> lp \<in> set (lockedPaths p)"
    and "distinct (map fst (pc_uses (control p)))"
    and "current_path (control p) = Some path \<Longrightarrow> lockPath path \<notin> set (lockedPaths p)"
    and "to_lock (control p) = Some (x, paths) \<Longrightarrow> in_order p x paths"
  using assms unfolding process_ok_def by - (elim conjE, metis)+

lemma fd_uses_unique:
  assumes ok: "process_ok p" and u: "fd_uses p d lp u" and v: "fd_uses p d lq v"
  shows "lq = lp \<and> v = u"
proof -
  have "(lp, u) = (lq, v)" if "(d, lp, u) \<in> set (pc_uses (control p))" "(d, lq, v) \<in> set (pc_uses (control p))"
    using process_okD(5) [OF ok] that by (metis distinct_map fst_conv inj_onD snd_conv)
  with u v process_okD(1,3) [OF ok] show ?thesis unfolding fd_uses_def by blast
qed

text \<open>Two descriptors of one lock file are never both more than open.\<close>

lemma fd_uses_path:
  assumes ok: "process_ok p" and u: "fd_uses p d lp u" and v: "fd_uses p e lp v" and "d \<noteq> e"
  shows "u = Plain \<or> v = Plain"
proof -
  have "u = Plain \<or> v = Plain" if "(d, lp, u) \<in> set (pc_uses pc)" "(e, lp, v) \<in> set (pc_uses pc)" for pc
    using that \<open>d \<noteq> e\<close> by (cases pc rule: pc_uses.cases) (auto dest: auto_close_Plain)
  with u v \<open>d \<noteq> e\<close> process_okD(1,3) [OF ok] show ?thesis unfolding fd_uses_def by blast
qed

definition system_ok :: "system \<Rightarrow> bool" where
  "system_ok s \<longleftrightarrow> (\<forall>a. process_ok (procs s a) \<and> (\<forall>d lp u. fd_uses (procs s a) d lp u \<longrightarrow> lfOpen (kern s) a d \<noteq> None)) \<and>
     lock_inv (system_uses s) (lfName (kern s)) (lfSize (kern s)) (lfWriter (kern s))"

lemma system_okD:
  assumes "system_ok s"
  shows "process_ok (procs s a)"
    and "fd_uses (procs s a) d lp u \<Longrightarrow> \<exists>i. lfOpen (kern s) a d = Some i"
    and "lock_inv (system_uses s) (lfName (kern s)) (lfSize (kern s)) (lfWriter (kern s))"
  using assms unfolding system_ok_def by blast+

text \<open>One process moves; the protocol has to be kept for the table it leaves.\<close>

lemma system_ok_put:
  assumes ok: "system_ok s" and p: "process_ok p"
    and opened: "\<And>d lp u. fd_uses p d lp u \<Longrightarrow> lfOpen k a d \<noteq> None"
    and others: "\<And>b. b \<noteq> a \<Longrightarrow> lfOpen k b = lfOpen (kern s) b"
    and U: "\<And>b d lp i u. U b d lp i u \<longleftrightarrow>
      (if b = a then lfOpen k a d = Some i \<and> fd_uses p d lp u else system_uses s b d lp i u)"
    and inv: "lock_inv U (lfName k) (lfSize k) (lfWriter k)"
  shows "system_ok (put_process a (p, k) s)"
proof -
  have "system_uses (put_process a (p, k) s) = U"
    using others by (auto simp: fun_eq_iff system_uses_def put_process_def U)
  moreover have "process_ok (procs (put_process a (p, k) s) b) \<and>
      (\<forall>d lp u. fd_uses (procs (put_process a (p, k) s) b) d lp u \<longrightarrow> lfOpen (kern (put_process a (p, k) s)) b d \<noteq> None)" for b
    using others p opened ok by (cases "b = a") (auto simp: put_process_def system_ok_def)
  ultimately show ?thesis using inv by (simp add: system_ok_def put_process_def)
qed

lemma system_usesI: "system_ok s \<Longrightarrow> fd_uses (procs s a) d lp u \<Longrightarrow> \<exists>i. system_uses s a d lp i u"
  using system_okD(2) by (simp add: system_uses_def)

lemma system_uses_one:
  assumes "system_ok s" and "system_uses s a d lp i u" and "system_uses s a d q j v"
  shows "q = lp \<and> j = i \<and> v = u"
  using assms(2,3) fd_uses_unique [OF system_okD(1) [OF assms(1)]] by (auto simp: system_uses_def)

text \<open>Descriptors of one process on one inode.\<close>

lemma system_uses_inode:
  assumes ok: "system_ok s" and "system_uses s a d lp i u" and "system_uses s a e q i v" and "e \<noteq> d"
  shows "u = Plain \<or> v = Plain"
proof -
  have "q = lp" using lock_invD(2) [OF system_okD(3) [OF ok] assms(3,2)] .
  with assms(2-4) fd_uses_path [OF system_okD(1) [OF ok], of a d lp u e v] show ?thesis by (auto simp: system_uses_def)
qed

lemma system_ok_silent:
  assumes "system_ok s" and "process_ok p" and "fd_uses p = fd_uses (procs s a)"
  shows "system_ok (put_process a (p, kern s) s)"
proof (rule system_ok_put [OF assms(1,2)])
  show "lfOpen (kern s) a d \<noteq> None" if "fd_uses p d lp u" for d lp u
    using that assms(3) system_okD(2) [OF assms(1), of a d lp u] by auto
  show "lock_inv (system_uses s) (lfName (kern s)) (lfSize (kern s)) (lfWriter (kern s))" by (rule system_okD(3) [OF assms(1)])
qed (simp_all add: system_uses_def assms(3))

lemma system_ok_close:
  assumes ok: "system_ok s" and p: "process_ok p" and d: "fd_uses (procs s a) d lp u" "u \<noteq> Dying"
    and others: "\<And>e v. fd_uses (procs s a) e lp v \<Longrightarrow> e \<noteq> d \<Longrightarrow> v = Plain"
    and uses: "\<And>e q v. fd_uses p e q v \<longleftrightarrow> fd_uses (procs s a) e q v \<and> e \<noteq> d"
  shows "system_ok (put_process a (p, close_fd a d (kern s)) s)"
proof -
  from system_usesI [OF ok d(1)] obtain i where i: "system_uses s a d lp i u" ..
  have k: "lfOpen (kern s) a d = Some i" using i by (simp add: system_uses_def)
  show ?thesis
  proof (rule system_ok_put [OF ok p])
    show "lock_inv (\<lambda>b e q j v. system_uses s b e q j v \<and> (b, e) \<noteq> (a, d)) (lfName (close_fd a d (kern s)))
        (lfSize (close_fd a d (kern s))) (lfWriter (close_fd a d (kern s)))"
    proof -
      have "e = d \<or> v = Plain" if "system_uses s a e q i v" for e q v
        using that others [of e v] lock_invD(2) [OF system_okD(3) [OF ok] that i] by (auto simp: system_uses_def)
      from lock_inv_close [OF system_okD(3) [OF ok] i d(2) _ this] system_uses_one [OF ok i] show ?thesis
        by (simp add: close_fd_def k)
    qed
    show "lfOpen (close_fd a d (kern s)) a e \<noteq> None" if "fd_uses p e q v" for e q v
      using that uses system_okD(2) [OF ok, of a e q v] by (auto simp: close_fd_def k)
  qed (auto simp: close_fd_def k uses system_uses_def)
qed

lemma system_ok_relabel:
  assumes ok: "system_ok s" and p: "process_ok p"
    and uses: "\<And>e q v. fd_uses p e q v \<longleftrightarrow>
      (if e = d then v = u \<and> (\<exists>w. fd_uses (procs s a) e q w) else fd_uses (procs s a) e q v)"
    and k: "lfOpen k = lfOpen (kern s)"
    and inv: "lock_inv (relabel a d u (system_uses s)) (lfName k) (lfSize k) (lfWriter k)"
  shows "system_ok (put_process a (p, k) s)"
proof (rule system_ok_put [OF ok p _ _ _ inv])
  show "lfOpen k a e \<noteq> None" if "fd_uses p e q v" for e q v
    using that uses system_okD(2) [OF ok, of a e q] k by (auto split: if_splits)
qed (auto simp: k uses system_uses_def relabel_def)

lemma system_ok_open:
  assumes ok: "system_ok s" and p: "process_ok p" and ch: "fresh_choice a ch (kern s)"
    and uses: "\<And>e q v. fd_uses p e q v \<longleftrightarrow> fd_uses (procs s a) e q v \<or> (e = chFd ch \<and> q = lp \<and> v = Plain)"
    and k: "openLockFile a ch lp True (kern s) = (fd, k)"
  shows "system_ok (put_process a (p, k) s)"
proof -
  have unopened: "\<not> system_uses s b e q (chInode ch) v" for b e q v
    using ch by (simp add: fresh_choice_def system_uses_def)
  define i where "i = (case lfName (kern s) lp of Some i \<Rightarrow> i | None \<Rightarrow> chInode ch)"
  have kk: "lfOpen k = (lfOpen (kern s))(a := (lfOpen (kern s) a)(chFd ch \<mapsto> i))" "lfWriter k = lfWriter (kern s)"
    "lfName k lp = Some i"
    using k by (auto simp: openLockFile_def i_def split: option.splits)
  have inv: "lock_inv (system_uses s) (lfName k) (lfSize k) (lfWriter k)"
  proof (cases "lfName (kern s) lp")
    case None
    from ch have "lfName (kern s) q \<noteq> Some (chInode ch)" for q by (simp add: fresh_choice_def)
    from lock_inv_create [OF system_okD(3) [OF ok] this unopened None] show ?thesis
      using k None by (auto simp: openLockFile_def)
  next
    case (Some j)
    with k system_okD(3) [OF ok] show ?thesis by (auto simp: openLockFile_def)
  qed
  have new: "\<not> fd_uses (procs s a) (chFd ch) q v" for q v
    using system_okD(2) [OF ok, of a "chFd ch" q v] ch by (auto simp: fresh_choice_def)
  show ?thesis
  proof (rule system_ok_put [OF ok p _ _ _ lock_inv_open [OF inv kk(3), of a "chFd ch"]])
    show "lfOpen k a e \<noteq> None" if "fd_uses p e q v" for e q v
      using that uses kk(1) system_okD(2) [OF ok, of a e q v] by auto
    show "system_uses s b e q j v \<or> b = a \<and> e = chFd ch \<and> q = lp \<and> j = i \<and> v = Plain \<longleftrightarrow>
      (if b = a then lfOpen k a e = Some j \<and> fd_uses p e q v else system_uses s b e q j v)" for b e q j v
      using new by (auto simp: kk(1) uses system_uses_def)
  qed (simp add: kk(1))
qed

subsection \<open>Every step keeps the system well-formed\<close>

lemma live_fds_outside [simp]: "being_unlocked (control p) = None \<Longrightarrow> live_fds p x = fds (objects p x)"
  by (simp add: live_fds_def)

lemma held_cong: "live_fds p = live_fds q \<Longrightarrow> held p = held q"
  by (simp add: held_def)

lemma to_lock_current:
  "current_path c = Some path \<Longrightarrow> being_unlocked c = None \<and> (\<exists>x rest. to_lock c = Some (x, path # rest))"
  by (cases c) auto

lemma current_not_held:
  assumes "process_ok p" and "current_path (control p) = Some path"
  shows "(x, d, lockPath path) \<notin> held p"
  using process_okD(4,6) [OF assms(1)] assms(2) by blast

lemma in_order_update [simp]:
  "in_order (p\<lparr>control := c\<rparr>) x paths = in_order p x paths"
  "in_order (p\<lparr>control := c, result := r\<rparr>) x paths = in_order p x paths"
  by (simp_all add: in_order_def)

text \<open>Moving on without acquiring or releasing a lock.\<close>

lemma process_ok_move:
  assumes ok: "process_ok p" and same: "live_fds q = live_fds p" "lockedPaths q = lockedPaths p"
    and uses: "\<And>d lp u x e lq. (d, lp, u) \<in> set (pc_uses (control q)) \<Longrightarrow> (x, e, lq) \<in> held p \<Longrightarrow> d \<noteq> e \<and> lp \<noteq> lq"
    and "distinct (map fst (pc_uses (control q)))"
    and path: "\<And>path. current_path (control q) = Some path \<Longrightarrow> lockPath path \<notin> set (lockedPaths p)"
    and order: "\<And>x paths. to_lock (control q) = Some (x, paths) \<Longrightarrow> in_order q x paths"
  shows "process_ok q"
proof -
  have h: "held q = held p" by (rule held_cong [OF same(1)])
  show ?thesis
  proof (rule process_okI, unfold h same)
    show "d \<noteq> e \<and> lp \<noteq> lq" if "(d, lp, u) \<in> set (pc_uses (control q))" "(x, e, lq) \<in> held p" for d lp u x e lq
      using that by (rule uses)
  qed (rule process_okD(1,2,4) [OF ok] assms(5) path order; assumption)+
qed

lemma process_ok_advance:
  assumes ok: "process_ok p" and same: "live_fds q = live_fds p" "lockedPaths q = lockedPaths p"
    and uses: "\<And>d lp u. (d, lp, u) \<in> set (pc_uses (control q)) \<Longrightarrow> \<exists>v. (d, lp, v) \<in> set (pc_uses (control p))"
    and rest: "distinct (map fst (pc_uses (control q)))"
      "\<And>path. current_path (control q) = Some path \<Longrightarrow> lockPath path \<notin> set (lockedPaths p)"
      "\<And>x paths. to_lock (control q) = Some (x, paths) \<Longrightarrow> in_order q x paths"
  shows "process_ok q"
proof (rule process_ok_move [OF ok same _ rest])
  fix d lp u x e lq
  assume "(d, lp, u) \<in> set (pc_uses (control q))" and h: "(x, e, lq) \<in> held p"
  then obtain v where "(d, lp, v) \<in> set (pc_uses (control p))" using uses by blast
  from process_okD(3) [OF ok this h] show "d \<noteq> e \<and> lp \<noteq> lq" .
qed

text \<open>
  Every step of \<^verbatim>\<open>lockPaths\<close>: the cases are the system calls, and each keeps the well-formedness of the
  process and is a move of the protocol.
\<close>

lemma open_step_ok:
  assumes ok: "system_ok s" and ch: "fresh_choice a ch (kern s)"
    and c: "control (procs s a) = Opening x path rest wait fd"
    and k: "openLockFile a ch (lockPath path) True (kern s) = (Some d, k)"
  shows "system_ok (put_process a ((procs s a)\<lparr>control := (case fd of None \<Rightarrow> TryLock x path rest wait d
                                         | Some old \<Rightarrow> ClosingOld x path rest wait old d)\<rparr>, k) s)"
proof -
  let ?c = "case fd of None \<Rightarrow> TryLock x path rest wait d | Some old \<Rightarrow> ClosingOld x path rest wait old d"
  note p = system_okD(1) [OF ok, of a]
  have d: "d = chFd ch" using k by (auto simp: openLockFile_def split: option.splits)
  have new: "\<not> fd_uses (procs s a) d q v" for q v
    using system_okD(2) [OF ok, of a d q v] ch d by (auto simp: fresh_choice_def)
  have b: "being_unlocked ?c = None" by (cases fd) simp_all
  have live: "live_fds ((procs s a)\<lparr>control := ?c\<rparr>) = live_fds (procs s a)"
    using b c by (simp add: live_fds_def fun_eq_iff)
  have uses: "set (pc_uses ?c) = insert (d, lockPath path, Plain) (set (pc_uses (control (procs s a))))"
    using c by (cases fd) auto
  show ?thesis
  proof (rule system_ok_open [OF ok _ ch _ k])
    show "fd_uses ((procs s a)\<lparr>control := ?c\<rparr>) e q v \<longleftrightarrow>
        fd_uses (procs s a) e q v \<or> (e = chFd ch \<and> q = lockPath path \<and> v = Plain)" for e q v
      unfolding fd_uses_def held_cong [OF live] using uses d by auto
    show "process_ok ((procs s a)\<lparr>control := ?c\<rparr>)"
    proof (rule process_ok_move [OF p live])
      show "e \<noteq> f \<and> lp \<noteq> lq" if "(e, lp, u) \<in> set (pc_uses (control ((procs s a)\<lparr>control := ?c\<rparr>)))" "(y, f, lq) \<in> held (procs s a)"
        for e lp u y f lq
      proof (cases "(e, lp, u) = (d, lockPath path, Plain)")
        case True
        have "f \<noteq> d" using that(2) new [of lq Held] by (auto simp: fd_uses_def)
        then show ?thesis using True current_not_held [OF p, of path y f] c that(2) by auto
      next
        case False
        then show ?thesis using that uses process_okD(3) [OF p, of e lp u] by auto
      qed
      have "old \<noteq> d" if "fd = Some old" for old
        using new [of "lockPath path" Locked] c that by (auto simp: fd_uses_def)
      then show "distinct (map fst (pc_uses (control ((procs s a)\<lparr>control := ?c\<rparr>))))" by (cases fd) auto
      show "lockPath r \<notin> set (lockedPaths (procs s a))" if "current_path (control ((procs s a)\<lparr>control := ?c\<rparr>)) = Some r" for r
        using that process_okD(6) [OF p, of path] c by (cases fd) auto
      show "in_order ((procs s a)\<lparr>control := ?c\<rparr>) y paths" if "to_lock (control ((procs s a)\<lparr>control := ?c\<rparr>)) = Some (y, paths)" for y paths
        using that process_okD(7) [OF p, of x "path # rest"] c by (cases fd) auto
    qed simp
  qed
qed

text \<open>Steps that only move on, and steps that close a descriptor which is not one of the held ones.\<close>

lemma move_silent:
  assumes ok: "system_ok s" and live: "live_fds q = live_fds (procs s a)" and locked: "lockedPaths q = lockedPaths (procs s a)"
    and uses: "pc_uses (control q) = pc_uses (control (procs s a))"
    and path: "\<And>path. current_path (control q) = Some path \<Longrightarrow> lockPath path \<notin> set (lockedPaths (procs s a))"
    and order: "\<And>x paths. to_lock (control q) = Some (x, paths) \<Longrightarrow> in_order q x paths"
  shows "system_ok (put_process a (q, kern s) s)"
proof (rule system_ok_silent [OF ok])
  show "process_ok q"
    using process_okD(5) [OF system_okD(1) [OF ok], of a]
    by (intro process_ok_advance [OF system_okD(1) [OF ok] live locked _ _ path order]) (auto simp: uses)
  show "fd_uses q = fd_uses (procs s a)"
    by (simp add: fun_eq_iff fd_uses_def uses held_cong [OF live])
qed

lemma move_close:
  assumes ok: "system_ok s" and live: "live_fds q = live_fds (procs s a)" and locked: "lockedPaths q = lockedPaths (procs s a)"
    and uses: "pc_uses (control (procs s a)) = (d, lp, u) # pc_uses (control q)" "u \<noteq> Dying"
    and path: "\<And>path. current_path (control q) = Some path \<Longrightarrow> lockPath path \<notin> set (lockedPaths (procs s a))"
    and order: "\<And>x paths. to_lock (control q) = Some (x, paths) \<Longrightarrow> in_order q x paths"
    and plain: "\<And>e v. (e, lp, v) \<in> set (pc_uses (control q)) \<Longrightarrow> v = Plain"
  shows "system_ok (put_process a (q, close_fd a d (kern s)) s)"
proof -
  note p = system_okD(1) [OF ok, of a]
  have dist: "distinct (map fst (pc_uses (control q)))" "d \<notin> fst ` set (pc_uses (control q))"
    using process_okD(5) [OF p] uses(1) by auto
  have not_held: "d \<noteq> e \<and> lp \<noteq> lq" if "(x, e, lq) \<in> held (procs s a)" for x e lq
    using process_okD(3) [OF p _ that, of d lp u] uses(1) by simp
  show ?thesis
  proof (rule system_ok_close [OF ok])
    show "process_ok q"
      by (intro process_ok_advance [OF p live locked _ dist(1) path order]) (auto simp: uses)
    show "fd_uses (procs s a) d lp u" by (simp add: fd_uses_def uses)
    show "v = Plain" if "fd_uses (procs s a) e lp v" "e \<noteq> d" for e v
      using that by (auto simp: fd_uses_def uses dest: not_held plain)
    show "fd_uses q e r v \<longleftrightarrow> fd_uses (procs s a) e r v \<and> e \<noteq> d" for e r v
      using dist(2) not_held by (auto simp: fd_uses_def uses held_cong [OF live] image_iff)
  qed (fact uses(2))
qed

lemma lock_granted_ok:
  assumes ok: "system_ok s" and uses: "pc_uses (control (procs s a)) = [(d, lockPath path, Plain)]"
    and path: "current_path (control (procs s a)) = Some path" and order: "to_lock (control (procs s a)) = Some (x, path # rest)"
    and k: "lockFile a d ltWrite (kern s) = Some k"
  shows "system_ok (put_process a ((procs s a)\<lparr>control := Checking x path rest wait d\<rparr>, k) s)"
proof -
  note p = system_okD(1) [OF ok, of a]
  let ?p = "(procs s a)\<lparr>control := Checking x path rest wait d\<rparr>"
  have live: "live_fds ?p = live_fds (procs s a)" using to_lock_current [OF path] by (simp add: fun_eq_iff)
  have "fd_uses (procs s a) d (lockPath path) Plain" by (simp add: fd_uses_def uses)
  from system_usesI [OF ok this] obtain i where i: "system_uses s a d (lockPath path) i Plain" ..
  then have d: "lfOpen (kern s) a d = Some i" by (simp add: system_uses_def)
  have free: "lfWriter (kern s) i = None \<or> lfWriter (kern s) i = Some a"
    and kk: "lfName k = lfName (kern s)" "lfSize k = lfSize (kern s)" "lfOpen k = lfOpen (kern s)" "lfWriter k = (lfWriter (kern s))(i \<mapsto> a)"
    using k d by (auto simp: lockFile_def Let_def split: if_splits)
  show ?thesis
  proof (rule system_ok_relabel [OF ok _ _ kk(3)])
    show "process_ok ?p"
      using process_okD(6) [OF p path] process_okD(7) [OF p order]
      by (intro process_ok_advance [OF p live]) (auto simp: uses)
    show "fd_uses ?p e q v \<longleftrightarrow>
      (if e = d then v = Locked \<and> (\<exists>w. fd_uses (procs s a) e q w) else fd_uses (procs s a) e q v)" for e q v
      using process_okD(3) [OF p, of d "lockPath path" Plain] uses
      by (auto simp: fd_uses_def held_cong [OF live])
    show "lock_inv (relabel a d Locked (system_uses s)) (lfName k) (lfSize k) (lfWriter k)"
      unfolding kk by (rule lock_inv_lock [OF system_okD(3) [OF ok] i system_uses_one [OF ok i] free])
  qed
qed

lemma lock_checked_ok:
  assumes ok: "system_ok s" and c: "control (procs s a) = Checking x path rest wait d"
    and i: "lfOpen (kern s) a d = Some i" "lfSize (kern s) i = 0"
  shows "system_ok (put_process a ((put_object x ((objects (procs s a) x)\<lparr>fds := fds (objects (procs s a) x) @ [(d, lockPath path)]\<rparr>) (procs s a))
                         \<lparr>lockedPaths := set_insert (lockPath path) (lockedPaths (procs s a)), control := LockNext x rest wait\<rparr>, kern s) s)"
    (is "system_ok (put_process a (?p, kern s) s)")
proof -
  note p = system_okD(1) [OF ok, of a]
  let ?t = "(x, d, lockPath path)"
  have live: "live_fds ?p y = (if y = x then fds (objects (procs s a) x) @ [(d, lockPath path)] else live_fds (procs s a) y)"
    "live_fds (procs s a) x = fds (objects (procs s a) x)" for y
    using c by (simp_all add: put_object_def)
  have held: "held ?p = insert ?t (held (procs s a))"
    unfolding held_def live(1) by (auto simp: live(2) simp del: live_fds_outside split: if_splits)
  have new: "d \<noteq> e \<and> lockPath path \<noteq> lq" if "(y, e, lq) \<in> held (procs s a)" for y e lq
    using process_okD(3) [OF p _ that, of d "lockPath path" Locked] c by simp
  have sys: "system_uses s a d (lockPath path) i Locked" using i c by (simp add: system_uses_def fd_uses_def)
  show ?thesis
  proof (rule system_ok_relabel [OF ok, where k = "kern s"])
    have order: "in_order (procs s a) x (path # rest)" using process_okD(7) [OF p] c by simp
    show "process_ok ?p"
    proof (rule process_okI)
      fix y e lp z f lq
      assume that: "(y, e, lp) \<in> held ?p" "(z, f, lq) \<in> held ?p" "e = f \<or> lp = lq"
      show "y = z \<and> e = f \<and> lp = lq"
      proof (cases "(y, e, lp) = ?t"; cases "(z, f, lq) = ?t")
        assume "(y, e, lp) \<noteq> ?t" "(z, f, lq) \<noteq> ?t"
        with that(1,2) have "(y, e, lp) \<in> held (procs s a)" "(z, f, lq) \<in> held (procs s a)"
          unfolding held by (auto simp del: prod.inject)
        from process_okD(1) [OF p this that(3)] show ?thesis .
      next
        assume "(y, e, lp) = ?t" "(z, f, lq) \<noteq> ?t"
        with that(2) new [of z f lq] have "e \<noteq> f \<and> lp \<noteq> lq" by (auto simp: held)
        with that(3) show ?thesis by simp
      next
        assume "(y, e, lp) \<noteq> ?t" "(z, f, lq) = ?t"
        with that(1) new [of y e lp] have "f \<noteq> e \<and> lq \<noteq> lp" by (auto simp: held)
        with that(3) show ?thesis by simp
      qed simp
    next
      show "distinct (live_fds ?p y)" for y
        using process_okD(2) [OF p, of y] new [of x d] live by (auto simp: held_def)
      show "lp \<in> set (lockedPaths ?p)" if "(y, e, lp) \<in> held ?p" for y e lp
        using that process_okD(4) [OF p] unfolding held by auto
      show "in_order ?p y paths" if "to_lock (control ?p) = Some (y, paths)" for y paths
        using that order by (auto simp: in_order_def put_object_def)
    qed simp_all
    show "fd_uses ?p e q v \<longleftrightarrow>
      (if e = d then v = Held \<and> (\<exists>w. fd_uses (procs s a) e q w) else fd_uses (procs s a) e q v)" for e q v
      using new c by (auto simp: fd_uses_def held)
    show "lock_inv (relabel a d Held (system_uses s)) (lfName (kern s)) (lfSize (kern s)) (lfWriter (kern s))"
      by (rule lock_inv_hold [OF system_okD(3) [OF ok] sys i(2) system_uses_one [OF ok sys]])
  qed simp
qed

lemma lockPaths_step_ok:
  assumes ok: "system_ok s" and ch: "fresh_choice a ch (kern s)" and r: "lockPaths_step a ch (procs s a) (kern s) = Some r"
  shows "system_ok (put_process a r s)"
proof (cases "control (procs s a)")
  case (LockNext x paths wait)
  have order: "in_order (procs s a) x paths" using process_okD(7) [OF system_okD(1) [OF ok]] LockNext by simp
  have k: "snd r = kern s" using r LockNext by (auto simp: lockPaths_step_def split: list.splits if_splits)
  have "system_ok (put_process a (fst r, kern s) s)"
    using r LockNext order
    by (intro move_silent [OF ok]) (auto simp: lockPaths_step_def fun_eq_iff split: list.splits if_splits)
  with k show ?thesis by (cases r) simp
next
  case (Opening x path rest wait fd)
  obtain d k where k: "openLockFile a ch (lockPath path) True (kern s) = (Some d, k)"
    by (cases "lfName (kern s) (lockPath path)") (auto simp: openLockFile_def)
  from open_step_ok [OF ok ch Opening k] r Opening k show ?thesis by (simp add: lockPaths_step_def)
next
  case (ClosingOld x path rest wait old d)
  note p = system_okD(1) [OF ok, of a]
  have "system_ok (put_process a ((procs s a)\<lparr>control := TryLock x path rest wait d\<rparr>, close_fd a old (kern s)) s)"
    using ClosingOld process_okD(6,7) [OF p]
    by (intro move_close [OF ok, of _ _ _ "lockPath path" Locked]) (auto simp: fun_eq_iff)
  with r ClosingOld show ?thesis by (simp add: lockPaths_step_def)
next
  case (TryLock x path rest wait d)
  note p = system_okD(1) [OF ok, of a]
  show ?thesis
  proof (cases "lockFile a d ltWrite (kern s)")
    case None
    have k: "snd r = kern s" using r TryLock None by (auto simp: lockPaths_step_def split: if_splits)
    have "live_fds (fst r) = live_fds (procs s a)"
      using r TryLock None by (auto simp: lockPaths_step_def live_fds_def fun_eq_iff split: if_splits)
    then have "system_ok (put_process a (fst r, kern s) s)"
      using r TryLock None process_okD(6) [OF p, of path] process_okD(7) [OF p, of x "path # rest"]
      by (intro move_silent [OF ok]) (auto simp: lockPaths_step_def split: if_splits)
    with k show ?thesis by (cases r) simp
  next
    case (Some k)
    with lock_granted_ok [OF ok _ _ _ Some, of path x rest wait] r TryLock show ?thesis by (simp add: lockPaths_step_def)
  qed
next
  case (WaitLock x path rest wait d)
  with r obtain k where k: "lockFile a d ltWrite (kern s) = Some k" by (auto simp: lockPaths_step_def split: option.splits)
  with lock_granted_ok [OF ok _ _ _ k, of path x rest wait] r WaitLock show ?thesis by (simp add: lockPaths_step_def)
next
  case (Checking x path rest wait d)
  note p = system_okD(1) [OF ok, of a]
  from r Checking obtain i where i: "lfOpen (kern s) a d = Some i" by (auto simp: lockPaths_step_def split: option.splits)
  show ?thesis
  proof (cases "lfSize (kern s) i = 0")
    case True
    from lock_checked_ok [OF ok Checking i True] r Checking i True show ?thesis by (simp add: lockPaths_step_def)
  next
    case False
    have "system_ok (put_process a ((procs s a)\<lparr>control := Opening x path rest wait (Some d)\<rparr>, kern s) s)"
      using Checking process_okD(6,7) [OF p]
      by (intro move_silent [OF ok]) (auto simp: fun_eq_iff)
    with r Checking i False show ?thesis by (simp add: lockPaths_step_def)
  qed
qed (use r in \<open>simp_all add: lockPaths_step_def\<close>)

lemma lockPaths_throw_ok:
  assumes ok: "system_ok s" and r: "lockPaths_throw a e (procs s a) (kern s) = Some r"
  shows "system_ok (put_process a r s)"
proof -
  let ?out = "(procs s a)\<lparr>control := Outside, result := Inl e\<rparr>"
  consider d lp u where "pc_uses (control (procs s a)) = [(d, lp, u)]" "u \<noteq> Dying" "r = (?out, close_fd a d (kern s))"
      "being_unlocked (control (procs s a)) = None"
    | "pc_uses (control (procs s a)) = []" "r = (?out, kern s)" "being_unlocked (control (procs s a)) = None"
    using r by (auto simp: lockPaths_throw_def Let_def split: lock_pc.splits option.splits)
  then show ?thesis
  proof cases
    case 1
    have "system_ok (put_process a (?out, close_fd a d (kern s)) s)"
      using 1 by (intro move_close [OF ok, of _ _ _ lp u]) (auto simp: fun_eq_iff)
    with 1 show ?thesis by simp
  next
    case 2
    have "system_ok (put_process a (?out, kern s) s)"
      using 2 by (intro move_silent [OF ok]) (auto simp: fun_eq_iff)
    with 2 show ?thesis by simp
  qed
qed

lemma unlink_step_ok:
  assumes ok: "system_ok s" and c: "control (procs s a) = Unlocking x ((d, lp) # todo) fd"
    and q: "q = (procs s a)\<lparr>control := (if b then Unlinked x d lp todo fd else ClosingLock x d lp todo fd)\<rparr>"
    and k: "k = (if b then unlink_lock ch lp (kern s) else kern s)"
  shows "system_ok (put_process a (q, k) s)"
proof -
  note p = system_okD(1) [OF ok, of a]
  let ?u = "if b then Dying else Locked"
  have live: "live_fds (procs s a) x = (d, lp) # todo" "live_fds q x = todo" "\<And>y. y \<noteq> x \<Longrightarrow> live_fds q y = live_fds (procs s a) y"
    using c q by (simp_all add: live_fds_def)
  have t: "(x, d, lp) \<in> held (procs s a)" using live(1) by (simp add: held_def)
  have "(e, r) \<in> set (live_fds q y) \<longleftrightarrow> (e, r) \<in> set (live_fds (procs s a) y) \<and> (y, e, r) \<noteq> (x, d, lp)" for y e r
    using live process_okD(2) [OF p, of x] by (cases "y = x") auto
  then have held: "held q = held (procs s a) - {(x, d, lp)}" by (auto simp: held_def)
  have uses: "pc_uses (control q) = (d, lp, ?u) # pc_uses (control (procs s a))" using c q by simp
  have out: "e \<noteq> d" if "(e, r, v) \<in> set (pc_uses (control (procs s a)))" for e r v
    using process_okD(3) [OF p that t] by simp
  have fu: "fd_uses (procs s a) d lp Held" using t by (auto simp: fd_uses_def)
  from system_usesI [OF ok this] obtain i where i: "system_uses s a d lp i Held" ..
  have same: "lp = r \<and> d = e \<and> x = y" if "(y, e, r) \<in> held (procs s a)" "e = d \<or> r = lp" for y e r
    using process_okD(1) [OF p t that(1)] that(2) by metis
  show ?thesis
  proof (rule system_ok_relabel [OF ok])
    show "process_ok q"
    proof (rule process_okI)
      show "distinct (live_fds q y)" for y
        using process_okD(2) [OF p, of y] live by (cases "y = x") auto
      show "e \<noteq> f \<and> r \<noteq> lq" if "(e, r, v) \<in> set (pc_uses (control q))" "(y, f, lq) \<in> held q" for e r v y f lq
        using that process_okD(3) [OF p, of e r v y f lq] same [of y f lq] unfolding uses held by auto
      show "distinct (map fst (pc_uses (control q)))"
        using process_okD(5) [OF p] out unfolding uses by force
      show "y = z \<and> e = f \<and> r = lq" if "(y, e, r) \<in> held q" "(z, f, lq) \<in> held q" "e = f \<or> r = lq" for y e r z f lq
        using process_okD(1) [OF p _ _ that(3), of y z] that(1,2) unfolding held by simp
      show "r \<in> set (lockedPaths q)" if "(y, e, r) \<in> held q" for y e r
        using process_okD(4) [OF p, of y e r] that q unfolding held by simp
    qed (use q in \<open>simp_all split: if_splits\<close>)
    show "fd_uses q e r v \<longleftrightarrow>
      (if e = d then v = ?u \<and> (\<exists>w. fd_uses (procs s a) e r w) else fd_uses (procs s a) e r v)" for e r v
    proof (cases "e = d")
      case True
      have "(\<exists>w. fd_uses (procs s a) d r w) \<longleftrightarrow> r = lp" using fu fd_uses_unique [OF p fu, of r] by blast
      moreover have "(y, d, r) \<notin> held q" for y using same [of y d r] unfolding held by blast
      then have "fd_uses q d r v \<longleftrightarrow> r = lp \<and> v = ?u" using out [of d r v] by (auto simp: fd_uses_def uses)
      ultimately show ?thesis using True by auto
    qed (auto simp: fd_uses_def uses held)
    have "v \<noteq> Dying" if "system_uses s a e r i v" for e r v
      using system_uses_inode [OF ok i that] system_uses_one [OF ok i, of r i v] that by auto
    then show "lock_inv (relabel a d ?u (system_uses s)) (lfName k) (lfSize k) (lfWriter k)"
      using lock_inv_unlink [OF system_okD(3) [OF ok] i system_uses_one [OF ok i]]
        lock_inv_release [OF system_okD(3) [OF ok] i system_uses_one [OF ok i]]
      unfolding k by (simp add: unlink_lock_def)
  qed (simp add: k unlink_lock_def)
qed

lemma unlock_step_ok:
  assumes ok: "system_ok s" and r: "unlock_step a ch (procs s a) (kern s) = Some r"
  shows "system_ok (put_process a r s)"
proof (cases "control (procs s a)")
  case (Unlocking x todo fd)
  show ?thesis
  proof (cases todo)
    case Nil
    note c = Unlocking [unfolded Nil]
    let ?p = "(put_object x ((objects (procs s a) x)\<lparr>fds := []\<rparr>) (procs s a))\<lparr>control := Outside\<rparr>"
    have live: "live_fds (?p\<lparr>result := t\<rparr>) = live_fds (procs s a)" "live_fds ?p = live_fds (procs s a)" for t
      using c by (auto simp: live_fds_def put_object_def)
    show ?thesis
    proof (cases fd)
      case None
      have "system_ok (put_process a (?p, kern s) s)"
        using c None live by (intro move_silent [OF ok]) (simp_all add: put_object_def)
      with r c None show ?thesis by (simp add: unlock_step_def Let_def)
    next
      case (Some f)
      obtain d lp where f: "f = (d, lp)" by (cases f)
      have "system_ok (put_process a (?p\<lparr>result := Inr False\<rparr>, close_fd a d (kern s)) s)"
        using c Some f live by (intro move_close [OF ok, of _ _ _ lp Plain]) (simp_all add: put_object_def)
      with r c Some f show ?thesis by (simp add: unlock_step_def Let_def)
    qed
  next
    case (Cons f todo')
    obtain d lp where f: "f = (d, lp)" by (cases f)
    from unlink_step_ok [OF ok Unlocking [unfolded Cons f] refl refl, of "deletePaths (objects (procs s a) x)" ch]
    show ?thesis using r Unlocking Cons f by (auto simp: unlock_step_def split: if_splits)
  qed
next
  case (Unlinked x d lp todo fd)
  note p = system_okD(1) [OF ok, of a]
  let ?p = "(procs s a)\<lparr>control := ClosingLock x d lp todo fd\<rparr>"
  have live: "live_fds ?p = live_fds (procs s a)" using Unlinked by (simp add: live_fds_def fun_eq_iff)
  have "fd_uses (procs s a) d lp Dying" using Unlinked by (simp add: fd_uses_def)
  from system_usesI [OF ok this] obtain i where i: "system_uses s a d lp i Dying" ..
  then have k: "lfOpen (kern s) a d = Some i" by (simp add: system_uses_def)
  have out: "e \<noteq> d" if "(e, q, v) \<in> set (auto_close fd)" for e q v
    using process_okD(5) [OF p] Unlinked that by force
  have out': "d \<noteq> e" if "(y, e, lq) \<in> held (procs s a)" for y e lq
    using process_okD(3) [OF p _ that, of d lp Dying] Unlinked by simp
  have "system_ok (put_process a (?p, write_token a d (kern s)) s)"
  proof (rule system_ok_relabel [OF ok])
    show "process_ok ?p"
      using Unlinked process_okD(5) [OF p] by (intro process_ok_advance [OF p live]) auto
    show "fd_uses ?p e q v \<longleftrightarrow>
      (if e = d then v = Locked \<and> (\<exists>w. fd_uses (procs s a) e q w) else fd_uses (procs s a) e q v)" for e q v
      using Unlinked by (auto simp: fd_uses_def held_cong [OF live] dest: out out')
    have "v \<noteq> Held" if "system_uses s a e q i v" for e q v
      using system_uses_inode [OF ok i that] system_uses_one [OF ok i, of q i v] that by auto
    from lock_inv_write [OF system_okD(3) [OF ok] i system_uses_one [OF ok i] this]
    show "lock_inv (relabel a d Locked (system_uses s)) (lfName (write_token a d (kern s)))
        (lfSize (write_token a d (kern s))) (lfWriter (write_token a d (kern s)))"
      by (simp add: write_token_def k)
  qed (simp add: write_token_def k)
  with r Unlinked show ?thesis by (simp add: unlock_step_def)
next
  case (ClosingLock x d lp todo fd)
  note p = system_okD(1) [OF ok, of a]
  let ?p = "(procs s a)\<lparr>lockedPaths := set_erase lp (lockedPaths (procs s a)), control := Unlocking x todo fd\<rparr>"
  have live: "live_fds ?p = live_fds (procs s a)" using ClosingLock by (simp add: live_fds_def fun_eq_iff)
  have out: "d \<noteq> e \<and> lp \<noteq> lq" if "(y, e, lq) \<in> held (procs s a)" for y e lq
    using process_okD(3) [OF p _ that, of d lp Locked] ClosingLock by simp
  have out': "e \<noteq> d" if "(e, q, v) \<in> set (auto_close fd)" for e q v
    using process_okD(5) [OF p] ClosingLock that by force
  have "system_ok (put_process a (?p, close_fd a d (kern s)) s)"
  proof (rule system_ok_close [OF ok])
    show "process_ok ?p"
    proof (rule process_okI, unfold held_cong [OF live] live)
      show "y = z \<and> e = f \<and> lq = lr" if "(y, e, lq) \<in> held (procs s a)" "(z, f, lr) \<in> held (procs s a)" "e = f \<or> lq = lr" for y e lq z f lr
        using process_okD(1) [OF p that] .
      show "e \<noteq> f \<and> lq \<noteq> lr" if "(e, lq, v) \<in> set (pc_uses (control ?p))" "(y, f, lr) \<in> held (procs s a)" for e lq v y f lr
        using process_okD(3) [OF p _ that(2), of e lq v] that(1) ClosingLock by simp
      show "lq \<in> set (lockedPaths ?p)" if "(y, e, lq) \<in> held (procs s a)" for y e lq
        using process_okD(4) [OF p that] out [OF that] by auto
    qed (use process_okD(2,5) [OF p] ClosingLock in auto)
    show "fd_uses (procs s a) d lp Locked" using ClosingLock by (simp add: fd_uses_def)
    show "v = Plain" if "fd_uses (procs s a) e lp v" "e \<noteq> d" for e v
      using that ClosingLock by (auto simp: fd_uses_def dest: out auto_close_Plain)
    show "fd_uses ?p e q v \<longleftrightarrow> fd_uses (procs s a) e q v \<and> e \<noteq> d" for e q v
      using ClosingLock by (auto simp: fd_uses_def held_cong [OF live] dest: out out')
  qed simp
  with r ClosingLock show ?thesis by (simp add: unlock_step_def)
qed (use r in \<open>simp_all add: unlock_step_def\<close>)

lemma lock_step_ok: "lock_step s t \<Longrightarrow> system_ok s \<Longrightarrow> system_ok t"
proof (induction rule: lock_step.induct)
  case (lock a ch s r)
  then show ?case by (intro lockPaths_step_ok)
next
  case (unlock a ch s r)
  then show ?case by (intro unlock_step_ok)
next
  case (throw a e s r)
  then show ?case by (intro lockPaths_throw_ok)
next
  case (call_lock s a paths x wait p)
  from call_lock(2,3) have "sort paths = paths" "fds (objects (procs s a) x) = []" "p = (procs s a)\<lparr>control := LockNext x paths wait\<rparr>"
    by (auto simp: PathLocks_lockPaths_def bindE_eq_Inr strict_sorted_imp_sorted sorted_sort_id)
  with call_lock(1,2,4) show ?case by (intro move_silent) (auto simp: fun_eq_iff in_order_def)
next
  case (call_unlock s a x)
  then show ?case by (intro move_silent) (auto simp: PathLocks_unlock_def fun_eq_iff live_fds_def)
next
  case (call_setDeletion s a x b)
  then show ?case by (intro move_silent) (auto simp: put_object_def PathLocks_setDeletion_def fun_eq_iff)
next
  case (exit s a)
  let ?k = "exit_process a (kern s)"
  have none: "\<not> fd_uses new_process d lp u" for d lp u
    by (simp add: fd_uses_def new_process_def held_def PathLocks_new_def)
  show ?case
  proof (rule system_ok_put [OF exit(2)])
    show "process_ok new_process"
      by (simp add: process_ok_def held_def new_process_def PathLocks_new_def)
    have "\<not> system_uses s a d lp i Dying" for d lp i
      using exit(1) by (cases "control (procs s a)" rule: pc_uses.cases) (auto simp: system_uses_def fd_uses_def dest: auto_close_Plain)
    from lock_inv_exit [OF system_okD(3) [OF exit(2)] this]
    show "lock_inv (\<lambda>b e q j v. system_uses s b e q j v \<and> b \<noteq> a) (lfName ?k) (lfSize ?k) (lfWriter ?k)"
      by (simp add: exit_process_def)
  qed (auto simp: none exit_process_def)
qed

lemma start_system_ok:
  assumes "start_system s"
  shows "system_ok s"
proof -
  have none: "\<not> fd_uses (procs s a) d lp u" for a d lp u
    using assms by (simp add: start_system_def fd_uses_def new_process_def held_def PathLocks_new_def)
  have "process_ok (procs s a)" for a
    using assms by (simp add: start_system_def process_ok_def held_def new_process_def PathLocks_new_def)
  moreover have "lock_inv (system_uses s) (lfName (kern s)) (lfSize (kern s)) (lfWriter (kern s))"
    using assms none by (intro lock_invI) (auto simp: start_system_def system_uses_def)
  ultimately show ?thesis using none by (simp add: system_ok_def)
qed

lemma lock_steps_ok: "lock_step\<^sup>*\<^sup>* s t \<Longrightarrow> system_ok s \<Longrightarrow> system_ok t"
  by (induction rule: rtranclp_induct) (auto intro: lock_step_ok)

lemma reachable_system_ok: "reachable_system s \<Longrightarrow> system_ok s"
  unfolding reachable_system_def using start_system_ok lock_steps_ok by blast

subsection \<open>Mutual exclusion, waiting, stale files\<close>

lemma holds_lock_uses:
  assumes ok: "system_ok s" and "holds_lock (procs s a) path"
  obtains d i where "system_uses s a d (lockPath path) i Held" "lfName (kern s) (lockPath path) = Some i"
    "lfWriter (kern s) i = Some a" "lfSize (kern s) i = 0"
proof -
  from assms(2) obtain d where "fd_uses (procs s a) d (lockPath path) Held"
    by (auto simp: holds_lock_def fd_uses_def held_def)
  from system_usesI [OF ok this] obtain i where i: "system_uses s a d (lockPath path) i Held" ..
  have own: "v \<noteq> Dying" if "system_uses s a e r i v" for e r v
    using system_uses_inode [OF ok i that] system_uses_one [OF ok i, of r i v] that by auto
  have "lfWriter (kern s) i = Some a" unfolding lock_invD(5) [OF system_okD(3) [OF ok]] using i by blast
  moreover have "lfName (kern s) (lockPath path) = Some i"
    by (rule lock_inv_held [OF system_okD(3) [OF ok] i]) (rule own)
  ultimately show ?thesis using that i lock_invD(6) [OF system_okD(3) [OF ok] i] by blast
qed

text \<open>
  C5: At most one process holds the lock of a path at any time, in every interleaving of the system
  calls of any number of processes that lock, unlock, delete lock files, throw and exit.
\<close>

theorem lockPaths_mutual_exclusion:
  assumes "reachable_system s" and "holds_lock (procs s a) path" and "holds_lock (procs s b) path"
  shows "a = b"
proof -
  note ok = reachable_system_ok [OF assms(1)]
  from holds_lock_uses [OF ok assms(2)] obtain i
    where i: "lfName (kern s) (lockPath path) = Some i" "lfWriter (kern s) i = Some a" by metis
  from holds_lock_uses [OF ok assms(3)] obtain j
    where j: "lfName (kern s) (lockPath path) = Some j" "lfWriter (kern s) j = Some b" by metis
  from i j show ?thesis by simp
qed

lemma lockPath_inj [simp]: "lockPath p = lockPath q \<longleftrightarrow> p = q"
  by (simp add: lockPath_def)

lemma acyclic_increasing:
  assumes "\<And>a b. (a, b) \<in> r \<Longrightarrow> b \<in> Domain r \<Longrightarrow> f a < (f b :: 'b :: order)"
  shows "acyclic r"
proof -
  have "b \<in> Domain r \<longrightarrow> f a < f b" if "(a, b) \<in> r\<^sup>+" for a b
    using that by (induction rule: trancl_induct) (auto dest: assms intro: less_trans)
  then show ?thesis by (meson Domain.DomainI acyclicI less_irrefl tranclD)
qed

text \<open>A waiting process waits for the holder of its path, and has locked only smaller paths itself.\<close>

lemma waits_for_increasing:
  assumes ok: "system_ok s" and a: "control (procs s a) = WaitLock x p rest wait d" "lfOpen (kern s) a d = Some i"
    and w: "lfWriter (kern s) i = Some b" and b: "control (procs s b) = WaitLock y q rest' wait' e"
    and single: "\<And>z. z \<noteq> y \<Longrightarrow> fds (objects (procs s b) z) = []"
  shows "p < q"
proof -
  note inv = system_okD(3) [OF ok]
  have "system_uses s a d (lockPath p) i Plain" using a by (simp add: system_uses_def fd_uses_def)
  moreover obtain f lp u where f: "system_uses s b f lp i u" "u \<noteq> Plain" using w unfolding lock_invD(5) [OF inv] by blast
  ultimately have lp: "lp = lockPath p" using lock_invD(2) [OF inv] by blast
  from f b obtain z where "(f, lp) \<in> set (fds (objects (procs s b) z))"
    by (auto simp: system_uses_def fd_uses_def held_def)
  with single [of z] have "(f, lp) \<in> set (fds (objects (procs s b) y))" by (cases "z = y") auto
  moreover have "in_order (procs s b) y (q # rest')" using process_okD(7) [OF system_okD(1) [OF ok, of b]] b by simp
  ultimately show ?thesis using lp by (force simp: in_order_def)
qed

text \<open>
  C6: Processes that wait for locks never wait for each other in a circle, whatever they do otherwise,
  as long as a process that waits has no locks of another object: paths are locked in sorted order.
\<close>

theorem lockPaths_no_deadlock:
  assumes "reachable_system s"
    and "\<And>a x path rest wait d y. control (procs s a) = WaitLock x path rest wait d \<Longrightarrow> y \<noteq> x \<Longrightarrow>
      fds (objects (procs s a) y) = []"
  shows "acyclic (waits_for s)"
proof (rule acyclic_increasing [where f = "\<lambda>a. the (current_path (control (procs s a)))"])
  fix a b assume "(a, b) \<in> waits_for s" "b \<in> Domain (waits_for s)"
  then show "the (current_path (control (procs s a))) < the (current_path (control (procs s b)))"
    using waits_for_increasing [OF reachable_system_ok [OF assms(1)]] assms(2) by (fastforce simp: waits_for_def)
qed

text \<open>The kernel's tables in a step: only \<^verbatim>\<open>unlock\<close> removes a name, and files do not shrink.\<close>

lemma lock_step_kernel:
  assumes "lock_step s t" and "lfName (kern s) p = Some i"
  shows "lfSize (kern s) i \<le> lfSize (kern t) i \<and> (lfName (kern t) p = Some i \<or>
    (\<exists>a x d todo fd. control (procs s a) = Unlocking x ((d, p) # todo) fd))"
  using assms
proof (induction rule: lock_step.induct)
  case (lock a ch s r)
  then show ?case
    by (auto simp: lockPaths_step_def put_process_def openLockFile_def fresh_choice_def lockFile_def close_fd_def Let_def
      split: lock_pc.splits list.splits if_splits option.splits)
next
  case (unlock a ch s r)
  then show ?case
    by (auto simp: unlock_step_def put_process_def unlink_lock_def write_token_def close_fd_def Let_def
      split: lock_pc.splits list.splits if_splits option.splits prod.splits)
next
  case (throw a e s r)
  then show ?case
    by (auto simp: lockPaths_throw_def put_process_def close_fd_def Let_def split: lock_pc.splits option.splits)
qed (simp_all add: put_process_def exit_process_def)

lemma unlocking_holds:
  "control p = Unlocking x ((d, lockPath path) # todo) fd \<Longrightarrow> holds_lock p path"
  unfolding holds_lock_def by (rule exI [of _ x], rule exI [of _ d]) (simp add: live_fds_def)


subsection \<open>Runs\<close>

text \<open>Sequences of events, for concrete runs.\<close>

datatype event =
    Move nat choice
  | Call_lock nat nat "path list"
  | Call_unlock nat nat
  | Call_delete nat nat

definition do_event :: "event \<Rightarrow> system \<Rightarrow> system" where
  "do_event e s = (case e of
     Move a ch \<Rightarrow> (case lockPaths_step a ch (procs s a) (kern s) of
         Some r \<Rightarrow> put_process a r s
       | None \<Rightarrow> (case unlock_step a ch (procs s a) (kern s) of Some r \<Rightarrow> put_process a r s | None \<Rightarrow> s))
   | Call_lock a x paths \<Rightarrow> (case PathLocks_lockPaths x paths True (procs s a) of Inr p \<Rightarrow> put_process a (p, kern s) s | Inl _ \<Rightarrow> s)
   | Call_unlock a x \<Rightarrow> put_process a (PathLocks_unlock x (procs s a), kern s) s
   | Call_delete a x \<Rightarrow> put_process a (put_object x (PathLocks_setDeletion True (objects (procs s a) x)) (procs s a), kern s) s)"

definition can_happen :: "event \<Rightarrow> system \<Rightarrow> bool" where
  "can_happen e s = (case e of
     Move a ch \<Rightarrow> fresh_choice a ch (kern s)
   | Call_lock a x paths \<Rightarrow> control (procs s a) = Outside \<and> is_set paths
   | Call_unlock a x \<Rightarrow> control (procs s a) = Outside
   | Call_delete a x \<Rightarrow> control (procs s a) = Outside)"

lemma do_event_step: "can_happen e s \<Longrightarrow> lock_step\<^sup>*\<^sup>* s (do_event e s)"
  by (auto simp: can_happen_def do_event_def intro: lock_step.intros
    split: event.splits option.splits sum.splits)

fun can_run :: "event list \<Rightarrow> system \<Rightarrow> bool" where
  "can_run [] s \<longleftrightarrow> True"
| "can_run (e # es) s \<longleftrightarrow> can_happen e s \<and> can_run es (do_event e s)"

lemma run_steps: "can_run es s \<Longrightarrow> lock_step\<^sup>*\<^sup>* s (fold do_event es s)"
proof (induction es arbitrary: s)
  case (Cons e es)
  then show ?case using do_event_step [of e s] by (auto intro: rtranclp_trans)
qed simp

definition no_locks :: system where
  "no_locks = \<lparr>kern = \<lparr>lfName = (\<lambda>_. None), lfSize = (\<lambda>_. 0), lfWriter = (\<lambda>_. None), lfReaders = (\<lambda>_. []),
     lfOpen = (\<lambda>_ _. None)\<rparr>, procs = (\<lambda>_. new_process)\<rparr>"

lemma start_no_locks: "start_system no_locks"
  by (simp add: start_system_def no_locks_def)

text \<open>
  Moves of one process, with new descriptors and inodes for every one of them.
\<close>

definition moves :: "nat \<Rightarrow> nat list \<Rightarrow> bool \<Rightarrow> event list" where
  "moves a ks u = map (\<lambda>k. Move a \<lparr>chFd = k, chInode = 100 * a + k, chUnlink = u\<rparr>) ks"

lemmas run_defs = do_event_def can_happen_def lockPaths_step_def unlock_step_def put_process_def put_object_def
  openLockFile_def lockFile_def close_fd_def unlink_lock_def write_token_def PathLocks_lockPaths_def PathLocks_unlock_def
  PathLocks_setDeletion_def PathLocks_new_def new_process_def fresh_choice_def lockPath_def no_locks_def
  moves_def

text \<open>Process 2 locks a path; process 3 comes and has to wait.\<close>

definition two_run :: "event list" where
  "two_run = Call_lock 2 0 [''/p''] # moves 2 [2, 3, 4, 5, 6] True @ Call_lock 3 0 [''/p''] # moves 3 [2, 3, 4] True"

definition two_system :: system where
  "two_system = fold do_event two_run no_locks"

lemma two_system_reachable: "reachable_system two_system"
proof -
  have "can_run two_run no_locks" by (simp add: two_run_def run_defs)
  from run_steps [OF this] start_no_locks show ?thesis unfolding reachable_system_def two_system_def by blast
qed

lemma two_system_state:
  "control (procs two_system 2) = Outside"
  "live_fds (procs two_system 2) 0 = [(3, lockPath ''/p'')]"
  "control (procs two_system 3) = WaitLock 0 ''/p'' [] True 3"
  "lfOpen (kern two_system) 3 3 = Some 203"
  "lfWriter (kern two_system) 203 = Some 2"
  "a \<noteq> 3 \<Longrightarrow> control (procs two_system a) = Outside"
  "fds (objects (procs two_system 3) x) = []"
  by (simp_all add: two_system_def two_run_def run_defs live_fds_def)

theorem lockPaths_mutual_exclusion_witness:
  "reachable_system two_system \<and> holds_lock (procs two_system 2) ''/p'' \<and> \<not> holds_lock (procs two_system 3) ''/p''"
proof -
  have "holds_lock (procs two_system 2) ''/p''"
    unfolding holds_lock_def by (rule exI [of _ 0], rule exI [of _ 3]) (simp only: two_system_state list.set insertI1)
  with lockPaths_mutual_exclusion [OF two_system_reachable this, of 3] two_system_reachable show ?thesis by auto
qed

theorem lockPaths_no_deadlock_witness: "(3, 2) \<in> waits_for two_system \<and> acyclic (waits_for two_system)"
proof
  show "(3, 2) \<in> waits_for two_system" using two_system_state by (auto simp: waits_for_def)
  show "acyclic (waits_for two_system)"
  proof (rule lockPaths_no_deadlock [OF two_system_reachable])
    fix a x path rest wait d y
    assume "control (procs two_system a) = WaitLock x path rest wait d"
    then have "a = 3" using two_system_state(6) [of a] by auto
    then show "fds (objects (procs two_system a) y) = []" by (simp only: two_system_state)
  qed
qed

text \<open>A run in which \<^verbatim>\<open>unlink\<close> fails.\<close>

definition stale_run :: "event list" where
  "stale_run = Call_lock 2 0 [''/p''] # moves 2 [2, 3, 4, 5, 6] False @ [Call_delete 2 0, Call_unlock 2 0] @ moves 2 [7, 8] False"

definition stale_system :: system where
  "stale_system = fold do_event stale_run no_locks"


text \<open>
  A process that dies between \<^verbatim>\<open>unlink\<close> and \<^verbatim>\<open>write\<close> leaves a lock file without a name and without the
  token: a process that has it open locks it and takes it for current, while another one creates a
  new file.
\<close>

definition crash :: "nat \<Rightarrow> system \<Rightarrow> system" where
  "crash a s = put_process a (new_process, exit_process a (kern s)) s"

definition unlinked_system :: system where
  "unlinked_system = fold do_event (Call_delete 2 0 # Call_unlock 2 0 # moves 2 [7] True) two_system"

definition broken_system :: system where
  "broken_system = fold do_event (moves 3 [7, 8, 9] True @ Call_lock 4 0 [''/p''] # moves 4 [2, 3, 4, 5, 6] True) (crash 2 unlinked_system)"

lemma crash_breaks_exclusion:
  "reachable_system unlinked_system"
  "lock_step\<^sup>*\<^sup>* (crash 2 unlinked_system) broken_system"
  "holds_lock (procs broken_system 3) ''/p''"
  "holds_lock (procs broken_system 4) ''/p''"
proof -
  have "can_run (two_run @ Call_delete 2 0 # Call_unlock 2 0 # moves 2 [7] True) no_locks"
    by (simp add: two_run_def run_defs)
  from run_steps [OF this] start_no_locks show "reachable_system unlinked_system"
    unfolding reachable_system_def unlinked_system_def two_system_def by (auto simp only: fold_append comp_apply)
  have "can_run (moves 3 [7, 8, 9] True @ Call_lock 4 0 [''/p''] # moves 4 [2, 3, 4, 5, 6] True) (crash 2 unlinked_system)"
    by (simp add: crash_def exit_process_def unlinked_system_def two_system_def two_run_def run_defs)
  from run_steps [OF this] show "lock_step\<^sup>*\<^sup>* (crash 2 unlinked_system) broken_system" unfolding broken_system_def .
  have h: "(3, lockPath ''/p'') \<in> set (live_fds (procs broken_system 3) 0)"
    "(3, lockPath ''/p'') \<in> set (live_fds (procs broken_system 4) 0)"
    by (simp_all add: broken_system_def crash_def exit_process_def unlinked_system_def two_system_def two_run_def run_defs live_fds_def)
  then show "holds_lock (procs broken_system 3) ''/p''" "holds_lock (procs broken_system 4) ''/p''"
    unfolding holds_lock_def by blast+
qed

end
