(* ===== verification/Remote_Store.thy ===== *)
theory Remote_Store
  imports GC
begin

text \<open>
  \<^verbatim>\<open>src/libstore/remote-store.cc\<close>, \<^verbatim>\<open>src/libstore/worker-protocol.hh\<close> and the part of \<^verbatim>\<open>src/nix-daemon/nix-daemon.cc\<close> that
  talks to one client: a store whose operations are performed by a daemon at the other end of a socket.

  The socket is a list of bytes in each direction.  When the client flushes what it has written and
  waits, the daemon runs until it has used up its input.  Waiting is therefore reading at the end of
  the list, and the daemon waits only between requests.  Signals, the check whether the client has
  gone, the creation of the socket and the processes behind it are left out, and so is \<^verbatim>\<open>importPaths\<close>, the one
  operation during which the daemon asks the client for more.

  The store of the daemon is a record of operations on a state.  What they write to the standard error,
  and to the sink of \<^verbatim>\<open>exportPath\<close>, are events that come with their results.
\<close>

subsection \<open>The protocol\<close>

definition WORKER_MAGIC_1 :: u32 where "WORKER_MAGIC_1 = 0x6e697863"
definition WORKER_MAGIC_2 :: u32 where "WORKER_MAGIC_2 = 0x6478696f"
definition PROTOCOL_VERSION :: u32 where "PROTOCOL_VERSION = 0x10c"

definition GET_PROTOCOL_MAJOR :: "u32 \<Rightarrow> u32" where "GET_PROTOCOL_MAJOR x = and x 0xff00"
definition GET_PROTOCOL_MINOR :: "u32 \<Rightarrow> u32" where "GET_PROTOCOL_MINOR x = and x 0x00ff"

definition STDERR_NEXT :: u32 where "STDERR_NEXT = 0x6f6c6d67"
definition STDERR_READ :: u32 where "STDERR_READ = 0x64617461"
definition STDERR_WRITE :: u32 where "STDERR_WRITE = 0x64617416"
definition STDERR_LAST :: u32 where "STDERR_LAST = 0x616c7473"
definition STDERR_ERROR :: u32 where "STDERR_ERROR = 0x63787470"

datatype WorkerOp =
    wopIsValidPath | wopHasSubstitutes | wopQueryPathHash | wopQueryReferences | wopQueryReferrers | wopAddToStore
  | wopAddTextToStore | wopBuildPaths | wopEnsurePath | wopAddTempRoot | wopAddIndirectRoot | wopSyncWithGC | wopFindRoots
  | wopExportPath | wopQueryDeriver | wopSetOptions | wopCollectGarbage | wopQuerySubstitutablePathInfo
  | wopQueryDerivationOutputs | wopQueryAllValidPaths | wopQueryFailedPaths | wopClearFailedPaths | wopQueryPathInfo
  | wopQueryDerivationOutputNames | wopQueryPathFromHashPart | wopQuerySubstitutablePathInfos | wopQueryValidPaths
  | wopQuerySubstitutablePaths

fun op_number :: "WorkerOp \<Rightarrow> u32" where
  "op_number wopIsValidPath = 1" | "op_number wopHasSubstitutes = 3" | "op_number wopQueryPathHash = 4"
| "op_number wopQueryReferences = 5" | "op_number wopQueryReferrers = 6" | "op_number wopAddToStore = 7"
| "op_number wopAddTextToStore = 8" | "op_number wopBuildPaths = 9" | "op_number wopEnsurePath = 10"
| "op_number wopAddTempRoot = 11" | "op_number wopAddIndirectRoot = 12" | "op_number wopSyncWithGC = 13"
| "op_number wopFindRoots = 14" | "op_number wopExportPath = 16" | "op_number wopQueryDeriver = 18"
| "op_number wopSetOptions = 19" | "op_number wopCollectGarbage = 20" | "op_number wopQuerySubstitutablePathInfo = 21"
| "op_number wopQueryDerivationOutputs = 22" | "op_number wopQueryAllValidPaths = 23" | "op_number wopQueryFailedPaths = 24"
| "op_number wopClearFailedPaths = 25" | "op_number wopQueryPathInfo = 26" | "op_number wopQueryDerivationOutputNames = 28"
| "op_number wopQueryPathFromHashPart = 29" | "op_number wopQuerySubstitutablePathInfos = 30" | "op_number wopQueryValidPaths = 31"
| "op_number wopQuerySubstitutablePaths = 32"

definition all_ops :: "WorkerOp list" where
  "all_ops = [wopIsValidPath, wopHasSubstitutes, wopQueryPathHash, wopQueryReferences, wopQueryReferrers, wopAddToStore,
     wopAddTextToStore, wopBuildPaths, wopEnsurePath, wopAddTempRoot, wopAddIndirectRoot, wopSyncWithGC, wopFindRoots,
     wopExportPath, wopQueryDeriver, wopSetOptions, wopCollectGarbage, wopQuerySubstitutablePathInfo,
     wopQueryDerivationOutputs, wopQueryAllValidPaths, wopQueryFailedPaths, wopClearFailedPaths, wopQueryPathInfo,
     wopQueryDerivationOutputNames, wopQueryPathFromHashPart, wopQuerySubstitutablePathInfos, wopQueryValidPaths,
     wopQuerySubstitutablePaths]"

definition op_of_number :: "u32 \<Rightarrow> WorkerOp option" where
  "op_of_number n = find (\<lambda>w. op_number w = n) all_ops"

definition pipe_read :: "nat \<Rightarrow> bytes \<Rightarrow> (bytes \<times> bytes) res" where
  "pipe_read len s = (if s = [] then Inl (EndOfFile ''unexpected end-of-file'') else Inr (take len s, drop len s))"

definition readStorePath :: "path \<Rightarrow> (nat \<Rightarrow> 's \<Rightarrow> (bytes \<times> 's) res) \<Rightarrow> 's \<Rightarrow> (path \<times> 's) res" where
  "readStorePath storeDir rd s =
     bindE (readString rd s) (\<lambda>(p, s). bindE (assertStorePath storeDir p) (\<lambda>_. Inr (p, s)))"

definition readStorePaths :: "path \<Rightarrow> (nat \<Rightarrow> 's \<Rightarrow> (bytes \<times> 's) res) \<Rightarrow> 's \<Rightarrow> (path list \<times> 's) res" where
  "readStorePaths storeDir rd s =
     bindE (readStrings_set rd s) (\<lambda>(ps, s).
     bindE (foldE (\<lambda>p _. assertStorePath storeDir p) ps ()) (\<lambda>_. Inr (ps, s)))"

text \<open>\<^verbatim>\<open>e.msg()\<close>.\<close>

fun error_msg :: "error \<Rightarrow> string" where
  "error_msg (Error m) = m" | "error_msg (SysError m) = m" | "error_msg (SysErrorNo _ m) = m" | "error_msg (EndOfFile m) = m"
| "error_msg (SerialisationError m) = m" | "error_msg (BuildError m) = m" | "error_msg (EvalError m) = m"
| "error_msg (AssertionError m) = m" | "error_msg (ThrownError m) = m" | "error_msg (Abort m) = m" | "error_msg (TypeError m) = m"
| "error_msg (SQLiteError m) = m" | "error_msg (PathInUse m) = m" | "error_msg _ = []"

subsection \<open>The store of the daemon\<close>

datatype event = Log string | Data bytes

type_synonym ('s, 'a) store_op = "'s \<Rightarrow> event list \<times> 'a res \<times> 's"

record 's store_ops =
  st_isValidPath :: "path \<Rightarrow> ('s, bool) store_op"
  st_queryValidPaths :: "path list \<Rightarrow> ('s, path list) store_op"
  st_queryAllValidPaths :: "('s, path list) store_op"
  st_querySubstitutablePaths :: "path list \<Rightarrow> ('s, path list) store_op"
  st_querySubstitutablePathInfos :: "path list \<Rightarrow> ('s, (path \<times> SubstitutablePathInfo) list) store_op"
  st_queryPathInfo :: "path \<Rightarrow> ('s, ValidPathInfo) store_op"
  st_queryPathHash :: "path \<Rightarrow> ('s, Hash) store_op"
  st_queryReferences :: "path \<Rightarrow> ('s, path list) store_op"
  st_queryReferrers :: "path \<Rightarrow> ('s, path list) store_op"
  st_queryDeriver :: "path \<Rightarrow> ('s, path) store_op"
  st_queryDerivationOutputs :: "path \<Rightarrow> ('s, path list) store_op"
  st_queryDerivationOutputNames :: "path \<Rightarrow> ('s, string list) store_op"
  st_queryPathFromHashPart :: "string \<Rightarrow> ('s, path) store_op"
  st_addToStoreFromDump :: "bytes \<Rightarrow> string \<Rightarrow> bool \<Rightarrow> HashType \<Rightarrow> ('s, path) store_op"
  st_addTextToStore :: "string \<Rightarrow> string \<Rightarrow> path list \<Rightarrow> ('s, path) store_op"
  st_exportPath :: "path \<Rightarrow> bool \<Rightarrow> ('s, unit) store_op"
  st_buildPaths :: "path list \<Rightarrow> ('s, unit) store_op"
  st_ensurePath :: "path \<Rightarrow> ('s, unit) store_op"
  st_addTempRoot :: "path \<Rightarrow> ('s, unit) store_op"
  st_addIndirectRoot :: "path \<Rightarrow> ('s, unit) store_op"
  st_syncWithGC :: "('s, unit) store_op"
  st_findRoots :: "('s, Roots) store_op"
  st_collectGarbage :: "GCOptions \<Rightarrow> ('s, path list \<times> u64) store_op"
  st_queryFailedPaths :: "('s, path list) store_op"
  st_clearFailedPaths :: "path list \<Rightarrow> ('s, unit) store_op"

record settings =
  keepFailed :: bool
  keepGoing :: bool
  tryFallback :: bool
  verbosity :: u32
  maxBuildJobs :: u32
  maxSilentTime :: u32
  useBuildHook :: bool
  buildVerbosity :: u32
  logType :: u32
  printBuildTrace :: bool
  buildCores :: u32
  useSubstitutes :: bool
  overrides :: "(string \<times> string) list"

text \<open>
  What a daemon is started with: the store directory, the operations, how the store is opened, the exit
  statuses that errors carry, and the current directory.
\<close>

record 's daemon_config =
  dcStoreDir :: path
  dcOps :: "'s store_ops"
  dcOpen :: "bool \<Rightarrow> ('s, unit) op"
  dcStatus :: "error \<Rightarrow> u32"
  dcGetcwd :: "path res"

datatype phase = Greeting | Version | Serving | Exited

record 's daemon =
  dPhase :: phase
  dFrom :: bytes
  dTo :: bytes
  canSendStderr :: bool
  clientVersion :: u32
  dSettings :: settings
  dStore :: 's

subsection \<open>The daemon\<close>

definition okS :: "'a \<Rightarrow> ('s, 'a) op" where
  "okS x s = (Inr x, s)"

definition failS :: "error \<Rightarrow> ('s, 'a) op" where
  "failS e s = (Inl e, s)"

definition d_read :: "(bytes \<Rightarrow> ('a \<times> bytes) res) \<Rightarrow> ('s daemon, 'a) op" where
  "d_read f d = (case f (dFrom d) of Inl e \<Rightarrow> (Inl e, d) | Inr (x, r) \<Rightarrow> (Inr x, d\<lparr>dFrom := r\<rparr>))"

definition d_write :: "(bytes \<Rightarrow> bytes res) \<Rightarrow> ('s daemon, unit) op" where
  "d_write f d = (case f (dTo d) of Inl e \<Rightarrow> (Inl e, d) | Inr t \<Rightarrow> (Inr (), d\<lparr>dTo := t\<rparr>))"

abbreviation "d_readInt \<equiv> d_read (readInt pipe_read)"
abbreviation "d_readLongLong \<equiv> d_read (readLongLong pipe_read)"
abbreviation "d_readString \<equiv> d_read (readString pipe_read)"
abbreviation "d_readStorePath dc \<equiv> d_read (readStorePath (dcStoreDir dc) pipe_read)"
abbreviation "d_readStorePaths dc \<equiv> d_read (readStorePaths (dcStoreDir dc) pipe_read)"
abbreviation "d_writeInt n \<equiv> d_write (writeInt StringSink_call n)"
abbreviation "d_writeLongLong n \<equiv> d_write (writeLongLong StringSink_call n)"
abbreviation "d_writeString s \<equiv> d_write (writeString StringSink_call s)"
abbreviation "d_writeStrings ss \<equiv> d_write (writeStrings StringSink_call ss)"

definition tunnelStderr :: "string \<Rightarrow> ('s daemon, unit) op" where
  "tunnelStderr s d = (if canSendStderr d then bindS (d_writeInt STDERR_NEXT) (\<lambda>_. d_writeString s) d else okS () d)"

definition TunnelSink_call :: "bytes \<Rightarrow> ('s daemon, unit) op" where
  "TunnelSink_call data = bindS (d_writeInt STDERR_WRITE) (\<lambda>_. d_write (writeBuf StringSink_call data))"

definition startWork :: "('s daemon, unit) op" where
  "startWork d = (Inr (), d\<lparr>canSendStderr := True\<rparr>)"

definition stopWork :: "bool \<Rightarrow> string \<Rightarrow> u32 \<Rightarrow> ('s daemon, unit) op" where
  "stopWork success msg status d =
     (let d = d\<lparr>canSendStderr := False\<rparr>
      in if success then d_writeInt STDERR_LAST d
         else bindS (d_writeInt STDERR_ERROR) (\<lambda>_. bindS (d_writeString msg) (\<lambda>_.
                if status \<noteq> 0 then d_writeInt status else okS ())) d)"

text \<open>A call of an operation of the store, between \<^verbatim>\<open>startWork\<close> and \<^verbatim>\<open>stopWork\<close>.\<close>

definition call_store :: "('s, 'a) store_op \<Rightarrow> ('s daemon, 'a) op" where
  "call_store f d = (case f (dStore d) of (evs, r, s) \<Rightarrow>
     bindS (foldS (\<lambda>ev. case ev of Log m \<Rightarrow> tunnelStderr m | Data x \<Rightarrow> TunnelSink_call x) evs) (\<lambda>_ d. (r, d)) (d\<lparr>dStore := s\<rparr>))"

definition working :: "('s, 'a) store_op \<Rightarrow> ('s daemon, 'a) op" where
  "working f = bindS startWork (\<lambda>_. bindS (call_store f) (\<lambda>x. bindS (stopWork True [] 0) (\<lambda>_. okS x)))"

definition flag :: "bool \<Rightarrow> u32" where
  "flag b = (if b then 1 else 0)"

definition op_isValidPath :: "'s daemon_config \<Rightarrow> ('s daemon, unit) op" where
  "op_isValidPath dc = bindS (d_readStorePath dc) (\<lambda>p.
     bindS (working (st_isValidPath (dcOps dc) p)) (\<lambda>result. d_writeInt (flag result)))"

definition op_queryValidPaths :: "'s daemon_config \<Rightarrow> ('s daemon, unit) op" where
  "op_queryValidPaths dc = bindS (d_readStorePaths dc) (\<lambda>paths.
     bindS (working (st_queryValidPaths (dcOps dc) paths)) (\<lambda>res. d_writeStrings res))"

definition op_hasSubstitutes :: "'s daemon_config \<Rightarrow> ('s daemon, unit) op" where
  "op_hasSubstitutes dc = bindS (d_readStorePath dc) (\<lambda>p.
     bindS (working (st_querySubstitutablePaths (dcOps dc) [p])) (\<lambda>res. d_writeInt (flag (p \<in> set res))))"

definition op_querySubstitutablePaths :: "'s daemon_config \<Rightarrow> ('s daemon, unit) op" where
  "op_querySubstitutablePaths dc = bindS (d_readStorePaths dc) (\<lambda>paths.
     bindS (working (st_querySubstitutablePaths (dcOps dc) paths)) (\<lambda>res. d_writeStrings res))"

definition op_queryPathHash :: "'s daemon_config \<Rightarrow> ('s daemon, unit) op" where
  "op_queryPathHash dc = bindS (d_readStorePath dc) (\<lambda>p.
     bindS (working (st_queryPathHash (dcOps dc) p)) (\<lambda>h. d_writeString (printHash h)))"

definition op_queryPaths :: "('s store_ops \<Rightarrow> path \<Rightarrow> ('s, string list) store_op) \<Rightarrow> 's daemon_config \<Rightarrow> ('s daemon, unit) op" where
  "op_queryPaths f dc = bindS (d_readStorePath dc) (\<lambda>p. bindS (working (f (dcOps dc) p)) (\<lambda>ps. d_writeStrings ps))"

definition op_queryDeriver :: "'s daemon_config \<Rightarrow> ('s daemon, unit) op" where
  "op_queryDeriver dc = bindS (d_readStorePath dc) (\<lambda>p.
     bindS (working (st_queryDeriver (dcOps dc) p)) (\<lambda>deriver. d_writeString deriver))"

definition op_queryPathFromHashPart :: "'s daemon_config \<Rightarrow> ('s daemon, unit) op" where
  "op_queryPathFromHashPart dc = bindS d_readString (\<lambda>hashPart.
     bindS (working (st_queryPathFromHashPart (dcOps dc) hashPart)) (\<lambda>p. d_writeString p))"

text \<open>\<^verbatim>\<open>SavingSourceAdapter\<close>: what is read is saved.\<close>

definition SavingSourceAdapter_read :: "nat \<Rightarrow> bytes \<times> bytes \<Rightarrow> (bytes \<times> bytes \<times> bytes) res" where
  "SavingSourceAdapter_read len st = (case st of (orig, s) \<Rightarrow>
     bindE (pipe_read len orig) (\<lambda>(d, orig). Inr (d, orig, s @ d)))"

definition null_ops :: "unit ParseSink" where
  "null_ops = \<lparr>createDirectory = (\<lambda>_. Inr), createRegularFile = (\<lambda>_. Inr), isExecutable = Inr,
     preallocateContents = (\<lambda>_. Inr), receiveContents = (\<lambda>_. Inr), createSymlink = (\<lambda>_ _. Inr)\<rparr>"

text \<open>\<^verbatim>\<open>RetrieveRegularNARSink\<close>: whether the archive holds a regular file, and its contents.\<close>

definition RetrieveRegularNARSink_ops :: "(bool \<times> bytes) ParseSink" where
  "RetrieveRegularNARSink_ops = \<lparr>createDirectory = (\<lambda>_ (regular, s). Inr (False, s)), createRegularFile = (\<lambda>_. Inr), isExecutable = Inr,
     preallocateContents = (\<lambda>_. Inr), receiveContents = (\<lambda>d (regular, s). Inr (regular, s @ d)),
     createSymlink = (\<lambda>_ _ (regular, s). Inr (False, s))\<rparr>"

definition read_dump :: "bool \<Rightarrow> bytes \<Rightarrow> ((bool \<times> bytes) \<times> bytes) res" where
  "read_dump recursive s =
     (if recursive then bindE (parseDump (length s) null_ops SavingSourceAdapter_read () (s, [])) (\<lambda>(_, s, saved). Inr ((True, saved), s))
      else parseDump (length s) RetrieveRegularNARSink_ops pipe_read (True, []) s)"

definition op_addToStore :: "'s daemon_config \<Rightarrow> ('s daemon, unit) op" where
  "op_addToStore dc =
     bindS d_readString (\<lambda>baseName. bindS d_readInt (\<lambda>fixed. bindS d_readInt (\<lambda>recursive. bindS d_readString (\<lambda>s.
     let fixed = (fixed = 1); recursive = (if \<not> fixed then True else recursive = 1); hashAlgo = parseHashType (if \<not> fixed then ''sha256'' else s)
     in bindS (d_read (read_dump recursive)) (\<lambda>(regular, dump).
        bindS startWork (\<lambda>_.
          if \<not> regular then failS (Error ''regular file expected'')
          else bindS (call_store (st_addToStoreFromDump (dcOps dc) dump baseName recursive hashAlgo)) (\<lambda>p.
               bindS (stopWork True [] 0) (\<lambda>_. d_writeString p))))))))"

definition op_addTextToStore :: "'s daemon_config \<Rightarrow> ('s daemon, unit) op" where
  "op_addTextToStore dc = bindS d_readString (\<lambda>suffix. bindS d_readString (\<lambda>s. bindS (d_readStorePaths dc) (\<lambda>refs.
     bindS (working (st_addTextToStore (dcOps dc) suffix s refs)) (\<lambda>p. d_writeString p))))"

definition op_exportPath :: "'s daemon_config \<Rightarrow> ('s daemon, unit) op" where
  "op_exportPath dc = bindS (d_readStorePath dc) (\<lambda>p. bindS d_readInt (\<lambda>sign.
     bindS (working (st_exportPath (dcOps dc) p (sign = 1))) (\<lambda>_. d_writeInt 1)))"

definition op_buildPaths :: "'s daemon_config \<Rightarrow> ('s daemon, unit) op" where
  "op_buildPaths dc = bindS (d_readStorePaths dc) (\<lambda>drvs. bindS (working (st_buildPaths (dcOps dc) drvs)) (\<lambda>_. d_writeInt 1))"

definition op_ensurePath :: "'s daemon_config \<Rightarrow> ('s daemon, unit) op" where
  "op_ensurePath dc = bindS (d_readStorePath dc) (\<lambda>p. bindS (working (st_ensurePath (dcOps dc) p)) (\<lambda>_. d_writeInt 1))"

definition op_addTempRoot :: "'s daemon_config \<Rightarrow> ('s daemon, unit) op" where
  "op_addTempRoot dc = bindS (d_readStorePath dc) (\<lambda>p. bindS (working (st_addTempRoot (dcOps dc) p)) (\<lambda>_. d_writeInt 1))"

text \<open>\<^verbatim>\<open>absPath(readString(from))\<close>.\<close>

definition readAbsPath :: "'s daemon_config \<Rightarrow> ('s daemon, path) op" where
  "readAbsPath dc = bindS d_readString (\<lambda>p d. (absPath (\<lambda>_. Inr None) (dcGetcwd dc) p [], d))"

definition op_addIndirectRoot :: "'s daemon_config \<Rightarrow> ('s daemon, unit) op" where
  "op_addIndirectRoot dc = bindS (readAbsPath dc) (\<lambda>p. bindS (working (st_addIndirectRoot (dcOps dc) p)) (\<lambda>_. d_writeInt 1))"

definition op_syncWithGC :: "'s daemon_config \<Rightarrow> ('s daemon, unit) op" where
  "op_syncWithGC dc = bindS (working (st_syncWithGC (dcOps dc))) (\<lambda>_. d_writeInt 1)"

definition op_findRoots :: "'s daemon_config \<Rightarrow> ('s daemon, unit) op" where
  "op_findRoots dc = bindS (working (st_findRoots (dcOps dc))) (\<lambda>roots.
     bindS (d_writeInt (of_nat (length roots))) (\<lambda>_.
       foldS (\<lambda>i. bindS (d_writeString (fst i)) (\<lambda>_. d_writeString (snd i))) roots))"

definition gc_action :: "u32 \<Rightarrow> GCAction option" where
  "gc_action n = (if n = 0 then Some gcReturnLive else if n = 1 then Some gcReturnDead else if n = 2 then Some gcDeleteDead
     else if n = 3 then Some gcDeleteSpecific else None)"

fun action_number :: "GCAction \<Rightarrow> u32" where
  "action_number gcReturnLive = 0" | "action_number gcReturnDead = 1" | "action_number gcDeleteDead = 2" | "action_number gcDeleteSpecific = 3"

text \<open>A number that is not one of the actions is not checked for.\<close>

definition op_collectGarbage :: "'s daemon_config \<Rightarrow> ('s daemon, unit) op" where
  "op_collectGarbage dc =
     bindS d_readInt (\<lambda>act. bindS (d_readStorePaths dc) (\<lambda>toDelete. bindS d_readInt (\<lambda>ignore. bindS d_readLongLong (\<lambda>maxF.
     bindS d_readInt (\<lambda>_.
     bindS (\<lambda>d. if GET_PROTOCOL_MINOR (clientVersion d) \<ge> 5 then bindS d_readInt (\<lambda>_. bindS d_readInt (\<lambda>_. okS ())) d else okS () d) (\<lambda>_.
     bindS startWork (\<lambda>_.
       if ignore \<noteq> 0 then failS (Error ''you are not allowed to ignore liveness'')
       else case gc_action act of
         None \<Rightarrow> failS (Undefined ''garbage collection action'')
       | Some a \<Rightarrow>
           bindS (call_store (st_collectGarbage (dcOps dc)
               \<lparr>action = a, ignoreLiveness = False, pathsToDelete = toDelete, maxFreed = maxF\<rparr>)) (\<lambda>(paths, bytesFreed).
           bindS (stopWork True [] 0) (\<lambda>_.
           bindS (d_writeStrings paths) (\<lambda>_. bindS (d_writeLongLong bytesFreed) (\<lambda>_. d_writeLongLong 0)))))))))))"

primrec read_overrides :: "nat \<Rightarrow> ('s daemon, unit) op" where
  "read_overrides 0 = okS ()"
| "read_overrides (Suc n) = bindS d_readString (\<lambda>name. bindS d_readString (\<lambda>val.
     bindS (\<lambda>d. okS () (d\<lparr>dSettings := (dSettings d)\<lparr>overrides := map_put (''untrusted-'' @ name) val (overrides (dSettings d))\<rparr>\<rparr>)) (\<lambda>_.
       read_overrides n)))"

definition upd_settings :: "(settings \<Rightarrow> settings) \<Rightarrow> ('s daemon, unit) op" where
  "upd_settings f d = okS () (d\<lparr>dSettings := f (dSettings d)\<rparr>)"

definition since :: "u32 \<Rightarrow> ('s daemon, unit) op \<Rightarrow> ('s daemon, unit) op" where
  "since v m d = (if GET_PROTOCOL_MINOR (clientVersion d) \<ge> v then m d else okS () d)"

definition op_setOptions :: "('s daemon, unit) op" where
  "op_setOptions =
     bindS d_readInt (\<lambda>n. bindS (upd_settings (keepFailed_update (\<lambda>_. n \<noteq> 0))) (\<lambda>_.
     bindS d_readInt (\<lambda>n. bindS (upd_settings (keepGoing_update (\<lambda>_. n \<noteq> 0))) (\<lambda>_.
     bindS d_readInt (\<lambda>n. bindS (upd_settings (tryFallback_update (\<lambda>_. n \<noteq> 0))) (\<lambda>_.
     bindS d_readInt (\<lambda>n. bindS (upd_settings (verbosity_update (\<lambda>_. n))) (\<lambda>_.
     bindS d_readInt (\<lambda>n. bindS (upd_settings (maxBuildJobs_update (\<lambda>_. n))) (\<lambda>_.
     bindS d_readInt (\<lambda>n. bindS (upd_settings (maxSilentTime_update (\<lambda>_. n))) (\<lambda>_.
     bindS (since 2 (bindS d_readInt (\<lambda>n. upd_settings (useBuildHook_update (\<lambda>_. n \<noteq> 0))))) (\<lambda>_.
     bindS (since 4 (bindS d_readInt (\<lambda>n. bindS (upd_settings (buildVerbosity_update (\<lambda>_. n))) (\<lambda>_.
                     bindS d_readInt (\<lambda>n. bindS (upd_settings (logType_update (\<lambda>_. n))) (\<lambda>_.
                     bindS d_readInt (\<lambda>n. upd_settings (printBuildTrace_update (\<lambda>_. n \<noteq> 0)))))))) ) (\<lambda>_.
     bindS (since 6 (bindS d_readInt (\<lambda>n. upd_settings (buildCores_update (\<lambda>_. n))))) (\<lambda>_.
     bindS (since 10 (bindS d_readInt (\<lambda>n. upd_settings (useSubstitutes_update (\<lambda>_. n \<noteq> 0))))) (\<lambda>_.
     bindS (since 12 (bindS d_readInt (\<lambda>n. read_overrides (unat n)))) (\<lambda>_.
     bindS startWork (\<lambda>_. stopWork True [] 0))))))))))))))))))"

definition op_querySubstitutablePathInfo :: "'s daemon_config \<Rightarrow> ('s daemon, unit) op" where
  "op_querySubstitutablePathInfo dc = bindS (readAbsPath dc) (\<lambda>p.
     bindS (working (st_querySubstitutablePathInfos (dcOps dc) [p])) (\<lambda>infos. case map_of infos p of
       None \<Rightarrow> d_writeInt 0
     | Some info \<Rightarrow>
         bindS (d_writeInt 1) (\<lambda>_. bindS (d_writeString (siDeriver info)) (\<lambda>_. bindS (d_writeStrings (siReferences info)) (\<lambda>_.
         bindS (d_writeLongLong (siDownloadSize info)) (\<lambda>_. since 7 (d_writeLongLong (siNarSize info))))))))"

definition write_path_info :: "path \<times> SubstitutablePathInfo \<Rightarrow> ('s daemon, unit) op" where
  "write_path_info i =
     bindS (d_writeString (fst i)) (\<lambda>_. bindS (d_writeString (siDeriver (snd i))) (\<lambda>_. bindS (d_writeStrings (siReferences (snd i))) (\<lambda>_.
     bindS (d_writeLongLong (siDownloadSize (snd i))) (\<lambda>_. d_writeLongLong (siNarSize (snd i))))))"

definition op_querySubstitutablePathInfos :: "'s daemon_config \<Rightarrow> ('s daemon, unit) op" where
  "op_querySubstitutablePathInfos dc = bindS (d_readStorePaths dc) (\<lambda>paths.
     bindS (working (st_querySubstitutablePathInfos (dcOps dc) paths)) (\<lambda>infos.
     bindS (d_writeInt (of_nat (length infos))) (\<lambda>_. foldS write_path_info infos)))"

definition op_queryAllPaths :: "('s store_ops \<Rightarrow> ('s, path list) store_op) \<Rightarrow> 's daemon_config \<Rightarrow> ('s daemon, unit) op" where
  "op_queryAllPaths f dc = bindS (working (f (dcOps dc))) (\<lambda>paths. d_writeStrings paths)"

definition op_clearFailedPaths :: "'s daemon_config \<Rightarrow> ('s daemon, unit) op" where
  "op_clearFailedPaths dc = bindS (d_read (readStrings_set pipe_read)) (\<lambda>paths.
     bindS (working (st_clearFailedPaths (dcOps dc) paths)) (\<lambda>_. d_writeInt 1))"

definition op_queryPathInfo :: "'s daemon_config \<Rightarrow> ('s daemon, unit) op" where
  "op_queryPathInfo dc = bindS (d_readStorePath dc) (\<lambda>p.
     bindS (working (st_queryPathInfo (dcOps dc) p)) (\<lambda>info.
     bindS (d_writeString (viDeriver info)) (\<lambda>_. bindS (d_writeString (printHash (viHash info))) (\<lambda>_.
     bindS (d_writeStrings (viReferences info)) (\<lambda>_. bindS (d_writeInt (word_of_int (viRegistrationTime info))) (\<lambda>_.
       d_writeLongLong (viNarSize info)))))))"

fun performOp :: "'s daemon_config \<Rightarrow> WorkerOp \<Rightarrow> ('s daemon, unit) op" where
  "performOp dc wopIsValidPath = op_isValidPath dc"
| "performOp dc wopQueryValidPaths = op_queryValidPaths dc"
| "performOp dc wopHasSubstitutes = op_hasSubstitutes dc"
| "performOp dc wopQuerySubstitutablePaths = op_querySubstitutablePaths dc"
| "performOp dc wopQueryPathHash = op_queryPathHash dc"
| "performOp dc wopQueryReferences = op_queryPaths st_queryReferences dc"
| "performOp dc wopQueryReferrers = op_queryPaths st_queryReferrers dc"
| "performOp dc wopQueryDerivationOutputs = op_queryPaths st_queryDerivationOutputs dc"
| "performOp dc wopQueryDerivationOutputNames = op_queryPaths st_queryDerivationOutputNames dc"
| "performOp dc wopQueryDeriver = op_queryDeriver dc"
| "performOp dc wopQueryPathFromHashPart = op_queryPathFromHashPart dc"
| "performOp dc wopAddToStore = op_addToStore dc"
| "performOp dc wopAddTextToStore = op_addTextToStore dc"
| "performOp dc wopExportPath = op_exportPath dc"
| "performOp dc wopBuildPaths = op_buildPaths dc"
| "performOp dc wopEnsurePath = op_ensurePath dc"
| "performOp dc wopAddTempRoot = op_addTempRoot dc"
| "performOp dc wopAddIndirectRoot = op_addIndirectRoot dc"
| "performOp dc wopSyncWithGC = op_syncWithGC dc"
| "performOp dc wopFindRoots = op_findRoots dc"
| "performOp dc wopCollectGarbage = op_collectGarbage dc"
| "performOp dc wopSetOptions = op_setOptions"
| "performOp dc wopQuerySubstitutablePathInfo = op_querySubstitutablePathInfo dc"
| "performOp dc wopQuerySubstitutablePathInfos = op_querySubstitutablePathInfos dc"
| "performOp dc wopQueryAllValidPaths = op_queryAllPaths st_queryAllValidPaths dc"
| "performOp dc wopQueryFailedPaths = op_queryAllPaths st_queryFailedPaths dc"
| "performOp dc wopClearFailedPaths = op_clearFailedPaths dc"
| "performOp dc wopQueryPathInfo = op_queryPathInfo dc"

definition perform_number :: "'s daemon_config \<Rightarrow> u32 \<Rightarrow> ('s daemon, unit) op" where
  "perform_number dc n = (case op_of_number n of Some w \<Rightarrow> performOp dc w
     | None \<Rightarrow> if n = 27 then failS (Undefined ''wopImportPaths'') else failS (Error (''invalid operation '' @ int2String (uint n))))"

text \<open>
  \<^verbatim>\<open>processConnection\<close>.  The loop over the requests: \<open>n\<close> bounds the number of requests in the input.  An
  exception that is not an \<^verbatim>\<open>Error\<close> ends the process.
\<close>

definition request_error :: "'s daemon_config \<Rightarrow> error \<Rightarrow> 's daemon \<Rightarrow> 's daemon" where
  "request_error dc e d =
     (if isError e then
        let errorAllowed = canSendStderr d;
            d = snd (stopWork False (error_msg e) (if GET_PROTOCOL_MINOR (clientVersion d) \<ge> 8 then dcStatus dc e else 0) d)
        in if errorAllowed then d else d\<lparr>dPhase := Exited\<rparr>
      else d\<lparr>dPhase := Exited\<rparr>)"

primrec processRequests :: "'s daemon_config \<Rightarrow> nat \<Rightarrow> 's daemon \<Rightarrow> 's daemon" where
  "processRequests dc 0 d = d"
| "processRequests dc (Suc n) d =
     (if dPhase d \<noteq> Serving then d
      else case d_readInt d of
        (Inl (EndOfFile _), _) \<Rightarrow> d
      | (Inl _, d) \<Rightarrow> d\<lparr>dPhase := Exited\<rparr>
      | (Inr w, d) \<Rightarrow> (case perform_number dc w d of
            (Inr _, d) \<Rightarrow> processRequests dc n d
          | (Inl e, d) \<Rightarrow> processRequests dc n (request_error dc e d)))"

definition greet :: "'s daemon \<Rightarrow> 's daemon" where
  "greet d = (if dPhase d \<noteq> Greeting then d else case d_readInt d of
     (Inl (EndOfFile _), _) \<Rightarrow> d
   | (Inl _, d) \<Rightarrow> d\<lparr>dPhase := Exited\<rparr>
   | (Inr magic, d) \<Rightarrow>
       if magic \<noteq> WORKER_MAGIC_1 then d\<lparr>dPhase := Exited\<rparr>
       else snd (bindS (d_writeInt WORKER_MAGIC_2) (\<lambda>_. d_writeInt PROTOCOL_VERSION) (d\<lparr>dPhase := Version\<rparr>)))"

text \<open>The store is opened after the version of the client is known.  A failure is reported with no status.\<close>

definition open_store :: "'s daemon_config \<Rightarrow> bool \<Rightarrow> 's daemon \<Rightarrow> 's daemon" where
  "open_store dc reserveSpace d = (case dcOpen dc reserveSpace (dStore d) of
     (Inr _, s) \<Rightarrow> snd (stopWork True [] 0 (d\<lparr>dStore := s, dPhase := Serving\<rparr>))
   | (Inl e, s) \<Rightarrow> if isError e then snd (stopWork False (error_msg e) 0 (d\<lparr>dStore := s, dPhase := Exited\<rparr>))
       else d\<lparr>dStore := s, dPhase := Exited\<rparr>)"

definition accept_version :: "'s daemon_config \<Rightarrow> 's daemon \<Rightarrow> 's daemon" where
  "accept_version dc d = (if dPhase d \<noteq> Version then d else case d_readInt d of
     (Inl (EndOfFile _), _) \<Rightarrow> d
   | (Inl _, d) \<Rightarrow> d\<lparr>dPhase := Exited\<rparr>
   | (Inr v, d) \<Rightarrow>
       let d = d\<lparr>clientVersion := v\<rparr>
       in if GET_PROTOCOL_MINOR v \<ge> 11
          then (case d_readInt d of
                  (Inl e, d) \<Rightarrow> d\<lparr>dPhase := Exited\<rparr>
                | (Inr reserve, d) \<Rightarrow> open_store dc (reserve \<noteq> 0) (snd (startWork d)))
          else open_store dc True (snd (startWork d)))"

definition processConnection :: "'s daemon_config \<Rightarrow> 's daemon \<Rightarrow> 's daemon" where
  "processConnection dc d = (let d = accept_version dc (greet d) in processRequests dc (Suc (length (dFrom d))) d)"

subsection \<open>The client\<close>

record 's RemoteStore =
  initialised :: bool
  remoteMode :: string
  rSettings :: settings
  daemonVersion :: u32
  rTo :: bytes
  rFrom :: bytes
  rStderr :: "string list"
  rSink :: bytes
  rDaemon :: "'s daemon"

definition r_read :: "(bytes \<Rightarrow> ('a \<times> bytes) res) \<Rightarrow> ('s RemoteStore, 'a) op" where
  "r_read f r = (case f (rFrom r) of Inl e \<Rightarrow> (Inl e, r) | Inr (x, b) \<Rightarrow> (Inr x, r\<lparr>rFrom := b\<rparr>))"

definition r_write :: "(bytes \<Rightarrow> bytes res) \<Rightarrow> ('s RemoteStore, unit) op" where
  "r_write f r = (case f (rTo r) of Inl e \<Rightarrow> (Inl e, r) | Inr t \<Rightarrow> (Inr (), r\<lparr>rTo := t\<rparr>))"

abbreviation "r_readInt \<equiv> r_read (readInt pipe_read)"
abbreviation "r_readLongLong \<equiv> r_read (readLongLong pipe_read)"
abbreviation "r_readString \<equiv> r_read (readString pipe_read)"
abbreviation "r_readStrings \<equiv> r_read (readStrings_set pipe_read)"
abbreviation "r_readStorePath dc \<equiv> r_read (readStorePath (dcStoreDir dc) pipe_read)"
abbreviation "r_readStorePaths dc \<equiv> r_read (readStorePaths (dcStoreDir dc) pipe_read)"
abbreviation "r_writeInt n \<equiv> r_write (writeInt StringSink_call n)"
abbreviation "r_writeLongLong n \<equiv> r_write (writeLongLong StringSink_call n)"
abbreviation "r_writeString s \<equiv> r_write (writeString StringSink_call s)"
abbreviation "r_writeStrings ss \<equiv> r_write (writeStrings StringSink_call ss)"
abbreviation "r_op w \<equiv> r_writeInt (op_number w)"

text \<open>Flushing: the daemon gets what has been written, and runs until it waits for more.\<close>

definition r_flush :: "'s daemon_config \<Rightarrow> ('s RemoteStore, unit) op" where
  "r_flush dc r = (let d = processConnection dc ((rDaemon r)\<lparr>dFrom := dFrom (rDaemon r) @ rTo r\<rparr>)
     in (Inr (), r\<lparr>rTo := [], rFrom := rFrom r @ dTo d, rDaemon := d\<lparr>dTo := []\<rparr>\<rparr>))"

text \<open>The loop of \<^verbatim>\<open>processStderr\<close>; \<open>n\<close> bounds the number of messages.\<close>

primrec stderr_loop :: "nat \<Rightarrow> bool \<Rightarrow> ('s RemoteStore, u32) op" where
  "stderr_loop 0 snk = failS Diverges"
| "stderr_loop (Suc n) snk = bindS r_readInt (\<lambda>msg.
     if msg = STDERR_WRITE then bindS r_readString (\<lambda>s.
       if \<not> snk then failS (Error ''no sink'') else bindS (\<lambda>r. okS () (r\<lparr>rSink := rSink r @ to_bytes s\<rparr>)) (\<lambda>_. stderr_loop n snk))
     else if msg = STDERR_READ then failS (Error ''no source'')
     else if msg = STDERR_NEXT then bindS r_readString (\<lambda>s. bindS (\<lambda>r. okS () (r\<lparr>rStderr := rStderr r @ [s]\<rparr>)) (\<lambda>_. stderr_loop n snk))
     else okS msg)"

definition processStderr :: "'s daemon_config \<Rightarrow> bool \<Rightarrow> ('s RemoteStore, unit) op" where
  "processStderr dc snk =
     bindS (r_flush dc) (\<lambda>_. bindS (\<lambda>r. stderr_loop (Suc (length (rFrom r))) snk r) (\<lambda>msg.
       if msg = STDERR_ERROR then bindS r_readString (\<lambda>err.
         bindS (\<lambda>r. if GET_PROTOCOL_MINOR (daemonVersion r) \<ge> 8 then r_readInt r else okS 1 r) (\<lambda>status. failS (Error err)))
       else if msg \<noteq> STDERR_LAST then failS (Error ''protocol error processing standard error'')
       else okS ()))"

definition r_since :: "u32 \<Rightarrow> ('s RemoteStore, unit) op \<Rightarrow> ('s RemoteStore, unit) op" where
  "r_since v m r = (if GET_PROTOCOL_MINOR (daemonVersion r) \<ge> v then m r else okS () r)"

definition RemoteStore_setOptions :: "'s daemon_config \<Rightarrow> ('s RemoteStore, unit) op" where
  "RemoteStore_setOptions dc r = (let st = rSettings r in
     bindS (r_op wopSetOptions) (\<lambda>_.
     bindS (r_writeInt (flag (keepFailed st))) (\<lambda>_. bindS (r_writeInt (flag (keepGoing st))) (\<lambda>_.
     bindS (r_writeInt (flag (tryFallback st))) (\<lambda>_. bindS (r_writeInt (verbosity st)) (\<lambda>_.
     bindS (r_writeInt (maxBuildJobs st)) (\<lambda>_. bindS (r_writeInt (maxSilentTime st)) (\<lambda>_.
     bindS (r_since 2 (r_writeInt (flag (useBuildHook st)))) (\<lambda>_.
     bindS (r_since 4 (bindS (r_writeInt (buildVerbosity st)) (\<lambda>_. bindS (r_writeInt (logType st)) (\<lambda>_. r_writeInt (flag (printBuildTrace st)))))) (\<lambda>_.
     bindS (r_since 6 (r_writeInt (buildCores st))) (\<lambda>_.
     bindS (r_since 10 (r_writeInt (flag (useSubstitutes st)))) (\<lambda>_.
     bindS (r_since 12 (bindS (r_writeInt (of_nat (length (overrides st)))) (\<lambda>_.
       foldS (\<lambda>i. bindS (r_writeString (fst i)) (\<lambda>_. r_writeString (snd i))) (overrides st)))) (\<lambda>_.
     processStderr dc False)))))))))))) r)"

definition greet_daemon :: "'s daemon_config \<Rightarrow> bool \<Rightarrow> ('s RemoteStore, unit) op" where
  "greet_daemon dc reserveSpace =
     bindS (r_writeInt WORKER_MAGIC_1) (\<lambda>_. bindS (r_flush dc) (\<lambda>_.
     bindS r_readInt (\<lambda>magic. if magic \<noteq> WORKER_MAGIC_2 then failS (Error ''protocol mismatch'') else
     bindS r_readInt (\<lambda>v. bindS (\<lambda>r. okS () (r\<lparr>daemonVersion := v\<rparr>)) (\<lambda>_.
       if GET_PROTOCOL_MAJOR v \<noteq> GET_PROTOCOL_MAJOR PROTOCOL_VERSION then failS (Error ''Nix daemon protocol version not supported'') else
       bindS (r_writeInt PROTOCOL_VERSION) (\<lambda>_. bindS (r_since 11 (r_writeInt (flag reserveSpace))) (\<lambda>_.
       processStderr dc False)))))))"

definition openConnection :: "'s daemon_config \<Rightarrow> bool \<Rightarrow> ('s RemoteStore, unit) op" where
  "openConnection dc reserveSpace r =
     (if initialised r then okS () r
      else let r = r\<lparr>initialised := True\<rparr>
           in if remoteMode r \<noteq> ''daemon'' then failS (Error (''invalid setting for NIX_REMOTE, `'' @ remoteMode r @ [CHR 0x27])) r
              else case greet_daemon dc reserveSpace r of
                (Inl e, r) \<Rightarrow> (Inl (if isError e then Error (''cannot start worker ('' @ error_msg e @ '')'') else e), r)
              | (Inr _, r) \<Rightarrow> RemoteStore_setOptions dc r)"

text \<open>A request: the connection is opened when it is the first one.\<close>

definition RemoteStore_isValidPath :: "'s daemon_config \<Rightarrow> path \<Rightarrow> ('s RemoteStore, bool) op" where
  "RemoteStore_isValidPath dc p = bindS (openConnection dc True) (\<lambda>_. bindS (r_op wopIsValidPath) (\<lambda>_. bindS (r_writeString p) (\<lambda>_.
     bindS (processStderr dc False) (\<lambda>_. bindS r_readInt (\<lambda>reply. okS (reply \<noteq> 0))))))"

primrec old_query :: "(path \<Rightarrow> ('s RemoteStore, bool) op) \<Rightarrow> path list \<Rightarrow> path list \<Rightarrow> ('s RemoteStore, path list) op" where
  "old_query f [] res = okS res"
| "old_query f (p # ps) res = bindS (f p) (\<lambda>b. old_query f ps (if b then set_insert p res else res))"

definition RemoteStore_queryValidPaths :: "'s daemon_config \<Rightarrow> path list \<Rightarrow> ('s RemoteStore, path list) op" where
  "RemoteStore_queryValidPaths dc paths = bindS (openConnection dc True) (\<lambda>_ r.
     if GET_PROTOCOL_MINOR (daemonVersion r) < 12 then old_query (RemoteStore_isValidPath dc) paths [] r
     else bindS (r_op wopQueryValidPaths) (\<lambda>_. bindS (r_writeStrings paths) (\<lambda>_.
       bindS (processStderr dc False) (\<lambda>_. r_readStorePaths dc))) r)"

definition RemoteStore_queryAllValidPaths :: "'s daemon_config \<Rightarrow> ('s RemoteStore, path list) op" where
  "RemoteStore_queryAllValidPaths dc = bindS (openConnection dc True) (\<lambda>_. bindS (r_op wopQueryAllValidPaths) (\<lambda>_.
     bindS (processStderr dc False) (\<lambda>_. r_readStorePaths dc)))"

definition RemoteStore_querySubstitutablePaths :: "'s daemon_config \<Rightarrow> path list \<Rightarrow> ('s RemoteStore, path list) op" where
  "RemoteStore_querySubstitutablePaths dc paths = bindS (openConnection dc True) (\<lambda>_ r.
     if GET_PROTOCOL_MINOR (daemonVersion r) < 12 then
       old_query (\<lambda>p. bindS (r_op wopHasSubstitutes) (\<lambda>_. bindS (r_writeString p) (\<lambda>_.
         bindS (processStderr dc False) (\<lambda>_. bindS r_readInt (\<lambda>reply. okS (reply \<noteq> 0)))))) paths [] r
     else bindS (r_op wopQuerySubstitutablePaths) (\<lambda>_. bindS (r_writeStrings paths) (\<lambda>_.
       bindS (processStderr dc False) (\<lambda>_. r_readStorePaths dc))) r)"

definition read_deriver :: "'s daemon_config \<Rightarrow> ('s RemoteStore, path) op" where
  "read_deriver dc = bindS r_readString (\<lambda>deriver r.
     if deriver \<noteq> [] then (bindE (assertStorePath (dcStoreDir dc) deriver) (\<lambda>_. Inr deriver), r) else okS deriver r)"

primrec old_infos :: "'s daemon_config \<Rightarrow> path list \<Rightarrow> (path \<times> SubstitutablePathInfo) list \<Rightarrow> ('s RemoteStore, (path \<times> SubstitutablePathInfo) list) op" where
  "old_infos dc [] infos = okS infos"
| "old_infos dc (p # ps) infos =
     bindS (r_op wopQuerySubstitutablePathInfo) (\<lambda>_. bindS (r_writeString p) (\<lambda>_. bindS (processStderr dc False) (\<lambda>_.
     bindS r_readInt (\<lambda>reply. if reply = 0 then old_infos dc ps infos else
     bindS (read_deriver dc) (\<lambda>deriver. bindS (r_readStorePaths dc) (\<lambda>refs. bindS r_readLongLong (\<lambda>download.
     bindS (\<lambda>r. if GET_PROTOCOL_MINOR (daemonVersion r) \<ge> 7 then r_readLongLong r else okS 0 r) (\<lambda>narSize.
       old_infos dc ps (map_put p \<lparr>siDeriver = deriver, siReferences = refs, siDownloadSize = download, siNarSize = narSize\<rparr> infos)))))))))"

primrec read_infos :: "'s daemon_config \<Rightarrow> nat \<Rightarrow> (path \<times> SubstitutablePathInfo) list \<Rightarrow> ('s RemoteStore, (path \<times> SubstitutablePathInfo) list) op" where
  "read_infos dc 0 infos = okS infos"
| "read_infos dc (Suc n) infos =
     bindS (r_readStorePath dc) (\<lambda>p. bindS (read_deriver dc) (\<lambda>deriver. bindS (r_readStorePaths dc) (\<lambda>refs.
     bindS r_readLongLong (\<lambda>download. bindS r_readLongLong (\<lambda>narSize.
       read_infos dc n (map_put p \<lparr>siDeriver = deriver, siReferences = refs, siDownloadSize = download, siNarSize = narSize\<rparr> infos))))))"

definition RemoteStore_querySubstitutablePathInfos ::
  "'s daemon_config \<Rightarrow> path list \<Rightarrow> (path \<times> SubstitutablePathInfo) list \<Rightarrow> ('s RemoteStore, (path \<times> SubstitutablePathInfo) list) op" where
  "RemoteStore_querySubstitutablePathInfos dc paths infos =
     (if paths = [] then okS infos
      else bindS (openConnection dc True) (\<lambda>_ r.
        if GET_PROTOCOL_MINOR (daemonVersion r) < 3 then okS infos r
        else if GET_PROTOCOL_MINOR (daemonVersion r) < 12 then old_infos dc paths infos r
        else bindS (r_op wopQuerySubstitutablePathInfos) (\<lambda>_. bindS (r_writeStrings paths) (\<lambda>_. bindS (processStderr dc False) (\<lambda>_.
          bindS r_readInt (\<lambda>count. read_infos dc (unat count) infos)))) r))"

definition RemoteStore_queryPathInfo :: "'s daemon_config \<Rightarrow> path \<Rightarrow> ('s RemoteStore, ValidPathInfo) op" where
  "RemoteStore_queryPathInfo dc p = bindS (openConnection dc True) (\<lambda>_. bindS (r_op wopQueryPathInfo) (\<lambda>_. bindS (r_writeString p) (\<lambda>_.
     bindS (processStderr dc False) (\<lambda>_. bindS (read_deriver dc) (\<lambda>deriver.
     bindS r_readString (\<lambda>s. bindS (\<lambda>r. (parseHash htSHA256 s, r)) (\<lambda>h.
     bindS (r_readStorePaths dc) (\<lambda>refs. bindS r_readInt (\<lambda>time. bindS r_readLongLong (\<lambda>narSize.
       okS (ValidPathInfo_new\<lparr>viPath := p, viDeriver := deriver, viHash := h, viReferences := refs,
              viRegistrationTime := uint time, viNarSize := narSize\<rparr>)))))))))))"

definition RemoteStore_queryPathHash :: "'s daemon_config \<Rightarrow> path \<Rightarrow> ('s RemoteStore, Hash) op" where
  "RemoteStore_queryPathHash dc p = bindS (openConnection dc True) (\<lambda>_. bindS (r_op wopQueryPathHash) (\<lambda>_. bindS (r_writeString p) (\<lambda>_.
     bindS (processStderr dc False) (\<lambda>_. bindS r_readString (\<lambda>s r. (parseHash htSHA256 s, r))))))"

text \<open>\<^verbatim>\<open>queryReferences\<close>, \<^verbatim>\<open>queryReferrers\<close>: what the daemon answers is added to a set.\<close>

definition RemoteStore_queryInto :: "WorkerOp \<Rightarrow> 's daemon_config \<Rightarrow> path \<Rightarrow> path list \<Rightarrow> ('s RemoteStore, path list) op" where
  "RemoteStore_queryInto w dc p ps = bindS (openConnection dc True) (\<lambda>_. bindS (r_op w) (\<lambda>_. bindS (r_writeString p) (\<lambda>_.
     bindS (processStderr dc False) (\<lambda>_. bindS (r_readStorePaths dc) (\<lambda>ps2. okS (set_insert_all ps2 ps))))))"

definition RemoteStore_queryReferences :: "'s daemon_config \<Rightarrow> path \<Rightarrow> path list \<Rightarrow> ('s RemoteStore, path list) op" where
  "RemoteStore_queryReferences = RemoteStore_queryInto wopQueryReferences"

definition RemoteStore_queryReferrers :: "'s daemon_config \<Rightarrow> path \<Rightarrow> path list \<Rightarrow> ('s RemoteStore, path list) op" where
  "RemoteStore_queryReferrers = RemoteStore_queryInto wopQueryReferrers"

definition RemoteStore_queryDeriver :: "'s daemon_config \<Rightarrow> path \<Rightarrow> ('s RemoteStore, path) op" where
  "RemoteStore_queryDeriver dc p = bindS (openConnection dc True) (\<lambda>_. bindS (r_op wopQueryDeriver) (\<lambda>_. bindS (r_writeString p) (\<lambda>_.
     bindS (processStderr dc False) (\<lambda>_. read_deriver dc))))"

definition RemoteStore_queryDerivationOutputs :: "'s daemon_config \<Rightarrow> path \<Rightarrow> ('s RemoteStore, path list) op" where
  "RemoteStore_queryDerivationOutputs dc p = bindS (openConnection dc True) (\<lambda>_. bindS (r_op wopQueryDerivationOutputs) (\<lambda>_.
     bindS (r_writeString p) (\<lambda>_. bindS (processStderr dc False) (\<lambda>_. r_readStorePaths dc))))"

definition RemoteStore_queryDerivationOutputNames :: "'s daemon_config \<Rightarrow> path \<Rightarrow> ('s RemoteStore, string list) op" where
  "RemoteStore_queryDerivationOutputNames dc p = bindS (openConnection dc True) (\<lambda>_. bindS (r_op wopQueryDerivationOutputNames) (\<lambda>_.
     bindS (r_writeString p) (\<lambda>_. bindS (processStderr dc False) (\<lambda>_. r_readStrings))))"

definition RemoteStore_queryPathFromHashPart :: "'s daemon_config \<Rightarrow> string \<Rightarrow> ('s RemoteStore, path) op" where
  "RemoteStore_queryPathFromHashPart dc hashPart = bindS (openConnection dc True) (\<lambda>_. bindS (r_op wopQueryPathFromHashPart) (\<lambda>_.
     bindS (r_writeString hashPart) (\<lambda>_. bindS (processStderr dc False) (\<lambda>_. read_deriver dc))))"

text \<open>The argument \<open>t\<close> is the tree at the source path.\<close>

definition no_repair :: "bool \<Rightarrow> ('s RemoteStore, unit) op" where
  "no_repair repair = (if repair then failS (Error ''repairing is not supported when building through the Nix daemon'') else okS ())"

definition RemoteStore_addToStore ::
  "'s daemon_config \<Rightarrow> path res \<Rightarrow> path \<Rightarrow> fs \<Rightarrow> bool \<Rightarrow> HashType \<Rightarrow> (path \<Rightarrow> bool) \<Rightarrow> bool \<Rightarrow> ('s RemoteStore, path) op" where
  "RemoteStore_addToStore dc cwd srcPath t recursive hashAlgo filt repair =
     bindS (no_repair repair) (\<lambda>_. bindS (openConnection dc True) (\<lambda>_.
     bindS (\<lambda>r. (absPath (\<lambda>_. Inr None) cwd srcPath [], r)) (\<lambda>srcPath.
     bindS (r_op wopAddToStore) (\<lambda>_. bindS (\<lambda>r. (baseNameOf srcPath, r)) (\<lambda>name. bindS (r_writeString name) (\<lambda>_.
     bindS (r_writeInt (if hashAlgo = htSHA256 \<and> recursive then 0 else 1)) (\<lambda>_. bindS (r_writeInt (flag recursive)) (\<lambda>_.
     bindS (\<lambda>r. (printHashType hashAlgo, r)) (\<lambda>algo. bindS (r_writeString algo) (\<lambda>_.
     bindS (r_write (dumpPath StringSink_call filt srcPath t)) (\<lambda>_.
     bindS (processStderr dc False) (\<lambda>_. r_readStorePath dc))))))))))))"

definition RemoteStore_addTextToStore ::
  "'s daemon_config \<Rightarrow> string \<Rightarrow> string \<Rightarrow> path list \<Rightarrow> bool \<Rightarrow> ('s RemoteStore, path) op" where
  "RemoteStore_addTextToStore dc name s refs repair =
     bindS (no_repair repair) (\<lambda>_. bindS (openConnection dc True) (\<lambda>_. bindS (r_op wopAddTextToStore) (\<lambda>_.
     bindS (r_writeString name) (\<lambda>_. bindS (r_writeString s) (\<lambda>_. bindS (r_writeStrings refs) (\<lambda>_.
     bindS (processStderr dc False) (\<lambda>_. r_readStorePath dc)))))))"

definition RemoteStore_exportPath :: "'s daemon_config \<Rightarrow> path \<Rightarrow> bool \<Rightarrow> ('s RemoteStore, unit) op" where
  "RemoteStore_exportPath dc p sign = bindS (openConnection dc True) (\<lambda>_. bindS (r_op wopExportPath) (\<lambda>_. bindS (r_writeString p) (\<lambda>_.
     bindS (r_writeInt (flag sign)) (\<lambda>_. bindS (processStderr dc True) (\<lambda>_. bindS r_readInt (\<lambda>_. okS ()))))))"

definition RemoteStore_buildPaths :: "'s daemon_config \<Rightarrow> path list \<Rightarrow> bool \<Rightarrow> ('s RemoteStore, unit) op" where
  "RemoteStore_buildPaths dc drvPaths repair = bindS (no_repair repair) (\<lambda>_. bindS (openConnection dc True) (\<lambda>_. bindS (r_op wopBuildPaths) (\<lambda>_.
     bindS (r_writeStrings drvPaths) (\<lambda>_. bindS (processStderr dc False) (\<lambda>_. bindS r_readInt (\<lambda>_. okS ()))))))"

text \<open>Operations on one path without a result.\<close>

definition RemoteStore_onPath :: "WorkerOp \<Rightarrow> 's daemon_config \<Rightarrow> path \<Rightarrow> ('s RemoteStore, unit) op" where
  "RemoteStore_onPath w dc p = bindS (openConnection dc True) (\<lambda>_. bindS (r_op w) (\<lambda>_. bindS (r_writeString p) (\<lambda>_.
     bindS (processStderr dc False) (\<lambda>_. bindS r_readInt (\<lambda>_. okS ())))))"

definition RemoteStore_ensurePath :: "'s daemon_config \<Rightarrow> path \<Rightarrow> ('s RemoteStore, unit) op" where
  "RemoteStore_ensurePath = RemoteStore_onPath wopEnsurePath"

definition RemoteStore_addTempRoot :: "'s daemon_config \<Rightarrow> path \<Rightarrow> ('s RemoteStore, unit) op" where
  "RemoteStore_addTempRoot = RemoteStore_onPath wopAddTempRoot"

definition RemoteStore_addIndirectRoot :: "'s daemon_config \<Rightarrow> path \<Rightarrow> ('s RemoteStore, unit) op" where
  "RemoteStore_addIndirectRoot = RemoteStore_onPath wopAddIndirectRoot"

definition RemoteStore_syncWithGC :: "'s daemon_config \<Rightarrow> ('s RemoteStore, unit) op" where
  "RemoteStore_syncWithGC dc = bindS (openConnection dc True) (\<lambda>_. bindS (r_op wopSyncWithGC) (\<lambda>_.
     bindS (processStderr dc False) (\<lambda>_. bindS r_readInt (\<lambda>_. okS ()))))"

primrec read_roots :: "'s daemon_config \<Rightarrow> nat \<Rightarrow> Roots \<Rightarrow> ('s RemoteStore, Roots) op" where
  "read_roots dc 0 roots = okS roots"
| "read_roots dc (Suc n) roots = bindS r_readString (\<lambda>link. bindS (r_readStorePath dc) (\<lambda>target. read_roots dc n (map_put link target roots)))"

definition RemoteStore_findRoots :: "'s daemon_config \<Rightarrow> ('s RemoteStore, Roots) op" where
  "RemoteStore_findRoots dc = bindS (openConnection dc True) (\<lambda>_. bindS (r_op wopFindRoots) (\<lambda>_.
     bindS (processStderr dc False) (\<lambda>_. bindS r_readInt (\<lambda>count. read_roots dc (unat count) []))))"

definition RemoteStore_collectGarbage :: "'s daemon_config \<Rightarrow> GCOptions \<Rightarrow> ('s RemoteStore, path list \<times> u64) op" where
  "RemoteStore_collectGarbage dc options = bindS (openConnection dc False) (\<lambda>_. bindS (r_op wopCollectGarbage) (\<lambda>_.
     bindS (r_writeInt (action_number (action options))) (\<lambda>_. bindS (r_writeStrings (pathsToDelete options)) (\<lambda>_.
     bindS (r_writeInt (flag (ignoreLiveness options))) (\<lambda>_. bindS (r_writeLongLong (maxFreed options)) (\<lambda>_.
     bindS (r_writeInt 0) (\<lambda>_. bindS (r_since 5 (bindS (r_writeInt 0) (\<lambda>_. r_writeInt 0))) (\<lambda>_.
     bindS (processStderr dc False) (\<lambda>_.
     bindS r_readStrings (\<lambda>paths. bindS r_readLongLong (\<lambda>bytesFreed. bindS r_readLongLong (\<lambda>_. okS (paths, bytesFreed))))))))))))) "

definition RemoteStore_queryFailedPaths :: "'s daemon_config \<Rightarrow> ('s RemoteStore, path list) op" where
  "RemoteStore_queryFailedPaths dc = bindS (openConnection dc True) (\<lambda>_. bindS (r_op wopQueryFailedPaths) (\<lambda>_.
     bindS (processStderr dc False) (\<lambda>_. r_readStorePaths dc)))"

definition RemoteStore_clearFailedPaths :: "'s daemon_config \<Rightarrow> path list \<Rightarrow> ('s RemoteStore, unit) op" where
  "RemoteStore_clearFailedPaths dc paths = bindS (openConnection dc True) (\<lambda>_. bindS (r_op wopClearFailedPaths) (\<lambda>_.
     bindS (r_writeStrings paths) (\<lambda>_. bindS (processStderr dc False) (\<lambda>_. bindS r_readInt (\<lambda>_. okS ())))))"

end
