(* ===== verification/Remote_Refinement.thy ===== *)
theory Remote_Refinement
  imports Remote_Store
begin

text \<open>
  What a program gets from a remote store: the answers of the store of the daemon.  The proof goes from
  the wire format, over what the daemon does with one request (\<open>serves\<close>) and one exchange between client
  and daemon (\<open>exchange\<close>), to every operation (\<open>refines\<close>), and to sequences of requests.  At the end, the
  opening of a connection.
\<close>

subsection \<open>Reading what has been written\<close>

interpretation pipe: source pipe_read "\<lambda>s. s" "\<lambda>_. True"
  by unfold_locales (auto simp: pipe_read_def)

lemma decode_wire:
  "pipe.decodes f bs v \<Longrightarrow> f (bs @ r) = Inr (v, r)" "pipe.decodes f bs v \<Longrightarrow> f bs = Inr (v, [])"
  unfolding pipe.decodes_def by (auto, metis append_Nil2)

lemma read_wire [simp]:
  "readInt pipe_read (wire_int n @ r) = Inr (n, r)" "readInt pipe_read (wire_int n) = Inr (n, [])"
  "readLongLong pipe_read (wire_longlong m @ r) = Inr (m, r)" "readLongLong pipe_read (wire_longlong m) = Inr (m, [])"
  "length s < 2 ^ 32 \<Longrightarrow> readString pipe_read (wire_string s @ r) = Inr (s, r)" "length s < 2 ^ 32 \<Longrightarrow> readString pipe_read (wire_string s) = Inr (s, [])"
  by (simp_all add: decode_wire pipe.decodes_readInt pipe.decodes_readLongLong pipe.decodes_readString)

lemma write_wire [simp]:
  "writeInt StringSink_call n t = Inr (t @ wire_int n)" "writeLongLong StringSink_call m t = Inr (t @ wire_longlong m)"
  "writeString StringSink_call s t = Inr (t @ wire_string s)" "writeStrings StringSink_call ss t = Inr (t @ wire_strings ss)"
  using string_sink.delivers_writeInt [of n] string_sink.delivers_writeLongLong [of m] string_sink.delivers_writeString [of s]
    string_sink.delivers_writeStrings [of ss]
  by (auto simp: string_sink.delivers_def)

text \<open>Sets of strings that can be sent.\<close>

definition sendable :: "string list \<Rightarrow> bool" where
  "sendable ss \<longleftrightarrow> is_set ss \<and> length ss < 2 ^ 32 \<and> (\<forall>s \<in> set ss. length s < 2 ^ 32)"

definition store_path_set :: "path \<Rightarrow> path list \<Rightarrow> bool" where
  "store_path_set storeDir ps \<longleftrightarrow> sendable ps \<and> (\<forall>p \<in> set ps. isStorePath storeDir p)"

lemma read_strings_wire [simp]:
  assumes "sendable ss"
  shows "readStrings_set pipe_read (wire_strings ss @ r) = Inr (ss, r)" and "readStrings_set pipe_read (wire_strings ss) = Inr (ss, [])"
proof -
  from assms have "pipe.decodes (readStrings_set pipe_read) (wire_strings ss) ss"
    using pipe.decodes_readStrings(2) [of ss] by (auto simp: sendable_def)
  then show "readStrings_set pipe_read (wire_strings ss @ r) = Inr (ss, r)" and "readStrings_set pipe_read (wire_strings ss) = Inr (ss, [])"
    by (simp_all add: decode_wire)
qed

lemma assert_all: "\<forall>p \<in> set ps. isStorePath storeDir p \<Longrightarrow> foldE (\<lambda>p _. assertStorePath storeDir p) ps () = Inr ()"
  by (induction ps) (simp_all add: assertStorePath_def)

lemma read_store_paths_wire [simp]:
  assumes "store_path_set storeDir ps"
  shows "readStorePaths storeDir pipe_read (wire_strings ps @ r) = Inr (ps, r)" and "readStorePaths storeDir pipe_read (wire_strings ps) = Inr (ps, [])"
  using assms by (simp_all add: readStorePaths_def store_path_set_def assert_all)

lemma read_store_path_wire [simp]:
  assumes "isStorePath storeDir p" and "length p < 2 ^ 32"
  shows "readStorePath storeDir pipe_read (wire_string p @ r) = Inr (p, r)" and "readStorePath storeDir pipe_read (wire_string p) = Inr (p, [])"
  using assms by (simp_all add: readStorePath_def assertStorePath_def)

lemma bindS_okS [simp]: "bindS (okS x) f = f x" "okS x s = (Inr x, s)" "bindS (failS e) f = failS e" "failS e s = (Inl e, s)"
  by (simp_all add: bindS_def okS_def failS_def fun_eq_iff)

lemma bindS_update [simp]: "bindS (\<lambda>s. (Inr x, g s)) f s = f x (g s)"
  by (simp add: bindS_def)

lemma bindS_Inr: "m s = (Inr x, s') \<Longrightarrow> bindS m f s = f x s'" and bindS_Inl: "m s = (Inl e, s') \<Longrightarrow> bindS m f s = (Inl e, s')"
  by (simp_all add: bindS_def)

lemma bindS_assoc_op: "bindS (bindS m f) g = bindS m (\<lambda>x. bindS (f x) g)"
  by (rule ext) (auto simp: bindS_def split: prod.splits sum.splits)

text \<open>Writing and reading as rewriting of the state.\<close>

lemma d_write_run [simp]:
  "bindS (d_writeInt n) f d = f () (d\<lparr>dTo := dTo d @ wire_int n\<rparr>)" "bindS (d_writeLongLong m) f d = f () (d\<lparr>dTo := dTo d @ wire_longlong m\<rparr>)"
  "bindS (d_writeString s) f d = f () (d\<lparr>dTo := dTo d @ wire_string s\<rparr>)" "bindS (d_writeStrings ss) f d = f () (d\<lparr>dTo := dTo d @ wire_strings ss\<rparr>)"
  "d_writeInt n d = (Inr (), d\<lparr>dTo := dTo d @ wire_int n\<rparr>)" "d_writeLongLong m d = (Inr (), d\<lparr>dTo := dTo d @ wire_longlong m\<rparr>)"
  "d_writeString s d = (Inr (), d\<lparr>dTo := dTo d @ wire_string s\<rparr>)" "d_writeStrings ss d = (Inr (), d\<lparr>dTo := dTo d @ wire_strings ss\<rparr>)"
  by (simp_all add: bindS_def d_write_def)

lemma r_write_run [simp]:
  "bindS (r_writeInt n) f r = f () (r\<lparr>rTo := rTo r @ wire_int n\<rparr>)" "bindS (r_writeLongLong m) f r = f () (r\<lparr>rTo := rTo r @ wire_longlong m\<rparr>)"
  "bindS (r_writeString s) f r = f () (r\<lparr>rTo := rTo r @ wire_string s\<rparr>)" "bindS (r_writeStrings ss) f r = f () (r\<lparr>rTo := rTo r @ wire_strings ss\<rparr>)"
  "r_writeInt n r = (Inr (), r\<lparr>rTo := rTo r @ wire_int n\<rparr>)" "r_writeString s r = (Inr (), r\<lparr>rTo := rTo r @ wire_string s\<rparr>)"
  by (simp_all add: bindS_def r_write_def)

lemma d_read_run: "f (dFrom d) = Inr (x, b) \<Longrightarrow> bindS (d_read f) g d = g x (d\<lparr>dFrom := b\<rparr>)"
  and r_read_run: "f (rFrom r) = Inr (x, b) \<Longrightarrow> bindS (r_read f) h r = h x (r\<lparr>rFrom := b\<rparr>)"
  and r_read_last: "f (rFrom r) = Inr (x, b) \<Longrightarrow> r_read f r = (Inr x, r\<lparr>rFrom := b\<rparr>)"
  by (simp_all add: bindS_def d_read_def r_read_def)

subsection \<open>The daemon serves a request\<close>

fun frame :: "event \<Rightarrow> bytes" where
  "frame (Log s) = wire_int STDERR_NEXT @ wire_string s"
| "frame (Data x) = wire_int STDERR_WRITE @ wire_string (of_bytes x)"

abbreviation frames :: "event list \<Rightarrow> bytes" where
  "frames evs \<equiv> concat (map frame evs)"

lemma writeBuf_wire: "writeBuf StringSink_call x t = Inr (t @ wire_string (of_bytes x))"
  using write_wire(3) [of "of_bytes x" t] by (simp add: writeString_def)

lemma call_store_run:
  assumes "canSendStderr d" and "f (dStore d) = (evs, res, s)"
  shows "call_store f d = (res, d\<lparr>dStore := s, dTo := dTo d @ frames evs\<rparr>)"
proof -
  have "foldS (\<lambda>ev. case ev of Log m \<Rightarrow> tunnelStderr m | Data x \<Rightarrow> TunnelSink_call x) evs d = (Inr (), d\<lparr>dTo := dTo d @ frames evs\<rparr>)"
    if "canSendStderr d" for d :: "'a daemon"
    using that
  proof (induction evs arbitrary: d)
    case (Cons ev evs)
    let ?d = "d\<lparr>dTo := dTo d @ frame ev\<rparr>"
    have "(case ev of Log m \<Rightarrow> tunnelStderr m | Data x \<Rightarrow> TunnelSink_call x) d = (Inr (), ?d)"
      using Cons.prems by (cases ev) (simp_all add: tunnelStderr_def TunnelSink_call_def d_write_def writeBuf_wire)
    then have "foldS (\<lambda>ev. case ev of Log m \<Rightarrow> tunnelStderr m | Data x \<Rightarrow> TunnelSink_call x) (ev # evs) d =
        foldS (\<lambda>ev. case ev of Log m \<Rightarrow> tunnelStderr m | Data x \<Rightarrow> TunnelSink_call x) evs ?d"
      by (simp add: bindS_Inr)
    with Cons.IH [of ?d] Cons.prems show ?case by simp
  qed simp
  from this [of "d\<lparr>dStore := s\<rparr>"] assms show ?thesis by (simp add: call_store_def bindS_Inr)
qed

text \<open>What the daemon makes of a call: its events, and then the reply or the error.\<close>

definition served :: "('a \<Rightarrow> bytes) \<Rightarrow> event list \<times> 'a res \<times> 's \<Rightarrow> 's daemon \<Rightarrow> unit res \<times> 's daemon" where
  "served wr out d = (case out of
     (evs, Inr x, s) \<Rightarrow> (Inr (), d\<lparr>dFrom := [], dStore := s, canSendStderr := False, dTo := dTo d @ frames evs @ wire_int STDERR_LAST @ wr x\<rparr>)
   | (evs, Inl e, s) \<Rightarrow> (Inl e, d\<lparr>dFrom := [], dStore := s, canSendStderr := True, dTo := dTo d @ frames evs\<rparr>))"

lemma working_served:
  assumes "\<And>x d. wr' x d = (Inr (), d\<lparr>dTo := dTo d @ wr x\<rparr>)"
  shows "bindS (working f) wr' (d\<lparr>dFrom := []\<rparr>) = served wr (f (dStore d)) d"
proof -
  obtain evs res s where f: "f (dStore d) = (evs, res, s)" by (metis prod_cases3)
  have c: "call_store f (d\<lparr>dFrom := [], canSendStderr := True\<rparr>) =
      (res, d\<lparr>dFrom := [], canSendStderr := True, dStore := s, dTo := dTo d @ frames evs\<rparr>)"
    using call_store_run [of "d\<lparr>dFrom := [], canSendStderr := True\<rparr>" f evs res s] f by simp
  show ?thesis
    by (cases res) (simp_all add: working_def bindS_assoc_op startWork_def stopWork_def bindS_def c f served_def assms Let_def)
qed

definition serves :: "'s daemon_config \<Rightarrow> WorkerOp \<Rightarrow> bytes \<Rightarrow> ('s, 'a) store_op \<Rightarrow> ('a \<Rightarrow> bytes) \<Rightarrow> bool" where
  "serves dc w q f wr \<longleftrightarrow> (\<forall>d. dFrom d = q \<longrightarrow> clientVersion d = PROTOCOL_VERSION \<longrightarrow> performOp dc w d = served wr (f (dStore d)) d)"

text \<open>A connection between requests.\<close>

definition connected :: "'s RemoteStore \<Rightarrow> bool" where
  "connected r \<longleftrightarrow> initialised r \<and> daemonVersion r = PROTOCOL_VERSION \<and> rTo r = [] \<and> rFrom r = [] \<and>
     (let d = rDaemon r in dPhase d = Serving \<and> dFrom d = [] \<and> dTo d = [] \<and> \<not> canSendStderr d \<and> clientVersion d = PROTOCOL_VERSION)"

text \<open>What can be sent of the outcome of a call: the events and the error.\<close>

fun event_ok :: "bool \<Rightarrow> event \<Rightarrow> bool" where
  "event_ok snk (Log s) \<longleftrightarrow> length s < 2 ^ 32"
| "event_ok snk (Data x) \<longleftrightarrow> snk \<and> length x < 2 ^ 32"

definition error_ok :: "'s daemon_config \<Rightarrow> error \<Rightarrow> bool" where
  "error_ok dc e \<longleftrightarrow> isError e \<and> length (error_msg e) < 2 ^ 32 \<and> dcStatus dc e \<noteq> 0"

definition logs :: "event list \<Rightarrow> string list" where
  "logs evs = concat (map (\<lambda>ev. case ev of Log s \<Rightarrow> [s] | Data x \<Rightarrow> []) evs)"

definition sunk :: "event list \<Rightarrow> bytes" where
  "sunk evs = concat (map (\<lambda>ev. case ev of Log s \<Rightarrow> [] | Data x \<Rightarrow> x) evs)"

text \<open>The client after a call, and the result it sees.\<close>

definition after_call :: "event list \<Rightarrow> 's \<Rightarrow> 's RemoteStore \<Rightarrow> 's RemoteStore" where
  "after_call evs s r = r\<lparr>rStderr := rStderr r @ logs evs, rSink := rSink r @ sunk evs, rDaemon := (rDaemon r)\<lparr>dStore := s\<rparr>\<rparr>"

definition seen :: "'a res \<Rightarrow> 'a res" where
  "seen res = (case res of Inl e \<Rightarrow> Inl (Error (error_msg e)) | Inr x \<Rightarrow> Inr x)"

lemma stderr_numbers [simp]:
  "STDERR_NEXT \<noteq> STDERR_WRITE" "STDERR_NEXT \<noteq> STDERR_READ" "STDERR_LAST \<noteq> STDERR_WRITE" "STDERR_LAST \<noteq> STDERR_READ" "STDERR_LAST \<noteq> STDERR_NEXT"
  "STDERR_ERROR \<noteq> STDERR_WRITE" "STDERR_ERROR \<noteq> STDERR_READ" "STDERR_ERROR \<noteq> STDERR_NEXT" "STDERR_LAST \<noteq> STDERR_ERROR"
  by (simp_all add: STDERR_NEXT_def STDERR_WRITE_def STDERR_READ_def STDERR_LAST_def STDERR_ERROR_def)

lemma protocol_minor [simp]: "GET_PROTOCOL_MINOR PROTOCOL_VERSION = 12" "GET_PROTOCOL_MAJOR PROTOCOL_VERSION = 0x100"
  by (simp_all add: GET_PROTOCOL_MINOR_def GET_PROTOCOL_MAJOR_def PROTOCOL_VERSION_def)

lemma op_of_number [simp]: "op_of_number (op_number w) = Some w"
  by (cases w) (simp_all add: op_of_number_def all_ops_def)

text \<open>The client reads the events, and stops at the message after them.\<close>

lemma stderr_loop_frames:
  assumes "\<forall>ev \<in> set evs. event_ok snk ev" and "m \<notin> {STDERR_NEXT, STDERR_WRITE, STDERR_READ}" and "length evs < n"
    and "rFrom r = frames evs @ wire_int m @ b"
  shows "stderr_loop n snk r = (Inr m, r\<lparr>rFrom := b, rStderr := rStderr r @ logs evs, rSink := rSink r @ sunk evs\<rparr>)"
  using assms
proof (induction evs arbitrary: n r)
  case Nil
  then obtain k where "n = Suc k" by (cases n) auto
  with Nil show ?case by (simp add: r_read_run logs_def sunk_def)
next
  case (Cons ev evs)
  then obtain k where n: "n = Suc k" by (cases n) auto
  let ?b = "frames evs @ wire_int m @ b"
  show ?case
  proof (cases ev)
    case (Log s)
    with Cons.prems n Cons.IH [of k "r\<lparr>rFrom := ?b, rStderr := rStderr r @ [s]\<rparr>"] show ?thesis
      by (simp add: r_read_run logs_def sunk_def)
  next
    case (Data x)
    with Cons.prems n Cons.IH [of k "r\<lparr>rFrom := ?b, rSink := rSink r @ x\<rparr>"] show ?thesis
      by (cases snk) (simp_all add: r_read_run logs_def sunk_def)
  qed
qed

lemma length_frames: "length evs \<le> length (frames evs)"
proof (induction evs)
  case (Cons ev evs)
  have "1 \<le> length (frame ev)" by (cases ev) simp_all
  with Cons show ?case by simp
qed simp

text \<open>One exchange: the daemon serves what has been written, the client reads the outcome.\<close>

lemma processRequests_waits: "dFrom d = [] \<Longrightarrow> processRequests dc n d = d"
proof (cases n)
  case (Suc m)
  assume "dFrom d = []"
  moreover from this have "readInt pipe_read (dFrom d) = Inl (EndOfFile ''unexpected end-of-file'')"
    by (simp add: readInt_def pipe_read_def Source_call.simps)
  ultimately show ?thesis using Suc by (simp add: d_read_def)
qed simp

lemma serving_connection:
  assumes "dPhase d = Serving" and "dFrom d = wire_int (op_number w) @ q"
  shows "processConnection dc d = (case performOp dc w (d\<lparr>dFrom := q\<rparr>) of
     (Inr _, d) \<Rightarrow> processRequests dc (length (wire_int (op_number w) @ q)) d
   | (Inl e, d) \<Rightarrow> processRequests dc (length (wire_int (op_number w) @ q)) (request_error dc e d))"
  using assms
  by (simp add: processConnection_def greet_def accept_version_def d_read_def perform_number_def split: prod.splits sum.splits)

lemma processStderr_run:
  assumes "r_flush dc r = (Inr (), r1)" and "stderr_loop (Suc (length (rFrom r1))) snk r1 = (Inr m, r2)"
  shows "processStderr dc snk r = (if m = STDERR_ERROR then bindS r_readString (\<lambda>err.
         bindS (\<lambda>r. if GET_PROTOCOL_MINOR (daemonVersion r) \<ge> 8 then r_readInt r else okS 1 r) (\<lambda>status. failS (Error err)))
       else if m \<noteq> STDERR_LAST then failS (Error ''protocol error processing standard error'')
       else okS ()) r2"
  using assms by (simp add: processStderr_def bindS_def)

lemma exchange:
  assumes conn: "connected r" and srv: "serves dc w q f wr" and f: "f (dStore (rDaemon r)) = (evs, res, s)"
    and evs: "\<forall>ev \<in> set evs. event_ok snk ev" and err: "\<And>e. res = Inl e \<Longrightarrow> error_ok dc e"
  shows "processStderr dc snk (r\<lparr>rTo := wire_int (op_number w) @ q\<rparr>) =
    (case res of Inr x \<Rightarrow> (Inr (), (after_call evs s r)\<lparr>rFrom := wr x\<rparr>) | Inl e \<Rightarrow> (Inl (Error (error_msg e)), after_call evs s r))"
proof -
  let ?d = "(rDaemon r)\<lparr>dFrom := wire_int (op_number w) @ q\<rparr>"
  have c: "initialised r" "daemonVersion r = PROTOCOL_VERSION" "rTo r = []" "rFrom r = []" "dPhase (rDaemon r) = Serving" "dFrom (rDaemon r) = []"
    "dTo (rDaemon r) = []" "\<not> canSendStderr (rDaemon r)" "clientVersion (rDaemon r) = PROTOCOL_VERSION"
    using conn by (simp_all add: connected_def Let_def)
  have perf: "performOp dc w ((rDaemon r)\<lparr>dFrom := q\<rparr>) = served wr (evs, res, s) ((rDaemon r)\<lparr>dFrom := q\<rparr>)"
    using srv c f by (simp add: serves_def)
  show ?thesis
  proof (cases res)
    case (Inr x)
    let ?out = "frames evs @ wire_int STDERR_LAST @ wr x"
    have d: "processConnection dc ?d = (rDaemon r)\<lparr>dStore := s, dTo := ?out\<rparr>"
      using serving_connection [of ?d w q dc] c perf Inr by (simp add: served_def processRequests_waits)
    have "r_flush dc (r\<lparr>rTo := wire_int (op_number w) @ q\<rparr>) = (Inr (), r\<lparr>rFrom := ?out, rDaemon := (rDaemon r)\<lparr>dStore := s\<rparr>\<rparr>)"
      using c d by (simp add: r_flush_def Let_def)
    from processStderr_run [OF this stderr_loop_frames [OF evs, of STDERR_LAST _ _ "wr x"]] Inr show ?thesis
      using length_frames [of evs] by (simp add: after_call_def)
  next
    case (Inl e)
    let ?out = "frames evs @ wire_int STDERR_ERROR @ wire_string (error_msg e) @ wire_int (dcStatus dc e)"
    have e: "isError e" "length (error_msg e) < 2 ^ 32" "dcStatus dc e \<noteq> 0" using err [OF Inl] by (simp_all add: error_ok_def)
    have d: "processConnection dc ?d = (rDaemon r)\<lparr>dStore := s, dTo := ?out\<rparr>"
      using serving_connection [of ?d w q dc] c perf Inl e
      by (simp add: served_def request_error_def Let_def stopWork_def processRequests_waits)
    have "r_flush dc (r\<lparr>rTo := wire_int (op_number w) @ q\<rparr>) = (Inr (), r\<lparr>rFrom := ?out, rDaemon := (rDaemon r)\<lparr>dStore := s\<rparr>\<rparr>)"
      using c d by (simp add: r_flush_def Let_def)
    from processStderr_run [OF this stderr_loop_frames [OF evs, of STDERR_ERROR _ _ "wire_string (error_msg e) @ wire_int (dcStatus dc e)"]] Inl show ?thesis
      using length_frames [of evs] e c by (simp add: after_call_def r_read_def bindS_def)
  qed
qed

text \<open>A client operation does what a store operation does, for outcomes that can be sent.\<close>

definition refines :: "'s daemon_config \<Rightarrow> bool \<Rightarrow> ('a \<Rightarrow> bool) \<Rightarrow> ('s RemoteStore, 'a) op \<Rightarrow> ('s, 'a) store_op \<Rightarrow> bool" where
  "refines dc snk ok m f \<longleftrightarrow> (\<forall>r evs res s. connected r \<longrightarrow> f (dStore (rDaemon r)) = (evs, res, s) \<longrightarrow>
     (\<forall>ev \<in> set evs. event_ok snk ev) \<longrightarrow> (\<forall>e. res = Inl e \<longrightarrow> error_ok dc e) \<longrightarrow> (\<forall>x. res = Inr x \<longrightarrow> ok x) \<longrightarrow>
     m r = (seen res, after_call evs s r))"

lemma refinesI:
  assumes "serves dc w q f wr"
    and "\<And>r. connected r \<Longrightarrow> m r = bindS (processStderr dc snk) (\<lambda>_. rd) (r\<lparr>rTo := wire_int (op_number w) @ q\<rparr>)"
    and "\<And>x r. ok x \<Longrightarrow> rFrom r = wr x \<Longrightarrow> rd r = (Inr x, r\<lparr>rFrom := []\<rparr>)"
  shows "refines dc snk ok m f"
  unfolding refines_def
proof (intro allI impI)
  fix r :: "'a RemoteStore" and evs res s
  assume r: "connected r" "f (dStore (rDaemon r)) = (evs, res, s)" "\<forall>ev \<in> set evs. event_ok snk ev" "\<forall>e. res = Inl e \<longrightarrow> error_ok dc e"
    "\<forall>x. res = Inr x \<longrightarrow> ok x"
  have empty: "rFrom r = []" using r(1) by (simp add: connected_def)
  note ex = exchange [OF r(1) assms(1) r(2,3)]
  show "m r = (seen res, after_call evs s r)"
  proof (cases res)
    case (Inl e)
    with ex r(4) show ?thesis by (simp add: assms(2) [OF r(1)] bindS_def seen_def)
  next
    case (Inr x)
    then have "m r = rd ((after_call evs s r)\<lparr>rFrom := wr x\<rparr>)" using ex by (simp add: assms(2) [OF r(1)] bindS_def)
    also have "\<dots> = (Inr x, after_call evs s r)"
      using assms(3) [of x "(after_call evs s r)\<lparr>rFrom := wr x\<rparr>"] r(5) Inr empty by (simp add: after_call_def)
    finally show ?thesis using Inr by (simp add: seen_def)
  qed
qed

subsection \<open>Every request\<close>

definition path_ok :: "'s daemon_config \<Rightarrow> path \<Rightarrow> bool" where
  "path_ok dc p \<longleftrightarrow> isStorePath (dcStoreDir dc) p \<and> length p < 2 ^ 32"

abbreviation paths_ok :: "'s daemon_config \<Rightarrow> path list \<Rightarrow> bool" where
  "paths_ok dc \<equiv> store_path_set (dcStoreDir dc)"

definition deriver_ok :: "'s daemon_config \<Rightarrow> path \<Rightarrow> bool" where
  "deriver_ok dc p \<longleftrightarrow> p = [] \<or> path_ok dc p"

lemma read_path [simp]:
  "path_ok dc p \<Longrightarrow> readStorePath (dcStoreDir dc) pipe_read (wire_string p @ b) = Inr (p, b)"
  "path_ok dc p \<Longrightarrow> readStorePath (dcStoreDir dc) pipe_read (wire_string p) = Inr (p, [])"
  "path_ok dc p \<Longrightarrow> readString pipe_read (wire_string p @ b) = Inr (p, b)" "path_ok dc p \<Longrightarrow> readString pipe_read (wire_string p) = Inr (p, [])"
  by (simp_all add: path_ok_def)

text \<open>The answers of the daemon.\<close>

lemma serves_paths:
  assumes "path_ok dc p"
  shows "serves dc wopIsValidPath (wire_string p) (st_isValidPath (dcOps dc) p) (\<lambda>b. wire_int (flag b))"
    and "serves dc wopQueryPathHash (wire_string p) (st_queryPathHash (dcOps dc) p) (\<lambda>h. wire_string (printHash h))"
    and "serves dc wopQueryReferences (wire_string p) (st_queryReferences (dcOps dc) p) wire_strings"
    and "serves dc wopQueryReferrers (wire_string p) (st_queryReferrers (dcOps dc) p) wire_strings"
    and "serves dc wopQueryDerivationOutputs (wire_string p) (st_queryDerivationOutputs (dcOps dc) p) wire_strings"
    and "serves dc wopQueryDerivationOutputNames (wire_string p) (st_queryDerivationOutputNames (dcOps dc) p) wire_strings"
    and "serves dc wopQueryDeriver (wire_string p) (st_queryDeriver (dcOps dc) p) wire_string"
    and "serves dc wopEnsurePath (wire_string p) (st_ensurePath (dcOps dc) p) (\<lambda>_. wire_int 1)"
    and "serves dc wopAddTempRoot (wire_string p) (st_addTempRoot (dcOps dc) p) (\<lambda>_. wire_int 1)"
    and "serves dc wopQueryPathInfo (wire_string p) (st_queryPathInfo (dcOps dc) p) (\<lambda>info. wire_string (viDeriver info) @
      wire_string (printHash (viHash info)) @ wire_strings (viReferences info) @ wire_int (word_of_int (viRegistrationTime info)) @
      wire_longlong (viNarSize info))"
  unfolding serves_def
  by (intro allI impI; insert assms; simp add: op_isValidPath_def op_queryPathHash_def op_queryPaths_def op_queryDeriver_def op_ensurePath_def
      op_addTempRoot_def op_queryPathInfo_def d_read_run; subst working_served; simp)+

lemma flag_eq [simp]: "flag b = 1 \<longleftrightarrow> b" "flag b = 0 \<longleftrightarrow> \<not> b" "flag b \<noteq> 0 \<longleftrightarrow> b"
  by (simp_all add: flag_def)

lemma serves_exportPath:
  assumes "path_ok dc p"
  shows "serves dc wopExportPath (wire_string p @ wire_int (flag sign)) (st_exportPath (dcOps dc) p sign) (\<lambda>_. wire_int 1)"
  unfolding serves_def
  by (intro allI impI; insert assms; simp add: op_exportPath_def d_read_run; subst working_served; simp)

lemma serves_path_sets:
  assumes "paths_ok dc ps"
  shows "serves dc wopQueryValidPaths (wire_strings ps) (st_queryValidPaths (dcOps dc) ps) wire_strings"
    and "serves dc wopQuerySubstitutablePaths (wire_strings ps) (st_querySubstitutablePaths (dcOps dc) ps) wire_strings"
    and "serves dc wopBuildPaths (wire_strings ps) (st_buildPaths (dcOps dc) ps) (\<lambda>_. wire_int 1)"
  unfolding serves_def
  by (intro allI impI; insert assms; simp add: op_queryValidPaths_def op_querySubstitutablePaths_def op_buildPaths_def d_read_run;
      subst working_served; simp)+

lemma serves_strings:
  "length h < 2 ^ 32 \<Longrightarrow> serves dc wopQueryPathFromHashPart (wire_string h) (st_queryPathFromHashPart (dcOps dc) h) wire_string"
  "sendable ss \<Longrightarrow> serves dc wopClearFailedPaths (wire_strings ss) (st_clearFailedPaths (dcOps dc) ss) (\<lambda>_. wire_int 1)"
  "length name < 2 ^ 32 \<Longrightarrow> length s < 2 ^ 32 \<Longrightarrow> paths_ok dc ps \<Longrightarrow>
    serves dc wopAddTextToStore (wire_string name @ wire_string s @ wire_strings ps) (st_addTextToStore (dcOps dc) name s ps) wire_string"
  unfolding serves_def
  by (intro allI impI; simp add: op_queryPathFromHashPart_def op_clearFailedPaths_def op_addTextToStore_def d_read_run;
      subst working_served; simp)+

lemma working_no_input: "dFrom d = [] \<Longrightarrow> (\<And>x d. wr' x d = (Inr (), d\<lparr>dTo := dTo d @ wr x\<rparr>)) \<Longrightarrow> bindS (working f) wr' d = served wr (f (dStore d)) d"
  using working_served [of wr' wr f d] by (cases d) simp

lemma serves_nothing:
  "serves dc wopQueryAllValidPaths [] (st_queryAllValidPaths (dcOps dc)) wire_strings"
  "serves dc wopQueryFailedPaths [] (st_queryFailedPaths (dcOps dc)) wire_strings"
  "serves dc wopSyncWithGC [] (st_syncWithGC (dcOps dc)) (\<lambda>_. wire_int 1)"
  unfolding serves_def
  by (intro allI impI; simp add: op_queryAllPaths_def op_syncWithGC_def; subst working_no_input; simp)+

lemma write_roots: "foldS (\<lambda>i. bindS (d_writeString (fst i)) (\<lambda>_. d_writeString (snd i))) roots d =
    (Inr (), d\<lparr>dTo := dTo d @ concat (map (\<lambda>i. wire_string (fst i) @ wire_string (snd i)) roots)\<rparr>)"
  by (induction roots arbitrary: d) (simp_all add: bindS_def)

lemma serves_findRoots:
  "serves dc wopFindRoots [] (st_findRoots (dcOps dc))
    (\<lambda>roots. wire_int (of_nat (length roots)) @ concat (map (\<lambda>i. wire_string (fst i) @ wire_string (snd i)) roots))"
  unfolding serves_def by (intro allI impI; simp add: op_findRoots_def; subst working_no_input; simp add: write_roots)

lemma serves_addIndirectRoot:
  assumes "length p < 2 ^ 32" and "absPath (\<lambda>_. Inr None) (dcGetcwd dc) p [] = Inr p'"
  shows "serves dc wopAddIndirectRoot (wire_string p) (st_addIndirectRoot (dcOps dc) p') (\<lambda>_. wire_int 1)"
  unfolding serves_def
  by (intro allI impI; insert assms; simp add: op_addIndirectRoot_def readAbsPath_def bindS_assoc_op d_read_run bindS_def [of "\<lambda>d. (Inr p', d)"];
      subst working_served; simp)

definition wire_info :: "path \<times> SubstitutablePathInfo \<Rightarrow> bytes" where
  "wire_info i = wire_string (fst i) @ wire_string (siDeriver (snd i)) @ wire_strings (siReferences (snd i)) @
     wire_longlong (siDownloadSize (snd i)) @ wire_longlong (siNarSize (snd i))"

lemma write_infos: "foldS write_path_info infos d = (Inr (), d\<lparr>dTo := dTo d @ concat (map wire_info infos)\<rparr>)"
  by (induction infos arbitrary: d) (simp_all add: write_path_info_def wire_info_def bindS_def)

lemma serves_infos:
  assumes "paths_ok dc ps"
  shows "serves dc wopQuerySubstitutablePathInfos (wire_strings ps) (st_querySubstitutablePathInfos (dcOps dc) ps)
    (\<lambda>infos. wire_int (of_nat (length infos)) @ concat (map wire_info infos))"
  unfolding serves_def
  by (intro allI impI; insert assms; simp add: op_querySubstitutablePathInfos_def d_read_run; subst working_served; simp add: write_infos)

lemma gc_action_number [simp]: "gc_action (action_number a) = Some a"
  by (cases a) (simp_all add: gc_action_def)

lemma serves_collectGarbage:
  assumes "paths_ok dc (pathsToDelete options)" and "\<not> ignoreLiveness options"
  shows "serves dc wopCollectGarbage (wire_int (action_number (action options)) @ wire_strings (pathsToDelete options) @
      wire_int (flag (ignoreLiveness options)) @ wire_longlong (maxFreed options) @ wire_int 0 @ wire_int 0 @ wire_int 0)
    (st_collectGarbage (dcOps dc) options) (\<lambda>(paths, freed). wire_strings paths @ wire_longlong freed @ wire_longlong 0)"
proof -
  have eq: "op_collectGarbage dc d = bindS (working (st_collectGarbage (dcOps dc) options)) (\<lambda>(paths, freed).
      bindS (d_writeStrings paths) (\<lambda>_. bindS (d_writeLongLong freed) (\<lambda>_. d_writeLongLong 0))) (d\<lparr>dFrom := []\<rparr>)"
    if "dFrom d = wire_int (action_number (action options)) @ wire_strings (pathsToDelete options) @
      wire_int (flag (ignoreLiveness options)) @ wire_longlong (maxFreed options) @ wire_int 0 @ wire_int 0 @ wire_int 0"
      "clientVersion d = PROTOCOL_VERSION" for d
  proof -
    have opts: "\<lparr>action = action options, ignoreLiveness = False, pathsToDelete = pathsToDelete options, maxFreed = maxFreed options\<rparr> = options"
      using assms(2) by (cases options) simp
    show ?thesis using that assms
      by (simp add: op_collectGarbage_def d_read_run bindS_def [of "\<lambda>d. if P d then f d else g d" for P f g] d_read_def opts working_def bindS_assoc_op case_prod_beta' del: d_write_run)
  qed
  show ?thesis unfolding serves_def by (intro allI impI; simp add: eq; subst working_served; auto)
qed

text \<open>Adding a tree: the daemon gets back the archive, or the contents of the file, that the client has sent.\<close>

interpretation saving: source SavingSourceAdapter_read fst "\<lambda>(orig, s). s @ orig = whole" for whole
  by unfold_locales (auto simp: SavingSourceAdapter_read_def pipe_read_def)

lemma restore_null: "restore null_ops path t p = Inr p" if "encodable t"
  using that
proof (induction t arbitrary: path p)
  case (Regular executable contents)
  have "foldE (\<lambda>_. Inr) xs q = Inr q" for xs :: "bytes list" and q :: unit by (induction xs) simp_all
  then show ?case by (simp add: null_ops_def)
next
  case (Directory entries)
  have "foldE (\<lambda>i p. restore null_ops (path @ ''/'' @ fst i) (snd i) p) xs q = Inr q" if "set xs \<subseteq> set entries" for xs and q :: unit
    using that Directory by (induction xs) auto
  then show ?case by (simp add: null_ops_def)
qed (simp_all add: null_ops_def)

lemma read_dump_recursive:
  assumes "encodable t"
  shows "read_dump True (nar t) = Inr ((True, nar t), [])"
proof -
  have "saving.performs (nar t) (parseDump (length (nar t)) null_ops SavingSourceAdapter_read) (nar t) (restore null_ops [] t)"
    by (rule saving.performs_parseDump [OF assms]) simp
  from saving.performs_Inr [OF this, of "(nar t, [])" "[]" "()"] restore_null [OF assms]
  have "parseDump (length (nar t)) null_ops SavingSourceAdapter_read () (nar t, []) = Inr ((), [], nar t)" by auto
  then show ?thesis by (simp add: read_dump_def)
qed

lemma read_dump_regular:
  assumes "length c < 2 ^ 64"
  shows "read_dump False (nar (Regular executable c)) = Inr ((True, c), [])"
proof -
  let ?t = "Regular executable c" and ?ps = RetrieveRegularNARSink_ops
  have "foldE (receiveContents ?ps) xs (b, s) = Inr (b, s @ concat xs)" for xs b s
    by (induction xs arbitrary: s) (simp_all add: RetrieveRegularNARSink_ops_def)
  then have "restore ?ps [] ?t (True, []) = Inr (True, c)"
    by (simp add: RetrieveRegularNARSink_ops_def)
  moreover have "pipe.performs (parseDump (length (nar ?t)) ?ps pipe_read) (nar ?t) (restore ?ps [] ?t)"
    by (rule pipe.performs_parseDump) (use assms in simp_all)
  ultimately have "parseDump (length (nar ?t)) ?ps pipe_read (True, []) (nar ?t) = Inr ((True, c), [])"
    using pipe.performs_Inr [of "parseDump (length (nar ?t)) ?ps pipe_read" "nar ?t" "restore ?ps [] ?t" "nar ?t" "[]" "(True, [])" "(True, c)"]
    by auto
  then show ?thesis by (simp add: read_dump_def)
qed

lemma serves_addToStore:
  assumes "length name < 2 ^ 32" and "printHashType hashAlgo = Inr algo" and "encodable t"
    and "recursive \<and> content = nar t \<or> \<not> recursive \<and> (\<exists>executable. t = Regular executable content)"
  shows "serves dc wopAddToStore (wire_string name @ wire_int (if hashAlgo = htSHA256 \<and> recursive then 0 else 1) @ wire_int (flag recursive) @
      wire_string algo @ nar t) (st_addToStoreFromDump (dcOps dc) content name recursive hashAlgo) wire_string"
  unfolding serves_def
proof (intro allI impI)
  fix d :: "'a daemon"
  assume d: "dFrom d = wire_string name @ wire_int (if hashAlgo = htSHA256 \<and> recursive then 0 else 1) @ wire_int (flag recursive) @
      wire_string algo @ nar t"
  have sha256: "parseHashType ''sha256'' = htSHA256" by simp
  have algo: "parseHashType algo = hashAlgo" "length algo < 2 ^ 32" using assms(2) by (cases hashAlgo; auto)+
  have content: "read_dump recursive (nar t) = Inr ((True, content), [])"
    using assms(3,4) read_dump_recursive read_dump_regular by auto
  have "op_addToStore dc d = bindS (working (st_addToStoreFromDump (dcOps dc) content name recursive hashAlgo)) (\<lambda>p. d_writeString p) (d\<lparr>dFrom := []\<rparr>)"
    using d assms(1) algo content sha256
    by (cases "hashAlgo = htSHA256 \<and> recursive")
      (simp_all add: op_addToStore_def d_read_run Let_def working_def bindS_assoc_op del: d_write_run parseHashType.simps)
  also have "\<dots> = served wire_string (st_addToStoreFromDump (dcOps dc) content name recursive hashAlgo (dStore d)) d"
    by (rule working_served) simp
  finally show "performOp dc wopAddToStore d = served wire_string (st_addToStoreFromDump (dcOps dc) content name recursive hashAlgo (dStore d)) d"
    by simp
qed

text \<open>The client's side of each request.\<close>

lemma connectedD:
  assumes "connected r"
  shows "bindS (openConnection dc b) f r = f () r" and "rTo r = []" and "daemonVersion r = PROTOCOL_VERSION"
  using assms by (simp_all add: connected_def openConnection_def bindS_def)

lemma read_flag: "rFrom r = wire_int (flag b) \<Longrightarrow> bindS r_readInt (\<lambda>reply. okS (reply \<noteq> 0)) r = (Inr b, r\<lparr>rFrom := []\<rparr>)"
  and read_done: "rFrom r = wire_int 1 \<Longrightarrow> bindS r_readInt (\<lambda>_. okS ()) r = (Inr (u :: unit), r\<lparr>rFrom := []\<rparr>)"
  and read_path_set: "paths_ok dc ps \<Longrightarrow> rFrom r = wire_strings ps \<Longrightarrow> r_readStorePaths dc r = (Inr ps, r\<lparr>rFrom := []\<rparr>)"
  and read_string_set: "sendable ss \<Longrightarrow> rFrom r = wire_strings ss \<Longrightarrow> r_readStrings r = (Inr ss, r\<lparr>rFrom := []\<rparr>)"
  and read_one_path: "path_ok dc p \<Longrightarrow> rFrom r = wire_string p \<Longrightarrow> r_readStorePath dc r = (Inr p, r\<lparr>rFrom := []\<rparr>)"
  by (simp_all add: r_read_run r_read_last)

lemma read_deriver_run:
  "deriver_ok dc p \<Longrightarrow> rFrom r = wire_string p @ b \<Longrightarrow> read_deriver dc r = (Inr p, r\<lparr>rFrom := b\<rparr>)"
  by (cases "p = []") (auto simp: deriver_ok_def read_deriver_def bindS_def r_read_def assertStorePath_def path_ok_def)

lemmas read_reply = read_flag read_done read_path_set read_string_set read_one_path read_deriver_run [where b = "[]", simplified]

lemma refines_paths:
  assumes "path_ok dc p"
  shows "refines dc False (\<lambda>_. True) (RemoteStore_isValidPath dc p) (st_isValidPath (dcOps dc) p)"
    and "refines dc False (paths_ok dc) (RemoteStore_queryDerivationOutputs dc p) (st_queryDerivationOutputs (dcOps dc) p)"
    and "refines dc False sendable (RemoteStore_queryDerivationOutputNames dc p) (st_queryDerivationOutputNames (dcOps dc) p)"
    and "refines dc False (deriver_ok dc) (RemoteStore_queryDeriver dc p) (st_queryDeriver (dcOps dc) p)"
    and "refines dc False (\<lambda>_. True) (RemoteStore_ensurePath dc p) (st_ensurePath (dcOps dc) p)"
    and "refines dc False (\<lambda>_. True) (RemoteStore_addTempRoot dc p) (st_addTempRoot (dcOps dc) p)"
    and "refines dc True (\<lambda>_. True) (RemoteStore_exportPath dc p sign) (st_exportPath (dcOps dc) p sign)"
  by (rule refinesI, rule serves_paths [OF assms] serves_exportPath [OF assms],
      simp add: RemoteStore_isValidPath_def RemoteStore_queryDerivationOutputs_def RemoteStore_queryDerivationOutputNames_def
        RemoteStore_queryDeriver_def RemoteStore_ensurePath_def RemoteStore_addTempRoot_def RemoteStore_onPath_def RemoteStore_exportPath_def
        connectedD, rule read_reply; assumption)+

lemma refines_path_sets:
  assumes "paths_ok dc ps"
  shows "refines dc False (paths_ok dc) (RemoteStore_queryValidPaths dc ps) (st_queryValidPaths (dcOps dc) ps)"
    and "refines dc False (paths_ok dc) (RemoteStore_querySubstitutablePaths dc ps) (st_querySubstitutablePaths (dcOps dc) ps)"
    and "refines dc False (\<lambda>_. True) (RemoteStore_buildPaths dc ps False) (st_buildPaths (dcOps dc) ps)"
  by (rule refinesI, rule serves_path_sets [OF assms],
      simp add: RemoteStore_queryValidPaths_def RemoteStore_querySubstitutablePaths_def RemoteStore_buildPaths_def no_repair_def connectedD,
      rule read_reply; assumption)+

lemma refines_strings:
  "length h < 2 ^ 32 \<Longrightarrow> refines dc False (deriver_ok dc) (RemoteStore_queryPathFromHashPart dc h) (st_queryPathFromHashPart (dcOps dc) h)"
  "sendable ss \<Longrightarrow> refines dc False (\<lambda>_. True) (RemoteStore_clearFailedPaths dc ss) (st_clearFailedPaths (dcOps dc) ss)"
  "length name < 2 ^ 32 \<Longrightarrow> length s < 2 ^ 32 \<Longrightarrow> paths_ok dc ps \<Longrightarrow>
    refines dc False (path_ok dc) (RemoteStore_addTextToStore dc name s ps False) (st_addTextToStore (dcOps dc) name s ps)"
  by (rule refinesI, rule serves_strings, assumption+,
      simp add: RemoteStore_queryPathFromHashPart_def RemoteStore_clearFailedPaths_def RemoteStore_addTextToStore_def no_repair_def connectedD,
      rule read_reply; assumption)+

lemma refines_nothing:
  "refines dc False (paths_ok dc) (RemoteStore_queryAllValidPaths dc) (st_queryAllValidPaths (dcOps dc))"
  "refines dc False (paths_ok dc) (RemoteStore_queryFailedPaths dc) (st_queryFailedPaths (dcOps dc))"
  "refines dc False (\<lambda>_. True) (RemoteStore_syncWithGC dc) (st_syncWithGC (dcOps dc))"
  by (rule refinesI, rule serves_nothing,
      simp add: RemoteStore_queryAllValidPaths_def RemoteStore_queryFailedPaths_def RemoteStore_syncWithGC_def connectedD,
      rule read_reply; assumption)+

lemma set_insert_all_Nil: "is_set ps \<Longrightarrow> set_insert_all ps [] = ps"
  by (simp add: set_of_list_def [symmetric])

lemma refines_queryInto:
  assumes "path_ok dc p"
  shows "refines dc False (paths_ok dc) (RemoteStore_queryReferences dc p []) (st_queryReferences (dcOps dc) p)"
    and "refines dc False (paths_ok dc) (RemoteStore_queryReferrers dc p []) (st_queryReferrers (dcOps dc) p)"
  by (rule refinesI [where rd = "bindS (r_readStorePaths dc) (\<lambda>ps2. okS (set_insert_all ps2 []))"], rule serves_paths [OF assms],
      simp add: RemoteStore_queryReferences_def RemoteStore_queryReferrers_def RemoteStore_queryInto_def connectedD,
      simp add: r_read_run set_insert_all_Nil store_path_set_def sendable_def)+

lemma print_hash_wire:
  assumes "wf_hash h" and "hashType h = htSHA256"
  shows "length (printHash h) < 2 ^ 32" and "parseHash htSHA256 (printHash h) = Inr h"
  using assms parseHash_printHash [of h] by (auto simp: length_printHash wf_hash_def)

lemma refines_queryPathHash:
  assumes "path_ok dc p"
  shows "refines dc False (\<lambda>h. wf_hash h \<and> hashType h = htSHA256) (RemoteStore_queryPathHash dc p) (st_queryPathHash (dcOps dc) p)"
proof (rule refinesI, rule serves_paths(2) [OF assms], simp add: RemoteStore_queryPathHash_def connectedD)
  fix h and r :: "'a RemoteStore"
  assume h: "wf_hash h \<and> hashType h = htSHA256" "rFrom r = wire_string (printHash h)"
  with print_hash_wire [of h] show "bindS r_readString (\<lambda>s r. (parseHash htSHA256 s, r)) r = (Inr h, r\<lparr>rFrom := []\<rparr>)"
    by (simp add: r_read_run)
qed

definition info_ok :: "'s daemon_config \<Rightarrow> path \<Rightarrow> ValidPathInfo \<Rightarrow> bool" where
  "info_ok dc p info \<longleftrightarrow> viPath info = p \<and> deriver_ok dc (viDeriver info) \<and> wf_hash (viHash info) \<and> hashType (viHash info) = htSHA256 \<and>
     paths_ok dc (viReferences info) \<and> 0 \<le> viRegistrationTime info \<and> viRegistrationTime info < 2 ^ 32 \<and> viId info = 0"

definition map_store :: "('a \<Rightarrow> 'b) \<Rightarrow> ('s, 'a) store_op \<Rightarrow> ('s, 'b) store_op" where
  "map_store g f s = (case f s of (evs, res, s) \<Rightarrow> (evs, map_sum id g res, s))"

definition map_remote :: "('a \<Rightarrow> 'b) \<Rightarrow> ('s, 'a) op \<Rightarrow> ('s, 'b) op" where
  "map_remote g m = bindS m (\<lambda>x. okS (g x))"

lemma serves_map: "serves dc w q f (\<lambda>x. wr (g x)) \<Longrightarrow> serves dc w q (map_store g f) wr"
  by (auto simp: serves_def served_def map_store_def split: prod.splits sum.splits)

lemma refines_map:
  assumes "refines dc snk ok m f" and "\<And>x. ok' (g x) \<Longrightarrow> ok x"
  shows "refines dc snk ok' (map_remote g m) (map_store g f)"
  unfolding refines_def
proof (intro allI impI)
  fix r :: "'a RemoteStore" and evs res s
  assume r: "connected r" "map_store g f (dStore (rDaemon r)) = (evs, res, s)" "\<forall>ev \<in> set evs. event_ok snk ev" "\<forall>e. res = Inl e \<longrightarrow> error_ok dc e"
    "\<forall>x. res = Inr x \<longrightarrow> ok' x"
  obtain res' where f: "f (dStore (rDaemon r)) = (evs, res', s)" "res = map_sum id g res'"
    using r(2) by (auto simp: map_store_def split: prod.splits)
  have "m r = (seen res', after_call evs s r)"
    using assms(1) r(1,3-5) f assms(2) unfolding refines_def by (cases res') auto
  then show "map_remote g m r = (seen res, after_call evs s r)"
    using f(2) by (cases res') (simp_all add: map_remote_def bindS_def seen_def)
qed

lemma refines_queryPathInfo:
  assumes p: "path_ok dc p"
  shows "refines dc False (info_ok dc p) (RemoteStore_queryPathInfo dc p) (map_store (viId_update (\<lambda>_. 0)) (st_queryPathInfo (dcOps dc) p))"
proof (rule refinesI)
  show "serves dc wopQueryPathInfo (wire_string p) (map_store (viId_update (\<lambda>_. 0)) (st_queryPathInfo (dcOps dc) p)) (\<lambda>info.
      wire_string (viDeriver info) @ wire_string (printHash (viHash info)) @ wire_strings (viReferences info) @
      wire_int (word_of_int (viRegistrationTime info)) @ wire_longlong (viNarSize info))"
    by (rule serves_map) (use serves_paths(10) [OF p] in simp)
  let ?rd = "bindS (read_deriver dc) (\<lambda>deriver. bindS r_readString (\<lambda>s. bindS (\<lambda>r. (parseHash htSHA256 s, r)) (\<lambda>h.
     bindS (r_readStorePaths dc) (\<lambda>refs. bindS r_readInt (\<lambda>time. bindS r_readLongLong (\<lambda>narSize.
       okS (ValidPathInfo_new\<lparr>viPath := p, viDeriver := deriver, viHash := h, viReferences := refs,
              viRegistrationTime := uint time, viNarSize := narSize\<rparr>)))))))"
  show "RemoteStore_queryPathInfo dc p r = bindS (processStderr dc False) (\<lambda>_. ?rd) (r\<lparr>rTo := wire_int (op_number wopQueryPathInfo) @ wire_string p\<rparr>)"
    if "connected r" for r :: "'a RemoteStore"
    using that by (simp add: RemoteStore_queryPathInfo_def connectedD)
  fix info and r :: "'a RemoteStore"
  assume i: "info_ok dc p info" and r: "rFrom r = wire_string (viDeriver info) @ wire_string (printHash (viHash info)) @ wire_strings (viReferences info) @
      wire_int (word_of_int (viRegistrationTime info)) @ wire_longlong (viNarSize info)"
  have i': "deriver_ok dc (viDeriver info)" "paths_ok dc (viReferences info)" "uint (word_of_int (viRegistrationTime info) :: u32) = viRegistrationTime info"
    "viPath info = p" "viId info = 0"
    using i by (simp_all add: info_ok_def uint_word_of_int)
  have h: "length (printHash (viHash info)) < 2 ^ 32" "parseHash htSHA256 (printHash (viHash info)) = Inr (viHash info)"
    using print_hash_wire i by (simp_all add: info_ok_def)
  have "ValidPathInfo_new\<lparr>viPath := p, viDeriver := viDeriver info, viHash := viHash info, viReferences := viReferences info,
      viRegistrationTime := viRegistrationTime info, viNarSize := viNarSize info\<rparr> = info"
    using i'(4,5) by (cases info) (simp add: ValidPathInfo_new_def)
  then show "?rd r = (Inr info, r\<lparr>rFrom := []\<rparr>)"
    using i' h by (simp add: bindS_Inr [where m = "read_deriver dc", OF read_deriver_run [OF i'(1) r]] r_read_run)
qed

lemma read_roots_run:
  assumes "\<forall>i \<in> set roots. length (fst i) < 2 ^ 32 \<and> path_ok dc (snd i)"
    and "rFrom r = concat (map (\<lambda>i. wire_string (fst i) @ wire_string (snd i)) roots) @ b"
  shows "read_roots dc (length roots) acc r = (Inr (fold (\<lambda>i. map_put (fst i) (snd i)) roots acc), r\<lparr>rFrom := b\<rparr>)"
  using assms
proof (induction roots arbitrary: acc r)
  case (Cons i roots)
  let ?b = "concat (map (\<lambda>i. wire_string (fst i) @ wire_string (snd i)) roots) @ b"
  from Cons.prems Cons.IH [of "r\<lparr>rFrom := ?b\<rparr>" "map_put (fst i) (snd i) acc"] show ?case
    by (simp add: r_read_run)
qed (cases r; simp)

definition roots_ok :: "'s daemon_config \<Rightarrow> Roots \<Rightarrow> bool" where
  "roots_ok dc roots \<longleftrightarrow> is_map roots \<and> length roots < 2 ^ 32 \<and> (\<forall>i \<in> set roots. length (fst i) < 2 ^ 32 \<and> path_ok dc (snd i))"

lemma refines_findRoots: "refines dc False (roots_ok dc) (RemoteStore_findRoots dc) (st_findRoots (dcOps dc))"
proof (rule refinesI, rule serves_findRoots, simp add: RemoteStore_findRoots_def connectedD)
  fix roots and r :: "'a RemoteStore"
  assume r: "roots_ok dc roots" "rFrom r = wire_int (of_nat (length roots)) @ concat (map (\<lambda>i. wire_string (fst i) @ wire_string (snd i)) roots)"
  have "unat (of_nat (length roots) :: u32) = length roots" using r(1) by (simp add: roots_ok_def unat_of_nat)
  with r read_roots_run [of roots dc "r\<lparr>rFrom := concat (map (\<lambda>i. wire_string (fst i) @ wire_string (snd i)) roots)\<rparr>" "[]" "[]"]
  show "bindS r_readInt (\<lambda>count. read_roots dc (unat count) []) r = (Inr roots, r\<lparr>rFrom := []\<rparr>)"
    by (simp add: r_read_run roots_ok_def map_put_entries [of "[]", simplified])
qed

definition infos_ok :: "'s daemon_config \<Rightarrow> (path \<times> SubstitutablePathInfo) list \<Rightarrow> bool" where
  "infos_ok dc infos \<longleftrightarrow> is_map infos \<and> length infos < 2 ^ 32 \<and>
     (\<forall>i \<in> set infos. path_ok dc (fst i) \<and> deriver_ok dc (siDeriver (snd i)) \<and> paths_ok dc (siReferences (snd i)))"

lemma read_infos_run:
  assumes "\<forall>i \<in> set infos. path_ok dc (fst i) \<and> deriver_ok dc (siDeriver (snd i)) \<and> paths_ok dc (siReferences (snd i))"
    and "rFrom r = concat (map wire_info infos) @ b"
  shows "read_infos dc (length infos) acc r = (Inr (fold (\<lambda>i. map_put (fst i) (snd i)) infos acc), r\<lparr>rFrom := b\<rparr>)"
  using assms
proof (induction infos arbitrary: acc r)
  case (Cons i infos)
  let ?b = "concat (map wire_info infos) @ b"
  let ?refs = "wire_strings (siReferences (snd i)) @ wire_longlong (siDownloadSize (snd i)) @ wire_longlong (siNarSize (snd i)) @ ?b"
  have "read_deriver dc (r\<lparr>rFrom := wire_string (siDeriver (snd i)) @ ?refs\<rparr>) = (Inr (siDeriver (snd i)), r\<lparr>rFrom := ?refs\<rparr>)"
    using Cons.prems read_deriver_run [of dc "siDeriver (snd i)" "r\<lparr>rFrom := wire_string (siDeriver (snd i)) @ ?refs\<rparr>" ?refs] by simp
  moreover obtain p deriver refs download size where "i = (p, \<lparr>siDeriver = deriver, siReferences = refs, siDownloadSize = download, siNarSize = size\<rparr>)"
    by (metis SubstitutablePathInfo.cases surj_pair)
  ultimately show ?case using Cons.prems Cons.IH [of "r\<lparr>rFrom := ?b\<rparr>" "map_put (fst i) (snd i) acc"]
    by (simp add: r_read_run wire_info_def [of "(p, x)" for p x] bindS_Inr [of "read_deriver dc"])
qed (cases r; simp)

lemma refines_infos:
  assumes "paths_ok dc ps" and "ps \<noteq> []"
  shows "refines dc False (infos_ok dc) (RemoteStore_querySubstitutablePathInfos dc ps []) (st_querySubstitutablePathInfos (dcOps dc) ps)"
proof (rule refinesI, rule serves_infos [OF assms(1)], simp add: RemoteStore_querySubstitutablePathInfos_def connectedD assms(2))
  fix infos and r :: "'a RemoteStore"
  assume r: "infos_ok dc infos" "rFrom r = wire_int (of_nat (length infos)) @ concat (map wire_info infos)"
  have "unat (of_nat (length infos) :: u32) = length infos" using r(1) by (simp add: infos_ok_def unat_of_nat)
  with r read_infos_run [of infos dc "r\<lparr>rFrom := concat (map wire_info infos)\<rparr>" "[]" "[]"]
  show "bindS r_readInt (\<lambda>count. read_infos dc (unat count) []) r = (Inr infos, r\<lparr>rFrom := []\<rparr>)"
    by (simp add: r_read_run infos_ok_def map_put_entries [of "[]", simplified])
qed

lemma r_since_run: "daemonVersion r = PROTOCOL_VERSION \<Longrightarrow> v \<le> 12 \<Longrightarrow> bindS (r_since v m) f r = bindS m f r"
  by (simp add: r_since_def bindS_def)

lemma refines_collectGarbage:
  assumes "paths_ok dc (pathsToDelete options)" and "\<not> ignoreLiveness options"
  shows "refines dc False (\<lambda>(paths, freed). sendable paths) (RemoteStore_collectGarbage dc options) (st_collectGarbage (dcOps dc) options)"
proof (rule refinesI, rule serves_collectGarbage [OF assms], simp add: RemoteStore_collectGarbage_def r_since_run bindS_assoc_op connectedD)
  show "bindS r_readStrings (\<lambda>paths. bindS r_readLongLong (\<lambda>freed. bindS r_readLongLong (\<lambda>_. okS (paths, freed)))) r = (Inr x, r\<lparr>rFrom := []\<rparr>)"
    if "case x of (paths, freed) \<Rightarrow> sendable paths" "rFrom r = (case x of (paths, freed) \<Rightarrow> wire_strings paths @ wire_longlong freed @ wire_longlong 0)"
    for x and r :: "'a RemoteStore"
    using that by (cases x) (simp add: r_read_run)
qed

lemma refines_addIndirectRoot:
  assumes "length p < 2 ^ 32" and "absPath (\<lambda>_. Inr None) (dcGetcwd dc) p [] = Inr p'"
  shows "refines dc False (\<lambda>_. True) (RemoteStore_addIndirectRoot dc p) (st_addIndirectRoot (dcOps dc) p')"
  by (rule refinesI, rule serves_addIndirectRoot [OF assms], simp add: RemoteStore_addIndirectRoot_def RemoteStore_onPath_def connectedD,
      rule read_reply; assumption)

text \<open>\<^verbatim>\<open>LocalStore::addToStore\<close>, on the operation that adds a dump.\<close>

fun readFile_tree :: "fs \<Rightarrow> bytes res" where
  "readFile_tree (Regular executable contents) = Inr contents"
| "readFile_tree _ = Inl (SysError ''opening file'')"

definition LocalStore_addToStore ::
  "'s store_ops \<Rightarrow> path res \<Rightarrow> path \<Rightarrow> fs \<Rightarrow> bool \<Rightarrow> HashType \<Rightarrow> (path \<Rightarrow> bool) \<Rightarrow> ('s, path) store_op" where
  "LocalStore_addToStore ops cwd srcPath t recursive hashAlgo filt s =
     (case bindE (absPath (\<lambda>_. Inr None) cwd srcPath []) (\<lambda>p.
           bindE (if recursive then dumpPath StringSink_call filt p t [] else readFile_tree t) (\<lambda>content.
           bindE (baseNameOf p) (\<lambda>name. Inr (content, name)))) of
        Inl e \<Rightarrow> ([], Inl e, s)
      | Inr (content, name) \<Rightarrow> st_addToStoreFromDump ops content name recursive hashAlgo s)"

definition tree_ok :: "path res \<Rightarrow> path \<Rightarrow> fs \<Rightarrow> bool \<Rightarrow> HashType \<Rightarrow> (path \<Rightarrow> bool) \<Rightarrow> bool" where
  "tree_ok cwd srcPath t recursive hashAlgo filt \<longleftrightarrow> hashAlgo \<noteq> htUnknown \<and>
     (case absPath (\<lambda>_. Inr None) cwd srcPath [] of
        Inl e \<Rightarrow> False
      | Inr p \<Rightarrow> (case baseNameOf p of Inl e \<Rightarrow> False | Inr name \<Rightarrow> length name < 2 ^ 32) \<and> dumpable t \<and> encodable (prune filt p t) \<and>
          (recursive \<or> (case t of Regular _ _ \<Rightarrow> True | _ \<Rightarrow> False)))"

lemma dumpPath_appends:
  assumes "dumpable t"
  shows "dumpPath StringSink_call filt p t s = Inr (s @ nar (prune filt p t))"
proof -
  have "foldE StringSink_call ds s = Inr (s @ concat ds)" for ds s
    by (induction ds arbitrary: s) (simp_all add: StringSink_call_def)
  then show ?thesis by (simp only: dumpPath_frags [OF assms])
qed

lemma refines_addToStore:
  assumes ok: "tree_ok cwd srcPath t recursive hashAlgo filt"
  shows "refines dc False (path_ok dc) (RemoteStore_addToStore dc cwd srcPath t recursive hashAlgo filt False)
    (LocalStore_addToStore (dcOps dc) cwd srcPath t recursive hashAlgo filt)"
proof -
  from ok obtain p where p: "absPath (\<lambda>_. Inr None) cwd srcPath [] = Inr p" by (cases "absPath (\<lambda>_. Inr None) cwd srcPath []") (auto simp: tree_ok_def)
  with ok obtain name where name: "baseNameOf p = Inr name" "length name < 2 ^ 32" by (cases "baseNameOf p") (auto simp: tree_ok_def)
  have t: "dumpable t" "encodable (prune filt p t)" "recursive \<or> (\<exists>executable c. t = Regular executable c)" "hashAlgo \<noteq> htUnknown"
    using ok p by (auto simp: tree_ok_def split: fs.splits)
  obtain algo where algo: "printHashType hashAlgo = Inr algo" using t(4) by (cases hashAlgo) auto
  define content where "content = (if recursive then nar (prune filt p t) else case t of Regular _ c \<Rightarrow> c | _ \<Rightarrow> [])"
  have eq: "LocalStore_addToStore (dcOps dc) cwd srcPath t recursive hashAlgo filt = st_addToStoreFromDump (dcOps dc) content name recursive hashAlgo"
    using t p name by (auto simp: fun_eq_iff LocalStore_addToStore_def dumpPath_appends content_def)
  have "recursive \<and> content = nar (prune filt p t) \<or> \<not> recursive \<and> (\<exists>executable. prune filt p t = Regular executable content)"
    using t(3) by (auto simp: content_def)
  note srv = serves_addToStore [OF name(2) algo t(2) this, of dc]
  show ?thesis
    unfolding eq
    by (rule refinesI, rule srv, simp add: RemoteStore_addToStore_def no_repair_def connectedD p name algo bindS_def [of "r_write m" for m] r_write_def
        dumpPath_appends [OF t(1)], rule read_reply; assumption)
qed

subsection \<open>A remote store behaves like the store of the daemon\<close>

datatype request =
    IsValidPath path
  | QueryValidPaths "path list"
  | QueryAllValidPaths
  | QuerySubstitutablePaths "path list"
  | QuerySubstitutablePathInfos "path list"
  | QueryPathInfo path
  | QueryPathHash path
  | QueryReferences path
  | QueryReferrers path
  | QueryDeriver path
  | QueryDerivationOutputs path
  | QueryDerivationOutputNames path
  | QueryPathFromHashPart string
  | AddToStore "path res" path fs bool HashType "path \<Rightarrow> bool"
  | AddTextToStore string string "path list"
  | ExportPath path bool
  | BuildPaths "path list"
  | EnsurePath path
  | AddTempRoot path
  | AddIndirectRoot path
  | SyncWithGC
  | FindRoots
  | CollectGarbage GCOptions
  | QueryFailedPaths
  | ClearFailedPaths "path list"

datatype reply =
    Done unit
  | Truth bool
  | Text string
  | Texts "string list"
  | HashReply Hash
  | Info ValidPathInfo
  | Infos "(path \<times> SubstitutablePathInfo) list"
  | RootsReply Roots
  | GCReply "path list \<times> u64"

text \<open>The same request to a remote store, and to the store itself.  The row number in a \<^verbatim>\<open>ValidPathInfo\<close> is not sent.\<close>

fun remote_request :: "'s daemon_config \<Rightarrow> request \<Rightarrow> ('s RemoteStore, reply) op" where
  "remote_request dc (IsValidPath p) = map_remote Truth (RemoteStore_isValidPath dc p)"
| "remote_request dc (QueryValidPaths ps) = map_remote Texts (RemoteStore_queryValidPaths dc ps)"
| "remote_request dc QueryAllValidPaths = map_remote Texts (RemoteStore_queryAllValidPaths dc)"
| "remote_request dc (QuerySubstitutablePaths ps) = map_remote Texts (RemoteStore_querySubstitutablePaths dc ps)"
| "remote_request dc (QuerySubstitutablePathInfos ps) = map_remote Infos (RemoteStore_querySubstitutablePathInfos dc ps [])"
| "remote_request dc (QueryPathInfo p) = map_remote Info (RemoteStore_queryPathInfo dc p)"
| "remote_request dc (QueryPathHash p) = map_remote HashReply (RemoteStore_queryPathHash dc p)"
| "remote_request dc (QueryReferences p) = map_remote Texts (RemoteStore_queryReferences dc p [])"
| "remote_request dc (QueryReferrers p) = map_remote Texts (RemoteStore_queryReferrers dc p [])"
| "remote_request dc (QueryDeriver p) = map_remote Text (RemoteStore_queryDeriver dc p)"
| "remote_request dc (QueryDerivationOutputs p) = map_remote Texts (RemoteStore_queryDerivationOutputs dc p)"
| "remote_request dc (QueryDerivationOutputNames p) = map_remote Texts (RemoteStore_queryDerivationOutputNames dc p)"
| "remote_request dc (QueryPathFromHashPart h) = map_remote Text (RemoteStore_queryPathFromHashPart dc h)"
| "remote_request dc (AddToStore cwd p t recursive ht filt) = map_remote Text (RemoteStore_addToStore dc cwd p t recursive ht filt False)"
| "remote_request dc (AddTextToStore name s refs) = map_remote Text (RemoteStore_addTextToStore dc name s refs False)"
| "remote_request dc (ExportPath p sign) = map_remote Done (RemoteStore_exportPath dc p sign)"
| "remote_request dc (BuildPaths ps) = map_remote Done (RemoteStore_buildPaths dc ps False)"
| "remote_request dc (EnsurePath p) = map_remote Done (RemoteStore_ensurePath dc p)"
| "remote_request dc (AddTempRoot p) = map_remote Done (RemoteStore_addTempRoot dc p)"
| "remote_request dc (AddIndirectRoot p) = map_remote Done (RemoteStore_addIndirectRoot dc p)"
| "remote_request dc SyncWithGC = map_remote Done (RemoteStore_syncWithGC dc)"
| "remote_request dc FindRoots = map_remote RootsReply (RemoteStore_findRoots dc)"
| "remote_request dc (CollectGarbage options) = map_remote GCReply (RemoteStore_collectGarbage dc options)"
| "remote_request dc QueryFailedPaths = map_remote Texts (RemoteStore_queryFailedPaths dc)"
| "remote_request dc (ClearFailedPaths ps) = map_remote Done (RemoteStore_clearFailedPaths dc ps)"

fun store_request :: "'s daemon_config \<Rightarrow> request \<Rightarrow> ('s, reply) store_op" where
  "store_request dc (IsValidPath p) = map_store Truth (st_isValidPath (dcOps dc) p)"
| "store_request dc (QueryValidPaths ps) = map_store Texts (st_queryValidPaths (dcOps dc) ps)"
| "store_request dc QueryAllValidPaths = map_store Texts (st_queryAllValidPaths (dcOps dc))"
| "store_request dc (QuerySubstitutablePaths ps) = map_store Texts (st_querySubstitutablePaths (dcOps dc) ps)"
| "store_request dc (QuerySubstitutablePathInfos ps) = map_store Infos (st_querySubstitutablePathInfos (dcOps dc) ps)"
| "store_request dc (QueryPathInfo p) = map_store Info (map_store (viId_update (\<lambda>_. 0)) (st_queryPathInfo (dcOps dc) p))"
| "store_request dc (QueryPathHash p) = map_store HashReply (st_queryPathHash (dcOps dc) p)"
| "store_request dc (QueryReferences p) = map_store Texts (st_queryReferences (dcOps dc) p)"
| "store_request dc (QueryReferrers p) = map_store Texts (st_queryReferrers (dcOps dc) p)"
| "store_request dc (QueryDeriver p) = map_store Text (st_queryDeriver (dcOps dc) p)"
| "store_request dc (QueryDerivationOutputs p) = map_store Texts (st_queryDerivationOutputs (dcOps dc) p)"
| "store_request dc (QueryDerivationOutputNames p) = map_store Texts (st_queryDerivationOutputNames (dcOps dc) p)"
| "store_request dc (QueryPathFromHashPart h) = map_store Text (st_queryPathFromHashPart (dcOps dc) h)"
| "store_request dc (AddToStore cwd p t recursive ht filt) = map_store Text (LocalStore_addToStore (dcOps dc) cwd p t recursive ht filt)"
| "store_request dc (AddTextToStore name s refs) = map_store Text (st_addTextToStore (dcOps dc) name s refs)"
| "store_request dc (ExportPath p sign) = map_store Done (st_exportPath (dcOps dc) p sign)"
| "store_request dc (BuildPaths ps) = map_store Done (st_buildPaths (dcOps dc) ps)"
| "store_request dc (EnsurePath p) = map_store Done (st_ensurePath (dcOps dc) p)"
| "store_request dc (AddTempRoot p) = map_store Done (st_addTempRoot (dcOps dc) p)"
| "store_request dc (AddIndirectRoot p) = (case absPath (\<lambda>_. Inr None) (dcGetcwd dc) p [] of
     Inr p \<Rightarrow> map_store Done (st_addIndirectRoot (dcOps dc) p) | Inl e \<Rightarrow> (\<lambda>s. ([], Inl e, s)))"
| "store_request dc SyncWithGC = map_store Done (st_syncWithGC (dcOps dc))"
| "store_request dc FindRoots = map_store RootsReply (st_findRoots (dcOps dc))"
| "store_request dc (CollectGarbage options) = map_store GCReply (st_collectGarbage (dcOps dc) options)"
| "store_request dc QueryFailedPaths = map_store Texts (st_queryFailedPaths (dcOps dc))"
| "store_request dc (ClearFailedPaths ps) = map_store Done (st_clearFailedPaths (dcOps dc) ps)"

text \<open>
  What can be asked through the daemon: arguments that fit the wire format, store paths where it insists
  on them, no garbage collection that ignores liveness, and no tree that cannot be dumped.
\<close>

fun request_ok :: "'s daemon_config \<Rightarrow> request \<Rightarrow> bool" where
  "request_ok dc (IsValidPath p) \<longleftrightarrow> path_ok dc p" | "request_ok dc (QueryValidPaths ps) \<longleftrightarrow> paths_ok dc ps"
| "request_ok dc QueryAllValidPaths \<longleftrightarrow> True" | "request_ok dc (QuerySubstitutablePaths ps) \<longleftrightarrow> paths_ok dc ps"
| "request_ok dc (QuerySubstitutablePathInfos ps) \<longleftrightarrow> paths_ok dc ps \<and> ps \<noteq> []" | "request_ok dc (QueryPathInfo p) \<longleftrightarrow> path_ok dc p"
| "request_ok dc (QueryPathHash p) \<longleftrightarrow> path_ok dc p" | "request_ok dc (QueryReferences p) \<longleftrightarrow> path_ok dc p"
| "request_ok dc (QueryReferrers p) \<longleftrightarrow> path_ok dc p" | "request_ok dc (QueryDeriver p) \<longleftrightarrow> path_ok dc p"
| "request_ok dc (QueryDerivationOutputs p) \<longleftrightarrow> path_ok dc p" | "request_ok dc (QueryDerivationOutputNames p) \<longleftrightarrow> path_ok dc p"
| "request_ok dc (QueryPathFromHashPart h) \<longleftrightarrow> length h < 2 ^ 32" | "request_ok dc (AddToStore cwd p t recursive ht filt) \<longleftrightarrow> tree_ok cwd p t recursive ht filt"
| "request_ok dc (AddTextToStore name s refs) \<longleftrightarrow> length name < 2 ^ 32 \<and> length s < 2 ^ 32 \<and> paths_ok dc refs"
| "request_ok dc (ExportPath p sign) \<longleftrightarrow> path_ok dc p" | "request_ok dc (BuildPaths ps) \<longleftrightarrow> paths_ok dc ps"
| "request_ok dc (EnsurePath p) \<longleftrightarrow> path_ok dc p" | "request_ok dc (AddTempRoot p) \<longleftrightarrow> path_ok dc p"
| "request_ok dc (AddIndirectRoot p) \<longleftrightarrow> length p < 2 ^ 32 \<and> (case absPath (\<lambda>_. Inr None) (dcGetcwd dc) p [] of Inr _ \<Rightarrow> True | Inl _ \<Rightarrow> False)"
| "request_ok dc SyncWithGC \<longleftrightarrow> True" | "request_ok dc FindRoots \<longleftrightarrow> True"
| "request_ok dc (CollectGarbage options) \<longleftrightarrow> paths_ok dc (pathsToDelete options) \<and> \<not> ignoreLiveness options"
| "request_ok dc QueryFailedPaths \<longleftrightarrow> True" | "request_ok dc (ClearFailedPaths ps) \<longleftrightarrow> sendable ps"

definition reply_ok :: "'s daemon_config \<Rightarrow> request \<Rightarrow> reply \<Rightarrow> bool" where
  "reply_ok dc rq x = (case x of
     Texts ss \<Rightarrow> (case rq of QueryDerivationOutputNames _ \<Rightarrow> sendable ss | _ \<Rightarrow> paths_ok dc ss)
   | Text q \<Rightarrow> (case rq of AddToStore _ _ _ _ _ _ \<Rightarrow> path_ok dc q | AddTextToStore _ _ _ \<Rightarrow> path_ok dc q | _ \<Rightarrow> deriver_ok dc q)
   | Info info \<Rightarrow> (case rq of QueryPathInfo p \<Rightarrow> info_ok dc p info | _ \<Rightarrow> True)
   | HashReply h \<Rightarrow> wf_hash h \<and> hashType h = htSHA256
   | Infos infos \<Rightarrow> infos_ok dc infos
   | RootsReply roots \<Rightarrow> roots_ok dc roots
   | GCReply y \<Rightarrow> sendable (fst y)
   | _ \<Rightarrow> True)"

definition takes_data :: "request \<Rightarrow> bool" where
  "takes_data rq = (case rq of ExportPath _ _ \<Rightarrow> True | _ \<Rightarrow> False)"

lemmas request_rules = refines_paths refines_path_sets refines_strings refines_nothing refines_queryInto refines_queryPathHash refines_queryPathInfo
  refines_findRoots refines_infos refines_collectGarbage refines_addIndirectRoot refines_addToStore

lemma request_refines:
  assumes "request_ok dc rq"
  shows "refines dc (takes_data rq) (reply_ok dc rq) (remote_request dc rq) (store_request dc rq)"
  using assms
  by (cases rq; clarsimp simp: takes_data_def split: sum.splits)
    (rule refines_map, rule request_rules; (assumption | simp add: reply_ok_def split_beta))+

text \<open>A sequence of requests: the results, and what the client has on its standard error and in its sink.\<close>

primrec remote_run :: "'s daemon_config \<Rightarrow> request list \<Rightarrow> 's RemoteStore \<Rightarrow> reply res list \<times> 's RemoteStore" where
  "remote_run dc [] r = ([], r)"
| "remote_run dc (rq # rqs) r = (case remote_request dc rq r of (x, r) \<Rightarrow> (case remote_run dc rqs r of (xs, r) \<Rightarrow> (x # xs, r)))"

primrec store_run :: "'s daemon_config \<Rightarrow> request list \<Rightarrow> 's \<Rightarrow> (request \<times> event list \<times> reply res) list \<times> 's" where
  "store_run dc [] s = ([], s)"
| "store_run dc (rq # rqs) s = (case store_request dc rq s of (evs, x, s) \<Rightarrow> (case store_run dc rqs s of (tr, s) \<Rightarrow> ((rq, evs, x) # tr, s)))"

text \<open>An outcome that can be sent.\<close>

definition outcome_ok :: "'s daemon_config \<Rightarrow> request \<times> event list \<times> reply res \<Rightarrow> bool" where
  "outcome_ok dc out = (case out of (rq, evs, x) \<Rightarrow> request_ok dc rq \<and> list_all (event_ok (takes_data rq)) evs \<and>
     (case x of Inl e \<Rightarrow> error_ok dc e | Inr y \<Rightarrow> reply_ok dc rq y))"

abbreviation events_of :: "(request \<times> event list \<times> reply res) list \<Rightarrow> event list" where
  "events_of tr \<equiv> concat (map (fst \<circ> snd) tr)"

lemma connected_after [simp]: "connected (after_call evs s r) = connected r"
  by (simp add: connected_def after_call_def Let_def)

lemma dStore_after [simp]: "dStore (rDaemon (after_call evs s r)) = s"
  by (simp add: after_call_def)

lemma after_call_append [simp]: "after_call evs' s' (after_call evs s r) = after_call (evs @ evs') s' r"
  by (simp add: after_call_def logs_def sunk_def)

lemma after_call_none: "after_call [] (dStore (rDaemon r)) r = r"
  by (cases r; cases "rDaemon r") (simp add: after_call_def logs_def sunk_def)

lemma request_step:
  assumes "connected r" and "store_request dc rq (dStore (rDaemon r)) = (evs, x, s)" and "outcome_ok dc (rq, evs, x)"
  shows "remote_request dc rq r = (seen x, after_call evs s r)"
  using request_refines [of dc rq] assms unfolding refines_def outcome_ok_def by (auto simp: list_all_iff split: sum.splits)

text \<open>
  C7: A program that uses the store through the daemon gets what it would get from the store: after any
  sequence of requests whose outcomes fit the wire format, each reply is the reply of the store, each
  error arrives with the message of the error the store threw, the log messages and the exported data
  have arrived completely and in order, the store of the daemon is in the state the requests lead to,
  and the connection is ready for the next request.
\<close>

theorem remote_store_refines_store:
  assumes "connected r" and "store_run dc rqs (dStore (rDaemon r)) = (tr, s)" and "\<forall>out \<in> set tr. outcome_ok dc out"
  shows "remote_run dc rqs r = (map (seen \<circ> snd \<circ> snd) tr, after_call (events_of tr) s r) \<and> connected (after_call (events_of tr) s r)"
  using assms
proof (induction rqs arbitrary: r tr)
  case Nil
  then show ?case using after_call_none [of r] by simp
next
  case (Cons rq rqs)
  obtain evs x s1 where rq: "store_request dc rq (dStore (rDaemon r)) = (evs, x, s1)" by (metis prod_cases3)
  with Cons.prems(2) obtain tr' where tr: "store_run dc rqs s1 = (tr', s)" "tr = (rq, evs, x) # tr'" by (auto split: prod.splits)
  with Cons.prems request_step [OF Cons.prems(1) rq] have step: "remote_request dc rq r = (seen x, after_call evs s1 r)" by simp
  from Cons.IH [of "after_call evs s1 r" tr'] Cons.prems tr
  have "remote_run dc rqs (after_call evs s1 r) = (map (seen \<circ> snd \<circ> snd) tr', after_call (evs @ events_of tr') s r)"
    by (simp add: comp_def)
  with step tr(2) Cons.prems(1) show ?case by (simp add: comp_def)
qed

text \<open>
  The local store of \<open>Local_Store\<close> and \<open>GC\<close> as the store of a daemon.  The operations that are not modelled
  are those of \<open>rest\<close>.
\<close>

definition query_op :: "('s \<Rightarrow> 'a res) \<Rightarrow> ('s, 'a) store_op" where
  "query_op q s = ([], q s, s)"

definition local_ops :: "'c GCEnv \<Rightarrow> GCWorld store_ops \<Rightarrow> GCWorld store_ops" where
  "local_ops g rest =
     (let storeDir = nixStore (gcCfg g); db = (\<lambda>w. lsDB (gwStore w))
      in rest\<lparr>
        st_isValidPath := (\<lambda>p. query_op (\<lambda>w. Inr (LocalStore_isValidPath (db w) p))),
        st_queryValidPaths := (\<lambda>ps. query_op (\<lambda>w. Inr (LocalStore_queryValidPaths (db w) ps))),
        st_queryAllValidPaths := query_op (\<lambda>w. Inr (LocalStore_queryAllValidPaths (db w))),
        st_queryPathInfo := (\<lambda>p. query_op (\<lambda>w. LocalStore_queryPathInfo storeDir (db w) p)),
        st_queryPathHash := (\<lambda>p. query_op (\<lambda>w. LocalStore_queryPathHash storeDir (db w) p)),
        st_queryReferences := (\<lambda>p. query_op (\<lambda>w. LocalStore_queryReferences storeDir (db w) p [])),
        st_queryReferrers := (\<lambda>p. query_op (\<lambda>w. LocalStore_queryReferrers storeDir (db w) p [])),
        st_queryDeriver := (\<lambda>p. query_op (\<lambda>w. LocalStore_queryDeriver storeDir (db w) p)),
        st_queryDerivationOutputs := (\<lambda>p. query_op (\<lambda>w. LocalStore_queryDerivationOutputs (db w) p)),
        st_queryDerivationOutputNames := (\<lambda>p. query_op (\<lambda>w. LocalStore_queryDerivationOutputNames (db w) p)),
        st_addTempRoot := (\<lambda>p w. ([], Inr (), w\<lparr>gwTempRoots := addTempRoot (gcPid g) (map_of (gwTempRoots w) (gcPid g) \<noteq> None) p (gwTempRoots w)\<rparr>)),
        st_addIndirectRoot := (\<lambda>p w. case LocalStore_addIndirectRoot (digest (gcCfg g)) (gcRootSettings g) p (gwFiles w) of
           Inl e \<Rightarrow> ([], Inl e, w) | Inr files \<Rightarrow> ([], Inr (), w\<lparr>gwFiles := files\<rparr>)),
        st_findRoots := (\<lambda>w. case findRoots (gcDepth g) (gcRootSettings g) storeDir (LocalStore_isValidPath (db w)) False (gwFiles w) of
           (roots, files) \<Rightarrow> ([], roots, w\<lparr>gwFiles := files\<rparr>)),
        st_collectGarbage := (\<lambda>options w. case collectGarbage g options w of (x, w) \<Rightarrow> ([], x, w)),
        st_queryFailedPaths := query_op (\<lambda>w. Inr (LocalStore_queryFailedPaths (db w))),
        st_clearFailedPaths := (\<lambda>ps w. ([], Inr (), w\<lparr>gwStore := (gwStore w)\<lparr>lsDB := LocalStore_clearFailedPaths ps (db w)\<rparr>\<rparr>))\<rparr>)"

definition failing_op :: "('s, 'a) store_op" where
  "failing_op s = ([Log ''failing''], Inl (SysError ''not supported''), s)"

definition no_ops :: "'s store_ops" where
  "no_ops = \<lparr>st_isValidPath = (\<lambda>_. failing_op), st_queryValidPaths = (\<lambda>_. failing_op), st_queryAllValidPaths = failing_op,
     st_querySubstitutablePaths = (\<lambda>_. failing_op), st_querySubstitutablePathInfos = (\<lambda>_. failing_op), st_queryPathInfo = (\<lambda>_. failing_op),
     st_queryPathHash = (\<lambda>_. failing_op), st_queryReferences = (\<lambda>_. failing_op), st_queryReferrers = (\<lambda>_. failing_op),
     st_queryDeriver = (\<lambda>_. failing_op), st_queryDerivationOutputs = (\<lambda>_. failing_op), st_queryDerivationOutputNames = (\<lambda>_. failing_op),
     st_queryPathFromHashPart = (\<lambda>_. failing_op), st_addToStoreFromDump = (\<lambda>_ _ _ _. failing_op), st_addTextToStore = (\<lambda>_ _ _. failing_op),
     st_exportPath = (\<lambda>_ _. failing_op), st_buildPaths = (\<lambda>_. failing_op), st_ensurePath = (\<lambda>_. failing_op), st_addTempRoot = (\<lambda>_. failing_op),
     st_addIndirectRoot = (\<lambda>_. failing_op), st_syncWithGC = failing_op, st_findRoots = failing_op, st_collectGarbage = (\<lambda>_. failing_op),
     st_queryFailedPaths = failing_op, st_clearFailedPaths = (\<lambda>_. failing_op)\<rparr>"

definition demo_daemon_config :: "GCWorld daemon_config" where
  "demo_daemon_config = \<lparr>dcStoreDir = ''/nix/store'', dcOps = local_ops demo_gcenv no_ops, dcOpen = (\<lambda>_. okS ()), dcStatus = (\<lambda>_. 1), dcGetcwd = Inr ''/''\<rparr>"

definition demo_settings :: settings where
  "demo_settings = \<lparr>keepFailed = False, keepGoing = False, tryFallback = True, verbosity = 3, maxBuildJobs = 1, maxSilentTime = 0,
     useBuildHook = True, buildVerbosity = 0, logType = 0, printBuildTrace = False, buildCores = 1, useSubstitutes = True, overrides = [(''a'', ''1'')]\<rparr>"

definition demo_client :: "GCWorld RemoteStore" where
  "demo_client = \<lparr>initialised = True, remoteMode = ''daemon'', rSettings = demo_settings, daemonVersion = PROTOCOL_VERSION, rTo = [], rFrom = [],
     rStderr = [], rSink = [], rDaemon = \<lparr>dPhase = Serving, dFrom = [], dTo = [], canSendStderr = False, clientVersion = PROTOCOL_VERSION,
       dSettings = demo_settings, dStore = demo_world\<rparr>\<rparr>"


definition demo_trace :: "(request \<times> event list \<times> reply res) list" where
  "demo_trace = [(QueryReferrers ''/nix/store/a'', [], Inr (Texts [''/nix/store/b'', ''/nix/store/c''])),
     (EnsurePath ''/nix/store/q'', [Log ''failing''], Inl (SysError ''not supported'')),
     (CollectGarbage GCOptions_new, [], Inr (GCReply ([''/nix/store/c''], 1))), (IsValidPath ''/nix/store/c'', [], Inr (Truth False))]"

lemma demo_referrers: "LocalStore_queryReferrers ''/nix/store'' (lsDB (gwStore demo_world)) ''/nix/store/a'' [] = Inr [''/nix/store/b'', ''/nix/store/c'']"
  by code_simp

lemma demo_store_run: "\<exists>s. store_run demo_daemon_config (map fst demo_trace) demo_world = (demo_trace, s)"
proof -
  obtain w where w: "collectGarbage demo_gcenv GCOptions_new demo_world = (Inr ([''/nix/store/c''], 1), w)"
      "map rowPath (ValidPaths (lsDB (gwStore w))) = [''/nix/store/a'', ''/nix/store/b'']"
    using demo_collection by (cases "collectGarbage demo_gcenv GCOptions_new demo_world") auto
  have "\<not> LocalStore_isValidPath (lsDB (gwStore w)) ''/nix/store/c''"
    using arg_cong [OF w(2), of set] by (simp add: isValidPath_iff valid_paths_def) code_simp
  with w demo_referrers show ?thesis
    by (simp add: demo_trace_def demo_daemon_config_def local_ops_def Let_def no_ops_def failing_op_def query_op_def map_store_def demo_gcenv_def demo_cfg_def)
qed

lemma demo_paths: "isStorePath ''/nix/store'' ''/nix/store/a''" "isStorePath ''/nix/store'' ''/nix/store/b''" "isStorePath ''/nix/store'' ''/nix/store/c''"
    "isStorePath ''/nix/store'' ''/nix/store/q''"
  by code_simp+

lemma demo_trace_ok: "\<forall>out \<in> set demo_trace. outcome_ok demo_daemon_config out"
  by (simp add: demo_trace_def outcome_ok_def demo_daemon_config_def path_ok_def demo_paths store_path_set_def sendable_def GCOptions_new_def reply_ok_def error_ok_def takes_data_def)


theorem remote_store_refines_store_witness:
  "fst (remote_run demo_daemon_config (map fst demo_trace) demo_client) =
     [Inr (Texts [''/nix/store/b'', ''/nix/store/c'']), Inl (Error ''not supported''), Inr (GCReply ([''/nix/store/c''], 1)), Inr (Truth False)] \<and>
   rStderr (snd (remote_run demo_daemon_config (map fst demo_trace) demo_client)) = [''failing'']"
proof -
  obtain s where s: "store_run demo_daemon_config (map fst demo_trace) demo_world = (demo_trace, s)" using demo_store_run by blast
  have c: "connected demo_client" "dStore (rDaemon demo_client) = demo_world" "rStderr demo_client = []"
    by (simp_all add: connected_def demo_client_def)
  have "remote_run demo_daemon_config (map fst demo_trace) demo_client =
      (map (seen \<circ> snd \<circ> snd) demo_trace, after_call (events_of demo_trace) s demo_client)"
    using remote_store_refines_store [OF c(1), of demo_daemon_config "map fst demo_trace" demo_trace s] s c(2) demo_trace_ok by simp
  then show ?thesis using c by (simp add: after_call_def logs_def demo_trace_def seen_def)
qed

subsection \<open>Opening a connection\<close>

definition fresh :: "'s RemoteStore \<Rightarrow> bool" where
  "fresh r \<longleftrightarrow> \<not> initialised r \<and> remoteMode r = ''daemon'' \<and> rTo r = [] \<and> rFrom r = [] \<and>
     (let d = rDaemon r in dPhase d = Greeting \<and> dFrom d = [] \<and> dTo d = [] \<and> \<not> canSendStderr d)"

definition settings_ok :: "settings \<Rightarrow> bool" where
  "settings_ok st \<longleftrightarrow> length (overrides st) < 2 ^ 32 \<and> list_all (\<lambda>(n, v). length n < 2 ^ 32 \<and> length v < 2 ^ 32) (overrides st)"

text \<open>The settings of the daemon after it has got those of the client.\<close>

definition add_untrusted :: "string \<times> string \<Rightarrow> (string \<times> string) list \<Rightarrow> (string \<times> string) list" where
  "add_untrusted i os = map_put (''untrusted-'' @ fst i) (snd i) os"

definition received :: "settings \<Rightarrow> settings \<Rightarrow> settings" where
  "received st old = st\<lparr>overrides := fold add_untrusted (overrides st) (overrides old)\<rparr>"

definition wire_settings :: "settings \<Rightarrow> bytes" where
  "wire_settings st = wire_int (flag (keepFailed st)) @ wire_int (flag (keepGoing st)) @ wire_int (flag (tryFallback st)) @
     wire_int (verbosity st) @ wire_int (maxBuildJobs st) @ wire_int (maxSilentTime st) @ wire_int (flag (useBuildHook st)) @
     wire_int (buildVerbosity st) @ wire_int (logType st) @ wire_int (flag (printBuildTrace st)) @ wire_int (buildCores st) @
     wire_int (flag (useSubstitutes st)) @ wire_int (of_nat (length (overrides st))) @
     concat (map (\<lambda>i. wire_string (fst i) @ wire_string (snd i)) (overrides st))"

lemma send_settings:
  assumes "daemonVersion r = PROTOCOL_VERSION" and "rTo r = []"
  shows "RemoteStore_setOptions dc r = processStderr dc False (r\<lparr>rTo := wire_int (op_number wopSetOptions) @ wire_settings (rSettings r)\<rparr>)"
proof -
  have "foldS (\<lambda>i. bindS (r_writeString (fst i)) (\<lambda>_. r_writeString (snd i))) os r =
      (Inr (), r\<lparr>rTo := rTo r @ concat (map (\<lambda>i. wire_string (fst i) @ wire_string (snd i)) os)\<rparr>)" for os and r :: "'a RemoteStore"
    by (induction os arbitrary: r) (simp_all add: bindS_def)
  then have fold: "bindS (foldS (\<lambda>i. bindS (r_writeString (fst i)) (\<lambda>_. r_writeString (snd i))) os) f r =
      f () (r\<lparr>rTo := rTo r @ concat (map (\<lambda>i. wire_string (fst i) @ wire_string (snd i)) os)\<rparr>)" for os f and r :: "'a RemoteStore"
    by (simp add: bindS_def)
  have since: "bindS (r_since v m) f r = (if v \<le> GET_PROTOCOL_MINOR (daemonVersion r) then bindS m f r else f () r)" for v m f and r :: "'a RemoteStore"
    by (simp add: bindS_def r_since_def)
  show ?thesis using assms by (simp add: RemoteStore_setOptions_def Let_def bindS_assoc_op wire_settings_def fold since)
qed

lemma read_overrides_wire:
  assumes "list_all (\<lambda>(n, v). length n < 2 ^ 32 \<and> length v < 2 ^ 32) os"
    and "dFrom d = concat (map (\<lambda>i. wire_string (fst i) @ wire_string (snd i)) os)"
  shows "read_overrides (length os) d =
    (Inr (), d\<lparr>dFrom := [], dSettings := (dSettings d)\<lparr>overrides := fold add_untrusted os (overrides (dSettings d))\<rparr>\<rparr>)"
  using assms
proof (induction os arbitrary: d)
  case Nil
  then show ?case by (cases d) simp
next
  case (Cons i os)
  let ?b = "concat (map (\<lambda>i. wire_string (fst i) @ wire_string (snd i)) os)"
  from Cons.prems Cons.IH [of "d\<lparr>dFrom := ?b, dSettings := (dSettings d)\<lparr>overrides := add_untrusted i (overrides (dSettings d))\<rparr>\<rparr>"]
  show ?case by (simp add: d_read_run case_prod_beta' add_untrusted_def)
qed

lemma receive_settings:
  assumes "clientVersion d = PROTOCOL_VERSION" and "dFrom d = wire_settings st" and "settings_ok st"
  shows "op_setOptions d = (Inr (), d\<lparr>dFrom := [], dSettings := received st (dSettings d), canSendStderr := False, dTo := dTo d @ wire_int STDERR_LAST\<rparr>)"
proof -
  have since: "bindS (since v m) f d = (if v \<le> GET_PROTOCOL_MINOR (clientVersion d) then bindS m f d else f () d)" for v m f and d :: "'a daemon"
    by (simp add: bindS_def since_def)
  have upd: "bindS (upd_settings g) f d = f () (d\<lparr>dSettings := g (dSettings d)\<rparr>)" for g f and d :: "'a daemon"
    by (simp add: bindS_def upd_settings_def)
  have len: "unat (of_nat (length (overrides st)) :: u32) = length (overrides st)" using assms(3) by (simp add: settings_ok_def unat_of_nat take_bit_nat_eq_self)
  have rd: "bindS (read_overrides (length (overrides st))) f d = f () (d\<lparr>dFrom := [],
      dSettings := (dSettings d)\<lparr>overrides := fold add_untrusted (overrides st) (overrides (dSettings d))\<rparr>\<rparr>)"
    if "dFrom d = concat (map (\<lambda>i. wire_string (fst i) @ wire_string (snd i)) (overrides st))" for f and d :: "'a daemon"
    using read_overrides_wire [of "overrides st" d] that assms(3) by (simp add: bindS_def settings_ok_def)
  have eq: "bindS startWork (\<lambda>_. stopWork True [] 0) d = (Inr (), d\<lparr>canSendStderr := False, dTo := dTo d @ wire_int STDERR_LAST\<rparr>)" for d :: "'a daemon"
    by (simp add: bindS_def startWork_def stopWork_def Let_def)
  show ?thesis using assms(1,2)
    by (simp add: op_setOptions_def wire_settings_def since upd bindS_assoc_op d_read_run len rd eq received_def)
qed

lemma setOptions_run:
  assumes "connected r" and "settings_ok (rSettings r)"
  shows "RemoteStore_setOptions dc r = (Inr (), r\<lparr>rDaemon := (rDaemon r)\<lparr>dSettings := received (rSettings r) (dSettings (rDaemon r))\<rparr>\<rparr>)"
proof -
  let ?q = "wire_settings (rSettings r)"
  let ?d = "(rDaemon r)\<lparr>dFrom := wire_int (op_number wopSetOptions) @ ?q\<rparr>"
  let ?d' = "(rDaemon r)\<lparr>dSettings := received (rSettings r) (dSettings (rDaemon r))\<rparr>"
  have c: "daemonVersion r = PROTOCOL_VERSION" "rTo r = []" "rFrom r = []" "dPhase (rDaemon r) = Serving" "dFrom (rDaemon r) = []"
    "dTo (rDaemon r) = []" "\<not> canSendStderr (rDaemon r)" "clientVersion (rDaemon r) = PROTOCOL_VERSION"
    using assms(1) by (simp_all add: connected_def Let_def)
  have "op_setOptions ((rDaemon r)\<lparr>dFrom := ?q\<rparr>) = (Inr (), ?d'\<lparr>dTo := wire_int STDERR_LAST\<rparr>)"
    using receive_settings [of "(rDaemon r)\<lparr>dFrom := ?q\<rparr>" "rSettings r"] assms(2) c by simp
  with serving_connection [of ?d wopSetOptions ?q dc] c have "processConnection dc ?d = ?d'\<lparr>dTo := wire_int STDERR_LAST\<rparr>"
    by (simp add: processRequests_waits)
  with c have "r_flush dc (r\<lparr>rTo := wire_int (op_number wopSetOptions) @ ?q\<rparr>) = (Inr (), r\<lparr>rFrom := wire_int STDERR_LAST, rDaemon := ?d'\<rparr>)"
    by (simp add: r_flush_def Let_def)
  from processStderr_run [OF this stderr_loop_frames [of "[]" _ STDERR_LAST _ _ "[]"]] c show ?thesis
    by (simp add: send_settings logs_def sunk_def)
qed

lemma hello:
  assumes "fresh r"
  shows "bindS (r_writeInt WORKER_MAGIC_1) (\<lambda>_. r_flush dc) (r\<lparr>initialised := True\<rparr>) =
    (Inr (), r\<lparr>initialised := True, rFrom := wire_int WORKER_MAGIC_2 @ wire_int PROTOCOL_VERSION, rDaemon := (rDaemon r)\<lparr>dPhase := Version\<rparr>\<rparr>)"
proof -
  have c: "rTo r = []" "rFrom r = []" "dPhase (rDaemon r) = Greeting" "dFrom (rDaemon r) = []" "dTo (rDaemon r) = []"
    using assms by (simp_all add: fresh_def Let_def)
  have "readInt pipe_read [] = Inl (EndOfFile ''unexpected end-of-file'')"
    by (simp add: readInt_def pipe_read_def Source_call.simps)
  with c show ?thesis
    by (simp add: r_flush_def Let_def processConnection_def greet_def accept_version_def d_read_def)
qed

text \<open>The daemon gets the version, and opens the store.\<close>

lemma version_sent:
  assumes "fresh r"
  shows "processConnection dc ((rDaemon r)\<lparr>dPhase := Version, dFrom := wire_int PROTOCOL_VERSION @ wire_int (flag b)\<rparr>) =
    open_store dc b ((rDaemon r)\<lparr>dPhase := Version, clientVersion := PROTOCOL_VERSION, canSendStderr := True\<rparr>)" (is "?lhs = ?rhs")
proof -
  have c: "dPhase (rDaemon r) = Greeting" "dFrom (rDaemon r) = []" "dTo (rDaemon r) = []" using assms by (simp_all add: fresh_def Let_def)
  then have d: "(rDaemon r)\<lparr>dPhase := Version, clientVersion := PROTOCOL_VERSION, dFrom := [], canSendStderr := True\<rparr> =
      (rDaemon r)\<lparr>dPhase := Version, clientVersion := PROTOCOL_VERSION, canSendStderr := True\<rparr>" by (cases "rDaemon r") simp
  have "dFrom ?rhs = []" using c by (simp add: open_store_def stopWork_def Let_def split: sum.splits prod.splits)
  with c show ?thesis
    by (simp add: d processConnection_def greet_def accept_version_def d_read_def startWork_def processRequests_waits Let_def del: processRequests.simps)
qed

lemma greet_daemon_fresh:
  assumes "fresh r"
  shows "greet_daemon dc b (r\<lparr>initialised := True\<rparr>) = processStderr dc False
    (r\<lparr>initialised := True, rDaemon := (rDaemon r)\<lparr>dPhase := Version\<rparr>, rFrom := [], daemonVersion := PROTOCOL_VERSION,
       rTo := wire_int PROTOCOL_VERSION @ wire_int (flag b)\<rparr>)"
proof -
  have "r_flush dc (r\<lparr>initialised := True, rTo := rTo r @ wire_int WORKER_MAGIC_1\<rparr>) =
      (Inr (), r\<lparr>initialised := True, rFrom := wire_int WORKER_MAGIC_2 @ wire_int PROTOCOL_VERSION, rDaemon := (rDaemon r)\<lparr>dPhase := Version\<rparr>\<rparr>)"
    using hello [OF assms, of dc] by simp
  moreover have "rTo r = []" using assms by (simp add: fresh_def)
  ultimately show ?thesis
    by (simp add: greet_daemon_def bindS_def [of "r_flush dc"] r_read_run bindS_def [of "r_since v m" for v m] r_since_def)
qed

lemma freshD:
  assumes "fresh r"
  shows "\<not> initialised r" "remoteMode r = ''daemon''" "rTo r = []" "rFrom r = []" "dPhase (rDaemon r) = Greeting" "dFrom (rDaemon r) = []"
    "dTo (rDaemon r) = []" "\<not> canSendStderr (rDaemon r)"
  using assms by (simp_all add: fresh_def Let_def)

text \<open>What the client gets of the opening of the store.\<close>

lemma flush_version:
  assumes "fresh r"
  defines "d \<equiv> (rDaemon r)\<lparr>dPhase := Version, clientVersion := PROTOCOL_VERSION, canSendStderr := True\<rparr>"
  shows "r_flush dc (r\<lparr>initialised := True, rDaemon := (rDaemon r)\<lparr>dPhase := Version\<rparr>, rFrom := [], daemonVersion := PROTOCOL_VERSION,
       rTo := wire_int PROTOCOL_VERSION @ wire_int (flag b)\<rparr>) =
    (Inr (), r\<lparr>initialised := True, daemonVersion := PROTOCOL_VERSION, rFrom := dTo (open_store dc b d), rDaemon := (open_store dc b d)\<lparr>dTo := []\<rparr>\<rparr>)"
  using version_sent [OF assms(1), of dc b] freshD [OF assms(1)] by (simp add: r_flush_def Let_def d_def)

lemma greet_daemon_opened:
  assumes "fresh r" and "dcOpen dc b (dStore (rDaemon r)) = (Inr x, s)"
  defines "r' \<equiv> r\<lparr>initialised := True, daemonVersion := PROTOCOL_VERSION, rDaemon := (rDaemon r)\<lparr>dPhase := Serving,
        clientVersion := PROTOCOL_VERSION, dStore := s\<rparr>\<rparr>"
  shows "greet_daemon dc b (r\<lparr>initialised := True\<rparr>) = (Inr (), r')" and "connected r'"
proof -
  note c = freshD [OF assms(1)]
  have "open_store dc b ((rDaemon r)\<lparr>dPhase := Version, clientVersion := PROTOCOL_VERSION, canSendStderr := True\<rparr>) =
      (rDaemon r')\<lparr>dTo := wire_int STDERR_LAST\<rparr>"
    using assms(2) c by (simp add: open_store_def stopWork_def Let_def r'_def)
  with flush_version [OF assms(1), of dc b] c
  have "r_flush dc (r\<lparr>initialised := True, rDaemon := (rDaemon r)\<lparr>dPhase := Version\<rparr>, rFrom := [], daemonVersion := PROTOCOL_VERSION,
       rTo := wire_int PROTOCOL_VERSION @ wire_int (flag b)\<rparr>) = (Inr (), r'\<lparr>rFrom := wire_int STDERR_LAST\<rparr>)" by (simp add: r'_def)
  from processStderr_run [OF this stderr_loop_frames [of "[]" _ STDERR_LAST _ _ "[]"]] c greet_daemon_fresh [OF assms(1), of dc b]
  show "greet_daemon dc b (r\<lparr>initialised := True\<rparr>) = (Inr (), r')" by (simp add: logs_def sunk_def r'_def)
  show "connected r'" using c by (simp add: connected_def Let_def r'_def)
qed

lemma greet_daemon_refused:
  assumes "fresh r" and "dcOpen dc b (dStore (rDaemon r)) = (Inl e, s)" and "isError e" and "length (error_msg e) < 2 ^ 32"
  defines "d \<equiv> (rDaemon r)\<lparr>dPhase := Exited, clientVersion := PROTOCOL_VERSION, dStore := s\<rparr>"
  shows "greet_daemon dc b (r\<lparr>initialised := True\<rparr>) = (Inl (EndOfFile ''unexpected end-of-file''),
    r\<lparr>initialised := True, daemonVersion := PROTOCOL_VERSION, rDaemon := d\<rparr>)"
proof -
  note c = freshD [OF assms(1)]
  have "open_store dc b ((rDaemon r)\<lparr>dPhase := Version, clientVersion := PROTOCOL_VERSION, canSendStderr := True\<rparr>) =
      d\<lparr>dTo := wire_int STDERR_ERROR @ wire_string (error_msg e)\<rparr>"
    using assms(2,3) c by (simp add: open_store_def stopWork_def Let_def d_def)
  with flush_version [OF assms(1), of dc b] c
  have "r_flush dc (r\<lparr>initialised := True, rDaemon := (rDaemon r)\<lparr>dPhase := Version\<rparr>, rFrom := [], daemonVersion := PROTOCOL_VERSION,
       rTo := wire_int PROTOCOL_VERSION @ wire_int (flag b)\<rparr>) = (Inr (), r\<lparr>initialised := True, daemonVersion := PROTOCOL_VERSION,
      rFrom := wire_int STDERR_ERROR @ wire_string (error_msg e), rDaemon := d\<rparr>)" by (simp add: d_def)
  from processStderr_run [OF this stderr_loop_frames [of "[]" _ STDERR_ERROR _ _ "wire_string (error_msg e)"]] c greet_daemon_fresh [OF assms(1), of dc b]
    assms(4)
  show ?thesis by (simp add: logs_def sunk_def r_read_def bindS_def readInt_def pipe_read_def Source_call.simps)
qed

text \<open>
  C39: Opening a connection.  When the daemon can open its store, the client ends up connected to it, the
  daemon has all settings of the client, and the overridden ones only under names that start with
  \<open>untrusted-\<close>.  When it cannot, the client throws, and still regards the connection as opened; but the
  message of the daemon, which it has received, is lost: the daemon sends no exit status after it, and
  the client, which expects one, runs into the end of the stream.
\<close>

theorem openConnection_outcome:
  assumes "fresh r" and "settings_ok (rSettings r)" and "dcOpen dc b (dStore (rDaemon r)) = (res, s)"
  shows "case res of
     Inr _ \<Rightarrow> openConnection dc b r = (Inr (), r\<lparr>initialised := True, daemonVersion := PROTOCOL_VERSION, rDaemon := (rDaemon r)\<lparr>dPhase := Serving,
         clientVersion := PROTOCOL_VERSION, dStore := s, dSettings := received (rSettings r) (dSettings (rDaemon r))\<rparr>\<rparr>) \<and>
       connected (snd (openConnection dc b r))
   | Inl e \<Rightarrow> isError e \<and> length (error_msg e) < 2 ^ 32 \<longrightarrow>
       fst (openConnection dc b r) = Inl (Error ''cannot start worker (unexpected end-of-file)'') \<and>
       initialised (snd (openConnection dc b r)) \<and> dPhase (rDaemon (snd (openConnection dc b r))) = Exited"
proof (cases res)
  case (Inr x)
  note ok = greet_daemon_opened [OF assms(1) assms(3) [unfolded Inr]]
  with setOptions_run [OF ok(2)] freshD [OF assms(1)] assms(2) Inr show ?thesis by (simp add: openConnection_def Let_def connected_def)
next
  case (Inl e)
  with greet_daemon_refused [OF assms(1) assms(3) [unfolded Inl]] freshD [OF assms(1)] show ?thesis
    by (cases "isError e \<and> length (error_msg e) < 2 ^ 32") (simp add: openConnection_def Let_def, auto)
qed

definition demo_fresh :: "GCWorld RemoteStore" where
  "demo_fresh = demo_client\<lparr>initialised := False, rDaemon := (rDaemon demo_client)\<lparr>dPhase := Greeting\<rparr>\<rparr>"

definition demo_broken_config :: "GCWorld daemon_config" where
  "demo_broken_config = demo_daemon_config\<lparr>dcOpen := (\<lambda>_ s. (Inl (SysError ''opening lock file''), s))\<rparr>"

theorem openConnection_outcome_witness:
  "connected (snd (openConnection demo_daemon_config True demo_fresh)) \<and>
   overrides (dSettings (rDaemon (snd (openConnection demo_daemon_config True demo_fresh)))) = [(''a'', ''1''), (''untrusted-a'', ''1'')] \<and>
   fst (openConnection demo_broken_config True demo_fresh) = Inl (Error ''cannot start worker (unexpected end-of-file)'')"
proof -
  have c: "fresh demo_fresh" "settings_ok (rSettings demo_fresh)"
    by (simp_all add: fresh_def settings_ok_def demo_fresh_def demo_client_def demo_settings_def)
  have o: "dcOpen demo_daemon_config True (dStore (rDaemon demo_fresh)) = (Inr (), dStore (rDaemon demo_fresh))"
    "dcOpen demo_broken_config True (dStore (rDaemon demo_fresh)) = (Inl (SysError ''opening lock file''), dStore (rDaemon demo_fresh))"
    by (simp_all add: demo_broken_config_def demo_daemon_config_def)
  have "overrides (received (rSettings demo_fresh) (dSettings (rDaemon demo_fresh))) = [(''a'', ''1''), (''untrusted-a'', ''1'')]"
    by code_simp
  moreover note ok = openConnection_outcome [OF c o(1), unfolded sum.case]
  ultimately show ?thesis using conjunct2 [OF ok] openConnection_outcome [OF c o(2)] by (intro conjI) (assumption, simp add: conjunct1 [OF ok], simp)
qed

end
