(* ===== verification/Spec2Isabelle.thy ===== *)
theory Spec2Isabelle
  imports GC References Primops_Safety Path_Locks Remote_Refinement
begin

text \<open>
  A verification of Nix, the package manager, as it stands in \<^verbatim>\<open>src/\<close>: the C++ libraries \<^verbatim>\<open>libutil\<close>, \<^verbatim>\<open>libstore\<close>
  and \<^verbatim>\<open>libexpr\<close> and the programs on top of them.

  \<^bold>\<open>The program.\<close>  Nix keeps packages in a store: directories named by a hash, immutable once they are
  valid.  A database records which paths are valid, what they refer to and what built them.
  Derivations describe builds; their hashes determine the paths of their outputs.  Trees of files
  are serialised as archives, which are hashed, scanned for references, copied and restored.  The
  garbage collector deletes what cannot be reached from roots.  Processes coordinate through lock
  files.

  \<^bold>\<open>The theories\<close>, each with the sources it models:

  \<^item> \<open>Nix_Prelude\<close>: results (\<open>res\<close>, a sum with the exceptions of the C++ code on the left), \<open>bindE\<close> and the
    loops \<open>foldE\<close>, \<open>mapE\<close>; characters, bytes and strings; the string operations of the standard library.
  \<^item> \<open>Containers\<close>: \<^verbatim>\<open>std::set\<close> and \<^verbatim>\<open>std::map\<close> as sorted lists, with the locales \<open>std_set\<close> and \<open>std_map\<close> for what
    the code relies on.
  \<^item> \<open>Serialise\<close> (\<^verbatim>\<open>libutil/serialise.cc\<close>): sinks and sources with their buffers, the wire format of numbers
    and strings.
  \<^item> \<open>Hashes\<close> (\<^verbatim>\<open>libutil/hash.cc\<close>): hash values, base 16 and base 32, hash sinks, compression.
  \<^item> \<open>Util_Strings\<close> (\<^verbatim>\<open>libutil/util.cc\<close>): canonical paths, tokens, numbers, parsing of quoted strings.
  \<^item> \<open>Archive\<close> (\<^verbatim>\<open>libutil/archive.cc\<close>): dumping a tree and parsing an archive into a sink; restoring files
    through a record of system calls.
  \<^item> \<open>Store_Paths\<close> (\<^verbatim>\<open>libstore/store-api.cc\<close>): names of store paths, their construction from hashes,
    registrations as text.
  \<^item> \<open>Derivations\<close> (\<^verbatim>\<open>libstore/derivations.cc\<close>): the text form, hashes modulo fixed outputs with the memo table.
  \<^item> \<open>References\<close> (\<^verbatim>\<open>libstore/references.cc\<close>): the streaming search for hashes in an archive.
  \<^item> \<open>Closure\<close> (\<^verbatim>\<open>libstore/misc.cc\<close>): closures, topological sorting, what a build would need.
  \<^item> \<open>Local_Store\<close> (\<^verbatim>\<open>libstore/local-store.cc\<close>, \<^verbatim>\<open>schema.sql\<close>): the tables of the database, the prepared statements
    with foreign keys and cascades, registration, queries, invalidation.
  \<^item> \<open>GC_Roots\<close> and \<open>GC\<close> (\<^verbatim>\<open>libstore/gc.cc\<close>): roots in files and processes, deletion of what is dead.
  \<^item> \<open>Path_Locks\<close> (\<^verbatim>\<open>libstore/pathlocks.cc\<close>): lock files as a system of concurrent processes.
  \<^item> \<open>Remote_Store\<close> and \<open>Remote_Refinement\<close> (\<^verbatim>\<open>libstore/remote-store.cc\<close>, \<^verbatim>\<open>worker-protocol.hh\<close>, \<^verbatim>\<open>nix-daemon/nix-daemon.cc\<close>):
    the store used through a daemon, both ends of the connection and the bytes between them.
  \<^item> \<open>Names\<close> (\<^verbatim>\<open>libexpr/names.cc\<close>): package names and the order of versions.
  \<^item> \<open>Nixexpr\<close> (\<^verbatim>\<open>libexpr/nixexpr.cc\<close>, \<^verbatim>\<open>symbol-table.hh\<close>): expressions, their printing, and the resolution of
    variables to positions in environments.
  \<^item> \<open>Eval\<close> (\<^verbatim>\<open>libexpr/eval.cc\<close>, \<^verbatim>\<open>eval-inline.hh\<close>): the lazy evaluator over a heap of values, environments and
    attribute vectors.
  \<^item> \<open>Eval_Heap\<close>: heap typing, the elementary changes that keep it, and scoping.
  \<^item> \<open>Eval_Safety\<close>: the locale \<open>safe_evaluator\<close>, what the mutually recursive functions of the evaluator promise each
    other, and that each function keeps the promise when the ones it calls do.
  \<^item> \<open>Primops\<close> and \<open>Primops_Safety\<close> (\<^verbatim>\<open>libexpr/primops.cc\<close>): the primitive operations, the base environment, and
    the interpretation of \<open>safe_evaluator\<close> on the evaluator with these operations.

  \<^bold>\<open>How code becomes definitions.\<close>  A C++ class is a record and a method a function on it; exceptions
  are values of the datatype \<open>error\<close>.  Calls into the file system are functions of a record that
  stands for the system, or the state of a model of it (the directory tree of \<open>GC_Roots\<close>, the lock
  files of \<open>Path_Locks\<close>).  Digest algorithms, SQLite's visiting order and the contents of other
  processes are parameters.  Machine integers are words where the code depends on their width: the
  bytes of hashes and of the wire format, row numbers, file modes.

  \<^bold>\<open>Termination.\<close>  Loops that run over data are recursive functions.  Where the code recurses through the
  store (closures, hashing of derivations, deletion, link chasing) the definition has a depth argument
  and returns \<open>Diverges\<close> at depth zero; the theorems about those operations show that a depth that
  exceeds the number of paths, or the depth of the graph of derivations, suffices, or they say of the
  result that it is independent of the depth.  The expression language has programs that do not
  terminate: \<open>evaluator_at\<close> ties the evaluator's functions together to a depth, and what is shown of it holds at
  every depth.

  \<^bold>\<open>What is shown.\<close>  Of the store: the database keeps its integrity in every reachable state, valid paths
  refer only to valid paths and without cycles, closures and topological orders are what they should
  be, and a garbage collection never removes what is reachable from a root it found.  Of the formats:
  archives, derivations, hashes, registrations and the wire format are read back as they were
  written, and scanning finds exactly the references that occur.  Of paths and hashes: the hash of a
  derivation depends on what it should and not on how fixed outputs are fetched.  Of locks: mutual
  exclusion and absence of circular waiting for every interleaving.  Of the daemon: a remote store
  answers what the store would, and what happens when a connection is opened.  Of the expression language: a
  variable denotes what the nested scopes say, and evaluation never leaves what C++ defines.  Where the code does something
  else than it means to, a theorem or lemma shows it.

  \<^bold>\<open>Not modelled.\<close>  The builder (\<^verbatim>\<open>build.cc\<close>) is mostly processes, pipes, mounts and users around the
  operations on derivations, locks and the store that are modelled.  Of the remote store,
  \<^verbatim>\<open>importPaths\<close>, and of the daemon, the socket, its signals and its processes are left out.  Of the
  evaluator, the search path, \<^verbatim>\<open>import\<close>, \<^verbatim>\<open>toXML\<close> and \<^verbatim>\<open>filterSource\<close> are left out.  The parser and lexer are generated code; \<^verbatim>\<open>md5.c\<close>,
  \<^verbatim>\<open>sha1.c\<close>, \<^verbatim>\<open>sha256.c\<close> and \<^verbatim>\<open>bsdiff\<close> are third-party code; \<^verbatim>\<open>immutable.cc\<close>, \<^verbatim>\<open>optimise-store.cc\<close> and the setuid
  helper are system calls.
\<close>

end
